(* ===== verification/VN_Prelude.thy ===== *)
theory VN_Prelude
  imports Main "HOL-Library.Word"
begin

unbundle bit_operations_syntax

text \<open>
  Shared vocabulary of the development: byte strings and C-style memory copies, time points
  of \<open>std::chrono\<close>, the collections of rewrite rules that the component theories fill, and the
  generic lemmas on lists and words that more than one component uses.
\<close>

named_theorems frame_simps \<open>fields an operation leaves unchanged\<close>

named_theorems inv_intros \<open>invariant preservation, one rule per operation\<close>

named_theorems len_simps \<open>lengths of fixed-size buffers and digests\<close>

type_synonym byte = "8 word"
type_synonym bytes = "byte list"
type_synonym uint32 = "32 word"
type_synonym uint64 = "64 word"

text \<open>
  A \<open>std::chrono\<close> time point is a signed 64-bit tick count. The components only compare time
  points and add durations far below the range, so ticks are integers and the two sentinels
  \<open>time_point::min()\<close> and \<open>time_point::max()\<close> are the ends of the 64-bit range. One tick is a
  nanosecond.
\<close>

type_synonym time_point = int

definition time_min :: time_point where
  "time_min = - (2 ^ 63)"

definition time_max :: time_point where
  "time_max = 2 ^ 63 - 1"

definition seconds :: "int \<Rightarrow> int" where
  "seconds n = n * 1000000000"

definition minutes :: "int \<Rightarrow> int" where
  "minutes n = seconds (n * 60)"

lemma time_min_le_max: "time_min < time_max"
  by (simp add: time_min_def time_max_def)

text \<open>String literals of the source as byte strings.\<close>

definition lit :: "string \<Rightarrow> bytes" where
  "lit s = map (\<lambda>c. of_nat (of_char c)) s"

text \<open>
  How a C++ function ends: it returns, an exception leaves it, \<open>std::terminate\<close> ends the process, or
  the standard gives its behaviour no meaning (a value-returning function that falls off its end,
  signed overflow).
\<close>

datatype 'a outcome = Ret 'a | Throw | Terminate | Undef

fun bind_outcome :: "'a outcome \<Rightarrow> ('a \<Rightarrow> 'b outcome) \<Rightarrow> 'b outcome" where
  "bind_outcome (Ret x) f = f x"
| "bind_outcome Throw f = Throw"
| "bind_outcome Terminate f = Terminate"
| "bind_outcome Undef f = Undef"

text \<open>
  Operations on a state return how they ended and the state at that point: an exception does not
  undo the writes made before it.
\<close>

fun and_then :: "'a outcome \<times> 's \<Rightarrow> ('a \<Rightarrow> 's \<Rightarrow> 'b outcome \<times> 's) \<Rightarrow> 'b outcome \<times> 's" where
  "and_then (Ret x, s) f = f x s"
| "and_then (Throw, s) f = (Throw, s)"
| "and_then (Terminate, s) f = (Terminate, s)"
| "and_then (Undef, s) f = (Undef, s)"

lemma and_then_Ret:
  "and_then m f = (Ret y, s') \<longleftrightarrow> (\<exists>x s. m = (Ret x, s) \<and> f x s = (Ret y, s'))"
  by (induction m f rule: and_then.induct) auto

lemma bind_outcome_Ret: "bind_outcome m f = Ret y \<longleftrightarrow> (\<exists>x. m = Ret x \<and> f x = Ret y)"
  by (cases m) auto

section \<open>Buffers\<close>

text \<open>\<open>memcpy(&buf[off], src, n)\<close> on a buffer that is long enough.\<close>

definition blit :: "'a list \<Rightarrow> nat \<Rightarrow> 'a list \<Rightarrow> 'a list" where
  "blit buf off src = take off buf @ src @ drop (off + length src) buf"

lemma length_blit [len_simps]:
  "off + length src \<le> length buf \<Longrightarrow> length (blit buf off src) = length buf"
  by (simp add: blit_def)

lemma take_blit_prefix:
  "off \<le> length buf \<Longrightarrow> take (off + length src) (blit buf off src) = take off buf @ src"
  by (simp add: blit_def)

lemma take_blit_at:
  "length xs = off \<Longrightarrow> take (off + length src) (blit (xs @ ys) off src) = xs @ src"
  by (auto simp: blit_def)

lemma blit_0: "blit buf 0 src = src @ drop (length src) buf"
  by (simp add: blit_def)

text \<open>Splitting a list into whole blocks of \<open>n\<close> elements; a shorter rest is dropped.\<close>

function chunks :: "nat \<Rightarrow> 'a list \<Rightarrow> 'a list list" where
  "chunks n xs = (if n = 0 \<or> length xs < n then [] else take n xs # chunks n (drop n xs))"
  by pat_completeness auto
termination
  by (relation "measure (\<lambda>(n, xs). length xs)") auto

declare chunks.simps [simp del]

lemma chunks_short: "length xs < n \<Longrightarrow> chunks n xs = []"
  by (simp add: chunks.simps)

lemma chunks_append_block:
  assumes "0 < n" and "length xs = n"
  shows "chunks n (xs @ ys) = xs # chunks n ys"
  using assms by (auto simp: chunks.simps [of n "xs @ ys"])

lemma chunks_single: "0 < n \<Longrightarrow> length b = n \<Longrightarrow> chunks n b = [b]"
  using chunks_append_block [of n b "[]"] by (simp add: chunks_short)

lemma chunks_append:
  assumes "0 < n" and "n dvd length xs"
  shows "chunks n (xs @ ys) = chunks n xs @ chunks n ys"
  using assms
proof (induction n xs rule: chunks.induct)
  case (1 n xs)
  show ?case
  proof (cases "length xs < n")
    case True
    with "1.prems" have "xs = []"
      by (metis dvd_imp_le gr0I length_0_conv not_le)
    then show ?thesis using "1.prems"(1) by (simp add: chunks_short)
  next
    case False
    with "1.prems" have dvd: "n dvd length (drop n xs)"
      by (simp add: dvd_diff_nat)
    have "chunks n (xs @ ys) = take n xs # chunks n (drop n xs @ ys)"
      using False "1.prems" by (subst chunks.simps) simp
    also have "\<dots> = take n xs # chunks n (drop n xs) @ chunks n ys"
      using "1.IH" False "1.prems" dvd by simp
    finally show ?thesis
      using False "1.prems" by (simp add: chunks.simps [of n xs])
  qed
qed

lemma length_chunks: "0 < n \<Longrightarrow> length (chunks n xs) = length xs div n"
proof (induction n xs rule: chunks.induct)
  case (1 n xs)
  then show ?case
    by (subst chunks.simps) (auto simp: le_div_geq not_less)
qed

lemma chunks_all_length: "ys \<in> set (chunks n xs) \<Longrightarrow> length ys = n"
proof (induction n xs rule: chunks.induct)
  case (1 n xs)
  then show ?case
    by (cases "n = 0 \<or> length xs < n") (auto simp: chunks.simps [of n xs])
qed

lemma chunks_eq_map:
  "0 < n \<Longrightarrow> chunks n xs = map (\<lambda>i. take n (drop (i * n) xs)) [0..<length xs div n]"
proof (induction n xs rule: chunks.induct)
  case (1 n xs)
  show ?case
  proof (cases "length xs < n")
    case True
    then show ?thesis by (simp add: chunks.simps [of n xs])
  next
    case False
    then have q: "length xs div n = Suc (length (drop n xs) div n)"
      using "1.prems" by (simp add: le_div_geq not_less)
    have "chunks n xs = take n xs # chunks n (drop n xs)"
      using False "1.prems" by (simp add: chunks.simps [of n xs])
    also have "chunks n (drop n xs) =
        map (\<lambda>i. take n (drop (i * n) (drop n xs))) [0..<length (drop n xs) div n]"
      using "1.IH" False "1.prems" by simp
    also have "take n xs # \<dots> = map (\<lambda>i. take n (drop (i * n) xs)) (0 # map Suc [0..<length (drop n xs) div n])"
      by (simp add: add.commute)
    also have "0 # map Suc [0..<length (drop n xs) div n] = [0..<length xs div n]"
      using q by (metis map_Suc_upt upt_conv_Cons zero_less_Suc)
    finally show ?thesis .
  qed
qed

section \<open>Bits of natural numbers\<close>

lemma nat_bit_bound: "n < 2 ^ m \<Longrightarrow> m \<le> k \<Longrightarrow> \<not> bit (n::nat) k"
  by (metis bit_take_bit_iff not_le take_bit_nat_eq_self)

lemma pow_dvd_iff_bits: "(2::nat) ^ k dvd n \<longleftrightarrow> (\<forall>j<k. \<not> bit n j)"
proof -
  have "2 ^ k dvd n \<longleftrightarrow> take_bit k n = 0" by (simp add: take_bit_eq_0_iff)
  then show ?thesis by (auto simp: bit_eq_iff bit_take_bit_iff)
qed

section \<open>Three-way comparison and ordered insertion\<close>

text \<open>
  \<open>std::find_if\<close> followed by \<open>insert\<close> at the position found: the new element goes before the first
  one that satisfies the predicate, or to the end.
\<close>

fun insert_before :: "('a \<Rightarrow> bool) \<Rightarrow> 'a \<Rightarrow> 'a list \<Rightarrow> 'a list" where
  "insert_before p x [] = [x]"
| "insert_before p x (y # ys) = (if p y then x # y # ys else y # insert_before p x ys)"

lemma set_insert_before [simp]: "set (insert_before p x ys) = insert x (set ys)"
  by (induction ys) auto

lemma length_insert_before [simp]: "length (insert_before p x ys) = Suc (length ys)"
  by (induction ys) auto

text \<open>
  The contract of a three-way comparison function: antisymmetric, transitive and zero only on equal
  arguments, on the arguments it is made for. What a client gets is that inserting before the first
  larger element keeps a sorted vector sorted.
\<close>

locale three_way =
  fixes cmp3 :: "'a \<Rightarrow> 'a \<Rightarrow> int"
    and wf :: "'a \<Rightarrow> bool"
  assumes cmp3_anti: "wf a \<Longrightarrow> wf b \<Longrightarrow> cmp3 b a = - cmp3 a b"
    and cmp3_trans: "wf a \<Longrightarrow> wf b \<Longrightarrow> wf c \<Longrightarrow> cmp3 a b \<le> 0 \<Longrightarrow> cmp3 b c \<le> 0 \<Longrightarrow> cmp3 a c \<le> 0"
    and cmp3_eq: "wf a \<Longrightarrow> wf b \<Longrightarrow> cmp3 a b = 0 \<Longrightarrow> a = b"
begin

lemma insert_before_sorted:
  assumes "\<forall>y\<in>set ys. wf (key y)" and "wf (key x)"
    and "sorted_wrt (\<lambda>a b. cmp3 (key a) (key b) \<le> 0) ys"
  shows "sorted_wrt (\<lambda>a b. cmp3 (key a) (key b) \<le> 0) (insert_before (\<lambda>y. cmp3 (key x) (key y) < 0) x ys)"
  using assms
proof (induction ys)
  case Nil
  then show ?case by simp
next
  case (Cons y ys)
  show ?case
  proof (cases "cmp3 (key x) (key y) < 0")
    case True
    then have "\<forall>z\<in>set ys. cmp3 (key x) (key z) \<le> 0"
      using Cons.prems by (auto intro: cmp3_trans [of "key x" "key y"])
    with True Cons.prems show ?thesis by auto
  next
    case False
    then have "cmp3 (key y) (key x) \<le> 0" using Cons.prems cmp3_anti [of "key x" "key y"] by auto
    with False Cons show ?thesis by auto
  qed
qed

end

section \<open>Event machines\<close>

text \<open>
  A component that reacts to events is a step relation; \<open>run\<close> is a finite sequence of its steps. What
  each step keeps, every run keeps: an invariant, and a preorder in which the state only grows.
\<close>

inductive run :: "('s \<Rightarrow> 'e \<Rightarrow> 's \<Rightarrow> bool) \<Rightarrow> 's \<Rightarrow> 'e list \<Rightarrow> 's \<Rightarrow> bool" for step where
  run_Nil: "run step s [] s"
| run_Cons: "step s e s1 \<Longrightarrow> run step s1 es s2 \<Longrightarrow> run step s (e # es) s2"

inductive_simps run_Nil_iff: "run step s [] s'"

inductive_simps run_Cons_iff: "run step s (e # es) s'"

lemma run_append: "run step s (es @ es') s' \<longleftrightarrow> (\<exists>s1. run step s es s1 \<and> run step s1 es' s')"
  by (induction es arbitrary: s) (auto simp: run_Nil_iff run_Cons_iff)

locale event_machine =
  fixes step :: "'s \<Rightarrow> 'e \<Rightarrow> 's \<Rightarrow> bool"
    and inv :: "'s \<Rightarrow> bool"
    and grows :: "'s \<Rightarrow> 's \<Rightarrow> bool"
  assumes step_inv: "step s e s' \<Longrightarrow> inv s \<Longrightarrow> inv s'"
    and step_grows: "step s e s' \<Longrightarrow> inv s \<Longrightarrow> grows s s'"
    and grows_refl: "grows s s"
    and grows_trans: "grows s s1 \<Longrightarrow> grows s1 s2 \<Longrightarrow> grows s s2"
begin

lemma run_keeps: "run step s es s' \<Longrightarrow> inv s \<Longrightarrow> inv s' \<and> grows s s'"
proof (induction rule: run.induct)
  case (run_Nil s)
  then show ?case by (simp add: grows_refl)
next
  case (run_Cons s e s1 es s2)
  then show ?case using step_inv step_grows grows_trans by blast
qed

end

end
