(* ===== verification/Sha256.thy ===== *)
theory Sha256
  imports VN_Prelude
begin

unbundle bit_operations_syntax

text \<open>
  SHA-256 as the repository has it (\<open>include/sha/sha256.h\<close> and \<open>sha256.cpp\<close>): the hashing context
  with its 128-byte block buffer, \<open>init\<close>, \<open>update\<close>, \<open>final\<close>, \<open>transform\<close> and the free function
  \<open>sha256\<close> that returns the digest as 64 hexadecimal characters. Every stored hash, block hash
  and store key of the application goes through it. The reference side is the text of FIPS 180:
  padding, the message schedule as a recursive function and the rounds over eight variables.
\<close>

section \<open>The implementation\<close>

definition SHA2_SHFR :: "uint32 \<Rightarrow> nat \<Rightarrow> uint32" where
  "SHA2_SHFR x n = drop_bit n x"

definition SHA2_ROTR :: "uint32 \<Rightarrow> nat \<Rightarrow> uint32" where
  "SHA2_ROTR x n = drop_bit n x OR push_bit (32 - n) x"

definition SHA2_CH :: "uint32 \<Rightarrow> uint32 \<Rightarrow> uint32 \<Rightarrow> uint32" where
  "SHA2_CH x y z = (x AND y) XOR (NOT x AND z)"

definition SHA2_MAJ :: "uint32 \<Rightarrow> uint32 \<Rightarrow> uint32 \<Rightarrow> uint32" where
  "SHA2_MAJ x y z = (x AND y) XOR (x AND z) XOR (y AND z)"

definition SHA256_F1 :: "uint32 \<Rightarrow> uint32" where
  "SHA256_F1 x = SHA2_ROTR x 2 XOR SHA2_ROTR x 13 XOR SHA2_ROTR x 22"

definition SHA256_F2 :: "uint32 \<Rightarrow> uint32" where
  "SHA256_F2 x = SHA2_ROTR x 6 XOR SHA2_ROTR x 11 XOR SHA2_ROTR x 25"

definition SHA256_F3 :: "uint32 \<Rightarrow> uint32" where
  "SHA256_F3 x = SHA2_ROTR x 7 XOR SHA2_ROTR x 18 XOR SHA2_SHFR x 3"

definition SHA256_F4 :: "uint32 \<Rightarrow> uint32" where
  "SHA256_F4 x = SHA2_ROTR x 17 XOR SHA2_ROTR x 19 XOR SHA2_SHFR x 10"

definition SHA2_UNPACK32 :: "uint32 \<Rightarrow> bytes" where
  "SHA2_UNPACK32 x = [ucast (drop_bit 24 x), ucast (drop_bit 16 x), ucast (drop_bit 8 x), ucast x]"

definition SHA2_PACK32 :: "bytes \<Rightarrow> uint32" where
  "SHA2_PACK32 str = ucast (str ! 3) OR push_bit 8 (ucast (str ! 2))
     OR push_bit 16 (ucast (str ! 1)) OR push_bit 24 (ucast (str ! 0))"

definition sha256_k :: "uint32 list" where
  "sha256_k =
     [0x428A2F98, 0x71374491, 0xB5C0FBCF, 0xE9B5DBA5,
      0x3956C25B, 0x59F111F1, 0x923F82A4, 0xAB1C5ED5,
      0xD807AA98, 0x12835B01, 0x243185BE, 0x550C7DC3,
      0x72BE5D74, 0x80DEB1FE, 0x9BDC06A7, 0xC19BF174,
      0xE49B69C1, 0xEFBE4786, 0x0FC19DC6, 0x240CA1CC,
      0x2DE92C6F, 0x4A7484AA, 0x5CB0A9DC, 0x76F988DA,
      0x983E5152, 0xA831C66D, 0xB00327C8, 0xBF597FC7,
      0xC6E00BF3, 0xD5A79147, 0x06CA6351, 0x14292967,
      0x27B70A85, 0x2E1B2138, 0x4D2C6DFC, 0x53380D13,
      0x650A7354, 0x766A0ABB, 0x81C2C92E, 0x92722C85,
      0xA2BFE8A1, 0xA81A664B, 0xC24B8B70, 0xC76C51A3,
      0xD192E819, 0xD6990624, 0xF40E3585, 0x106AA070,
      0x19A4C116, 0x1E376C08, 0x2748774C, 0x34B0BCB5,
      0x391C0CB3, 0x4ED8AA4A, 0x5B9CCA4F, 0x682E6FF3,
      0x748F82EE, 0x78A5636F, 0x84C87814, 0x8CC70208,
      0x90BEFFFA, 0xA4506CEB, 0xBEF9A3F7, 0xC67178F2]"

text \<open>The context object: \<open>m_block\<close> has two blocks of 64 bytes, \<open>m_h\<close> eight words.\<close>

record sha256_ctx =
  m_tot_len :: uint32
  m_len :: uint32
  m_block :: bytes
  m_h :: "uint32 list"

text \<open>The two loops that fill \<open>w[64]\<close>.\<close>

definition load_words :: "bytes \<Rightarrow> uint32 list" where
  "load_words sub_block = map (\<lambda>j. SHA2_PACK32 (take 4 (drop (4 * j) sub_block))) [0..<16]"

definition extend_word :: "uint32 list \<Rightarrow> nat \<Rightarrow> uint32 list" where
  "extend_word w j =
     w @ [SHA256_F4 (w ! (j - 2)) + w ! (j - 7) + SHA256_F3 (w ! (j - 15)) + w ! (j - 16)]"

definition message_words :: "bytes \<Rightarrow> uint32 list" where
  "message_words sub_block = foldl extend_word (load_words sub_block) [16..<64]"

text \<open>One pass of the 64-round loop over \<open>wv[8]\<close>, with \<open>kw\<close> the pair \<open>(sha256_k[j], w[j])\<close>.\<close>

definition sha_round :: "uint32 list \<Rightarrow> uint32 \<times> uint32 \<Rightarrow> uint32 list" where
  "sha_round wv kw =
     (let t1 = wv ! 7 + SHA256_F2 (wv ! 4) + SHA2_CH (wv ! 4) (wv ! 5) (wv ! 6) + fst kw + snd kw;
          t2 = SHA256_F1 (wv ! 0) + SHA2_MAJ (wv ! 0) (wv ! 1) (wv ! 2)
      in [t1 + t2, wv ! 0, wv ! 1, wv ! 2, wv ! 3 + t1, wv ! 4, wv ! 5, wv ! 6])"

definition compress :: "uint32 list \<Rightarrow> bytes \<Rightarrow> uint32 list" where
  "compress h sub_block = map2 (+) h (foldl sha_round h (zip sha256_k (message_words sub_block)))"

definition transform :: "sha256_ctx \<Rightarrow> bytes \<Rightarrow> uint32 \<Rightarrow> sha256_ctx" where
  "transform s message block_nb =
     s\<lparr>m_h := foldl (\<lambda>h i. compress h (take 64 (drop (i * 64) message))) (m_h s)
                [0..<unat block_nb]\<rparr>"

definition sha_init :: "sha256_ctx \<Rightarrow> sha256_ctx" where
  "sha_init s = s\<lparr>m_h := [0x6A09E667, 0xBB67AE85, 0x3C6EF372, 0xA54FF53A,
                          0x510E527F, 0x9B05688C, 0x1F83D9AB, 0x5BE0CD19],
                   m_len := 0, m_tot_len := 0\<rparr>"

definition sha_update :: "sha256_ctx \<Rightarrow> bytes \<Rightarrow> uint32 \<Rightarrow> sha256_ctx" where
  "sha_update s message len =
     (let tmp_len = 64 - m_len s;
          rem_len = (if len < tmp_len then len else tmp_len);
          s1 = s\<lparr>m_block := blit (m_block s) (unat (m_len s)) (take (unat rem_len) message)\<rparr>
      in if m_len s + len < 64 then s1\<lparr>m_len := m_len s + len\<rparr>
         else
           let new_len = len - rem_len;
               block_nb = new_len div 64;
               shifted_message = drop (unat rem_len) message;
               s2 = transform s1 (m_block s1) 1;
               s3 = transform s2 shifted_message block_nb;
               rem_len2 = new_len mod 64
           in s3\<lparr>m_block := blit (m_block s3) 0
                     (take (unat rem_len2) (drop (unat (push_bit 6 block_nb)) shifted_message)),
                 m_len := rem_len2,
                 m_tot_len := m_tot_len s3 + push_bit 6 (block_nb + 1)\<rparr>)"

definition sha_final :: "sha256_ctx \<Rightarrow> sha256_ctx \<times> bytes" where
  "sha_final s =
     (let block_nb = 1 + (if 64 - 9 < m_len s mod 64 then 1 else 0 :: uint32);
          len_b = push_bit 3 (m_tot_len s + m_len s);
          pm_len = push_bit 6 block_nb;
          b1 = blit (m_block s) (unat (m_len s)) (replicate (unat (pm_len - m_len s)) 0);
          b2 = b1[unat (m_len s) := 0x80];
          b3 = blit b2 (unat (pm_len - 4)) (SHA2_UNPACK32 len_b);
          s1 = transform (s\<lparr>m_block := b3\<rparr>) b3 block_nb
      in (s1, concat (map SHA2_UNPACK32 (m_h s1))))"

text \<open>\<open>SHA256 ctx = SHA256()\<close> value-initialises the context: all bytes are zero.\<close>

definition sha_ctx0 :: sha256_ctx where
  "sha_ctx0 = \<lparr>m_tot_len = 0, m_len = 0, m_block = replicate 128 0, m_h = replicate 8 0\<rparr>"

definition sha_digest :: "bytes \<Rightarrow> bytes" where
  "sha_digest input =
     snd (sha_final (sha_update (sha_init sha_ctx0) input (of_nat (length input))))"

text \<open>\<open>sprintf(buf + i * 2, "%02x", digest[i])\<close>; a character is its byte.\<close>

definition hex_digit :: "byte \<Rightarrow> byte" where
  "hex_digit d = (if d < 10 then 48 + d else 87 + d)"

definition byte_hex :: "byte \<Rightarrow> bytes" where
  "byte_hex b = [hex_digit (drop_bit 4 b), hex_digit (b AND 15)]"

definition sha256 :: "bytes \<Rightarrow> bytes" where
  "sha256 input = concat (map byte_hex (sha_digest input))"

section \<open>The reference: FIPS 180\<close>

text \<open>The message schedule \<open>W\<close> as the standard's recursion, with the library's rotation.\<close>

fun fips_W :: "uint32 list \<Rightarrow> nat \<Rightarrow> uint32" where
  "fips_W M t =
     (if t < 16 then M ! t
      else (word_rotr 17 (fips_W M (t - 2)) XOR word_rotr 19 (fips_W M (t - 2)) XOR drop_bit 10 (fips_W M (t - 2)))
         + fips_W M (t - 7)
         + (word_rotr 7 (fips_W M (t - 15)) XOR word_rotr 18 (fips_W M (t - 15)) XOR drop_bit 3 (fips_W M (t - 15)))
         + fips_W M (t - 16))"

declare fips_W.simps [simp del]

text \<open>Four bytes read as a big-endian number, the eight working variables and a round.\<close>

definition be_word :: "bytes \<Rightarrow> uint32" where
  "be_word bs = of_nat (horner_sum unat 256 (rev bs))"

type_synonym sha_vars = "uint32 \<times> uint32 \<times> uint32 \<times> uint32 \<times> uint32 \<times> uint32 \<times> uint32 \<times> uint32"

fun fips_round :: "sha_vars \<Rightarrow> uint32 \<Rightarrow> uint32 \<Rightarrow> sha_vars" where
  "fips_round (a, b, c, d, e, f, g, h) k w =
     (let T1 = h + (word_rotr 6 e XOR word_rotr 11 e XOR word_rotr 25 e)
               + ((e AND f) XOR (NOT e AND g)) + k + w;
          T2 = (word_rotr 2 a XOR word_rotr 13 a XOR word_rotr 22 a)
               + ((a AND b) XOR (a AND c) XOR (b AND c))
      in (T1 + T2, a, b, c, d + T1, e, f, g))"

fun fips_rounds :: "uint32 list \<Rightarrow> nat \<Rightarrow> sha_vars \<Rightarrow> sha_vars" where
  "fips_rounds M 0 v = v"
| "fips_rounds M (Suc t) v = fips_round (fips_rounds M t v) (sha256_k ! t) (fips_W M t)"

fun add_vars :: "sha_vars \<Rightarrow> sha_vars \<Rightarrow> sha_vars" where
  "add_vars (a, b, c, d, e, f, g, h) (a', b', c', d', e', f', g', h') =
     (a + a', b + b', c + c', d + d', e + e', f + f', g + g', h + h')"

definition fips_block :: "sha_vars \<Rightarrow> bytes \<Rightarrow> sha_vars" where
  "fips_block H block = add_vars H (fips_rounds (map be_word (chunks 4 block)) 64 H)"

fun vars_list :: "sha_vars \<Rightarrow> uint32 list" where
  "vars_list (a, b, c, d, e, f, g, h) = [a, b, c, d, e, f, g, h]"

text \<open>Padding to a multiple of 64 bytes with the 64-bit message length, and the digest.\<close>

definition H0 :: sha_vars where
  "H0 = (0x6A09E667, 0xBB67AE85, 0x3C6EF372, 0xA54FF53A, 0x510E527F, 0x9B05688C, 0x1F83D9AB, 0x5BE0CD19)"

definition be64 :: "nat \<Rightarrow> bytes" where
  "be64 n = map (\<lambda>i. of_nat (n div 256 ^ i)) (rev [0..<8])"

definition fips_pad :: "bytes \<Rightarrow> bytes" where
  "fips_pad msg = msg @ [0x80] @ replicate ((119 - length msg mod 64) mod 64) 0 @ be64 (8 * length msg)"

definition fips_digest :: "bytes \<Rightarrow> bytes" where
  "fips_digest msg =
     concat (map (\<lambda>w. map (\<lambda>i. of_nat (unat w div 256 ^ i)) (rev [0..<4]))
       (vars_list (foldl fips_block H0 (chunks 64 (fips_pad msg)))))"

text \<open>The padded last one or two blocks that \<open>final\<close> writes into the buffer.\<close>

definition pad_tail :: "bytes \<Rightarrow> uint32 \<Rightarrow> bytes" where
  "pad_tail t len_b = t @ [0x80] @ replicate ((if 55 < length t then 128 else 64) - length t - 5) 0
     @ SHA2_UNPACK32 len_b"

text \<open>
  The constants: \<open>root_frac e p k\<close> holds when \<open>k\<close> is the first 32 bits of the fractional part of
  the \<open>e\<close>-th root of \<open>p\<close>.
\<close>

definition fips_primes :: "nat list" where
  "fips_primes =
     [2, 3, 5, 7, 11, 13, 17, 19, 23, 29, 31, 37, 41, 43, 47, 53, 59, 61, 67, 71, 73, 79, 83, 89,
      97, 101, 103, 107, 109, 113, 127, 131, 137, 139, 149, 151, 157, 163, 167, 173, 179, 181,
      191, 193, 197, 199, 211, 223, 227, 229, 233, 239, 241, 251, 257, 263, 269, 271, 277, 281,
      283, 293, 307, 311]"

definition root_frac :: "nat \<Rightarrow> nat \<Rightarrow> uint32 \<Rightarrow> bool" where
  "root_frac e p k \<longleftrightarrow>
     (\<exists>n. n ^ e \<le> p * 2 ^ (32 * e) \<and> p * 2 ^ (32 * e) < (n + 1) ^ e \<and> k = of_nat n)"

definition int_root3 :: "nat \<Rightarrow> nat" where
  "int_root3 p = (if p < 8 then 1 else if p < 27 then 2 else if p < 64 then 3 else if p < 125 then 4
     else if p < 216 then 5 else 6)"

text \<open>The context \<open>s\<close> has absorbed exactly the message \<open>msg\<close>.\<close>

definition absorbed :: "sha256_ctx \<Rightarrow> bytes \<Rightarrow> bool" where
  "absorbed s msg \<longleftrightarrow> length (m_block s) = 128
     \<and> unat (m_len s) = length msg mod 64
     \<and> m_tot_len s = of_nat (length msg - length msg mod 64)
     \<and> take (length msg mod 64) (m_block s) = drop (length msg - length msg mod 64) msg
     \<and> m_h s = vars_list (foldl fips_block H0 (chunks 64 msg))"

section \<open>One block\<close>

lemma SHA2_ROTR_rotr:
  assumes "0 < n" and "n < 32"
  shows "SHA2_ROTR x n = word_rotr n x"
proof (rule bit_word_eqI)
  fix i assume "i < LENGTH(32)"
  moreover from this assms have "(i + n) mod 32 = (if i + n < 32 then i + n else i + n - 32)"
    by (auto simp: mod_if)
  ultimately show "bit (SHA2_ROTR x n) i = bit (word_rotr n x) i"
    using assms bit_imp_le_length [of x "n + i"]
    by (auto simp: SHA2_ROTR_def bit_simps add.commute)
qed

lemma ucast_push: "push_bit n (ucast (b::byte)) = (of_nat (unat b * 2 ^ n) :: uint32)"
  by (simp add: push_bit_eq_mult)

lemma or_eq_add: "x AND y = (0::uint32) \<Longrightarrow> x OR y = x + y"
  by (simp add: disjunctive_add_eq_or)

lemma SHA2_PACK32_be:
  "SHA2_PACK32 [a, b, c, d] = be_word [a, b, c, d]"
proof -
  have bb: "bit x i \<Longrightarrow> i < 8" for x :: byte and i by (simp add: bit_imp_le_length [of x i, simplified])
  have "SHA2_PACK32 [a, b, c, d] = ucast d + push_bit 8 (ucast c) + push_bit 16 (ucast b) + push_bit 24 (ucast a)"
    unfolding SHA2_PACK32_def
    apply (simp add: numeral_3_eq_3 numeral_2_eq_2)
    apply (subst or_eq_add, rule bit_word_eqI, (force simp: bit_simps dest: bb))
    apply (subst or_eq_add, rule bit_word_eqI, (force simp: bit_simps dest: bb))
    apply (subst or_eq_add, rule bit_word_eqI, (force simp: bit_simps dest: bb))
    apply simp
    done
  then show ?thesis
    by (simp add: be_word_def ucast_push algebra_simps)
qed

lemma length_load_words [len_simps]: "length (load_words b) = 16"
  by (simp add: load_words_def)

lemma extend_words:
  assumes len: "length M16 = 16" and "16 \<le> n"
  shows "foldl extend_word M16 [16..<n] = M16 @ map (fips_W M16) [16..<n]"
  using assms(2)
proof (induction n rule: dec_induct)
  case base
  then show ?case by simp
next
  case (step n)
  let ?w = "M16 @ map (fips_W M16) [16..<n]"
  have w: "?w ! t = fips_W M16 t" if "t < n" for t
    using that len by (cases "t < 16") (simp_all add: nth_append fips_W.simps [of M16 t])
  have "extend_word ?w n = ?w @ [fips_W M16 n]"
    using step.hyps by (simp add: extend_word_def w SHA256_F4_def SHA256_F3_def SHA2_ROTR_rotr SHA2_SHFR_def fips_W.simps [of M16 n])
  then show ?case using step by simp
qed


lemma length_sha256_k [len_simps]: "length sha256_k = 64"
  by (simp add: sha256_k_def)

lemma list4: "length xs = 4 \<Longrightarrow> \<exists>a b c d. xs = [a, b, c, d]"
  by (auto simp: length_Suc_conv numeral_eq_Suc)

lemma load_words_be:
  assumes "length block = 64"
  shows "load_words block = map be_word (chunks 4 block)"
proof -
  have "SHA2_PACK32 (take 4 (drop (4 * j) block)) = be_word (take 4 (drop (4 * j) block))" if "j < 16" for j
  proof -
    have "length (take 4 (drop (4 * j) block)) = 4" using that assms by simp
    then show ?thesis using list4 SHA2_PACK32_be by metis
  qed
  then show ?thesis
    using assms by (simp add: load_words_def chunks_eq_map mult.commute)
qed

lemma message_words_eq:
  "message_words block = map (fips_W (load_words block)) [0..<64]"
proof -
  have "load_words block = map (fips_W (load_words block)) [0..<16]"
    by (rule nth_equalityI) (simp_all add: len_simps fips_W.simps)
  moreover have "[0..<64::nat] = [0..<16] @ [16..<64]"
    using upt_add_eq_append [of 0 16 48] by (simp del: upt_rec_numeral)
  moreover have "message_words block
      = load_words block @ map (fips_W (load_words block)) [16..<64]"
    using extend_words [OF length_load_words, of 64]
    by (simp del: upt_rec_numeral add: message_words_def)
  ultimately show ?thesis by (metis map_append)
qed

lemma sha_round_fips:
  "sha_round (vars_list v) (k, w) = vars_list (fips_round v k w)"
  by (cases v rule: vars_list.cases)
    (simp add: sha_round_def SHA256_F1_def SHA256_F2_def SHA2_ROTR_rotr SHA2_CH_def SHA2_MAJ_def Let_def)

lemma rounds_fips:
  assumes "t \<le> 64"
  shows "foldl sha_round (vars_list v) (map (\<lambda>j. (sha256_k ! j, fips_W M j)) [0..<t]) = vars_list (fips_rounds M t v)"
  using assms by (induction t) (simp_all add: sha_round_fips)

lemma map2_add_vars: "map2 (+) (vars_list v) (vars_list u) = vars_list (add_vars v u)"
  by (cases v rule: vars_list.cases, cases u rule: vars_list.cases) simp

lemma compress_fips:
  assumes "length block = 64"
  shows "compress (vars_list v) block = vars_list (fips_block v block)"
proof -
  have "zip sha256_k (message_words block)
      = map (\<lambda>j. (sha256_k ! j, fips_W (load_words block) j)) [0..<64]"
    by (rule nth_equalityI) (simp_all add: len_simps message_words_eq)
  then show ?thesis
    using rounds_fips [of 64 v "load_words block"] assms
    by (simp add: compress_def map2_add_vars fips_block_def load_words_be)
qed


lemma foldl_compress_fips:
  "\<forall>b\<in>set bs. length b = 64 \<Longrightarrow>
   foldl compress (vars_list v) bs = vars_list (foldl fips_block v bs)"
  by (induction bs arbitrary: v) (simp_all add: compress_fips)

lemma transform_m_h:
  assumes "length msg = 64 * unat n" and "m_h s = vars_list v"
  shows "m_h (transform s (msg @ rest) n) = vars_list (foldl fips_block v (chunks 64 msg))"
proof -
  have "foldl (\<lambda>h i. compress h (take 64 (drop (i * 64) (msg @ rest)))) (vars_list v) [0..<unat n]
      = foldl compress (vars_list v) (map (\<lambda>i. take 64 (drop (i * 64) (msg @ rest))) [0..<unat n])"
    by (simp add: foldl_map)
  also have "map (\<lambda>i. take 64 (drop (i * 64) (msg @ rest))) [0..<unat n] = chunks 64 msg"
    using assms(1) by (auto simp: chunks_eq_map)
  also have "foldl compress (vars_list v) (chunks 64 msg) = vars_list (foldl fips_block v (chunks 64 msg))"
    by (rule foldl_compress_fips) (auto dest: chunks_all_length)
  finally show ?thesis using assms(2) by (simp add: transform_def)
qed

lemma transform_frame [frame_simps]:
  "m_block (transform s msg n) = m_block s"
  "m_len (transform s msg n) = m_len s"
  "m_tot_len (transform s msg n) = m_tot_len s"
  by (simp_all add: transform_def)

lemma absorbed_init: "absorbed (sha_init sha_ctx0) []"
  by (simp add: absorbed_def sha_init_def sha_ctx0_def H0_def chunks_short)


section \<open>Absorbing input: \<open>update\<close>\<close>

lemma unat_word32: "n < 2 ^ 32 \<Longrightarrow> unat (of_nat n :: uint32) = n"
  by (simp add: unat_of_nat)

lemma push_bit_6: "unat (x::uint32) * 64 < 2 ^ 32 \<Longrightarrow> unat (push_bit 6 x) = unat x * 64"
  by (simp add: push_bit_eq_mult unat_word_ariths)

lemma chunks_64_tail:
  assumes "length msg mod 64 = length t" and "msg = p @ t" and "length t + length m < 64"
  shows "chunks 64 (msg @ m) = chunks 64 msg"
proof -
  have "64 dvd length p"
    using assms by (metis add_diff_cancel_right' length_append minus_mod_eq_mult_div dvd_triv_left)
  then show ?thesis
    using assms by (simp add: chunks_append chunks_short)
qed

lemma sha_update_small:
  assumes "absorbed s msg" and "length msg mod 64 + length m < 64"
  shows "absorbed (sha_update s m (of_nat (length m))) (msg @ m)"
proof -
  let ?r = "length msg mod 64" and ?n = "length m"
  let ?len = "of_nat (length m) :: uint32"
  have r: "unat (m_len s) = ?r" and n: "unat ?len = ?n"
    using assms by (simp_all add: absorbed_def unat_word32)
  have sum: "unat (m_len s + ?len) = ?r + ?n"
    using assms r n by (simp add: unat_word_ariths)
  have tmp: "unat (64 - m_len s) = 64 - ?r"
    using r by (simp add: unat_sub word_le_nat_alt)
  have lt: "m_len s + ?len < 64" and lt2: "?len < 64 - m_len s"
    using assms sum tmp n by (simp_all add: word_less_nat_alt)
  have tl: "length (drop (length msg - ?r) msg) = ?r" by simp
  have modn: "length (msg @ m) mod 64 = ?r + ?n"
    using assms(2) by (simp add: mod_add_left_eq [of "length msg", symmetric])
  have "chunks 64 (msg @ m) = chunks 64 msg"
    by (rule chunks_64_tail [of msg "drop (length msg - ?r) msg" "take (length msg - ?r) msg" m])
      (use assms in simp_all)
  then show ?thesis
    using assms lt lt2 sum r n modn take_blit_prefix [of ?r "m_block s" m] length_blit [of ?r m "m_block s"]
    by (simp add: sha_update_def absorbed_def Let_def)
qed



lemma update_words:
  fixes ml :: uint32
  assumes "unat ml = r" and "r < 64" and "64 \<le> r + n" and "n < 2 ^ 32 - 64"
    and new: "new = of_nat n - (64 - ml)"
  shows "unat (64 - ml) = 64 - r"
    and "\<not> ml + of_nat n < 64"
    and "\<not> of_nat n < 64 - ml"
    and "unat (new div 64) = (n - (64 - r)) div 64"
    and "unat (new mod 64) = (n - (64 - r)) mod 64"
    and "unat (push_bit 6 (new div 64)) = (n - (64 - r)) div 64 * 64"
    and "push_bit 6 (new div 64 + 1) = of_nat (((n - (64 - r)) div 64 + 1) * 64)"
proof -
  have un: "unat (of_nat n :: uint32) = n" using assms by (simp add: unat_word32)
  show tmp: "unat (64 - ml) = 64 - r"
    using assms by (simp add: unat_sub word_le_nat_alt)
  have "unat (ml + of_nat n) = r + n"
    using assms un by (simp add: unat_word_ariths)
  then show "\<not> ml + of_nat n < 64" and "\<not> of_nat n < 64 - ml"
    using assms tmp un by (simp_all add: word_less_nat_alt)
  have un_new: "unat new = n - (64 - r)"
    using un tmp assms by (simp add: unat_sub word_le_nat_alt)
  then show bn: "unat (new div 64) = (n - (64 - r)) div 64"
    and "unat (new mod 64) = (n - (64 - r)) mod 64"
    by (simp_all add: unat_div unat_mod)
  have "(n - (64 - r)) div 64 * 64 < 2 ^ 32" using assms by auto
  then show "unat (push_bit 6 (new div 64)) = (n - (64 - r)) div 64 * 64"
    using bn by (simp add: push_bit_6)
  have "new div 64 = of_nat ((n - (64 - r)) div 64)"
    using bn by (metis of_nat_unat ucast_id)
  then show "push_bit 6 (new div 64 + 1) = of_nat (((n - (64 - r)) div 64 + 1) * 64)"
    by (simp add: push_bit_eq_mult algebra_simps)
qed

lemma update_blocks:
  fixes msg m :: bytes
  defines "r \<equiv> length msg mod 64"
  defines "n \<equiv> length m"
  defines "q \<equiv> (n - (64 - r)) div 64"
  defines "t \<equiv> drop (length msg - r) msg"
  defines "b \<equiv> t @ take (64 - r) m"
  defines "mid \<equiv> take (q * 64) (drop (64 - r) m)"
  defines "rest \<equiv> drop (q * 64) (drop (64 - r) m)"
  assumes ge: "64 \<le> r + n"
  shows "chunks 64 (msg @ m) = chunks 64 msg @ [b] @ chunks 64 mid"
    and "length (msg @ m) mod 64 = length rest"
    and "length (msg @ m) - length rest = (length msg - r) + (q + 1) * 64"
    and "drop (length (msg @ m) - length rest) (msg @ m) = rest"
    and "length b = 64" and "length mid = q * 64" and "length rest = (n - (64 - r)) mod 64"
proof -
  define p where "p = take (length msg - r) msg"
  have r64: "r < 64" by (simp add: r_def)
  have msg: "msg = p @ t" and lent: "length t = r" and dvdp: "64 dvd length p"
    by (auto simp: p_def t_def r_def minus_mod_eq_mult_div [symmetric] dvd_minus_mod)
  show lenb: "length b = 64" using r64 ge lent by (simp add: b_def n_def)
  show lenmid: "length mid = q * 64"
    using ge by (simp add: mid_def n_def q_def)
  show lenrest: "length rest = (n - (64 - r)) mod 64"
    by (simp add: rest_def n_def q_def diff_diff_left [symmetric] add.commute minus_div_mult_eq_mod
        del: diff_diff_left)
  have "drop (64 - r) m = mid @ rest" by (simp only: mid_def rest_def append_take_drop_id)
  then have "m = take (64 - r) m @ mid @ rest" by (metis append_take_drop_id)
  then have whole: "msg @ m = (p @ b @ mid) @ rest"
    using msg by (simp add: b_def)
  have dvd: "64 dvd length (p @ b @ mid)" using dvdp lenb lenmid by simp
  then have "chunks 64 (msg @ m) = chunks 64 p @ [b] @ chunks 64 mid"
    using dvdp lenb lenmid lenrest
    by (simp add: whole chunks_append chunks_single chunks_short)
  moreover have "chunks 64 msg = chunks 64 p"
    using dvdp r64 lent by (simp add: msg chunks_append chunks_short)
  ultimately show "chunks 64 (msg @ m) = chunks 64 msg @ [b] @ chunks 64 mid" by simp
  have "length (msg @ m) mod 64 = (length (p @ b @ mid) + length rest) mod 64"
    by (simp only: whole length_append [of "p @ b @ mid" rest])
  also have "\<dots> = length rest mod 64"
    using dvd by (metis add.commute mod_add_self2 dvd_def mod_mult_self2)
  finally show "length (msg @ m) mod 64 = length rest" using lenrest by simp
  show "length (msg @ m) - length rest = (length msg - r) + (q + 1) * 64"
    using lenb lenmid msg lent whole by (metis (no_types) add.assoc add_diff_cancel_right' length_append mult_Suc Suc_eq_plus1)
  show "drop (length (msg @ m) - length rest) (msg @ m) = rest"
    by (simp add: whole)
qed


lemma sha_update_large:
  assumes ab: "absorbed s msg" and ge: "64 \<le> length msg mod 64 + length m"
    and bound: "length m < 2 ^ 32 - 64"
  shows "absorbed (sha_update s m (of_nat (length m))) (msg @ m)"
proof -
  define r where "r = length msg mod 64"
  define q where "q = (length m - (64 - r)) div 64"
  define b where "b = drop (length msg - r) msg @ take (64 - r) m"
  define mid where "mid = take (q * 64) (drop (64 - r) m)"
  define rest where "rest = drop (q * 64) (drop (64 - r) m)"
  define s1 where "s1 = s\<lparr>m_block := blit (m_block s) r (take (64 - r) m)\<rparr>"
  define s3 where "s3 = transform (transform s1 (m_block s1) 1) (drop (64 - r) m)
    ((of_nat (length m) - (64 - m_len s)) div 64)"
  have mlen: "unat (m_len s) = r" and r64: "r < 64" and blk: "length (m_block s) = 128"
    using ab by (simp_all add: absorbed_def r_def)
  note words = update_words [OF mlen r64 ge [folded r_def] bound refl, folded q_def]
  note blocks = update_blocks [OF ge, folded r_def, folded q_def, folded b_def mid_def rest_def]
  have len_m: "64 - r \<le> length m" using ge by (simp add: r_def)
  have len1: "length (m_block s1) = 128"
    using blk r64 len_m by (simp add: s1_def length_blit)
  have "take 64 (m_block s1) = b"
    using take_blit_prefix [of r "m_block s" "take (64 - r) m"] ab r64 len_m blk
    by (simp add: s1_def b_def absorbed_def r_def)
  then obtain tl1 where blk1: "m_block s1 = b @ tl1"
    by (metis append_take_drop_id)
  have "m_h s1 = vars_list (foldl fips_block H0 (chunks 64 msg))"
    using ab by (simp add: s1_def absorbed_def)
  then have "m_h (transform s1 (m_block s1) 1)
      = vars_list (foldl fips_block (foldl fips_block H0 (chunks 64 msg)) (chunks 64 b))"
    using transform_m_h [of b 1 s1 _ tl1] blocks(5) by (simp add: blk1)
  moreover have split: "drop (64 - r) m = mid @ rest"
    by (simp only: mid_def rest_def append_take_drop_id)
  ultimately have h3: "m_h s3 = vars_list (foldl fips_block H0 (chunks 64 (msg @ m)))"
    using transform_m_h [of mid "(of_nat (length m) - (64 - m_len s)) div 64"
        "transform s1 (m_block s1) 1" _ rest] words(4) blocks(1,5,6)
    by (simp add: s3_def chunks_single)
  have frame: "m_block s3 = m_block s1" "m_tot_len s3 = m_tot_len s"
    by (simp_all add: s3_def s1_def frame_simps)
  have upd: "sha_update s m (of_nat (length m)) =
      s3\<lparr>m_block := blit (m_block s3) 0 rest, m_len := (of_nat (length m) - (64 - m_len s)) mod 64,
         m_tot_len := m_tot_len s3 + of_nat ((q + 1) * 64)\<rparr>"
    using words blocks(7) mlen
    by (simp add: sha_update_def Let_def s3_def s1_def rest_def)
  have "length (blit (m_block s3) 0 rest) = 128" and "take (length rest) (blit (m_block s3) 0 rest) = rest"
    using len1 blocks(7) by (simp_all add: frame length_blit blit_0)
  moreover have "m_tot_len s = of_nat (length msg - r)"
    using ab by (simp add: absorbed_def r_def)
  ultimately show ?thesis
    using h3 words(5) blocks(2,3,4,7) by (simp add: upd absorbed_def frame)
qed

section \<open>Padding: \<open>final\<close>\<close>

lemma unpack32_bytes:
  "SHA2_UNPACK32 w = map (\<lambda>i. of_nat (unat w div 256 ^ i)) (rev [0..<4])"
proof -
  have byte: "(ucast (drop_bit n w) :: byte) = of_nat (unat w div 2 ^ n)" for n
    by (metis drop_bit_eq_div of_nat_unat unat_drop_bit_eq)
  have "rev [0..<4] = [3, 2, 1, 0::nat]" by code_simp
  then show ?thesis
    using byte [of 0] byte [of 8] byte [of 16] byte [of 24]
    by (simp add: SHA2_UNPACK32_def)
qed

lemma be64_small:
  assumes "n < 2 ^ 32"
  shows "be64 n = replicate 4 0 @ SHA2_UNPACK32 (of_nat n)"
proof -
  have u: "unat (of_nat n :: uint32) = n" using assms by (simp add: unat_word32)
  have "rev [0..<8] = [7, 6, 5, 4] @ rev [0..<4::nat]" by code_simp
  moreover have small: "n div 256 ^ i = 0" if "4 \<le> i" for i
  proof -
    have "(256::nat) ^ 4 \<le> 256 ^ i" using that by (intro power_increasing) simp_all
    then show ?thesis using assms by simp
  qed
  have rep4: "replicate 4 (0::byte) = [0, 0, 0, 0]" by code_simp
  have "map (\<lambda>i. of_nat (n div 256 ^ i) :: byte) [7, 6, 5, 4] = replicate 4 0"
    using small [of 4] small [of 5] small [of 6] small [of 7] by (simp add: rep4)
  ultimately show ?thesis by (simp add: be64_def unpack32_bytes u)
qed

lemma length_pad_tail: "length t < 64 \<Longrightarrow> length (pad_tail t l) = (if 55 < length t then 128 else 64)"
  by (simp add: pad_tail_def SHA2_UNPACK32_def)

lemma pad_zeros:
  assumes "(r::nat) < 64"
  shows "(119 - r) mod 64 + 4 = (if 55 < r then 128 else 64) - r - 5"
proof (cases "55 < r")
  case True
  then show ?thesis using assms by simp
next
  case False
  then have "(119 - r) mod 64 = (64 + (55 - r)) mod 64" by simp
  also have "\<dots> = 55 - r" using False by (simp only: mod_add_self1) simp
  finally show ?thesis using False by simp
qed

lemma fips_pad_tail:
  assumes "length msg < 2 ^ 29"
  shows "fips_pad msg = take (length msg - length msg mod 64) msg
           @ pad_tail (drop (length msg - length msg mod 64) msg) (of_nat (8 * length msg))"
proof -
  let ?r = "length msg mod 64"
  have z: "(119 - ?r) mod 64 + 4 = (if 55 < ?r then 128 else 64) - ?r - 5"
    by (rule pad_zeros) simp
  have "be64 (8 * length msg) = replicate 4 0 @ SHA2_UNPACK32 (of_nat (8 * length msg))"
    by (rule be64_small) (use assms in simp)
  then have "replicate ((119 - ?r) mod 64) 0 @ be64 (8 * length msg)
      = replicate ((119 - ?r) mod 64 + 4) 0 @ SHA2_UNPACK32 (of_nat (8 * length msg))"
    by (simp only: replicate_add append_assoc)
  then have pad: "replicate ((119 - ?r) mod 64) 0 @ be64 (8 * length msg)
      = replicate ((if 55 < ?r then 128 else 64) - ?r - 5) 0 @ SHA2_UNPACK32 (of_nat (8 * length msg))"
    by (simp only: z)
  have "length (drop (length msg - ?r) msg) = ?r" by simp
  then show ?thesis
    by (simp only: fips_pad_def pad_tail_def pad) (simp only: append_assoc [symmetric] append_take_drop_id)
qed

lemma final_buffer:
  assumes "length t < 64" and "length blk = 128" and "take (length t) blk = t"
    and "pm = (if 55 < length t then 128 else 64)"
  shows "take pm (blit ((blit blk (length t) (replicate (pm - length t) 0))[length t := 0x80])
           (pm - 4) (SHA2_UNPACK32 len_b)) = pad_tail t len_b"
proof -
  let ?xs = "t @ [0x80] @ replicate (pm - length t - 5) 0"
  have pm: "length t + 5 \<le> pm" "pm \<le> 128" using assms by auto
  then have "pm - length t = Suc ((pm - length t - 5) + 4)" by simp
  then have rep: "replicate (pm - length t) (0::byte) = 0 # replicate (pm - length t - 5) 0 @ replicate 4 0"
    by (metis replicate_Suc replicate_add)
  have "(blit blk (length t) (replicate (pm - length t) 0))[length t := 0x80]
      = ?xs @ replicate 4 0 @ drop pm blk"
    using assms(3) pm by (subst rep) (simp add: blit_def list_update_append)
  moreover have "length ?xs = pm - 4" and "length (SHA2_UNPACK32 len_b) = 4" and "pm - 4 + 4 = pm"
    using pm by (simp_all add: SHA2_UNPACK32_def)
  ultimately have "take pm (blit ((blit blk (length t) (replicate (pm - length t) 0))[length t := 0x80])
           (pm - 4) (SHA2_UNPACK32 len_b)) = ?xs @ SHA2_UNPACK32 len_b"
    using take_blit_at [of ?xs "pm - 4" "SHA2_UNPACK32 len_b" "replicate 4 0 @ drop pm blk"] by (simp only:)
  then show ?thesis using assms(4) by (simp add: pad_tail_def)
qed


lemma final_words:
  fixes ml :: uint32
  assumes "unat ml = r" and "r < 64" and pm: "pm = push_bit 6 (1 + (if 64 - 9 < ml mod 64 then 1 else 0 :: uint32))"
  shows "unat pm = (if 55 < r then 128 else 64)"
    and "unat (1 + (if 64 - 9 < ml mod 64 then 1 else 0 :: uint32)) * 64 = unat pm"
    and "unat (pm - ml) = unat pm - r"
    and "unat (pm - 4) = unat pm - 4"
proof -
  have "unat (ml mod 64) = r" using assms by (simp add: unat_mod)
  then have c: "(64 - 9 < ml mod 64) = (55 < r)" by (simp add: word_less_nat_alt)
  then show u: "unat pm = (if 55 < r then 128 else 64)"
    by (simp add: pm push_bit_eq_mult)
  show "unat (1 + (if 64 - 9 < ml mod 64 then 1 else 0 :: uint32)) * 64 = unat pm"
    using u c by simp
  show "unat (pm - ml) = unat pm - r" and "unat (pm - 4) = unat pm - 4"
    using u assms by (auto simp: unat_sub word_le_nat_alt)
qed

lemma sha_final_correct:
  assumes ab: "absorbed s msg" and bound: "length msg < 2 ^ 29"
  shows "snd (sha_final s) = fips_digest msg"
proof -
  define r where "r = length msg mod 64"
  define t where "t = drop (length msg - r) msg"
  define bn where "bn = (1 + (if 64 - 9 < m_len s mod 64 then 1 else 0) :: uint32)"
  define pm where "pm = push_bit 6 bn"
  define len_b where "len_b = push_bit 3 (m_tot_len s + m_len s)"
  define b3 where "b3 = blit ((blit (m_block s) r (replicate (unat pm - r) 0))[r := 0x80])
    (unat pm - 4) (SHA2_UNPACK32 len_b)"
  have mlen: "unat (m_len s) = r" and r64: "r < 64" and lent: "length t = r"
    using ab by (simp_all add: absorbed_def r_def t_def)
  note w = final_words [OF mlen r64 pm_def [unfolded bn_def], folded bn_def]
  have "m_len s = of_nat r" using mlen by (metis of_nat_unat ucast_id)
  then have "m_tot_len s + m_len s = of_nat (length msg)"
    using ab by (simp add: absorbed_def r_def of_nat_diff flip: of_nat_add)
  then have lb: "len_b = of_nat (8 * length msg)"
    by (simp add: len_b_def push_bit_eq_mult)
  have "take (unat pm) b3 = pad_tail t len_b"
    unfolding b3_def lent [symmetric]
    by (rule final_buffer) (use ab w(1) r64 lent in \<open>simp_all add: absorbed_def t_def r_def\<close>)
  then obtain tl where b3: "b3 = pad_tail t len_b @ tl"
    by (metis append_take_drop_id)
  have len_pad: "length (pad_tail t len_b) = 64 * unat bn"
    using length_pad_tail [of t len_b] lent r64 w(1,2) by simp
  have "chunks 64 (fips_pad msg) = chunks 64 msg @ chunks 64 (pad_tail t len_b)"
  proof -
    have dvd: "64 dvd length (take (length msg - r) msg)"
      by (simp add: r_def dvd_minus_mod)
    have "chunks 64 msg = chunks 64 (take (length msg - r) msg)"
      using chunks_append [OF _ dvd, of t] lent r64 by (simp add: t_def chunks_short)
    then show ?thesis
      using fips_pad_tail [OF bound, folded r_def t_def] lb chunks_append [OF _ dvd] by simp
  qed
  moreover have "m_h (transform (s\<lparr>m_block := b3\<rparr>) b3 bn)
      = vars_list (foldl fips_block (foldl fips_block H0 (chunks 64 msg)) (chunks 64 (pad_tail t len_b)))"
    unfolding b3 by (rule transform_m_h) (use len_pad ab in \<open>simp_all add: absorbed_def\<close>)
  moreover have "snd (sha_final s) = concat (map SHA2_UNPACK32 (m_h (transform (s\<lparr>m_block := b3\<rparr>) b3 bn)))"
    using mlen w(3,4) by (simp add: sha_final_def Let_def b3_def bn_def pm_def len_b_def)
  moreover have "SHA2_UNPACK32 = (\<lambda>w. map (\<lambda>i. of_nat (unat w div 256 ^ i)) (rev [0..<4]))"
    by (rule ext) (rule unpack32_bytes)
  ultimately show ?thesis by (simp add: fips_digest_def)
qed



section \<open>The streaming interface\<close>

text \<open>
  The contract of a hashing context: a start state, an operation that absorbs a piece of input and
  one that finishes. \<open>rel s xs\<close> says what a state has absorbed, \<open>ok\<close> bounds the input the context
  can count. The client's fact is that only the concatenation of the pieces matters.
\<close>

locale stream_hash =
  fixes start :: 's
    and absorb :: "'s \<Rightarrow> 'a list \<Rightarrow> 's"
    and finish :: "'s \<Rightarrow> 'b"
    and rel :: "'s \<Rightarrow> 'a list \<Rightarrow> bool"
    and spec :: "'a list \<Rightarrow> 'b"
    and ok :: "'a list \<Rightarrow> bool"
  assumes start_rel: "rel start []"
    and absorb_rel: "rel s xs \<Longrightarrow> ok (xs @ ys) \<Longrightarrow> rel (absorb s ys) (xs @ ys)"
    and finish_spec: "rel s xs \<Longrightarrow> ok xs \<Longrightarrow> finish s = spec xs"
    and ok_prefix: "ok (xs @ ys) \<Longrightarrow> ok xs"
begin

lemma absorb_parts:
  "rel s xs \<Longrightarrow> ok (xs @ concat parts) \<Longrightarrow> rel (foldl absorb s parts) (xs @ concat parts)"
proof (induction parts arbitrary: s xs)
  case Nil
  then show ?case by simp
next
  case (Cons p parts)
  then have "ok (xs @ p)" using ok_prefix [of "xs @ p" "concat parts"] by simp
  then have "rel (absorb s p) (xs @ p)" by (rule absorb_rel [OF Cons.prems(1)])
  then show ?case using Cons.IH [of "absorb s p" "xs @ p"] Cons.prems(2) by simp
qed

lemma finish_parts: "ok (concat parts) \<Longrightarrow> finish (foldl absorb start parts) = spec (concat parts)"
  using absorb_parts [OF start_rel, of parts] finish_spec by simp

end

lemma sha_update_absorbed:
  assumes "absorbed s msg" and "length (msg @ m) < 2 ^ 29"
  shows "absorbed (sha_update s m (of_nat (length m))) (msg @ m)"
  using assms sha_update_small [of s msg m] sha_update_large [of s msg m]
  by (cases "length msg mod 64 + length m < 64") simp_all

interpretation sha: stream_hash "sha_init sha_ctx0" "\<lambda>s m. sha_update s m (of_nat (length m))"
  "\<lambda>s. snd (sha_final s)" absorbed fips_digest "\<lambda>m. length m < 2 ^ 29"
  by unfold_locales (simp_all add: absorbed_init sha_update_absorbed sha_final_correct)

text \<open>
  C7: the context computes the FIPS 180 digest of everything it has absorbed, however the input is
  cut into calls of \<open>update\<close>, for inputs below \<open>2^29\<close> bytes.
\<close>

theorem sha256_streaming:
  assumes "length (concat parts) < 2 ^ 29"
  shows "snd (sha_final (foldl (\<lambda>s m. sha_update s m (of_nat (length m))) (sha_init sha_ctx0) parts))
           = fips_digest (concat parts)"
  using assms by (rule sha.finish_parts)

theorem sha256_streaming_witness:
  "length (concat [[97, 98], [], [99 :: byte]]) < 2 ^ 29 \<and>
   snd (sha_final (foldl (\<lambda>s m. sha_update s m (of_nat (length m))) (sha_init sha_ctx0) [[97, 98], [], [99]]))
     = fips_digest [97, 98, 99]"
  using sha256_streaming [of "[[97, 98], [], [99]]"] by simp

section \<open>The free function \<open>sha256\<close>\<close>

lemma length_compress [len_simps]: "length h = 8 \<Longrightarrow> length (compress h b) = 8"
proof -
  assume h: "length h = 8"
  have "length (foldl sha_round h kws) = 8" for kws
    using h by (induction kws arbitrary: h) (simp_all add: sha_round_def Let_def)
  then show ?thesis using h by (simp add: compress_def)
qed

lemma length_transform [len_simps]: "length (m_h s) = 8 \<Longrightarrow> length (m_h (transform s msg n)) = 8"
proof -
  assume h: "length (m_h s) = 8"
  have "length (foldl (\<lambda>h i. compress h (f i)) h is) = 8" if "length h = 8" for f h and "is" :: "nat list"
    using that by (induction "is" arbitrary: h) (simp_all add: length_compress)
  with h show ?thesis by (simp add: transform_def)
qed

lemma length_sha_update [len_simps]: "length (m_h s) = 8 \<Longrightarrow> length (m_h (sha_update s msg n)) = 8"
  by (simp add: sha_update_def Let_def length_transform)

lemma length_sha_digest [len_simps]: "length (sha_digest input) = 32"
proof -
  have "length (m_h (sha_init sha_ctx0)) = 8" by (simp add: sha_init_def)
  then have "length (m_h (sha_update (sha_init sha_ctx0) input n)) = 8" for n
    by (rule length_sha_update)
  then have "length (snd (sha_final (sha_update (sha_init sha_ctx0) input n))) = 32" for n
    by (simp add: sha_final_def Let_def length_concat o_def SHA2_UNPACK32_def sum_list_triv length_transform)
  then show ?thesis by (simp add: sha_digest_def)
qed

lemma length_sha256 [len_simps]: "length (sha256 input) = 64"
  by (simp add: sha256_def length_concat o_def byte_hex_def sum_list_triv length_sha_digest)

lemma sha_digest_fips: "length input < 2 ^ 29 \<Longrightarrow> sha_digest input = fips_digest input"
  using sha.finish_parts [of "[input]"] by (simp add: sha_digest_def)

text \<open>
  \<open>sha256\<close> returns the 64 hexadecimal characters of the FIPS 180 digest of its input, two per
  digest byte with the high half first.
\<close>

theorem sha256_hex:
  assumes "length input < 2 ^ 29"
  shows "sha256 input = concat (map byte_hex (fips_digest input)) \<and> length (sha256 input) = 64"
  using sha_digest_fips [OF assms] length_sha256 [of input] by (metis sha256_def)

section \<open>The constants\<close>

lemma root_fracI:
  fixes k :: uint32
  assumes "(unat k + 4294967296 * c) ^ e \<le> p * 2 ^ (32 * e)"
    and "p * 2 ^ (32 * e) < (unat k + 4294967296 * c + 1) ^ e"
  shows "root_frac e p k"
proof -
  have "(4294967296 :: uint32) = 0" by simp
  then have "k = of_nat (unat k + 4294967296 * c)" by (simp only: of_nat_add of_nat_mult of_nat_numeral) simp
  with assms show ?thesis unfolding root_frac_def by blast
qed

lemma root_frac3:
  "list_all2 (\<lambda>p k. (unat k + 4294967296 * int_root3 p) ^ 3 \<le> p * 2 ^ 96 \<and>
      p * 2 ^ 96 < (unat k + 4294967296 * int_root3 p + 1) ^ 3) fips_primes sha256_k"
  by (simp add: fips_primes_def sha256_k_def int_root3_def)

lemma root_frac2:
  "list_all2 (\<lambda>(p, c) k. (unat k + 4294967296 * c) ^ 2 \<le> p * 2 ^ 64 \<and>
      p * 2 ^ 64 < (unat k + 4294967296 * c + 1) ^ 2)
     [(2, 1), (3, 1), (5, 2), (7, 2), (11, 3), (13, 3), (17, 4), (19, 4)] (m_h (sha_init sha_ctx0))"
  by (simp add: sha_init_def)

text \<open>
  Every entry of the round-constant table is the first 32 bits of the fractional part of the
  cube root of the prime with the same index, and \<open>init\<close> loads those of the square roots of the
  first eight primes: no digit of either table is mistyped.
\<close>

lemma sha256_constants:
  "list_all2 (root_frac 3) fips_primes sha256_k \<and>
   list_all2 (root_frac 2) (take 8 fips_primes) (m_h (sha_init s))"
proof
  show "list_all2 (root_frac 3) fips_primes sha256_k"
    by (rule list_all2_mono [OF root_frac3]) (auto intro: root_fracI)
  have "list_all2 (\<lambda>(p, c :: nat). root_frac 2 p)
      [(2, 1), (3, 1), (5, 2), (7, 2), (11, 3), (13, 3), (17, 4), (19, 4)] (m_h (sha_init sha_ctx0))"
    by (rule list_all2_mono [OF root_frac2]) (auto intro: root_fracI)
  then show "list_all2 (root_frac 2) (take 8 fips_primes) (m_h (sha_init s))"
    by (simp add: fips_primes_def sha_init_def)
qed

end
