(* ===== verification/Info_Hash.thy ===== *)
theory Info_Hash
  imports VN_Prelude
begin

unbundle bit_operations_syntax

text \<open>
  The fixed-size identifiers of the DHT (\<open>opendht/infohash.h\<close>, \<open>template <size_t N> class Hash\<close>):
  comparison, the XOR metric, single-bit access and the hexadecimal notation. A \<open>Hash<N>\<close> is a byte
  list of length \<open>N\<close>; \<open>InfoHash\<close> is \<open>Hash<20>\<close>. Identifiers are related to numbers by \<open>hval\<close>
  (big-endian value) and to bit strings by \<open>getBit\<close>.
\<close>

type_synonym hash = bytes

definition HASH_LEN :: nat where
  "HASH_LEN = 20"

section \<open>Operations\<close>

definition hash_zero :: "nat \<Rightarrow> hash" where
  "hash_zero N = replicate N 0"

definition hash_of_buf :: "nat \<Rightarrow> bytes \<Rightarrow> nat \<Rightarrow> hash" where
  "hash_of_buf N h data_len = (if data_len < N then replicate N 0 else take N h)"

text \<open>\<open>operator==\<close> compares \<open>N / 4\<close> words of four bytes.\<close>

definition hash_eq :: "nat \<Rightarrow> hash \<Rightarrow> hash \<Rightarrow> bool" where
  "hash_eq N a b = (\<forall>i \<in> set [0..<N div 4]. take 4 (drop (4 * i) a) = take 4 (drop (4 * i) b))"

fun hash_less :: "hash \<Rightarrow> hash \<Rightarrow> bool" where
  "hash_less (a # as) (b # bs) = (if a \<noteq> b then a < b else hash_less as bs)"
| "hash_less _ _ = False"

text \<open>\<open>explicit operator bool\<close>: some word of the identifier is not zero.\<close>

definition hash_bool :: "hash \<Rightarrow> bool" where
  "hash_bool h = (\<exists>w \<in> set (chunks 4 h). w \<noteq> replicate 4 0)"

text \<open>\<open>lowbit\<close>: the last non-zero byte, then the last set bit in it.\<close>

fun lowbit_byte :: "hash \<Rightarrow> nat \<Rightarrow> int" where
  "lowbit_byte d 0 = -1"
| "lowbit_byte d (Suc i) = (if d ! i \<noteq> 0 then int i else lowbit_byte d i)"

fun lowbit_bit :: "byte \<Rightarrow> nat \<Rightarrow> int" where
  "lowbit_bit b 0 = -1"
| "lowbit_bit b (Suc j) = (if b AND drop_bit j 0x80 \<noteq> 0 then int j else lowbit_bit b j)"

definition lowbit :: "hash \<Rightarrow> int" where
  "lowbit h = (let i = lowbit_byte h (length h) in
     if i < 0 then -1 else 8 * i + lowbit_bit (h ! nat i) 8)"

text \<open>\<open>memcmp\<close> promises only the sign of its result; the sign is the model's value.\<close>

fun cmp :: "hash \<Rightarrow> hash \<Rightarrow> int" where
  "cmp (a # as) (b # bs) = (if a < b then -1 else if b < a then 1 else cmp as bs)"
| "cmp _ _ = 0"

fun common_bytes :: "hash \<Rightarrow> hash \<Rightarrow> nat" where
  "common_bytes (a # as) (b # bs) = (if a \<noteq> b then 0 else Suc (common_bytes as bs))"
| "common_bytes _ _ = 0"

text \<open>
  \<open>while ((x & 0x80) == 0) { x <<= 1; j++; }\<close>, which does not end for \<open>x = 0\<close>; the first argument
  is fuel and \<open>None\<close> means that it ran out.
\<close>

fun leading_zeros :: "nat \<Rightarrow> byte \<Rightarrow> nat \<Rightarrow> nat option" where
  "leading_zeros 0 x j = None"
| "leading_zeros (Suc n) x j =
     (if x AND 0x80 = 0 then leading_zeros n (push_bit 1 x) (j + 1) else Some j)"

definition commonBits :: "hash \<Rightarrow> hash \<Rightarrow> nat option" where
  "commonBits id1 id2 = (let i = common_bytes id1 id2 in
     if i = length id1 then Some (8 * length id1)
     else map_option (\<lambda>j. 8 * i + j) (leading_zeros 8 (id1 ! i XOR id2 ! i) 0))"

fun xorCmp :: "hash \<Rightarrow> hash \<Rightarrow> hash \<Rightarrow> int" where
  "xorCmp (d # ds) (a # as) (b # bs) =
     (if a = b then xorCmp ds as bs else if a XOR d < b XOR d then -1 else 1)"
| "xorCmp _ _ _ = 0"

definition getBit :: "hash \<Rightarrow> nat \<Rightarrow> bool" where
  "getBit h nbit = (let num = h ! (nbit div 8); b = 7 - nbit mod 8 in drop_bit b num AND 1 \<noteq> 0)"

text \<open>\<open>num ^= (-b ^ num) & (1 << bit)\<close>, where \<open>-b\<close> is all ones or zero.\<close>

definition setBit :: "hash \<Rightarrow> nat \<Rightarrow> bool \<Rightarrow> hash" where
  "setBit h nbit b = (let num = h ! (nbit div 8); bt = 7 - nbit mod 8 in
     h[nbit div 8 := num XOR (((if b then - 1 else 0) XOR num) AND push_bit bt 1)])"

text \<open>The hexadecimal notation; a character is its byte. \<open>None\<close> is the \<open>std::domain_error\<close>.\<close>

definition hex2bin :: "byte \<Rightarrow> byte option" where
  "hex2bin c = (if 97 \<le> c \<and> c \<le> 102 then Some (10 + c - 97)
     else if 65 \<le> c \<and> c \<le> 70 then Some (10 + c - 65)
     else if 48 \<le> c \<and> c \<le> 57 then Some (c - 48) else None)"

fun hex_bytes :: "nat \<Rightarrow> bytes \<Rightarrow> bytes option" where
  "hex_bytes 0 cs = Some []"
| "hex_bytes (Suc n) (c1 # c2 # cs) =
     (case (hex2bin c1, hex2bin c2) of
        (Some x, Some y) \<Rightarrow> map_option (Cons (push_bit 4 x OR y)) (hex_bytes n cs)
      | _ \<Rightarrow> None)"
| "hex_bytes (Suc n) _ = None"

definition fromString :: "nat \<Rightarrow> bytes \<Rightarrow> hash" where
  "fromString N s = (case hex_bytes N s of Some h \<Rightarrow> h | None \<Rightarrow> replicate N 0)"

definition hash_of_string :: "nat \<Rightarrow> bytes \<Rightarrow> hash" where
  "hash_of_string N hex = (if length hex < 2 * N then replicate N 0 else fromString N hex)"

definition hex_map :: "bytes list" where
  "hex_map = map (\<lambda>i. let d = [48, 49, 50, 51, 52, 53, 54, 55, 56, 57, 97, 98, 99, 100, 101, 102]
       in [d ! (i div 16 mod 16), d ! (i mod 16)]) [0..<256]"

definition toString :: "hash \<Rightarrow> bytes" where
  "toString h = concat (map (\<lambda>b. hex_map ! unat b) h)"

text \<open>\<open>msgpack_pack\<close> writes a \<open>bin\<close> object; \<open>msgpack_unpack\<close> accepts only one of size \<open>N\<close>.\<close>

datatype msg_obj = Bin bytes | Str bytes | Other

definition hash_pack :: "hash \<Rightarrow> msg_obj" where
  "hash_pack h = Bin h"

definition hash_unpack :: "nat \<Rightarrow> msg_obj \<Rightarrow> hash option" where
  "hash_unpack N obj = (case obj of Bin b \<Rightarrow> if length b \<noteq> N then None else Some (take N b) | _ \<Rightarrow> None)"

text \<open>The big-endian value of an identifier and the bytewise exclusive or.\<close>

fun hval :: "bytes \<Rightarrow> nat" where
  "hval [] = 0"
| "hval (b # bs) = unat b * 256 ^ length bs + hval bs"

definition hash_xor :: "hash \<Rightarrow> hash \<Rightarrow> hash" where
  "hash_xor a b = map2 (XOR) a b"

section \<open>Order and the XOR metric\<close>

lemma hval_bound: "hval h < 256 ^ length h"
proof (induction h)
  case Nil
  then show ?case by simp
next
  case (Cons b bs)
  have "unat b < 256" using unsigned_less [of b] by simp
  then have "unat b * 256 ^ length bs + 256 ^ length bs \<le> 256 * 256 ^ length bs"
    by (metis Suc_leI add.commute mult_Suc mult_le_mono1)
  with Cons show ?case unfolding hval.simps length_Cons power_Suc by linarith
qed

lemma hval_Cons_less:
  assumes "length as = length bs" and "(a::byte) < b"
  shows "hval (a # as) < hval (b # bs)"
proof -
  have "unat a + 1 \<le> unat b" using assms(2) by (simp add: word_less_nat_alt)
  then have "unat a * 256 ^ length bs + 256 ^ length bs \<le> unat b * 256 ^ length bs"
    by (metis add_mult_distrib mult_1 mult_le_mono1)
  with hval_bound [of as] assms(1) show ?thesis by simp
qed

lemma hval_inject: "length a = length b \<Longrightarrow> hval a = hval b \<longleftrightarrow> a = b"
proof (induction a b rule: list_induct2)
  case Nil
  then show ?case by simp
next
  case (Cons x xs y ys)
  show ?case
  proof (cases x y rule: linorder_cases)
    case less
    then show ?thesis using hval_Cons_less [OF Cons.hyps less] by auto
  next
    case equal
    then show ?thesis using Cons by simp
  next
    case greater
    then show ?thesis using hval_Cons_less [OF Cons.hyps [symmetric] greater] by auto
  qed
qed

lemma cmp_hval:
  "length a = length b \<Longrightarrow> cmp a b = sgn (int (hval a) - int (hval b))"
proof (induction a b rule: list_induct2)
  case Nil
  then show ?case by simp
next
  case (Cons x xs y ys)
  show ?case
  proof (cases x y rule: linorder_cases)
    case less
    then show ?thesis using hval_Cons_less [OF Cons.hyps less] by (simp del: hval.simps)
  next
    case equal
    then show ?thesis using Cons by simp
  next
    case greater
    then show ?thesis using hval_Cons_less [OF Cons.hyps [symmetric] greater] by (simp del: hval.simps)
  qed
qed

lemma hash_less_cmp: "length a = length b \<Longrightarrow> hash_less a b \<longleftrightarrow> cmp a b < 0"
  by (induction a b rule: list_induct2) auto

lemma byte_xor_inj: "(a::byte) XOR d = b XOR d \<longleftrightarrow> a = b"
  by (metis xor.assoc xor.right_neutral xor_self_eq)

lemma xorCmp_cmp:
  "length d = length a \<Longrightarrow> length a = length b \<Longrightarrow> xorCmp d a b = cmp (hash_xor a d) (hash_xor b d)"
proof (induction d a b rule: list_induct3)
  case Nil
  then show ?case by (simp add: hash_xor_def)
next
  case (Cons x xs y ys z zs)
  then show ?case using byte_xor_inj [of y x z] by (auto simp: hash_xor_def not_less_iff_gr_or_eq)
qed

lemma length_hash_xor [len_simps]: "length (hash_xor a b) = min (length a) (length b)"
  by (simp add: hash_xor_def)

lemma xorCmp_hval:
  assumes "length d = length a" and "length a = length b"
  shows "xorCmp d a b = sgn (int (hval (hash_xor a d)) - int (hval (hash_xor b d)))"
  using assms by (simp add: xorCmp_cmp cmp_hval length_hash_xor)

lemma xorCmp_eq_0:
  assumes "length d = length a" and "length a = length b"
  shows "xorCmp d a b = 0 \<longleftrightarrow> a = b"
  using assms
proof (induction d a b rule: list_induct3)
  case Nil
  then show ?case by simp
next
  case (Cons x xs y ys z zs)
  then show ?case by auto
qed

section \<open>Bits and the value\<close>

lemma getBit_bit: "getBit h n \<longleftrightarrow> bit (h ! (n div 8)) (7 - n mod 8)"
  by (simp add: getBit_def Let_def and_one_eq odd_iff_mod_2_eq_one [symmetric] bit_iff_odd_drop_bit)

lemma bit_hval_Cons:
  "bit (hval (b # bs)) k \<longleftrightarrow> (if k < 8 * length bs then bit (hval bs) k else bit b (k - 8 * length bs))"
proof -
  have pow: "(256::nat) ^ length bs = 2 ^ (8 * length bs)" by (simp add: power_mult)
  have lt: "hval bs < 2 ^ (8 * length bs)" using hval_bound [of bs] pow by simp
  have "push_bit (8 * length bs) (unat b) AND hval bs = 0"
    using nat_bit_bound [OF lt] by (auto simp: bit_eq_iff bit_simps)
  then have "hval (b # bs) = push_bit (8 * length bs) (unat b) OR hval bs"
    by (simp add: disjunctive_add_eq_or [symmetric] push_bit_eq_mult pow)
  then show ?thesis
    using nat_bit_bound [OF lt, of k] by (auto simp: bit_simps)
qed

lemma getBit_Cons_shift: "getBit (b # bs) (8 + n) = getBit bs n"
proof -
  have "(8 + n) div 8 = Suc (n div 8)" and "(8 + n) mod 8 = n mod 8" by simp_all
  then show ?thesis by (simp only: getBit_bit nth_Cons_Suc)
qed

lemma bit_hval:
  "k < 8 * length h \<Longrightarrow> bit (hval h) k \<longleftrightarrow> getBit h (8 * length h - 1 - k)"
proof (induction h)
  case Nil
  then show ?case by simp
next
  case (Cons b bs)
  show ?case
  proof (cases "k < 8 * length bs")
    case True
    then have "8 * length (b # bs) - 1 - k = 8 + (8 * length bs - 1 - k)" by simp
    then show ?thesis
      using True Cons.IH by (simp only: bit_hval_Cons getBit_Cons_shift if_True)
  next
    case False
    with Cons.prems have "8 * length (b # bs) - 1 - k < 8"
      and "7 - (8 * length (b # bs) - 1 - k) = k - 8 * length bs" by auto
    with False show ?thesis by (simp add: bit_hval_Cons getBit_bit del: hval.simps)
  qed
qed

lemma getBit_hval:
  "n < 8 * length h \<Longrightarrow> getBit h n \<longleftrightarrow> bit (hval h) (8 * length h - 1 - n)"
  using bit_hval [of "8 * length h - 1 - n" h] by simp

lemma hash_eqI:
  assumes "length a = length b" and "\<And>n. n < 8 * length a \<Longrightarrow> getBit a n = getBit b n"
  shows "a = b"
proof -
  have "hval a = hval b"
  proof (rule bit_eqI)
    fix k
    show "bit (hval a) k = bit (hval b) k"
    proof (cases "k < 8 * length a")
      case True
      then show ?thesis using assms bit_hval [of k a] bit_hval [of k b] by simp
    next
      case False
      have "(256::nat) ^ length a = 2 ^ (8 * length a)" by (simp add: power_mult)
      then show ?thesis using False hval_bound [of a] hval_bound [of b] nat_bit_bound assms(1)
        by (metis not_less)
    qed
  qed
  then show ?thesis using hval_inject [OF assms(1)] by simp
qed

lemma length_setBit [len_simps]: "length (setBit h n b) = length h"
  by (simp add: setBit_def Let_def)

lemma getBit_setBit:
  assumes "n < 8 * length h" and "m < 8 * length h"
  shows "getBit (setBit h n b) m = (if m = n then b else getBit h m)"
proof (cases "m div 8 = n div 8")
  case True
  have eq: "7 - m mod 8 = 7 - n mod 8 \<longleftrightarrow> m = n"
  proof
    have "m mod 8 < 8" and "n mod 8 < 8" by simp_all
    then show "m = n" if "7 - m mod 8 = 7 - n mod 8"
      using that True div_mult_mod_eq [of m 8] div_mult_mod_eq [of n 8] by arith
  qed simp
  have "n div 8 < length h" using assms(1) by auto
  then show ?thesis
    using True eq by (auto simp: getBit_bit setBit_def Let_def bit_simps)
next
  case False
  then show ?thesis by (auto simp: getBit_bit setBit_def Let_def)
qed


section \<open>Common prefixes and the lowest bit\<close>

lemma and_0x80: "(x::byte) AND 0x80 = 0 \<longleftrightarrow> \<not> bit x 7"
proof -
  have "(0x80::byte) = 2 ^ 7" by simp
  then show ?thesis by (simp only: and_exp_eq_0_iff_not_bit)
qed

lemma leading_zeros_find:
  "k + n \<le> 8 \<Longrightarrow> leading_zeros n (push_bit k x) k = List.find (\<lambda>j. bit x (7 - j)) [k..<k + n]"
proof (induction n arbitrary: k)
  case 0
  then show ?case by simp
next
  case (Suc n)
  have "[k..<k + Suc n] = k # [Suc k..<Suc k + n]" by (simp add: upt_conv_Cons)
  moreover have "push_bit 1 (push_bit k x) = push_bit (Suc k) x" by simp
  ultimately show ?case
    using Suc.IH [of "Suc k"] Suc.prems by (simp add: and_0x80 bit_simps del: upt_Suc push_bit_of_1)
qed

lemma leading_zeros_byte:
  assumes "(x::byte) \<noteq> 0"
  shows "\<exists>j<8. leading_zeros 8 x 0 = Some j \<and> bit x (7 - j) \<and> (\<forall>i<j. \<not> bit x (7 - i))"
proof -
  obtain b where b: "bit x b" using assms by (auto simp: bit_eq_iff)
  then have "b < 8" using bit_imp_le_length [of x b] by simp
  have find: "leading_zeros 8 x 0 = List.find (\<lambda>j. bit x (7 - j)) [0..<8]"
    using leading_zeros_find [of 0 8 x] by simp
  show ?thesis
  proof (cases "List.find (\<lambda>j. bit x (7 - j)) [0..<8]")
    case None
    then have "\<not> bit x (7 - (7 - b))" by (auto simp: find_None_iff)
    then show ?thesis using b \<open>b < 8\<close> by simp
  next
    case (Some j)
    then obtain i where "i < 8" "bit x (7 - i)" "j = i" "\<forall>k<i. \<not> bit x (7 - k)"
      by (auto simp: find_Some_iff)
    then show ?thesis using find Some by auto
  qed
qed

lemma common_bytes_spec:
  "length a = length b \<Longrightarrow> common_bytes a b \<le> length a
     \<and> (\<forall>i<common_bytes a b. a ! i = b ! i)
     \<and> (common_bytes a b < length a \<longrightarrow> a ! common_bytes a b \<noteq> b ! common_bytes a b)"
  by (induction a b rule: list_induct2) (auto simp: less_Suc_eq_0_disj nth_Cons')

lemma commonBits_prefix:
  assumes "length a = length b"
  shows "\<exists>n. commonBits a b = Some n \<and> n \<le> 8 * length a \<and> (\<forall>i<n. getBit a i = getBit b i)
     \<and> (n < 8 * length a \<longrightarrow> getBit a n \<noteq> getBit b n)"
proof -
  define c where "c = common_bytes a b"
  have le: "c \<le> length a" and pre: "\<And>i. i < c \<Longrightarrow> a ! i = b ! i"
    and diff: "c < length a \<Longrightarrow> a ! c \<noteq> b ! c"
    using common_bytes_spec [OF assms] by (auto simp: c_def)
  have eq: "getBit a i = getBit b i" if "i < 8 * c" for i
  proof -
    have "i div 8 < c" using that by auto
    then show ?thesis by (simp add: getBit_bit pre)
  qed
  show ?thesis
  proof (cases "c = length a")
    case True
    then show ?thesis using eq by (simp add: commonBits_def c_def Let_def)
  next
    case False
    then have "a ! c XOR b ! c \<noteq> 0" using diff le byte_xor_inj [of "a ! c" "b ! c" "b ! c"] by simp
    then obtain j where j: "j < 8" "leading_zeros 8 (a ! c XOR b ! c) 0 = Some j"
      "bit (a ! c XOR b ! c) (7 - j)" "\<forall>i<j. \<not> bit (a ! c XOR b ! c) (7 - i)"
      using leading_zeros_byte by blast
    have at: "getBit h (8 * c + i) = bit (h ! c) (7 - i)" if "i < 8" for h i
      using that by (simp add: getBit_bit)
    have "getBit a i = getBit b i" if "i < 8 * c + j" for i
    proof (cases "i < 8 * c")
      case True
      then show ?thesis by (rule eq)
    next
      case False
      define i' where "i' = i - 8 * c"
      have "i = 8 * c + i'" "i' < j" using False that by (simp_all add: i'_def)
      then show ?thesis using at [of i'] j by (simp add: bit_simps)
    qed
    moreover have "getBit a (8 * c + j) \<noteq> getBit b (8 * c + j)"
      using at j by (simp add: bit_simps)
    moreover have "commonBits a b = Some (8 * c + j)"
      using False j by (simp add: commonBits_def c_def Let_def)
    moreover have "8 * c + j \<le> 8 * length a" using le False j by simp
    ultimately show ?thesis by blast
  qed
qed


lemma lowbit_byte_spec:
  assumes "n \<le> length h"
  shows "(lowbit_byte h n = -1 \<and> (\<forall>i<n. h ! i = 0))
     \<or> (\<exists>i<n. lowbit_byte h n = int i \<and> h ! i \<noteq> 0 \<and> (\<forall>k. i < k \<and> k < n \<longrightarrow> h ! k = 0))"
  using assms by (induction n) (auto simp: less_Suc_eq)

lemma bit_0x80: "bit (0x80::byte) k \<longleftrightarrow> k = 7"
proof (cases "k < 8")
  case True
  moreover have "\<forall>k\<in>set [0..<8]. bit (0x80::byte) k = (k = 7)" by code_simp
  ultimately show ?thesis by simp
next
  case False
  then show ?thesis using bit_imp_le_length [of "0x80::byte" k] by auto
qed

lemma drop_0x80: "j \<le> 7 \<Longrightarrow> drop_bit j (0x80::byte) = 2 ^ (7 - j)"
proof -
  assume "j \<le> 7"
  show ?thesis
  proof (rule bit_word_eqI)
    fix n assume "n < LENGTH(8)"
    then show "bit (drop_bit j (0x80::byte)) n = bit (2 ^ (7 - j) :: byte) n"
      using bit_0x80 [of "j + n"] \<open>j \<le> 7\<close> by (auto simp: bit_drop_bit_eq bit_exp_iff)
  qed
qed

lemma lowbit_bit_spec:
  assumes "n \<le> 8"
  shows "(lowbit_bit b n = -1 \<and> (\<forall>j<n. \<not> bit b (7 - j)))
     \<or> (\<exists>j<n. lowbit_bit b n = int j \<and> bit b (7 - j) \<and> (\<forall>k. j < k \<and> k < n \<longrightarrow> \<not> bit b (7 - k)))"
  using assms
proof (induction n)
  case 0
  then show ?case by simp
next
  case (Suc n)
  then have "b AND drop_bit n 0x80 \<noteq> 0 \<longleftrightarrow> bit b (7 - n)"
    using drop_0x80 [of n] by (simp add: and_exp_eq_0_iff_not_bit)
  with Suc show ?case by (auto simp: less_Suc_eq)
qed

lemma byte_nonzero_bit: "(b::byte) \<noteq> 0 \<Longrightarrow> \<exists>j<8. bit b (7 - j)"
  using leading_zeros_byte [of b] by blast

lemma lowbit_spec:
  "(lowbit h = -1 \<and> (\<forall>n<8 * length h. \<not> getBit h n))
   \<or> (\<exists>i<8 * length h. lowbit h = int i \<and> getBit h i \<and> (\<forall>k. i < k \<and> k < 8 * length h \<longrightarrow> \<not> getBit h k))"
proof (cases "lowbit_byte h (length h) = -1")
  case True
  then have z: "\<And>i. i < length h \<Longrightarrow> h ! i = 0" using lowbit_byte_spec [of "length h" h] by auto
  have "\<not> getBit h n" if "n < 8 * length h" for n
  proof -
    have "n div 8 < length h" using that by auto
    then show ?thesis by (simp add: getBit_bit z)
  qed
  then show ?thesis using True by (simp add: lowbit_def Let_def)
next
  case False
  then obtain i where i: "i < length h" "lowbit_byte h (length h) = int i" "h ! i \<noteq> 0"
    and after: "\<And>k. i < k \<Longrightarrow> k < length h \<Longrightarrow> h ! k = 0"
    using lowbit_byte_spec [of "length h" h] by auto
  obtain j where j: "j < 8" "lowbit_bit (h ! i) 8 = int j" "bit (h ! i) (7 - j)"
    and jafter: "\<And>k. j < k \<Longrightarrow> k < 8 \<Longrightarrow> \<not> bit (h ! i) (7 - k)"
    using lowbit_bit_spec [of 8 "h ! i"] byte_nonzero_bit [OF i(3)] by auto
  have "\<not> getBit h k" if "8 * i + j < k" "k < 8 * length h" for k
  proof (cases "k div 8 = i")
    case True
    then have "j < k mod 8" using that div_mult_mod_eq [of k 8] by linarith
    then show ?thesis using True jafter by (simp add: getBit_bit)
  next
    case False
    then have "i < k div 8" "k div 8 < length h" using that by auto
    then show ?thesis using after by (simp add: getBit_bit)
  qed
  moreover have "getBit h (8 * i + j)" using j by (simp add: getBit_bit)
  moreover have "lowbit h = int (8 * i + j)" using i j by (simp add: lowbit_def Let_def)
  moreover have "8 * i + j < 8 * length h" using i j by simp
  ultimately show ?thesis by blast
qed

section \<open>Notation and equality\<close>

lemma length_hex_map: "length hex_map = 256"
  by (simp add: hex_map_def)

lemma hex_digit_back:
  assumes "i < 16"
  shows "hex2bin ([48, 49, 50, 51, 52, 53, 54, 55, 56, 57, 97, 98, 99, 100, 101, 102] ! i) = Some (of_nat i)"
proof -
  have "\<forall>i\<in>set [0..<16]. hex2bin ([48, 49, 50, 51, 52, 53, 54, 55, 56, 57, 97, 98, 99, 100, 101, 102] ! i)
      = Some (of_nat i)"
    by code_simp
  with assms show ?thesis by simp
qed

lemma byte_halves: "push_bit 4 (of_nat (unat b div 16 mod 16)) OR of_nat (unat b mod 16) = (b::byte)"
proof -
  have "unat b < 256" using unsigned_less [of b] by simp
  have "of_nat (unat b div 16 mod 16) = drop_bit 4 b"
    using \<open>unat b < 256\<close> by (simp add: drop_bit_eq_div word_arith_nat_div)
  moreover have "of_nat (unat b mod 16) = take_bit 4 b"
    by (simp add: take_bit_eq_mod word_arith_nat_mod)
  ultimately show ?thesis
    by (simp only:) (rule bit_word_eqI, auto simp: bit_simps)
qed

lemma hex_map_back:
  assumes "hex_map ! unat b = cs"
  shows "\<exists>c1 c2 x y. cs = [c1, c2] \<and> hex2bin c1 = Some x \<and> hex2bin c2 = Some y \<and> push_bit 4 x OR y = (b::byte)"
proof -
  have "unat b < 256" using unsigned_less [of b] by simp
  then have "cs = [[48, 49, 50, 51, 52, 53, 54, 55, 56, 57, 97, 98, 99, 100, 101, 102] ! (unat b div 16 mod 16),
       [48, 49, 50, 51, 52, 53, 54, 55, 56, 57, 97, 98, 99, 100, 101, 102] ! (unat b mod 16)]"
    using assms by (simp add: hex_map_def Let_def)
  then show ?thesis
    using hex_digit_back [of "unat b div 16 mod 16"] hex_digit_back [of "unat b mod 16"] byte_halves [of b]
    by simp
qed

lemma hex_bytes_toString: "hex_bytes (length h) (toString h @ rest) = Some h"
proof (induction h)
  case Nil
  then show ?case by (simp add: toString_def)
next
  case (Cons b h)
  obtain c1 c2 x y where "hex_map ! unat b = [c1, c2]" "hex2bin c1 = Some x" "hex2bin c2 = Some y"
    "push_bit 4 x OR y = b"
    using hex_map_back [OF refl, of b] by blast
  then show ?case using Cons by (simp add: toString_def)
qed

lemma length_toString [len_simps]: "length (toString h) = 2 * length h"
proof (induction h)
  case Nil
  then show ?case by (simp add: toString_def)
next
  case (Cons b h)
  then show ?case using hex_map_back [OF refl, of b] by (auto simp: toString_def)
qed

lemma hash_string_roundtrip: "hash_of_string (length h) (toString h @ rest) = h"
  by (simp add: hash_of_string_def fromString_def hex_bytes_toString length_toString)

lemma hash_unpack_pack: "hash_unpack (length h) (hash_pack h) = Some h"
  by (simp add: hash_pack_def hash_unpack_def)

lemma hash_eq_iff:
  assumes "length a = N" and "length b = N" and "4 dvd N"
  shows "hash_eq N a b \<longleftrightarrow> a = b"
proof
  assume eq: "hash_eq N a b"
  show "a = b"
  proof (rule nth_equalityI)
    show "length a = length b" using assms by simp
    fix i assume "i < length a"
    then have "i div 4 < N div 4" using assms by (auto elim!: dvdE simp: less_mult_imp_div_less mult.commute)
    then have "take 4 (drop (4 * (i div 4)) a) = take 4 (drop (4 * (i div 4)) b)"
      using eq by (simp add: hash_eq_def)
    then have "take 4 (drop (4 * (i div 4)) a) ! (i mod 4) = take 4 (drop (4 * (i div 4)) b) ! (i mod 4)" by simp
    moreover have "4 * (i div 4) + i mod 4 = i" and "4 * (i div 4) \<le> length a" and "4 * (i div 4) \<le> length b"
      using \<open>i < length a\<close> assms by simp_all
    ultimately show "a ! i = b ! i" by simp
  qed
qed (simp add: hash_eq_def)


section \<open>The lowest bit and divisibility\<close>

lemma lowbit_None_iff: "lowbit h = -1 \<longleftrightarrow> hval h = 0"
proof -
  have "lowbit h = -1 \<longleftrightarrow> (\<forall>n<8 * length h. \<not> getBit h n)"
    using lowbit_spec [of h] by auto
  also have "\<dots> \<longleftrightarrow> (\<forall>k<8 * length h. \<not> bit (hval h) k)"
  proof (intro iffI allI impI)
    fix k assume "\<forall>n<8 * length h. \<not> getBit h n" "k < 8 * length h"
    then show "\<not> bit (hval h) k" by (simp add: bit_hval)
  next
    fix n assume "\<forall>k<8 * length h. \<not> bit (hval h) k" "n < 8 * length h"
    then show "\<not> getBit h n" by (simp add: getBit_hval)
  qed
  also have "\<dots> \<longleftrightarrow> 2 ^ (8 * length h) dvd hval h" by (simp add: pow_dvd_iff_bits)
  also have "\<dots> \<longleftrightarrow> hval h = 0"
    using hval_bound [of h] by (auto simp: power_mult dest: dvd_imp_le)
  finally show ?thesis .
qed

lemma lowbit_dvd:
  assumes "lowbit h = int i"
  shows "i < 8 * length h" and "2 ^ (8 * length h - 1 - i) dvd hval h"
    and "\<not> 2 ^ (8 * length h - i) dvd hval h"
proof -
  have i: "i < 8 * length h" "getBit h i" and after: "\<And>k. i < k \<Longrightarrow> k < 8 * length h \<Longrightarrow> \<not> getBit h k"
    using lowbit_spec [of h] assms by auto
  show "i < 8 * length h" by (rule i)
  show "2 ^ (8 * length h - 1 - i) dvd hval h"
    unfolding pow_dvd_iff_bits using after by (auto simp: bit_hval)
  show "\<not> 2 ^ (8 * length h - i) dvd hval h"
    unfolding pow_dvd_iff_bits using i by (auto simp: getBit_hval intro!: exI [of _ "8 * length h - 1 - i"])
qed

lemma lowbit_eqI:
  assumes "k < 8 * length h" and "2 ^ k dvd hval h" and "\<not> 2 ^ Suc k dvd hval h"
  shows "lowbit h = int (8 * length h - 1 - k)"
proof -
  have "hval h \<noteq> 0" using assms(3) by (metis dvd_0_right)
  then obtain i where i: "lowbit h = int i" using lowbit_None_iff [of h] lowbit_spec [of h] by auto
  note d = lowbit_dvd [OF i]
  have "8 * length h - 1 - i = k"
  proof (rule antisym)
    have "\<not> k < 8 * length h - 1 - i"
      using assms(3) d(2) by (meson Suc_leI dvd_trans le_imp_power_dvd)
    then show "8 * length h - 1 - i \<le> k" by simp
    have "\<not> 8 * length h - i \<le> k"
      using assms(2) d(3) by (meson dvd_trans le_imp_power_dvd)
    then show "k \<le> 8 * length h - 1 - i" using d(1) by simp
  qed
  then show ?thesis using i d(1) by auto
qed

lemma hval_setBit:
  assumes "n < 8 * length h" and "\<not> getBit h n"
  shows "hval (setBit h n True) = hval h + 2 ^ (8 * length h - 1 - n)"
proof -
  let ?k = "8 * length h - 1 - n"
  have off: "\<not> bit (hval h) ?k" using assms by (simp add: getBit_hval)
  have "hval (setBit h n True) = hval h OR 2 ^ ?k"
  proof (rule bit_eqI)
    fix j
    show "bit (hval (setBit h n True)) j = bit (hval h OR 2 ^ ?k) j"
    proof (cases "j < 8 * length h")
      case True
      then show ?thesis
        using assms(1) by (auto simp: bit_hval length_setBit getBit_setBit bit_simps)
    next
      case False
      have "hval h < 2 ^ (8 * length h)" "hval (setBit h n True) < 2 ^ (8 * length h)"
        using hval_bound [of h] hval_bound [of "setBit h n True"] by (simp_all add: power_mult length_setBit)
      then show ?thesis
        using False assms(1) nat_bit_bound by (auto simp: bit_simps not_less)
    qed
  qed
  also have "\<dots> = hval h + 2 ^ ?k"
  proof (rule disjunctive_add_eq_or [symmetric])
    show "hval h AND 2 ^ ?k = 0" using off by (simp add: and_exp_eq_0_iff_not_bit)
  qed
  finally show ?thesis .
qed

section \<open>The comparison functions meet their contract\<close>

interpretation xor: three_way "xorCmp d" "\<lambda>a. length a = length d" for d
proof
  fix a b c :: hash
  assume ab: "length a = length d" "length b = length d"
  show "xorCmp d b a = - xorCmp d a b"
    using ab by (simp add: xorCmp_hval sgn_minus [symmetric])
  show "xorCmp d a b = 0 \<Longrightarrow> a = b" using ab by (simp add: xorCmp_eq_0)
  assume "length c = length d" and "xorCmp d a b \<le> 0" and "xorCmp d b c \<le> 0"
  then show "xorCmp d a c \<le> 0" using ab by (auto simp: xorCmp_hval sgn_if split: if_splits)
qed

interpretation lex: three_way cmp "\<lambda>a. length a = n" for n
proof
  fix a b c :: hash
  assume ab: "length a = n" "length b = n"
  show "cmp b a = - cmp a b" using ab by (simp add: cmp_hval sgn_minus [symmetric])
  show "cmp a b = 0 \<Longrightarrow> a = b" using ab by (simp add: cmp_hval hval_inject sgn_0_0)
  assume "length c = n" and "cmp a b \<le> 0" and "cmp b c \<le> 0"
  then show "cmp a c \<le> 0" using ab by (auto simp: cmp_hval sgn_if split: if_splits)
qed

section \<open>Properties\<close>

text \<open>
  C16: \<open>xorCmp\<close> decides which of two identifiers is closer in the XOR metric: its sign is the sign of
  the difference of the two XOR distances to the reference identifier, read as big-endian numbers.
\<close>

theorem hash_xor_metric:
  assumes "length d = length a" and "length a = length b"
  shows "xorCmp d a b = sgn (int (hval (hash_xor a d)) - int (hval (hash_xor b d)))"
  using assms by (rule xorCmp_hval)

theorem hash_xor_metric_witness:
  "xorCmp [1, 2] [1, 7] [3, 2] = sgn (int (hval (hash_xor [1, 7] [1, 2])) - int (hval (hash_xor [3, 2] [1, 2])))"
  by (rule hash_xor_metric) simp_all

end
