(* ===== verification/Msgpack.thy ===== *)
theory Msgpack
  imports VN_Prelude
begin

unbundle bit_operations_syntax

text \<open>
  The msgpack encodings of strings, binary data, map and array headers and 32-bit numbers
  (\<open>msgpack/v1/pack.hpp\<close>). The application hashes encoded strings into the keys of its stores; the
  network engine builds its messages from them.
\<close>

definition store16 :: "nat \<Rightarrow> bytes" where
  "store16 l = [of_nat (l div 256), of_nat l]"

definition store32 :: "nat \<Rightarrow> bytes" where
  "store32 l = [of_nat (l div 16777216), of_nat (l div 65536), of_nat (l div 256), of_nat l]"

definition pack_str_header :: "nat \<Rightarrow> bytes" where
  "pack_str_header l =
     (if l < 32 then [0xA0 OR of_nat l]
      else if l < 256 then [0xD9, of_nat l]
      else if l < 65536 then 0xDA # store16 l
      else 0xDB # store32 l)"

definition pack_bin_header :: "nat \<Rightarrow> bytes" where
  "pack_bin_header l =
     (if l < 256 then [0xC4, of_nat l]
      else if l < 65536 then 0xC5 # store16 l
      else 0xC6 # store32 l)"

definition pack_map_header :: "nat \<Rightarrow> bytes" where
  "pack_map_header n =
     (if n < 16 then [0x80 OR of_nat n]
      else if n < 65536 then 0xDE # store16 n
      else 0xDF # store32 n)"

definition pack_array_header :: "nat \<Rightarrow> bytes" where
  "pack_array_header n =
     (if n < 16 then [0x90 OR of_nat n]
      else if n < 65536 then 0xDC # store16 n
      else 0xDD # store32 n)"

definition pack_uint32 :: "uint32 \<Rightarrow> bytes" where
  "pack_uint32 d =
     (if d < 256 then if d < 128 then [ucast d] else [0xCC, ucast d]
      else if d < 65536 then 0xCD # store16 (unat d)
      else 0xCE # store32 (unat d))"

definition store64 :: "nat \<Rightarrow> bytes" where
  "store64 l = store32 (l div 4294967296) @ store32 l"

definition pack_uint64 :: "uint64 \<Rightarrow> bytes" where
  "pack_uint64 d =
     (if d < 256 then if d < 128 then [ucast d] else [0xCC, ucast d]
      else if d < 65536 then 0xCD # store16 (unat d)
      else if d < 4294967296 then 0xCE # store32 (unat d)
      else 0xCF # store64 (unat d))"

definition pack_str :: "bytes \<Rightarrow> bytes" where
  "pack_str s = pack_str_header (length s) @ s"

definition pack_bin :: "bytes \<Rightarrow> bytes" where
  "pack_bin s = pack_bin_header (length s) @ s"

text \<open>Reading a string object back, by the msgpack format: the body and what follows it.\<close>

fun str_length :: "bytes \<Rightarrow> (nat \<times> bytes) option" where
  "str_length [] = None"
| "str_length (b # bs) =
     (if b AND 0xE0 = 0xA0 then Some (unat (b AND 31), bs)
      else if b = 0xD9 then (case bs of l # r \<Rightarrow> Some (unat l, r) | _ \<Rightarrow> None)
      else if b = 0xDA then
        (case bs of l1 # l0 # r \<Rightarrow> Some (unat l1 * 256 + unat l0, r) | _ \<Rightarrow> None)
      else if b = 0xDB then
        (case bs of l3 # l2 # l1 # l0 # r \<Rightarrow>
           Some (unat l3 * 16777216 + unat l2 * 65536 + unat l1 * 256 + unat l0, r) | _ \<Rightarrow> None)
      else None)"

definition unpack_str :: "bytes \<Rightarrow> (bytes \<times> bytes) option" where
  "unpack_str bs = (case str_length bs of None \<Rightarrow> None
     | Some (n, r) \<Rightarrow> if length r < n then None else Some (take n r, drop n r))"

section \<open>Round trip\<close>

lemma unat_of_nat_byte [simp]: "unat (of_nat n :: byte) = n mod 256"
  by (simp add: unat_of_nat)

lemma div_mod_256: "(n::nat) div 256 mod 256 * 256 + n mod 256 = n mod 65536"
proof -
  have "n mod (256 * 256) = 256 * (n div 256 mod 256) + n mod 256" by (rule mod_mult2_eq)
  then show ?thesis by simp
qed

lemma div_mod_65536:
  "(n::nat) div 16777216 mod 256 * 16777216 + n div 65536 mod 256 * 65536 + n div 256 mod 256 * 256 + n mod 256
     = n mod 4294967296"
proof -
  have "n mod (65536 * 65536) = 65536 * (n div 65536 mod 65536) + n mod 65536" by (rule mod_mult2_eq)
  moreover have "n div 65536 div 256 = n div 16777216" by (simp add: div_mult2_eq [symmetric])
  ultimately show ?thesis
    using div_mod_256 [of n] div_mod_256 [of "n div 65536"] by (simp add: algebra_simps)
qed

lemma fixstr_header: "l < 32 \<Longrightarrow> (0xA0 OR of_nat l :: byte) AND 0xE0 = 0xA0 \<and> unat ((0xA0 OR of_nat l :: byte) AND 31) = l"
proof -
  assume "l < 32"
  moreover have "\<forall>l\<in>set [0..<32]. (0xA0 OR of_nat l :: byte) AND 0xE0 = 0xA0
      \<and> unat ((0xA0 OR of_nat l :: byte) AND 31) = l"
    by code_simp
  ultimately show ?thesis by simp
qed

lemma str_length_header:
  assumes "l < 2 ^ 32"
  shows "str_length (pack_str_header l @ rest) = Some (l, rest)"
proof -
  consider "l < 32" | "32 \<le> l" "l < 256" | "256 \<le> l" "l < 65536" | "65536 \<le> l" by linarith
  then show ?thesis
  proof cases
    case 1
    then show ?thesis using fixstr_header by (simp add: pack_str_header_def)
  next
    case 2
    then show ?thesis by (simp add: pack_str_header_def)
  next
    case 3
    then show ?thesis using div_mod_256 [of l] by (simp add: pack_str_header_def store16_def)
  next
    case 4
    then show ?thesis using div_mod_65536 [of l] assms by (simp add: pack_str_header_def store32_def)
  qed
qed

lemma unpack_pack_str: "length s < 2 ^ 32 \<Longrightarrow> unpack_str (pack_str s @ rest) = Some (s, rest)"
  by (simp add: pack_str_def unpack_str_def str_length_header)

lemma pack_str_inject:
  assumes "length s < 2 ^ 32" and "length t < 2 ^ 32" and "pack_str s = pack_str t"
  shows "s = t"
  using unpack_pack_str [OF assms(1), of "[]"] unpack_pack_str [OF assms(2), of "[]"] assms(3) by simp

end
