(* ===== verification/App_State.thy ===== *)
theory App_State
  imports Sha256 Info_Hash Msgpack
begin

text \<open>
  The data of the application (\<open>verified-blockchain/src/*.h\<close>) and what it calls but does not define.

  The Merkle trie \<open>VTrie\<close> is a prebuilt library: its operations are the fields of \<open>vtrie_ops\<close>, and
  the laws its header documents are \<open>trie_lawful\<close>. A \<open>buffer_t\<close> that compares equal to \<open>NULL\<close> is
  \<open>None\<close>. The structures of the application have no msgpack adaptor in the repository: their
  encodings are the codec fields of \<open>env\<close>, a decoder's \<open>None\<close> being the exception msgpack throws.
  Two more fields stand for what the C++ standard leaves open. \<open>stale\<close> is the content found behind
  \<open>ss.str().c_str()\<close> after the temporary string is gone (the code keeps such pointers), and the
  \<open>indet\<close> fields are the values of variables that the code reads before it sets them.
\<close>

section \<open>The trie library\<close>

type_synonym buffer = "bytes option"

record 't vtrie_ops =
  Select :: "'t \<Rightarrow> bytes \<Rightarrow> buffer"
  Insert :: "'t \<Rightarrow> bytes \<Rightarrow> bytes \<Rightarrow> bool \<times> 't"
  Update :: "'t \<Rightarrow> bytes \<Rightarrow> bytes \<Rightarrow> bool \<times> 't"
  GetRoot :: "'t \<Rightarrow> buffer"
  GetLast :: "'t \<Rightarrow> nat \<Rightarrow> bytes"
  trie_size :: "'t \<Rightarrow> nat"
  Prove :: "'t \<Rightarrow> buffer \<Rightarrow> bytes list"
  VerifyProof :: "buffer \<Rightarrow> buffer \<Rightarrow> bytes list \<Rightarrow> buffer"

text \<open>
  \<open>Put\<close> and its alias \<open>Insert\<close> store the value and report success; a failure stores nothing;
  \<open>Select\<close> returns the value at the key or null. The header says nothing of \<open>Update\<close>: the same law for it is a hypothesis of its own.
\<close>

definition write_lawful :: "('t \<Rightarrow> bytes \<Rightarrow> buffer) \<Rightarrow> ('t \<Rightarrow> bytes \<Rightarrow> bytes \<Rightarrow> bool \<times> 't) \<Rightarrow> bool" where
  "write_lawful sel wr \<longleftrightarrow>
     (\<forall>t k v. sel (snd (wr t k v)) = (if fst (wr t k v) then (sel t)(k \<mapsto> v) else sel t))"

definition trie_lawful :: "'t vtrie_ops \<Rightarrow> bool" where
  "trie_lawful ops \<longleftrightarrow> write_lawful (Select ops) (Insert ops)"

definition update_lawful :: "'t vtrie_ops \<Rightarrow> bool" where
  "update_lawful ops \<longleftrightarrow> write_lawful (Select ops) (Update ops)"

section \<open>Structures\<close>

record node_export =
  ne_id :: hash
  ne_ss :: bytes
  ne_sslen :: nat

record request =
  req_root :: buffer
  req_type :: bytes
  req_verifyingPeers :: "hash list"
  req_sendTo :: hash
  req_from :: hash
  req_contractId :: bytes
  req_encodedRequest :: bytes
  req_encodedResponse :: bytes
  req_requestorPeer :: node_export
  req_responderPeer :: node_export

record certifiedTx =
  ctx_root :: buffer
  ctx_type :: bytes
  ctx_hash :: bytes
  ctx_certifying_peer :: hash
  ctx_previous_verifyingPeers :: "hash list"
  ctx_counterparty :: hash
  ctx_party :: hash
  ctx_request :: bytes
  ctx_response :: bytes
  ctx_certification_status :: bool
  ctx_timestamp :: int

record verifiedTx =
  vtx_txhash :: bytes
  vtx_verifying_peer :: hash
  vtx_party :: hash
  vtx_counterparty :: hash
  vtx_timestamp :: int
  vtx_verification_status :: bool

record balances =
  bal_balance :: int
  bal_currency :: bytes

text \<open>\<open>value\<close> is a \<open>double\<close> that only ever receives the integer \<open>cost / 2\<close>.\<close>

record assets =
  as_requestor :: bytes
  as_responder :: bytes
  as_value :: int
  as_currency :: bytes
  as_contract_id :: bytes
  as_request :: bytes
  as_response :: bytes
  as_transaction_status :: bool

record block =
  blk_index :: uint32
  blk_data :: bytes
  blk_hash :: bytes
  blk_time :: int
  blk_prevHash :: bytes

text \<open>\<open>dht::NodeExport{}\<close>: a zero identifier and a zero \<open>sockaddr_storage\<close>.\<close>

definition no_export :: node_export where
  "no_export = \<lparr>ne_id = hash_zero 20, ne_ss = replicate 128 0, ne_sslen = 0\<rparr>"

section \<open>Environment and state\<close>

record 't env =
  ops :: "'t vtrie_ops"
  pk_request :: "request \<Rightarrow> bytes"
  pk_ctx :: "certifiedTx \<Rightarrow> bytes"
  up_ctx :: "bytes \<Rightarrow> certifiedTx option"
  pk_vtx :: "verifiedTx \<Rightarrow> bytes"
  pk_balances :: "balances \<Rightarrow> bytes"
  up_balances :: "bytes \<Rightarrow> balances option"
  pk_assets :: "assets \<Rightarrow> bytes"
  up_assets :: "bytes \<Rightarrow> assets option"
  pk_block :: "block \<Rightarrow> bytes"
  stale :: "bytes \<Rightarrow> bytes"
  indet :: "nat \<Rightarrow> int"
  indet_bool :: bool
  indet_export :: node_export

text \<open>
  The process: the static stores and fields of the classes, the calls of \<open>DhtRunner::put\<close> in order
  (\<open>outbox\<close>), the listener threads it has started, by the identifier they listen on, and the calls
  of \<open>cancelListen\<close>.
\<close>

datatype listener = Requests | CertificationRequests | Certifications | Verifications

record 't vstate =
  user :: hash
  sessions :: "hash list"
  astore :: 't
  cstore :: 't
  certificationRequests :: 't
  transactionStore :: 't
  blockchain :: 't
  nodes :: "node_export list"
  outbox :: "(hash \<times> bytes) list"
  threads :: "(hash \<times> listener) list"
  cancels :: "(hash \<times> listener) list"

text \<open>\<open>strlen\<close> bounds every message that is sent through a C string.\<close>

definition c_str :: "bytes \<Rightarrow> bytes" where
  "c_str s = takeWhile (\<lambda>b. b \<noteq> 0) s"

definition wire :: "'t env \<Rightarrow> bytes \<Rightarrow> bytes" where
  "wire E s = c_str (stale E s)"

definition put :: "'t vstate \<Rightarrow> hash \<Rightarrow> bytes \<Rightarrow> 't vstate" where
  "put s h v = s\<lparr>outbox := outbox s @ [(h, v)]\<rparr>"

lemma put_frame [frame_simps]:
  "user (put s h v) = user s" "sessions (put s h v) = sessions s" "astore (put s h v) = astore s"
  "cstore (put s h v) = cstore s" "certificationRequests (put s h v) = certificationRequests s"
  "transactionStore (put s h v) = transactionStore s" "blockchain (put s h v) = blockchain s"
  "nodes (put s h v) = nodes s" "threads (put s h v) = threads s" "cancels (put s h v) = cancels s"
  "outbox (put s h v) = outbox s @ [(h, v)]"
  by (simp_all add: put_def)

section \<open>Laws of the trie\<close>

lemma Select_Insert:
  "trie_lawful tr \<Longrightarrow> Insert tr t k v = (ok, t') \<Longrightarrow>
   Select tr t' k' = (if ok \<and> k' = k then Some v else Select tr t k')"
  by (metis (no_types, lifting) fst_conv fun_upd_apply snd_conv trie_lawful_def write_lawful_def)

lemma Select_Update:
  "update_lawful tr \<Longrightarrow> Update tr t k v = (ok, t') \<Longrightarrow>
   Select tr t' k' = (if ok \<and> k' = k then Some v else Select tr t k')"
  by (metis (no_types, lifting) fst_conv fun_upd_apply snd_conv update_lawful_def write_lawful_def)

section \<open>A concrete environment\<close>

text \<open>
  An instance for evaluating the model on concrete inputs: a store is an association list that
  accepts every write, its root is null while it is empty, and a proof is the list of keys.
  Encodings are marker bytes; the decoders return the record they are given here.
\<close>

definition alist_ops :: "(bytes \<times> bytes) list vtrie_ops" where
  "alist_ops = \<lparr>Select = map_of,
     Insert = (\<lambda>t k v. (True, (k, v) # t)), Update = (\<lambda>t k v. (True, (k, v) # t)),
     GetRoot = (\<lambda>t. case t of [] \<Rightarrow> None | (k, v) # _ \<Rightarrow> Some k),
     GetLast = (\<lambda>t n. case t of [] \<Rightarrow> [] | (k, v) # _ \<Rightarrow> v), trie_size = length,
     Prove = (\<lambda>t k. map fst t), VerifyProof = (\<lambda>r k ps. case k of None \<Rightarrow> None
       | Some key \<Rightarrow> if key \<in> set ps then Some key else None)\<rparr>"

lemma alist_ops_lawful: "trie_lawful alist_ops" "update_lawful alist_ops"
  by (simp_all add: trie_lawful_def update_lawful_def write_lawful_def alist_ops_def fun_eq_iff)


text \<open>Balances in a decodable form: a sign byte, the amount in unary, a zero and the currency.\<close>

definition unary_balances :: "balances \<Rightarrow> bytes" where
  "unary_balances b = (if bal_balance b < 0 then 1 else 0) # replicate (nat \<bar>bal_balance b\<bar>) 1 @ 0 # bal_currency b"

fun parse_balances :: "bytes \<Rightarrow> balances option" where
  "parse_balances [] = None"
| "parse_balances (sg # bs) =
     (let n = int (length (takeWhile (\<lambda>b. b = 1) bs)) in
      Some \<lparr>bal_balance = (if sg = 1 then - n else n), bal_currency = tl (dropWhile (\<lambda>b. b = 1) bs)\<rparr>)"

lemma parse_unary_balances: "parse_balances (unary_balances b) = Some b"
  by (simp add: unary_balances_def takeWhile_append dropWhile_append)

definition test_env :: "(bytes \<Rightarrow> certifiedTx option) \<Rightarrow> (bytes \<times> bytes) list env" where
  "test_env dc = \<lparr>ops = alist_ops, pk_request = (\<lambda>_. [1]), pk_ctx = (\<lambda>c. [2, if ctx_certification_status c then 1 else 2]),
     up_ctx = dc, pk_vtx = (\<lambda>v. [3, if vtx_verification_status v then 1 else 2]),
     pk_balances = unary_balances, up_balances = parse_balances,
     pk_assets = (\<lambda>_. [5]), up_assets = (\<lambda>_. None), pk_block = (\<lambda>_. [6]),
     stale = (\<lambda>s. s), indet = int, indet_bool = False, indet_export = no_export\<rparr>"

definition test_state :: "(bytes \<times> bytes) list vstate" where
  "test_state = \<lparr>user = replicate 20 7, sessions = [], astore = [], cstore = [],
     certificationRequests = [], transactionStore = [], blockchain = [], nodes = [], outbox = [],
     threads = [], cancels = []\<rparr>"

end
