(* ===== verification/Chain.thy ===== *)
theory Chain
  imports App_State
begin

text \<open>
  Blocks and the chain (\<open>block.cpp\<close>, \<open>chain.cpp\<close>). A block's hash is the digest of its fields printed
  one after the other; the chain stores the packed block under that hash.
\<close>

section \<open>Printing of numbers\<close>

text \<open>\<open>operator<<\<close> of an integer on a stream in its default (decimal) format.\<close>

fun dec_nat :: "nat \<Rightarrow> bytes" where
  "dec_nat n = (if n < 10 then [of_nat (48 + n)] else dec_nat (n div 10) @ [of_nat (48 + n mod 10)])"

declare dec_nat.simps [simp del]

definition dec_int :: "int \<Rightarrow> bytes" where
  "dec_int i = (if i < 0 then 45 # dec_nat (nat (- i)) else dec_nat (nat i))"

section \<open>Blocks\<close>

definition new_block :: "uint32 \<Rightarrow> bytes \<Rightarrow> hash \<Rightarrow> int \<Rightarrow> block" where
  "new_block indexIn dataIn prev now = \<lparr>blk_index = indexIn, blk_data = dataIn, blk_hash = [],
     blk_time = now, blk_prevHash = toString prev\<rparr>"

definition getHash :: "block \<Rightarrow> bytes" where
  "getHash b = blk_hash b"

definition hash_input :: "block \<Rightarrow> bytes" where
  "hash_input b = dec_nat (unat (blk_index b)) @ dec_int (blk_time b) @ blk_data b @ blk_prevHash b"

definition calculateHash :: "block \<Rightarrow> bytes \<times> block" where
  "calculateHash b = (let h = sha256 (hash_input b) in (h, b\<lparr>blk_hash := h\<rparr>))"

section \<open>The chain\<close>

record blockchainNode =
  bn_previous :: hash
  bn_index :: int

definition network_root :: hash where
  "network_root = hash_of_string 20 (lit ''verified network root'')"

text \<open>
  The constructor reads the root of the store and, where it is null, fills a local variable that is
  then dropped; \<open>new_chain\<close> returns that variable.
\<close>

definition new_chain :: "'t env \<Rightarrow> 't vstate \<Rightarrow> blockchainNode option" where
  "new_chain E s = (if GetRoot (ops E) (blockchain s) = None
     then Some \<lparr>bn_previous = network_root, bn_index = 0\<rparr> else None)"

text \<open>The stored text is read through a pointer into a string that no longer exists.\<close>

definition addBlock :: "'t env \<Rightarrow> block \<Rightarrow> 't vstate \<Rightarrow> 't vstate" where
  "addBlock E b s =
     (let (blockhash, b') = calculateHash b
      in s\<lparr>blockchain := snd (Insert (ops E) (blockchain s) blockhash (wire E (pk_block E b')))\<rparr>)"

text \<open>\<open>int getSize()\<close> narrows the size of the store to 32 bits; the block takes it as \<open>uint32_t\<close>.\<close>

definition getSize :: "'t env \<Rightarrow> 't vstate \<Rightarrow> uint32" where
  "getSize E s = of_nat (trie_size (ops E) (blockchain s))"

lemma addBlock_frame [frame_simps]:
  "user (addBlock E b s) = user s" "sessions (addBlock E b s) = sessions s" "astore (addBlock E b s) = astore s"
  "cstore (addBlock E b s) = cstore s" "certificationRequests (addBlock E b s) = certificationRequests s"
  "transactionStore (addBlock E b s) = transactionStore s" "nodes (addBlock E b s) = nodes s"
  "outbox (addBlock E b s) = outbox s" "threads (addBlock E b s) = threads s" "cancels (addBlock E b s) = cancels s"
  by (simp_all add: addBlock_def calculateHash_def Let_def)

section \<open>Properties\<close>

lemma dec_nat_digits: "set (dec_nat n) \<subseteq> {48..57}"
proof (induction n rule: dec_nat.induct)
  case (1 n)
  have d: "of_nat (48 + k) \<in> {48..57::byte}" if "k < 10" for k
  proof -
    have "\<forall>k\<in>set [0..<10]. of_nat (48 + k) \<in> {48..57::byte}" by (simp add: upt_rec)
    then show ?thesis using that by simp
  qed
  show ?case
    using 1 d [of n] d [of "n mod 10"] by (subst dec_nat.simps) (auto split: if_splits)
qed

text \<open>
  \<open>addBlock\<close> stores exactly one entry: under the digest of the block's fields it puts the packed
  block with that digest filled in. A refused insertion leaves the whole chain as it was.
\<close>

definition block_key :: "block \<Rightarrow> bytes" where
  "block_key b = sha256 (hash_input b)"

definition block_text :: "'t env \<Rightarrow> block \<Rightarrow> bytes" where
  "block_text E b = wire E (pk_block E (b\<lparr>blk_hash := block_key b\<rparr>))"

lemma addBlock_Select:
  assumes "trie_lawful (ops E)"
  shows "Select (ops E) (blockchain (addBlock E b s)) =
     (if fst (Insert (ops E) (blockchain s) (block_key b) (block_text E b))
      then (Select (ops E) (blockchain s))(block_key b \<mapsto> block_text E b) else Select (ops E) (blockchain s))"
  using Select_Insert [OF assms surjective_pairing, of "blockchain s" "block_key b" "block_text E b"]
  by (auto simp: addBlock_def calculateHash_def Let_def block_key_def block_text_def)

text \<open>
  The digest does not bind the fields of a block: they are printed without separators, so a block
  with index 1 and time 11 and a block with index 11 and time 1 have the same hash whatever their
  common data, and adding the second overwrites the first. Moving the end of the data into the previous hash
  has the same effect.
\<close>

lemma block_hash_ambiguous:
  "fst (calculateHash \<lparr>blk_index = 1, blk_data = d, blk_hash = h, blk_time = 11, blk_prevHash = p\<rparr>)
     = fst (calculateHash \<lparr>blk_index = 11, blk_data = d, blk_hash = h', blk_time = 1, blk_prevHash = p\<rparr>)
   \<and> fst (calculateHash \<lparr>blk_index = i, blk_data = d @ x, blk_hash = h, blk_time = t, blk_prevHash = p\<rparr>)
     = fst (calculateHash \<lparr>blk_index = i, blk_data = d, blk_hash = h', blk_time = t, blk_prevHash = x @ p\<rparr>)"
proof
  have "dec_nat 1 = [49]" and "dec_nat 11 = [49, 49]" by (simp_all add: dec_nat.simps)
  then show "fst (calculateHash \<lparr>blk_index = 1, blk_data = d, blk_hash = h, blk_time = 11, blk_prevHash = p\<rparr>)
     = fst (calculateHash \<lparr>blk_index = 11, blk_data = d, blk_hash = h', blk_time = 1, blk_prevHash = p\<rparr>)"
    by (simp add: calculateHash_def hash_input_def dec_int_def Let_def)
qed (simp add: calculateHash_def hash_input_def Let_def)

lemma network_root_zero: "network_root = hash_zero 20"
  by (simp add: network_root_def hash_of_string_def lit_def hash_zero_def)

end
