(* ===== verification/Ledger.thy ===== *)
theory Ledger
  imports App_State
begin

text \<open>
  Token balances (\<open>token.cpp\<close>), resource cost (\<open>resource.cpp\<close>) and the asset records that guard a
  request by the balance of its sender (\<open>asset.cpp\<close>). The program is built for Windows, where
  \<open>long\<close> has 32 bits; a sum outside it has no defined meaning.
\<close>

definition long_ok :: "int \<Rightarrow> bool" where
  "long_ok x \<longleftrightarrow> - (2 ^ 31) \<le> x \<and> x < 2 ^ 31"

section \<open>Tokens\<close>

text \<open>
  The branch for a missing account is the expression statement \<open>false;\<close>, so control leaves the
  value-returning function at its end.
\<close>

definition transfer :: "'t env \<Rightarrow> bytes \<Rightarrow> bytes \<Rightarrow> int \<Rightarrow> 't vstate \<Rightarrow> bool outcome \<times> 't vstate" where
  "transfer E name to amount s =
     (case Select (ops E) (cstore s) to of
        None \<Rightarrow> (Undef, s)
      | Some r \<Rightarrow>
        (case up_balances E r of
           None \<Rightarrow> (Throw, s)
         | Some b \<Rightarrow>
           if bal_currency b = name then
             if bal_balance b \<ge> amount then
               if long_ok (bal_balance b + amount) then
                 let b' = b\<lparr>bal_balance := bal_balance b + amount\<rparr>;
                     (ok, t) = Update (ops E) (cstore s) (sha256 to) (pk_balances E b')
                 in (Ret ok, s\<lparr>cstore := t\<rparr>)
               else (Undef, s)
             else (Ret False, s)
           else (Ret False, s)))"

text \<open>The result of the inner \<open>transfer\<close> is not looked at.\<close>

definition transferFrom ::
    "'t env \<Rightarrow> bytes \<Rightarrow> bytes \<Rightarrow> bytes \<Rightarrow> int \<Rightarrow> 't vstate \<Rightarrow> bool outcome \<times> 't vstate" where
  "transferFrom E name from to amount s =
     (case Select (ops E) (cstore s) from of
        None \<Rightarrow> (Undef, s)
      | Some r \<Rightarrow>
        (case up_balances E r of
           None \<Rightarrow> (Throw, s)
         | Some b \<Rightarrow>
           if bal_currency b = name then
             if bal_balance b \<ge> amount then
               and_then (transfer E name to amount s) (\<lambda>_ s.
                 if long_ok (bal_balance b - amount) then
                   let b' = b\<lparr>bal_balance := bal_balance b - amount\<rparr>;
                       (ok, t) = Update (ops E) (cstore s) (sha256 from) (pk_balances E b')
                   in (Ret ok, s\<lparr>cstore := t\<rparr>)
                 else (Undef, s))
             else (Ret False, s)
           else (Ret False, s)))"

definition balanceOf :: "'t env \<Rightarrow> bytes \<Rightarrow> bytes \<Rightarrow> 't vstate \<Rightarrow> int outcome" where
  "balanceOf E name peer s =
     (case Select (ops E) (cstore s) peer of
        None \<Rightarrow> Undef
      | Some r \<Rightarrow>
        (case up_balances E r of
           None \<Rightarrow> Throw
         | Some b \<Rightarrow> if bal_currency b = name then Ret (bal_balance b) else Undef))"

definition calculateCost :: "bytes \<Rightarrow> int" where
  "calculateCost contractId = 0"

section \<open>Assets\<close>

definition via :: bytes where
  "via = lit ''via''"

definition asset_key :: "request \<Rightarrow> bytes" where
  "asset_key req = sha256 (pack_str (req_encodedRequest req))"

text \<open>
  The stream \<open>s\<close> already holds the packed sender when the record is packed into it, so the stored
  value is both. The fields \<open>value\<close> and \<open>transaction_status\<close> are never set.
\<close>

definition new_asset :: "'t env \<Rightarrow> request \<Rightarrow> assets" where
  "new_asset E req = \<lparr>as_requestor = pack_bin (req_from req), as_responder = [], as_value = indet E 0,
     as_currency = via, as_contract_id = req_contractId req, as_request = asset_key req,
     as_response = [], as_transaction_status = indet_bool E\<rparr>"

definition recordRequest :: "'t env \<Rightarrow> bytes \<Rightarrow> request \<Rightarrow> 't vstate \<Rightarrow> bool outcome \<times> 't vstate" where
  "recordRequest E peer req s =
     (case Select (ops E) (astore s) (asset_key req) of
        None \<Rightarrow>
          and_then (balanceOf E via peer s, s) (\<lambda>bal s.
            if bal > 0 then
              let a = new_asset E req;
                  (ok, t) = Insert (ops E) (astore s) (asset_key req)
                              (pack_bin (req_from req) @ pk_assets E a)
              in (Ret ok, s\<lparr>astore := t\<rparr>)
            else (Ret False, s))
      | Some _ \<Rightarrow> (Ret False, s))"

text \<open>
  The branch on who asks. \<open>st\<close> is the stream of the packed response followed by the packed sender;
  it is the \<open>responder\<close> of the record. \<open>cost / 2\<close> truncates.
\<close>

definition settle :: "'t env \<Rightarrow> bytes \<Rightarrow> assets \<Rightarrow> 't vstate \<Rightarrow> assets option outcome" where
  "settle E peer a s =
     (if peer = as_responder a then
        let cost = calculateCost (as_contract_id a) in
        bind_outcome (balanceOf E via peer s) (\<lambda>bal.
          Ret (Some (a\<lparr>as_value := cost div 2, as_transaction_status := bal > cost\<rparr>)))
      else if peer = as_requestor a then
        bind_outcome (balanceOf E via peer s) (\<lambda>bal.
          Ret (Some (a\<lparr>as_transaction_status := bal > as_value a\<rparr>)))
      else Ret None)"

definition recordResponse :: "'t env \<Rightarrow> bytes \<Rightarrow> request \<Rightarrow> 't vstate \<Rightarrow> bool outcome \<times> 't vstate" where
  "recordResponse E peer req s =
     (case Select (ops E) (astore s) (asset_key req) of
        None \<Rightarrow> (Ret False, s)
      | Some r \<Rightarrow>
        (case up_assets E r of
           None \<Rightarrow> (Throw, s)
         | Some a \<Rightarrow>
           let st = pack_str (req_encodedResponse req);
               st' = st @ pack_bin (req_from req);
               a' = a\<lparr>as_response := sha256 st, as_responder := st'\<rparr>
           in and_then (settle E peer a' s, s) (\<lambda>res s.
                case res of
                  None \<Rightarrow> (Ret False, s)
                | Some a'' \<Rightarrow>
                  let (ok, t) = Update (ops E) (astore s) (asset_key req) (st' @ pk_assets E a'')
                  in (Ret ok, s\<lparr>astore := t\<rparr>))))"

section \<open>Transfers\<close>

definition rich_state :: "(bytes \<times> bytes) list vstate" where
  "rich_state = test_state\<lparr>cstore := [(lit ''a'', unary_balances \<lparr>bal_balance = 5, bal_currency = via\<rparr>),
     (lit ''b'', unary_balances \<lparr>bal_balance = 7, bal_currency = via\<rparr>)]\<rparr>"

lemma test_env_simps [simp]:
  "ops (test_env dc) = alist_ops"
  "up_balances (test_env dc) = parse_balances" "pk_balances (test_env dc) = unary_balances"
  by (simp_all add: test_env_def)

lemma transfer_store:
  "cstore (snd (transfer E name to amount s)) = cstore s
   \<or> (\<exists>v. cstore (snd (transfer E name to amount s)) = snd (Update (ops E) (cstore s) (sha256 to) v))"
  by (auto simp: transfer_def split: option.splits prod.splits) (metis snd_conv)+

lemma transferFrom_store:
  "cstore (snd (transferFrom E name from to amount s)) = cstore s
   \<or> cstore (snd (transferFrom E name from to amount s)) = cstore (snd (transfer E name to amount s))
   \<or> (\<exists>v. cstore (snd (transferFrom E name from to amount s))
        = snd (Update (ops E) (cstore (snd (transfer E name to amount s))) (sha256 from) v))"
proof (cases "transfer E name to amount s" rule: prod.exhaust)
  case (Pair r s1)
  then show ?thesis
    by (cases r) (auto simp: transferFrom_def split: option.splits prod.splits, (metis snd_conv)+)
qed

text \<open>
  Transfers are invisible to \<open>balanceOf\<close> and to later transfers: they write at the hash of the
  account while every reader looks up the account itself. Whatever a \<open>transferFrom\<close> does and however
  it ends, when an update of the store changes no other key, an account name that is not 64 bytes long (user identifiers have 40) keeps its balance.
\<close>

theorem transfers_invisible:
  assumes "update_lawful (ops E)" and "length peer \<noteq> 64"
  shows "balanceOf E cur peer (snd (transferFrom E name from to amount s)) = balanceOf E cur peer s"
proof -
  have upd: "Select (ops E) (snd (Update (ops E) t (sha256 x) v)) peer = Select (ops E) t peer" for t x v
    using Select_Update [OF assms(1) surjective_pairing, of t "sha256 x" v peer] assms(2) length_sha256 [of x]
    by auto
  have "Select (ops E) (cstore (snd (transfer E name to amount s))) peer = Select (ops E) (cstore s) peer"
    using transfer_store [of E name to amount s] upd by fastforce
  then have "Select (ops E) (cstore (snd (transferFrom E name from to amount s))) peer = Select (ops E) (cstore s) peer"
    using transferFrom_store [of E name "from" to amount s] upd by (metis (no_types))
  then show ?thesis by (simp add: balanceOf_def)
qed

theorem transfers_invisible_witness:
  "length (lit ''a'') \<noteq> 64 \<and>
   balanceOf (test_env (\<lambda>_. None)) via (lit ''a'')
     (snd (transferFrom (test_env (\<lambda>_. None)) via (lit ''a'') (lit ''b'') 3 rich_state)) = Ret 5"
proof -
  have "length (lit ''a'') \<noteq> 64" by (simp add: lit_def)
  moreover have "balanceOf (test_env (\<lambda>_. None)) via (lit ''a'') rich_state = Ret 5"
    by (simp add: balanceOf_def rich_state_def alist_ops_def parse_unary_balances del: parse_balances.simps)
  ultimately show ?thesis
    using transfers_invisible [of "test_env (\<lambda>_. None)"] alist_ops_lawful by simp
qed

section \<open>Requests are recorded once\<close>

lemma recordRequest_Ret:
  assumes "trie_lawful (ops E)" and "recordRequest E peer req s = (Ret True, s')"
  obtains bal where "Select (ops E) (astore s) (asset_key req) = None"
    and "balanceOf E via peer s = Ret bal" and "0 < bal"
    and "Select (ops E) (astore s') =
         (Select (ops E) (astore s))(asset_key req \<mapsto> pack_bin (req_from req) @ pk_assets E (new_asset E req))"
    and "s' = s\<lparr>astore := astore s'\<rparr>"
proof -
  have none: "Select (ops E) (astore s) (asset_key req) = None"
    using assms(2) by (auto simp: recordRequest_def split: option.splits)
  with assms(2) obtain bal t where "balanceOf E via peer s = Ret bal" "0 < bal"
    and ins: "Insert (ops E) (astore s) (asset_key req)
        (pack_bin (req_from req) @ pk_assets E (new_asset E req)) = (True, t)" and "s' = s\<lparr>astore := t\<rparr>"
    by (auto simp: recordRequest_def and_then_Ret split: if_splits prod.splits)
  then show ?thesis
    using that [of bal] none Select_Insert [OF assms(1) ins] by (simp add: fun_eq_iff)
qed

lemma recordRequest_present:
  assumes "trie_lawful (ops E)" and "recordRequest E peer req s = (Ret True, s')"
  shows "Select (ops E) (astore s') (asset_key req) \<noteq> None"
  by (rule recordRequest_Ret [OF assms]) simp

lemma recordRequest_frame:
  assumes "recordRequest E peer req s = (r, s')"
  shows "transactionStore s' = transactionStore s" "outbox s' = outbox s" "user s' = user s"
    "certificationRequests s' = certificationRequests s" "nodes s' = nodes s"
  using assms
  by (cases "balanceOf E via peer s"; auto simp: recordRequest_def Let_def split: option.splits prod.splits if_splits)+

text \<open>
  C36: \<open>recordRequest\<close> admits a request only when no request with the same encoding is on record and
  the sender's balance in the token is positive; it then stores the sender and the record under the hash
  of the packed request and changes nothing else. From then on the same request is refused, whoever sends it.
\<close>

theorem recordRequest_once:
  assumes "trie_lawful (ops E)" and "recordRequest E peer req s = (Ret True, s')"
  shows "Select (ops E) (astore s) (asset_key req) = None
     \<and> (\<exists>bal > 0. balanceOf E via peer s = Ret bal)
     \<and> Select (ops E) (astore s') =
         (Select (ops E) (astore s))(asset_key req \<mapsto> pack_bin (req_from req) @ pk_assets E (new_asset E req))
     \<and> s' = s\<lparr>astore := astore s'\<rparr>
     \<and> (\<forall>peer' req'. req_encodedRequest req' = req_encodedRequest req \<longrightarrow>
           recordRequest E peer' req' s' = (Ret False, s'))"
proof -
  from recordRequest_Ret [OF assms] obtain bal where rec:
    "Select (ops E) (astore s) (asset_key req) = None" "balanceOf E via peer s = Ret bal" "0 < bal"
    "Select (ops E) (astore s') =
       (Select (ops E) (astore s))(asset_key req \<mapsto> pack_bin (req_from req) @ pk_assets E (new_asset E req))"
    "s' = s\<lparr>astore := astore s'\<rparr>" .
  have "recordRequest E peer' req' s' = (Ret False, s')"
    if "req_encodedRequest req' = req_encodedRequest req" for peer' req'
    using that rec(4) by (simp add: recordRequest_def asset_key_def)
  with rec show ?thesis by blast
qed

definition test_request :: request where
  "test_request = \<lparr>req_root = None, req_type = lit ''request'', req_verifyingPeers = [], req_sendTo = hash_zero 20,
     req_from = replicate 20 7, req_contractId = lit ''c'', req_encodedRequest = lit ''f()'', req_encodedResponse = lit ''1'',
     req_requestorPeer = no_export, req_responderPeer = no_export\<rparr>"

lemma rich_recordRequest:
  "fst (recordRequest (test_env (\<lambda>_. None)) (lit ''a'') test_request rich_state) = Ret True"
  by (simp add: recordRequest_def balanceOf_def rich_state_def test_state_def alist_ops_def parse_unary_balances
      del: parse_balances.simps)

theorem recordRequest_once_witness:
  "fst (recordRequest (test_env (\<lambda>_. None)) (lit ''b'') test_request
     (snd (recordRequest (test_env (\<lambda>_. None)) (lit ''a'') test_request rich_state))) = Ret False"
  using recordRequest_once [OF _ surjective_pairing [of "recordRequest (test_env (\<lambda>_. None)) (lit ''a'')
      test_request rich_state", unfolded rich_recordRequest]] alist_ops_lawful by simp

text \<open>
  A recorded request can never be answered. \<open>recordRequest\<close> packs the sender into the stream before
  the record, \<open>recordResponse\<close> decodes the first object of the stored value, and that is the binary
  object of the sender: with a decoder that rejects a binary object where it expects the structure, the
  call ends in an exception and changes nothing.
\<close>

theorem recordResponse_throws:
  assumes "trie_lawful (ops E)" and "recordRequest E peer req s = (Ret True, s')"
    and "\<And>h rest. up_assets E (pack_bin h @ rest) = None"
    and "req_encodedRequest resp = req_encodedRequest req"
  shows "recordResponse E peer' resp s' = (Throw, s')"
proof -
  have "Select (ops E) (astore s') (asset_key resp) = Some (pack_bin (req_from req) @ pk_assets E (new_asset E req))"
    using recordRequest_Ret [OF assms(1,2)] assms(4) by (metis asset_key_def fun_upd_same)
  then show ?thesis using assms(3) by (simp add: recordResponse_def)
qed

theorem recordResponse_throws_witness:
  "fst (recordResponse (test_env (\<lambda>_. None)) (lit ''b'') test_request
     (snd (recordRequest (test_env (\<lambda>_. None)) (lit ''a'') test_request rich_state))) = Throw"
  using recordResponse_throws [OF _ surjective_pairing [of "recordRequest (test_env (\<lambda>_. None)) (lit ''a'')
      test_request rich_state", unfolded rich_recordRequest]] alist_ops_lawful by (simp add: test_env_def)

end
