(* ===== verification/Transactions.thy ===== *)
theory Transactions
  imports Chain Ledger
begin

text \<open>
  The transaction protocol of a peer (\<open>transaction.cpp\<close>): a request goes out, its answer triggers a
  certification request at the older of two neighbours, the certifying peer compares what both
  parties sent, earlier verifiers check the transaction root against the chain, and a verified
  transaction becomes a block. Every send is a \<open>put\<close> appended to the outbox.
\<close>

section \<open>Listener threads of a client object\<close>

text \<open>
  \<open>listener\<close> is one \<open>std::thread\<close>: assigning to it while it is joinable ends the process, and so does
  destroying it. The flag says whether it is joinable.
\<close>

definition start_thread :: "hash \<Rightarrow> listener \<Rightarrow> bool \<Rightarrow> 't vstate \<Rightarrow> bool outcome \<times> 't vstate" where
  "start_thread h l joinable s =
     (let s = s\<lparr>threads := threads s @ [(h, l)]\<rparr> in if joinable then (Terminate, s) else (Ret True, s))"

fun listenForVerifications :: "hash list \<Rightarrow> bool \<Rightarrow> 't vstate \<Rightarrow> bool outcome \<times> 't vstate" where
  "listenForVerifications [] joinable s = (Ret joinable, s)"
| "listenForVerifications (p # ps) joinable s =
     and_then (start_thread p Certifications joinable s) (listenForVerifications ps)"

definition destroy_client :: "bool \<Rightarrow> 't vstate \<Rightarrow> unit outcome \<times> 't vstate" where
  "destroy_client joinable s = (if joinable then (Terminate, s) else (Ret (), s))"

section \<open>Requests\<close>

text \<open>
  The search for the oldest neighbour compares two variables that are never set: \<open>indet E 0\<close> is the
  initial \<open>life\<close> and \<open>indet E (i + 1)\<close> the \<open>peer_life\<close> of round \<open>i\<close>.
\<close>

fun oldest_peer :: "'t env \<Rightarrow> nat \<Rightarrow> int \<Rightarrow> node_export \<Rightarrow> node_export list \<Rightarrow> node_export" where
  "oldest_peer E i life peer [] = peer"
| "oldest_peer E i life peer (this_peer # ns) =
     (let peer_life = indet E (Suc i) in
      if peer_life > life then oldest_peer E (Suc i) peer_life this_peer ns
      else oldest_peer E (Suc i) life peer ns)"

text \<open>What \<open>out\<close> and \<open>in\<close> share: the verifying peers of the last stored transaction, then the send.\<close>

definition send_request :: "'t env \<Rightarrow> request \<Rightarrow> 't vstate \<Rightarrow> request outcome \<times> 't vstate" where
  "send_request E req s =
     (case up_ctx E (GetLast (ops E) (transactionStore s) 3) of
        None \<Rightarrow> (Throw, s)
      | Some tx \<Rightarrow>
        let req = req\<lparr>req_verifyingPeers := ctx_previous_verifyingPeers tx\<rparr>
        in (Ret req, put s (req_sendTo req) (wire E (pk_request E req))))"

definition transaction_out :: "'t env \<Rightarrow> request \<Rightarrow> 't vstate \<Rightarrow> request outcome \<times> 't vstate" where
  "transaction_out E req s =
     (let peer = if nodes s = [] then no_export
                 else oldest_peer E 0 (indet E 0) (indet_export E) (nodes s);
          req = req\<lparr>req_root := GetRoot (ops E) (transactionStore s), req_requestorPeer := peer,
                    req_type := lit ''request''\<rparr>
      in send_request E req s)"

text \<open>
  The certification request. \<open>type\<close>, \<open>certifying_peer\<close> and \<open>timestamp\<close> keep their default values and
  \<open>certification_status\<close> is never set.
\<close>

definition certification_request :: "'t env \<Rightarrow> request \<Rightarrow> certifiedTx" where
  "certification_request E req = \<lparr>ctx_root = req_root req, ctx_type = [],
     ctx_hash = sha256 (req_encodedRequest req @ req_encodedResponse req),
     ctx_certifying_peer = hash_zero 20, ctx_previous_verifyingPeers = req_verifyingPeers req,
     ctx_counterparty = req_sendTo req, ctx_party = req_from req,
     ctx_request = sha256 (req_encodedRequest req), ctx_response = sha256 (req_encodedResponse req),
     ctx_certification_status = indet_bool E, ctx_timestamp = 0\<rparr>"

definition certifier :: "request \<Rightarrow> hash" where
  "certifier req = (if ne_sslen (req_requestorPeer req) > ne_sslen (req_responderPeer req)
     then ne_id (req_requestorPeer req) else ne_id (req_responderPeer req))"

definition transaction_in :: "'t env \<Rightarrow> request \<Rightarrow> 't vstate \<Rightarrow> request outcome \<times> 't vstate" where
  "transaction_in E req s =
     and_then
       (if req_type req = lit ''request'' then
          let peer = oldest_peer E 0 (indet E 0) (req_requestorPeer req) (nodes s);
              req = req\<lparr>req_root := GetRoot (ops E) (transactionStore s), req_responderPeer := peer,
                        req_type := lit ''response''\<rparr>
          in send_request E req s
        else (Ret req, s))
       (\<lambda>req s. (Ret req, put s (certifier req) (wire E (pk_ctx E (certification_request E req)))))"

section \<open>Verified transactions\<close>

definition verified :: "'t env \<Rightarrow> int \<Rightarrow> verifiedTx \<Rightarrow> hash \<Rightarrow> 't vstate \<Rightarrow> unit outcome \<times> 't vstate" where
  "verified E now tx verifier s =
     (let b = new_block (getSize E s) (c_str (pk_vtx E tx)) verifier now;
          s = addBlock E b s;
          verifiedTx = wire E (pk_vtx E tx);
          s = put s (vtx_party tx) verifiedTx;
          s = put s (vtx_counterparty tx) verifiedTx
      in if vtx_verification_status tx
         then and_then (listenForVerifications [vtx_party tx, vtx_counterparty tx] False s) destroy_client
         else (Ret (), s))"

text \<open>\<open>if (!proved)\<close> tests whether the proof produced a value.\<close>

definition verify :: "'t env \<Rightarrow> certifiedTx \<Rightarrow> 't vstate \<Rightarrow> unit outcome \<times> 't vstate" where
  "verify E req s =
     (let proof_nodes = Prove (ops E) (blockchain s) (ctx_root req);
          proved = VerifyProof (ops E) (GetRoot (ops E) (blockchain s)) (ctx_root req) proof_nodes;
          vtx = \<lparr>vtx_txhash = ctx_hash req, vtx_verifying_peer = user s, vtx_party = ctx_party req,
                 vtx_counterparty = ctx_counterparty req, vtx_timestamp = ctx_timestamp req,
                 vtx_verification_status = (proved \<noteq> None)\<rparr>
      in (Ret (), put s (ctx_certifying_peer req) (wire E (pk_vtx E vtx))))"

section \<open>Certification\<close>

definition cert_key :: "certifiedTx \<Rightarrow> bytes" where
  "cert_key req = sha256 (pack_str (ctx_hash req))"

definition agree :: "certifiedTx \<Rightarrow> certifiedTx \<Rightarrow> bool" where
  "agree requests req \<longleftrightarrow> ctx_request requests = ctx_request req \<and> ctx_response requests = ctx_response req"

text \<open>First sight of a transaction: store it, and tell both parties when that fails.\<close>

definition certify_first :: "'t env \<Rightarrow> certifiedTx \<Rightarrow> 't vstate \<Rightarrow> unit outcome \<times> 't vstate" where
  "certify_first E req s =
     (let (ok, t) = Insert (ops E) (certificationRequests s) (ctx_hash req) (pk_ctx E req);
          s = s\<lparr>certificationRequests := t\<rparr>
      in if \<not> ok then
           let req = req\<lparr>ctx_certification_status := False, ctx_certifying_peer := user s\<rparr>;
               msg = wire E (pk_ctx E req)
           in (Ret (), put (put s (ctx_party req) msg) (ctx_counterparty req) msg)
         else (Ret (), s))"

definition certify_second ::
    "'t env \<Rightarrow> int \<Rightarrow> certifiedTx \<Rightarrow> certifiedTx \<Rightarrow> 't vstate \<Rightarrow> unit outcome \<times> 't vstate" where
  "certify_second E now requests req s =
     (let requests' = requests\<lparr>ctx_certification_status := agree requests req, ctx_timestamp := now,
                               ctx_certifying_peer := user s\<rparr>;
          msg = wire E (pk_ctx E requests');
          s = s\<lparr>certificationRequests := snd (Update (ops E) (certificationRequests s) (ctx_hash requests') msg)\<rparr>;
          s = put s (ctx_party req) msg;
          s = put s (ctx_counterparty requests') msg
      in if ctx_previous_verifyingPeers req = [] \<and> ctx_previous_verifyingPeers requests' = [] \<and> agree requests' req
         then verified E now
                \<lparr>vtx_txhash = ctx_hash req, vtx_verifying_peer = user s, vtx_party = ctx_party req,
                 vtx_counterparty = ctx_counterparty req, vtx_timestamp = now, vtx_verification_status = True\<rparr>
                network_root s
         else (Ret (), s))"

definition certify :: "'t env \<Rightarrow> int \<Rightarrow> certifiedTx \<Rightarrow> 't vstate \<Rightarrow> unit outcome \<times> 't vstate" where
  "certify E now req s =
     (case Select (ops E) (certificationRequests s) (cert_key req) of
        None \<Rightarrow> certify_first E req s
      | Some r \<Rightarrow>
        (case up_ctx E r of
           None \<Rightarrow> (Throw, s)
         | Some requests \<Rightarrow> certify_second E now requests req s))"

section \<open>What the certifying peer does\<close>

lemma threads_update_frame [frame_simps]:
  "outbox (s\<lparr>threads := x\<rparr>) = outbox s" "blockchain (s\<lparr>threads := x\<rparr>) = blockchain s"
  by simp_all

text \<open>
  What \<open>verified\<close> does to the chain, the outbox and the threads. One block is added under its hash, the digest of the decimal index and time, the packed
  transaction and the printed identifier of the verifier; no other key of the chain changes.
\<close>

definition verified_key :: "'t env \<Rightarrow> int \<Rightarrow> verifiedTx \<Rightarrow> hash \<Rightarrow> 't vstate \<Rightarrow> bytes" where
  "verified_key E now tx verifier s =
     sha256 (dec_nat (trie_size (ops E) (blockchain s) mod 2 ^ 32) @ dec_int now @ c_str (pk_vtx E tx) @ toString verifier)"

definition verified_text :: "'t env \<Rightarrow> int \<Rightarrow> verifiedTx \<Rightarrow> hash \<Rightarrow> 't vstate \<Rightarrow> bytes" where
  "verified_text E now tx verifier s = wire E (pk_block E \<lparr>blk_index = of_nat (trie_size (ops E) (blockchain s)), blk_data = c_str (pk_vtx E tx),
     blk_hash = verified_key E now tx verifier s, blk_time = now, blk_prevHash = toString verifier\<rparr>)"

lemma verified_block:
  "block_key (new_block (getSize E s) (c_str (pk_vtx E tx)) verifier now) = verified_key E now tx verifier s"
  "block_text E (new_block (getSize E s) (c_str (pk_vtx E tx)) verifier now) = verified_text E now tx verifier s"
  by (simp_all add: block_key_def block_text_def verified_key_def verified_text_def new_block_def hash_input_def getSize_def unsigned_of_nat
      take_bit_eq_mod)

lemma verified_effect:
  assumes "verified E now tx verifier s = (r, s')" and "trie_lawful (ops E)"
  shows "outbox s' = outbox s @ [(vtx_party tx, wire E (pk_vtx E tx)), (vtx_counterparty tx, wire E (pk_vtx E tx))]"
    and "Select (ops E) (blockchain s') =
       (if fst (Insert (ops E) (blockchain s) (verified_key E now tx verifier s) (verified_text E now tx verifier s))
        then (Select (ops E) (blockchain s))(verified_key E now tx verifier s \<mapsto> verified_text E now tx verifier s) else Select (ops E) (blockchain s))"
    and "threads s' = threads s @ (if vtx_verification_status tx then [(vtx_party tx, Certifications), (vtx_counterparty tx, Certifications)] else [])"
    and "r = (if vtx_verification_status tx then Terminate else Ret ())"
    and "certificationRequests s' = certificationRequests s" "astore s' = astore s" "cstore s' = cstore s" "transactionStore s' = transactionStore s"
proof -
  let ?b = "new_block (getSize E s) (c_str (pk_vtx E tx)) verifier now"
  have "blockchain s' = blockchain (addBlock E ?b s)"
    using assms(1) by (auto simp: verified_def Let_def start_thread_def frame_simps split: if_splits)
  then show "Select (ops E) (blockchain s') =
       (if fst (Insert (ops E) (blockchain s) (verified_key E now tx verifier s) (verified_text E now tx verifier s))
        then (Select (ops E) (blockchain s))(verified_key E now tx verifier s \<mapsto> verified_text E now tx verifier s) else Select (ops E) (blockchain s))"
    using addBlock_Select [OF assms(2), of ?b s] by (simp add: verified_block)
qed (use assms(1) in \<open>auto simp: verified_def Let_def start_thread_def frame_simps split: if_splits\<close>)

text \<open>With a successful status two listener threads are started on one \<open>std::thread\<close> member and the process is terminated.\<close>

lemma verified_terminates: "vtx_verification_status tx \<Longrightarrow> fst (verified E now tx verifier s) = Terminate"
  by (auto simp: verified_def Let_def start_thread_def)

definition test_vtx :: "bool \<Rightarrow> verifiedTx" where
  "test_vtx ok = \<lparr>vtx_txhash = [1, 2, 3], vtx_verifying_peer = replicate 20 7, vtx_party = replicate 20 1,
     vtx_counterparty = replicate 20 2, vtx_timestamp = 5, vtx_verification_status = ok\<rparr>"

definition test_ctx :: certifiedTx where
  "test_ctx = \<lparr>ctx_root = None, ctx_type = lit ''certify'', ctx_hash = [1, 2, 3], ctx_certifying_peer = hash_zero 20,
     ctx_previous_verifyingPeers = [replicate 20 9], ctx_counterparty = replicate 20 2, ctx_party = replicate 20 1,
     ctx_request = [4], ctx_response = [5], ctx_certification_status = False, ctx_timestamp = 0\<rparr>"

section \<open>The certification lookup never finds a request\<close>

text \<open>A peer's handling of a sequence of certification requests with their arrival times.\<close>

fun certify_all :: "'t env \<Rightarrow> (int \<times> certifiedTx) list \<Rightarrow> 't vstate \<Rightarrow> unit outcome \<times> 't vstate" where
  "certify_all E [] s = (Ret (), s)"
| "certify_all E ((now, req) # reqs) s = and_then (certify E now req s) (\<lambda>_. certify_all E reqs)"

text \<open>
  No sequence of certification requests is ever certified. A request is stored under the transaction
  hash but looked up under the digest of the packed transaction hash. Starting from a store that holds none of the
  lookup keys, and with no transaction hash that is the digest of another one, every request of the sequence,
  repeated ones and both halves of a matching pair included, is only stored: no message is sent, nothing reaches the chain.
\<close>

theorem certify_never_matches:
  assumes "trie_lawful (ops E)" and "\<And>t k v. fst (Insert (ops E) t k v)"
    and "\<forall>r\<in>set reqs. Select (ops E) (certificationRequests s) (cert_key (snd r)) = None"
    and "\<forall>r\<in>set reqs. \<forall>r'\<in>set reqs. ctx_hash (snd r') \<noteq> cert_key (snd r)"
  shows "\<exists>s'. certify_all E reqs s = (Ret (), s') \<and> outbox s' = outbox s \<and> blockchain s' = blockchain s
     \<and> (\<forall>r\<in>set reqs. Select (ops E) (certificationRequests s') (ctx_hash (snd r)) \<noteq> None)"
proof -
  have "\<exists>s'. certify_all E reqs s = (Ret (), s') \<and> outbox s' = outbox s \<and> blockchain s' = blockchain s
     \<and> dom (Select (ops E) (certificationRequests s))  \<union> (\<lambda>r. ctx_hash (snd r)) ` set reqs
         \<subseteq> dom (Select (ops E) (certificationRequests s'))"
    using assms(3,4)
  proof (induction reqs arbitrary: s)
    case Nil
    then show ?case by simp
  next
    case (Cons a reqs)
    obtain now req where a: "a = (now, req)" by force
    obtain t where ins: "Insert (ops E) (certificationRequests s) (ctx_hash req) (pk_ctx E req) = (True, t)"
      using assms(2) by (metis prod.collapse)
    have run: "certify E now req s = (Ret (), s\<lparr>certificationRequests := t\<rparr>)"
      using Cons.prems(1) ins a by (simp add: certify_def certify_first_def)
    have "\<forall>r\<in>set reqs. Select (ops E) t (cert_key (snd r)) = None"
      using Cons.prems Select_Insert [OF assms(1) ins] a by fastforce
    with Cons.IH [of "s\<lparr>certificationRequests := t\<rparr>"] Cons.prems(2) obtain s' where
      "certify_all E reqs (s\<lparr>certificationRequests := t\<rparr>) = (Ret (), s')" "outbox s' = outbox s" "blockchain s' = blockchain s"
      "dom (Select (ops E) t) \<union> (\<lambda>r. ctx_hash (snd r)) ` set reqs \<subseteq> dom (Select (ops E) (certificationRequests s'))"
      by auto
    moreover have "dom (Select (ops E) t) = insert (ctx_hash req) (dom (Select (ops E) (certificationRequests s)))"
      using Select_Insert [OF assms(1) ins] by (auto simp: dom_def)
    ultimately show ?case using run a by auto
  qed
  then show ?thesis by blast
qed

theorem certify_never_matches_witness:
  "\<exists>s'. certify_all (test_env (\<lambda>_. Some test_ctx)) [(1, test_ctx), (2, test_ctx)] test_state = (Ret (), s') \<and> outbox s' = []"
proof -
  have "ctx_hash test_ctx \<noteq> cert_key test_ctx"
    using length_sha256 [of "pack_str (ctx_hash test_ctx)"] by (auto simp: cert_key_def test_ctx_def)
  then show ?thesis
    using certify_never_matches [of "test_env (\<lambda>_. Some test_ctx)" "[(1, test_ctx), (2, test_ctx)]" test_state]
      alist_ops_lawful by (auto simp: alist_ops_def test_state_def)
qed

end
