(* ===== verification/Client.thy ===== *)
theory Client
  imports Transactions "HOL-Library.Sublist"
begin

text \<open>
  The client (\<open>client.cpp\<close>): the listeners that react to messages from the network and the two entry
  points of the local run time. A peer is an event machine over these handlers.
\<close>

section \<open>Operations\<close>

definition startListening :: "hash \<Rightarrow> bool \<Rightarrow> 't vstate \<Rightarrow> bool outcome \<times> 't vstate" where
  "startListening userid joinable s =
     (let s = s\<lparr>user := userid, sessions := sessions s @ [userid]\<rparr> in
      and_then (start_thread userid Requests joinable s) (\<lambda>j s.
      and_then (start_thread userid CertificationRequests j s) (\<lambda>j s.
        start_thread userid Verifications j s)))"

definition stopListening :: "hash \<Rightarrow> 't vstate \<Rightarrow> 't vstate" where
  "stopListening userid s = s\<lparr>cancels := cancels s @
     [(user s, Requests), (user s, CertificationRequests), (user s, Verifications)]\<rparr>"

text \<open>The callbacks of the four listeners; each returns true to keep listening.\<close>

definition listenToRequests :: "request \<Rightarrow> 't vstate \<Rightarrow> bool outcome \<times> 't vstate" where
  "listenToRequests req s =
     (if req_type req = lit ''request'' then (Ret True, s)
      else if req_type req = lit ''response'' then (Ret True, s)
      else (Ret True, s))"

definition listenToCertificationRequests ::
    "'t env \<Rightarrow> int \<Rightarrow> certifiedTx \<Rightarrow> 't vstate \<Rightarrow> bool outcome \<times> 't vstate" where
  "listenToCertificationRequests E now req s =
     and_then
       (if ctx_type req = lit ''certify'' then certify E now req s else (Ret (), s))
       (\<lambda>_ s. (Ret True, s))"

definition listenToCertifications :: "'t env \<Rightarrow> certifiedTx \<Rightarrow> 't vstate \<Rightarrow> bool outcome \<times> 't vstate" where
  "listenToCertifications E req s =
     and_then
       (if ctx_type req = lit ''certified'' then
          if ctx_certification_status req then verify E req s else (Ret (), s)
        else (Ret (), s))
       (\<lambda>_ s. (Ret True, s))"

definition listenToVerifications ::
    "'t env \<Rightarrow> int \<Rightarrow> verifiedTx \<Rightarrow> 't vstate \<Rightarrow> bool outcome \<times> 't vstate" where
  "listenToVerifications E now req s =
     and_then
       (if user s = vtx_party req \<or> user s = vtx_counterparty req then
          if vtx_verification_status req then
            (Ret (), s\<lparr>transactionStore :=
               snd (Insert (ops E) (transactionStore s) (vtx_txhash req) (wire E (pk_vtx E req)))\<rparr>)
          else (Ret (), s)
        else verified E now req (user s) s)
       (\<lambda>_ s. (Ret True, s))"

definition handleOutboundRequest :: "'t env \<Rightarrow> request \<Rightarrow> 't vstate \<Rightarrow> bool outcome \<times> 't vstate" where
  "handleOutboundRequest E req s =
     and_then (recordRequest E (toString (user s)) req s) (\<lambda>ok s.
       if ok then and_then (transaction_out E req s) (\<lambda>_ s. (Ret True, s)) else (Ret False, s))"

definition handleInboundResponse :: "'t env \<Rightarrow> request \<Rightarrow> 't vstate \<Rightarrow> bool outcome \<times> 't vstate" where
  "handleInboundResponse E resp s =
     and_then (recordRequest E (toString (user s)) resp s) (\<lambda>ok s.
       if ok then and_then (transaction_in E resp s) (\<lambda>_ s. (Ret True, s)) else (Ret False, s))"

section \<open>The peer as an event machine\<close>

datatype event =
    Outbound request
  | Inbound request
  | Request_msg request
  | Certification_request_msg int certifiedTx
  | Certification_msg certifiedTx
  | Verification_msg int verifiedTx

fun handle :: "'t env \<Rightarrow> event \<Rightarrow> 't vstate \<Rightarrow> bool outcome \<times> 't vstate" where
  "handle E (Outbound req) s = handleOutboundRequest E req s"
| "handle E (Inbound resp) s = handleInboundResponse E resp s"
| "handle E (Request_msg req) s = listenToRequests req s"
| "handle E (Certification_request_msg now req) s = listenToCertificationRequests E now req s"
| "handle E (Certification_msg req) s = listenToCertifications E req s"
| "handle E (Verification_msg now req) s = listenToVerifications E now req s"

text \<open>A handler that returns, or that an exception leaves, ends a step; the others end the process.\<close>

inductive peer_step :: "'t env \<Rightarrow> 't vstate \<Rightarrow> event \<Rightarrow> 't vstate \<Rightarrow> bool" for E where
  "handle E e s = (r, s') \<Longrightarrow> r \<noteq> Terminate \<Longrightarrow> r \<noteq> Undef \<Longrightarrow> peer_step E s e s'"

inductive_cases peer_stepE: "peer_step E s e s'"

text \<open>The order in which a peer's state moves: no recorded request, transaction or block is lost, the send log only grows.\<close>

definition store_grows :: "'t env \<Rightarrow> 't \<Rightarrow> 't \<Rightarrow> bool" where
  "store_grows E t t' \<longleftrightarrow> (\<forall>k. Select (ops E) t k \<noteq> None \<longrightarrow> Select (ops E) t' k \<noteq> None)"

definition peer_grows :: "'t env \<Rightarrow> 't vstate \<Rightarrow> 't vstate \<Rightarrow> bool" where
  "peer_grows E s s' \<longleftrightarrow> store_grows E (astore s) (astore s')
     \<and> store_grows E (transactionStore s) (transactionStore s')
     \<and> store_grows E (blockchain s) (blockchain s')
     \<and> cstore s' = cstore s \<and> user s' = user s \<and> sessions s' = sessions s
     \<and> prefix (outbox s) (outbox s')"

lemma store_grows_refl [simp]: "store_grows E t t"
  by (simp add: store_grows_def)

lemma store_grows_Insert: "trie_lawful (ops E) \<Longrightarrow> store_grows E t (snd (Insert (ops E) t k v))"
  using Select_Insert [OF _ surjective_pairing] by (fastforce simp: store_grows_def)

lemma peer_grows_refl [simp]: "peer_grows E s s"
  by (simp add: peer_grows_def)

lemma peer_grows_trans: "peer_grows E s s1 \<Longrightarrow> peer_grows E s1 s2 \<Longrightarrow> peer_grows E s s2"
  by (auto simp: peer_grows_def store_grows_def intro: prefix_order.trans)

lemma peer_grows_put [inv_intros]: "peer_grows E s (put s h v)"
  by (simp add: peer_grows_def frame_simps)

lemma peer_grows_addBlock [inv_intros]: "trie_lawful (ops E) \<Longrightarrow> peer_grows E s (addBlock E b s)"
  using store_grows_Insert [of E "blockchain s"]
  by (simp add: peer_grows_def frame_simps) (simp add: addBlock_def calculateHash_def Let_def)

lemma peer_grows_threads [inv_intros]: "peer_grows E s (s\<lparr>threads := x\<rparr>)"
  by (simp add: peer_grows_def)

lemma and_then_grows [inv_intros]:
  assumes "peer_grows E s (snd m)" and "\<And>x s1. m = (Ret x, s1) \<Longrightarrow> peer_grows E s1 (snd (f x s1))"
  shows "peer_grows E s (snd (and_then m f))"
  using assms by (induction m f rule: and_then.induct) (auto intro: peer_grows_trans)

lemma verified_grows [inv_intros]:
  assumes "trie_lawful (ops E)"
  shows "peer_grows E s (snd (verified E now tx verifier s))"
proof -
  define s1 where "s1 = put (put (addBlock E (new_block (getSize E s) (c_str (pk_vtx E tx)) verifier now) s)
    (vtx_party tx) (wire E (pk_vtx E tx))) (vtx_counterparty tx) (wire E (pk_vtx E tx))"
  have "peer_grows E s s1"
    unfolding s1_def by (meson assms peer_grows_addBlock peer_grows_put peer_grows_trans)
  moreover have "snd (verified E now tx verifier s) = s1 \<or> (\<exists>x. snd (verified E now tx verifier s) = s1\<lparr>threads := x\<rparr>)"
    by (auto simp: verified_def Let_def s1_def start_thread_def)
  ultimately show ?thesis using peer_grows_threads peer_grows_trans by metis
qed

lemma send_request_grows [inv_intros]: "peer_grows E s (snd (send_request E req s))"
  by (auto simp: send_request_def Let_def intro: inv_intros split: option.splits)

lemma transaction_out_grows [inv_intros]: "peer_grows E s (snd (transaction_out E req s))"
  by (auto simp: transaction_out_def Let_def intro: inv_intros)

lemma transaction_in_grows [inv_intros]: "peer_grows E s (snd (transaction_in E req s))"
  unfolding transaction_in_def by (rule and_then_grows) (auto simp: Let_def intro: inv_intros)

lemma verify_grows [inv_intros]: "peer_grows E s (snd (verify E req s))"
  by (auto simp: verify_def Let_def intro: inv_intros)

lemma certs_grows: "peer_grows E s (s\<lparr>certificationRequests := t\<rparr>)"
  by (simp add: peer_grows_def)

lemma certify_first_grows [inv_intros]: "peer_grows E s (snd (certify_first E req s))"
  by (auto simp: certify_first_def Let_def intro: peer_grows_trans [OF _ peer_grows_put] certs_grows split: prod.splits)

lemma certify_second_grows [inv_intros]:
  assumes "trie_lawful (ops E)"
  shows "peer_grows E s (snd (certify_second E now requests req s))"
proof -
  define s1 where "s1 = s\<lparr>certificationRequests := snd (Update (ops E) (certificationRequests s) (ctx_hash requests)
    (wire E (pk_ctx E (requests\<lparr>ctx_certification_status := agree requests req, ctx_timestamp := now,
      ctx_certifying_peer := user s\<rparr>))))\<rparr>"
  have "peer_grows E s s1"
    unfolding s1_def by (rule certs_grows)
  then have "peer_grows E s (put (put s1 h v) h' v')" for h v h' v'
    using peer_grows_put peer_grows_trans by blast
  moreover from this have "peer_grows E s (snd (verified E now tx r (put (put s1 h v) h' v')))" for h v h' v' tx r
    using verified_grows [OF assms] peer_grows_trans by blast
  ultimately show ?thesis
    by (simp add: certify_second_def Let_def s1_def)
qed

lemma certify_grows [inv_intros]: "trie_lawful (ops E) \<Longrightarrow> peer_grows E s (snd (certify E now req s))"
  by (auto simp: certify_def intro: inv_intros split: option.splits)

lemma recordRequest_grows [inv_intros]:
  assumes "trie_lawful (ops E)"
  shows "peer_grows E s (snd (recordRequest E peer req s))"
proof -
  have "peer_grows E s (s\<lparr>astore := snd (Insert (ops E) (astore s) k v)\<rparr>)" for k v
    using store_grows_Insert [OF assms] by (simp add: peer_grows_def)
  then show ?thesis
    unfolding recordRequest_def
    by (auto simp: Let_def case_prod_beta intro!: and_then_grows split: option.splits)
qed

lemma handle_grows: "trie_lawful (ops E) \<Longrightarrow> peer_grows E s (snd (handle E e s))"
proof (cases e)
  case (Verification_msg now req)
  assume lawful: "trie_lawful (ops E)"
  have "peer_grows E s (s\<lparr>transactionStore := snd (Insert (ops E) (transactionStore s) k v)\<rparr>)" for k v
    using store_grows_Insert [OF lawful] by (simp add: peer_grows_def)
  with Verification_msg lawful show ?thesis
    by (auto simp: listenToVerifications_def intro!: and_then_grows verified_grows)
qed (auto simp: handleOutboundRequest_def handleInboundResponse_def listenToRequests_def
    listenToCertificationRequests_def listenToCertifications_def intro!: and_then_grows intro: inv_intros)

interpretation peer: event_machine "peer_step E" "\<lambda>_. trie_lawful (ops E)" "peer_grows E" for E
proof unfold_locales
  fix s e s'
  assume "peer_step E s e s'" and lawful: "trie_lawful (ops E)"
  then show "peer_grows E s s'"
    using handle_grows [OF lawful, of s e] by (auto elim!: peer_stepE)
qed (auto intro: peer_grows_trans)

section \<open>Properties of a peer\<close>

lemma recorded_refused:
  assumes "Select (ops E) (astore s) (asset_key req) \<noteq> None" and "req_encodedRequest req' = req_encodedRequest req"
  shows "handle E (Outbound req') s = (Ret False, s)" and "handle E (Inbound req') s = (Ret False, s)"
  using assms by (auto simp: handleOutboundRequest_def handleInboundResponse_def recordRequest_def asset_key_def)

lemma handled_recorded:
  assumes "trie_lawful (ops E)" and "recordRequest E (toString (user s)) req s = (Ret True, s1)" and "e = Outbound req \<or> e = Inbound req"
  shows "astore (snd (handle E e s)) = astore s1"
proof -
  have send: "astore (snd (send_request E q t)) = astore t" for q t
    by (auto simp: send_request_def Let_def frame_simps split: option.splits)
  have frame: "astore (snd (and_then m f)) = astore s1" if "astore (snd m) = astore s1" "\<And>x t. astore (snd (f x t)) = astore t"
    for m :: "'x outcome \<times> 'a vstate" and f :: "'x \<Rightarrow> 'a vstate \<Rightarrow> 'y outcome \<times> 'a vstate"
    using that by (induction m f rule: and_then.induct) auto
  have "astore (snd (transaction_out E req s1)) = astore s1" by (simp add: transaction_out_def send Let_def)
  moreover have "astore (snd (transaction_in E req s1)) = astore s1"
    unfolding transaction_in_def by (rule frame) (auto simp: send Let_def frame_simps)
  ultimately show ?thesis
    using assms(2,3) by (auto simp: handleOutboundRequest_def handleInboundResponse_def intro!: frame)
qed

text \<open>
  C29: A request is admitted once. When a peer that handles a call of its run time or an answer has admitted its request, then, whatever that call ends in and
  whatever messages and calls the peer handles afterwards, in any order, exceptions included, every later call and every answer
  with the same encoded request is refused: it returns false, changes nothing and sends nothing.
\<close>

theorem request_admitted_once:
  assumes "trie_lawful (ops E)" and "peer_step E s e s1" and "e = Outbound req \<or> e = Inbound req"
    and "fst (recordRequest E (toString (user s)) req s) = Ret True" and "run (peer_step E) s1 es s2"
    and "req_encodedRequest req' = req_encodedRequest req"
  shows "handle E (Outbound req') s2 = (Ret False, s2) \<and> handle E (Inbound req') s2 = (Ret False, s2)"
proof -
  obtain s0 where rec: "recordRequest E (toString (user s)) req s = (Ret True, s0)" using assms(4) by (metis prod.collapse)
  have "astore s1 = astore s0" using assms(2) handled_recorded [OF assms(1) rec assms(3)] by (auto elim!: peer_stepE)
  then have "Select (ops E) (astore s1) (asset_key req) \<noteq> None" using recordRequest_present [OF assms(1) rec] by simp
  moreover have "peer_grows E s1 s2" using peer.run_keeps [OF assms(5,1)] by simp
  ultimately have "Select (ops E) (astore s2) (asset_key req) \<noteq> None" by (simp add: peer_grows_def store_grows_def)
  from recorded_refused [OF this assms(6)] show ?thesis by blast
qed

text \<open>
  C31: What a verification message does. A party of the transaction stores a verified one under its hash and ignores one that failed. Any other peer adds one block to
  the chain, with the size of the chain as its index, the packed transaction as its data, its own identifier as the previous hash, under the digest of these and
  the time; it sends the transaction to the party and then to the counterparty, and if the status is a success the process is terminated by the two listeners it starts. No other
  key of any store changes; a store that refuses the write stays as it is.
\<close>

theorem verification_handled:
  assumes "trie_lawful (ops E)" and "handle E (Verification_msg now tx) s = (r, s')"
  shows "(user s = vtx_party tx \<or> user s = vtx_counterparty tx \<longrightarrow>
        r = Ret True \<and> s' = s\<lparr>transactionStore := transactionStore s'\<rparr>
      \<and> Select (ops E) (transactionStore s') =
          (if vtx_verification_status tx \<and> fst (Insert (ops E) (transactionStore s) (vtx_txhash tx) (wire E (pk_vtx E tx)))
           then (Select (ops E) (transactionStore s))(vtx_txhash tx \<mapsto> wire E (pk_vtx E tx)) else Select (ops E) (transactionStore s)))
    \<and> (user s \<noteq> vtx_party tx \<and> user s \<noteq> vtx_counterparty tx \<longrightarrow>
        r = (if vtx_verification_status tx then Terminate else Ret True)
      \<and> outbox s' = outbox s @ [(vtx_party tx, wire E (pk_vtx E tx)), (vtx_counterparty tx, wire E (pk_vtx E tx))]
      \<and> Select (ops E) (blockchain s') =
          (if fst (Insert (ops E) (blockchain s) (verified_key E now tx (user s) s) (verified_text E now tx (user s) s))
           then (Select (ops E) (blockchain s))(verified_key E now tx (user s) s \<mapsto> verified_text E now tx (user s) s) else Select (ops E) (blockchain s))
      \<and> certificationRequests s' = certificationRequests s \<and> astore s' = astore s \<and> cstore s' = cstore s \<and> transactionStore s' = transactionStore s
      \<and> threads s' = threads s @ (if vtx_verification_status tx then [(vtx_party tx, Certifications), (vtx_counterparty tx, Certifications)] else []))"
proof (cases "user s = vtx_party tx \<or> user s = vtx_counterparty tx")
  case True
  let ?k = "vtx_txhash tx" and ?v = "wire E (pk_vtx E tx)"
  obtain ok t where ins: "Insert (ops E) (transactionStore s) ?k ?v = (ok, t)" by force
  have "Select (ops E) t = (if ok then (Select (ops E) (transactionStore s))(?k \<mapsto> ?v) else Select (ops E) (transactionStore s))"
    using Select_Insert [OF assms(1) ins] by (auto simp: fun_eq_iff)
  then show ?thesis using True assms(2) ins by (auto simp: listenToVerifications_def)
next
  case False
  obtain r0 where v: "verified E now tx (user s) s = (r0, s')" and r: "r = (if vtx_verification_status tx then Terminate else Ret True)"
  proof -
    obtain r0 s0 where v: "verified E now tx (user s) s = (r0, s0)" by force
    then have "r0 = (if vtx_verification_status tx then Terminate else Ret ())" by (rule verified_effect(4) [OF _ assms(1)])
    then show ?thesis using that [of r0] v False assms(2) by (auto simp: listenToVerifications_def split: if_splits)
  qed
  then show ?thesis using False verified_effect [OF v assms(1)] by simp
qed

section \<open>Sign-in, lost requests and ignored certifications\<close>

text \<open>
  Starting to listen ends the process: the second of the three threads is assigned to the member that holds the
  first, still joinable one. The user and the session are recorded and two threads exist at that point, the listener for
  verifications is never started.
\<close>

lemma startListening_terminates:
  "fst (startListening userid False s) = Terminate
   \<and> user (snd (startListening userid False s)) = userid
   \<and> threads (snd (startListening userid False s)) = threads s @ [(userid, Requests), (userid, CertificationRequests)]"
  by (simp add: startListening_def start_thread_def Let_def)

text \<open>
  A first request of a peer whose transaction store does not yet end in a decodable transaction is lost. The call
  ends in an exception after the request has been recorded and before anything is sent, and the same request is refused from then on.
\<close>

lemma first_request_lost:
  assumes "trie_lawful (ops E)" and "recordRequest E (toString (user s)) req s = (Ret True, s1)"
    and "up_ctx E (GetLast (ops E) (transactionStore s) 3) = None"
  shows "handleOutboundRequest E req s = (Throw, s1) \<and> outbox s1 = outbox s
     \<and> handleOutboundRequest E req s1 = (Ret False, s1)"
proof -
  note key = recordRequest_present [OF assms(1,2)] and frame = recordRequest_frame [OF assms(2)]
  have "handleOutboundRequest E req s = (Throw, s1)"
    using assms(2,3) frame by (simp add: handleOutboundRequest_def transaction_out_def send_request_def Let_def)
  moreover have "handleOutboundRequest E req s1 = (Ret False, s1)"
    using key by (auto simp: handleOutboundRequest_def recordRequest_def)
  ultimately show ?thesis using frame by simp
qed


definition lossy_state :: "(bytes \<times> bytes) list vstate" where
  "lossy_state = test_state\<lparr>cstore := [(toString (replicate 20 7), unary_balances \<lparr>bal_balance = 5, bal_currency = via\<rparr>)]\<rparr>"

lemma lossy_record:
  "recordRequest (test_env (\<lambda>_. None)) (toString (user lossy_state)) test_request lossy_state
     = (Ret True, snd (recordRequest (test_env (\<lambda>_. None)) (toString (user lossy_state)) test_request lossy_state))"
  by (simp add: recordRequest_def balanceOf_def lossy_state_def test_state_def alist_ops_def parse_unary_balances
      del: parse_balances.simps)

lemma first_request_lost_example:
  "fst (handleOutboundRequest (test_env (\<lambda>_. None)) test_request lossy_state) = Throw"
  using first_request_lost [OF _ lossy_record] alist_ops_lawful by (simp add: test_env_def)

text \<open>
  The certification request that \<open>transaction::in\<close> sends is not one that a certifying peer reacts to: its type is
  never set, and the listener acts only on the type \<open>certify\<close>. Receiving it changes nothing.
\<close>

lemma certification_request_ignored:
  "listenToCertificationRequests E now (certification_request E' req) s = (Ret True, s)"
  by (simp add: listenToCertificationRequests_def certification_request_def lit_def)

text \<open>
  An answer cannot be handled by a peer that recorded the request, and is treated as a new request by one that
  did not: \<open>handleInboundResponse\<close> calls \<open>recordRequest\<close>. After a successful \<open>handleOutboundRequest\<close> every response
  to the same encoded request is refused and changes nothing.
\<close>

lemma response_refused:
  assumes "trie_lawful (ops E)" and "handleOutboundRequest E req s = (Ret True, s1)"
    and "req_encodedRequest resp = req_encodedRequest req"
  shows "handleInboundResponse E resp s1 = (Ret False, s1)"
proof -
  from assms(2) obtain s0 req' where rec: "recordRequest E (toString (user s)) req s = (Ret True, s0)"
    and sent: "transaction_out E req s0 = (Ret req', s1)"
    by (auto simp: handleOutboundRequest_def and_then_Ret split: if_splits)
  have "astore s1 = astore s0"
    using sent by (auto simp: transaction_out_def send_request_def Let_def frame_simps split: option.splits)
  moreover have "Select (ops E) (astore s0) (asset_key req) \<noteq> None"
    using recordRequest_present [OF assms(1) rec] .
  ultimately show ?thesis
    using assms(3) by (auto simp: handleInboundResponse_def recordRequest_def asset_key_def)
qed

lemma transaction_out_Ret:
  "up_ctx E (GetLast (ops E) (transactionStore s) 3) = Some tx \<Longrightarrow> \<exists>r s'. transaction_out E req s = (Ret r, s')"
  by (simp add: transaction_out_def send_request_def Let_def)

lemma lossy_sent: "\<exists>s1. handleOutboundRequest (test_env (\<lambda>_. Some test_ctx)) test_request lossy_state = (Ret True, s1)"
proof -
  obtain r s0 where rec: "recordRequest (test_env (\<lambda>_. Some test_ctx)) (toString (user lossy_state)) test_request lossy_state = (r, s0)"
    by force
  have "r = Ret True"
    using rec by (simp add: recordRequest_def balanceOf_def lossy_state_def test_state_def alist_ops_def parse_unary_balances
        del: parse_balances.simps)
  moreover obtain r' s1 where "transaction_out (test_env (\<lambda>_. Some test_ctx)) test_request s0 = (Ret r', s1)"
    using transaction_out_Ret [of "test_env (\<lambda>_. Some test_ctx)" s0 test_ctx test_request] by (auto simp: test_env_def)
  ultimately show ?thesis using rec by (simp add: handleOutboundRequest_def)
qed

text \<open>The request recorded by a first call is refused after a certification request was handled in between.\<close>

theorem request_admitted_once_witness:
  "\<exists>s1 s2. peer_step (test_env (\<lambda>_. Some test_ctx)) lossy_state (Outbound test_request) s1
     \<and> peer_step (test_env (\<lambda>_. Some test_ctx)) s1 (Certification_request_msg 1 test_ctx) s2
     \<and> handle (test_env (\<lambda>_. Some test_ctx)) (Inbound test_request) s2 = (Ret False, s2)"
proof -
  let ?E = "test_env (\<lambda>_. Some test_ctx)"
  obtain s1 where s1: "handleOutboundRequest ?E test_request lossy_state = (Ret True, s1)" using lossy_sent by blast
  then have 1: "peer_step ?E lossy_state (Outbound test_request) s1" by (intro peer_step.intros [where r = "Ret True"]) simp_all
  have "certificationRequests s1 = []"
    using s1 by (auto simp: handleOutboundRequest_def and_then_Ret transaction_out_def send_request_def recordRequest_def lossy_state_def test_state_def
        Let_def frame_simps split: if_splits option.splits prod.splits)
  then obtain s2 where "handle ?E (Certification_request_msg 1 test_ctx) s1 = (Ret True, s2)"
    by (simp add: listenToCertificationRequests_def certify_def certify_first_def test_ctx_def alist_ops_def)
  then have 2: "peer_step ?E s1 (Certification_request_msg 1 test_ctx) s2" by (intro peer_step.intros [where r = "Ret True"]) simp_all
  have 3: "fst (recordRequest ?E (toString (user lossy_state)) test_request lossy_state) = Ret True"
    using s1 by (auto simp: handleOutboundRequest_def and_then_Ret split: if_splits)
  have 4: "run (peer_step ?E) s1 [Certification_request_msg 1 test_ctx] s2" using 2 by (auto simp: run_Cons_iff run_Nil_iff)
  have "trie_lawful (ops ?E)" using alist_ops_lawful by simp
  from request_admitted_once [OF this 1 disjI1 [OF refl] 3 4 refl] show ?thesis using 1 2 by blast
qed

theorem verification_handled_witness:
  "\<exists>s'. handle (test_env (\<lambda>_. None)) (Verification_msg 9 (test_vtx False)) test_state = (Ret True, s')
     \<and> outbox s' = [(replicate 20 1, [3, 2]), (replicate 20 2, [3, 2])]
     \<and> map_of (blockchain s') (sha256 (lit ''09'' @ [3, 2] @ toString (replicate 20 7))) = Some [6]"
proof -
  let ?E = "test_env (\<lambda>_. None)"
  have u: "user test_state \<noteq> vtx_party (test_vtx False) \<and> user test_state \<noteq> vtx_counterparty (test_vtx False)" by (simp add: test_state_def test_vtx_def)
  have w: "wire ?E (pk_vtx ?E (test_vtx False)) = [3, 2]" "c_str (pk_vtx ?E (test_vtx False)) = [3, 2]" "verified_text ?E 9 (test_vtx False) h s = [6]" for h s
    by (simp_all add: test_env_def test_vtx_def wire_def c_str_def verified_text_def)
  have k: "verified_key ?E 9 (test_vtx False) (user test_state) test_state = sha256 (lit ''09'' @ [3, 2] @ toString (replicate 20 7))"
    by (simp add: verified_key_def w alist_ops_def test_state_def dec_nat.simps dec_int_def lit_def)
  note effect = verification_handled [of ?E 9 "test_vtx False" test_state, OF _ surjective_pairing]
  show ?thesis using effect u alist_ops_lawful w k
    by (intro exI [of _ "snd (handle ?E (Verification_msg 9 (test_vtx False)) test_state)"]) (auto simp: alist_ops_def test_vtx_def test_state_def intro: prod_eqI)
qed

lemma response_refused_example:
  "\<exists>s1. handleOutboundRequest (test_env (\<lambda>_. Some test_ctx)) test_request lossy_state = (Ret True, s1)
     \<and> handleInboundResponse (test_env (\<lambda>_. Some test_ctx)) test_request s1 = (Ret False, s1)"
  using lossy_sent response_refused [of "test_env (\<lambda>_. Some test_ctx)" test_request lossy_state _ test_request]
    alist_ops_lawful by auto

end
