(* ===== verification/Peer.thy ===== *)
theory Peer
  imports Client
begin

text \<open>
  Sign-up, sign-in and sign-out (\<open>peer.cpp\<close>) and the start of the network node (\<open>node.cpp\<close>). The key
  pair functions come from \<open>dht::crypto\<close> on top of GnuTLS and the identifier function is a digest from
  the same library: they are the fields of \<open>crypto_ops\<close>. \<open>DhtRunner\<close> appears through what is asked of it.
\<close>

record crypto_ops =
  id_get :: "bytes \<Rightarrow> hash"
  import_key :: "bytes \<Rightarrow> bytes \<Rightarrow> bool"
  encrypt :: "bytes \<Rightarrow> bytes \<Rightarrow> bytes \<Rightarrow> bytes"
  decrypt :: "bytes \<Rightarrow> bytes \<Rightarrow> bytes \<Rightarrow> bytes option"

text \<open>
  \<open>import_key\<close> tells whether \<open>PrivateKey(user, pwd)\<close> accepts its input (it throws otherwise);
  \<open>encrypt\<close> and \<open>decrypt\<close> take the same two values as names of the key pair. \<open>public_key\<close> is the pair
  whose public half is stored.
\<close>

record 't peer_state =
  peer_userid :: hash
  logged :: bool
  public_key :: "(bytes \<times> bytes) option"
  dht_running :: bool
  bootstraps :: "(bytes \<times> bytes) list"
  signed_puts :: "(hash \<times> bytes) list"
  gets :: "hash list"
  process :: "'t vstate"

text \<open>
  \<open>node::start()\<close>. The local \<open>node\<close> object of the caller then dies with its joinable worker thread, so
  the caller never goes on.
\<close>

definition node_start :: "'t peer_state \<Rightarrow> 't peer_state" where
  "node_start p = p\<lparr>dht_running := True, bootstraps := bootstraps p @ [(lit ''bootstrap.ring.cx'', lit ''4222'')]\<rparr>"

definition ensure_running :: "'t peer_state \<Rightarrow> unit outcome \<times> 't peer_state" where
  "ensure_running p = (if \<not> dht_running p then (Terminate, node_start p) else (Ret (), p))"

definition load_key :: "crypto_ops \<Rightarrow> bytes \<Rightarrow> bytes \<Rightarrow> 't peer_state \<Rightarrow> unit outcome \<times> 't peer_state" where
  "load_key C username pwd p =
     (let p = p\<lparr>peer_userid := id_get C (username @ pwd)\<rparr> in
      if import_key C (peer_userid p) pwd
      then (Ret (), p\<lparr>public_key := Some (peer_userid p, pwd)\<rparr>) else (Throw, p))"

text \<open>The key of the put is built from the C string of the identifier, through \<open>InfoHash(std::string)\<close>.\<close>

definition user_key :: "'t peer_state \<Rightarrow> hash" where
  "user_key p = hash_of_string 20 (toString (peer_userid p))"

definition signup :: "crypto_ops \<Rightarrow> bytes \<Rightarrow> bytes \<Rightarrow> 't peer_state \<Rightarrow> int outcome \<times> 't peer_state" where
  "signup C username pwd p =
     and_then (ensure_running p) (\<lambda>_ p.
     and_then (load_key C username pwd p) (\<lambda>_ p.
       (Ret 1, p\<lparr>signed_puts := signed_puts p @ [(user_key p, encrypt C (peer_userid p) pwd (peer_userid p))]\<rparr>)))"

definition signin :: "crypto_ops \<Rightarrow> bytes \<Rightarrow> bytes \<Rightarrow> 't peer_state \<Rightarrow> bytes outcome \<times> 't peer_state" where
  "signin C username pwd p =
     and_then (ensure_running p) (\<lambda>_ p.
     and_then (load_key C username pwd p) (\<lambda>_ p.
       (Ret (toString (peer_userid p)), p\<lparr>gets := gets p @ [user_key p]\<rparr>)))"

text \<open>
  The callback of the lookup that \<open>signin\<close> starts, called with the values found. Both branches of the
  loop body return, so only the first value is tried; without any value the lambda ends without a value.
  A successful sign-in goes through \<open>startListening\<close> of a fresh client.
\<close>

definition signin_values ::
    "crypto_ops \<Rightarrow> bytes \<Rightarrow> bytes list \<Rightarrow> 't peer_state \<Rightarrow> int outcome \<times> 't peer_state" where
  "signin_values C pwd vals p =
     (case vals of
        [] \<Rightarrow> (Undef, p)
      | v # _ \<Rightarrow>
        (case decrypt C (peer_userid p) pwd v of
           None \<Rightarrow> (Throw, p)
         | Some d \<Rightarrow>
           if peer_userid p = d then
             let p = p\<lparr>logged := True\<rparr>;
                 (r, s) = and_then (startListening (peer_userid p) False (process p)) destroy_client
             in and_then (r, p\<lparr>process := s\<rparr>) (\<lambda>_ p. (Ret 1, p))
           else (Ret 0, p)))"

definition signout :: "'t peer_state \<Rightarrow> int outcome \<times> 't peer_state" where
  "signout p = (Ret 1, p\<lparr>dht_running := False, logged := False,
     process := stopListening (peer_userid p) (process p)\<rparr>)"

section \<open>What does not work\<close>

text \<open>
  The private key is read from the twenty bytes of the user identifier; when the import refuses them, sign-up and sign-in throw and nothing is put or asked for.
\<close>

lemma signup_refused:
  assumes "dht_running p" and "\<not> import_key C (id_get C (name @ pwd)) pwd"
  shows "fst (signup C name pwd p) = Throw \<and> signed_puts (snd (signup C name pwd p)) = signed_puts p
     \<and> fst (signin C name pwd p) = Throw \<and> gets (snd (signin C name pwd p)) = gets p"
  using assms by (simp add: signup_def signin_def ensure_running_def load_key_def Let_def)

text \<open>Only the first value found is tried, and without one the callback ends without a value.\<close>

lemma signin_first_value: "signin_values C pwd (v # vs) p = signin_values C pwd [v] p" "fst (signin_values C pwd [] p) = Undef"
  by (simp_all add: signin_values_def)

end
