(* ===== verification/Std_Map.thy ===== *)
theory Std_Map
  imports VN_Prelude
begin

text \<open>
  \<open>std::map\<close> and \<open>std::multimap\<close> as association lists in key order: what iteration visits is the list,
  what lookup finds is \<open>map_of\<close>. The locale at the end is the contract of an ordered map that the
  components rely on; it is interpreted on the operations of this theory.
\<close>

definition map_sorted :: "('k::linorder \<times> 'v) list \<Rightarrow> bool" where
  "map_sorted m = sorted_wrt (<) (map fst m)"

text \<open>\<open>m[k] = v\<close>: replaces the value or adds the key at its place.\<close>

fun map_put :: "'k::linorder \<Rightarrow> 'v \<Rightarrow> ('k \<times> 'v) list \<Rightarrow> ('k \<times> 'v) list" where
  "map_put k v [] = [(k, v)]"
| "map_put k v ((k', v') # m) =
     (if k < k' then (k, v) # (k', v') # m
      else if k = k' then (k, v) # m
      else (k', v') # map_put k v m)"

text \<open>\<open>emplace\<close> keeps the value of a key that is present and tells whether it inserted.\<close>

definition map_emplace :: "'k::linorder \<Rightarrow> 'v \<Rightarrow> ('k \<times> 'v) list \<Rightarrow> bool \<times> ('k \<times> 'v) list" where
  "map_emplace k v m = (case map_of m k of None \<Rightarrow> (True, map_put k v m) | Some _ \<Rightarrow> (False, m))"

definition map_erase :: "'k \<Rightarrow> ('k \<times> 'v) list \<Rightarrow> ('k \<times> 'v) list" where
  "map_erase k m = filter (\<lambda>e. fst e \<noteq> k) m"

text \<open>A multimap puts a new entry behind the entries with an equal key.\<close>

fun multimap_emplace :: "'k::linorder \<Rightarrow> 'v \<Rightarrow> ('k \<times> 'v) list \<Rightarrow> ('k \<times> 'v) list" where
  "multimap_emplace k v [] = [(k, v)]"
| "multimap_emplace k v ((k', v') # m) =
     (if k < k' then (k, v) # (k', v') # m else (k', v') # multimap_emplace k v m)"

section \<open>Laws\<close>

lemma set_fst_map_put: "fst ` set (map_put k v m) = insert k (fst ` set m)"
  by (induction k v m rule: map_put.induct) auto

lemma map_put_sorted [simp]: "map_sorted m \<Longrightarrow> map_sorted (map_put k v m)"
proof (induction k v m rule: map_put.induct)
  case (2 k v k' v' m)
  have "\<forall>x\<in>fst ` set (map_put k v m). k' < x" if "k' < k"
    using 2(2) that set_fst_map_put [of k v m] by (auto simp: map_sorted_def)
  then show ?case using 2 by (auto simp: map_sorted_def not_less_iff_gr_or_eq)
qed (simp add: map_sorted_def)

lemma map_sorted_Cons: "map_sorted ((k, v) # m) \<longleftrightarrow> (\<forall>x\<in>fst ` set m. k < x) \<and> map_sorted m"
  by (auto simp: map_sorted_def)

lemma map_of_map_put [simp]: "map_sorted m \<Longrightarrow> map_of (map_put k v m) = (map_of m)(k \<mapsto> v)"
proof (induction k v m rule: map_put.induct)
  case (2 k v k' v' m)
  then show ?case by (auto simp: map_sorted_Cons fun_eq_iff)
qed simp

lemma map_erase_sorted [simp]: "map_sorted m \<Longrightarrow> map_sorted (map_erase k m)"
  unfolding map_erase_def by (induction m) (auto simp: map_sorted_def)

lemma map_of_map_erase [simp]: "map_of (map_erase k m) = (map_of m)(k := None)"
  unfolding map_erase_def by (induction m) (auto simp: fun_eq_iff)

lemma map_emplace_sorted [simp]: "map_sorted m \<Longrightarrow> map_sorted (snd (map_emplace k v m))"
  by (simp add: map_emplace_def split: option.splits)

lemma map_of_map_emplace:
  "map_sorted m \<Longrightarrow> map_of (snd (map_emplace k v m)) = (if fst (map_emplace k v m) then (map_of m)(k \<mapsto> v) else map_of m)"
  by (simp add: map_emplace_def split: option.splits)

lemma map_emplace_fst: "fst (map_emplace k v m) \<longleftrightarrow> map_of m k = None"
  by (simp add: map_emplace_def split: option.splits)

lemma map_sorted_distinct: "map_sorted m \<Longrightarrow> distinct (map fst m)"
  by (simp add: map_sorted_def strict_sorted_iff)

lemma map_of_in_set: "map_sorted m \<Longrightarrow> map_of m k = Some v \<longleftrightarrow> (k, v) \<in> set m"
  using map_sorted_distinct map_of_eq_Some_iff by metis

lemma multimap_emplace_set [simp]: "set (multimap_emplace k v m) = insert (k, v) (set m)"
  by (induction k v m rule: multimap_emplace.induct) auto

lemma multimap_emplace_sorted [simp]:
  "sorted (map fst m) \<Longrightarrow> sorted (map fst (multimap_emplace k v m))"
proof (induction k v m rule: multimap_emplace.induct)
  case (2 k v k' v' m)
  have "\<forall>x\<in>set (map fst (multimap_emplace k v m)). k' \<le> x" if "k' \<le> k"
    using 2(2) that by auto
  then show ?case using 2 by auto
qed simp

lemma length_multimap_emplace [simp]: "length (multimap_emplace k v m) = Suc (length m)"
  by (induction k v m rule: multimap_emplace.induct) auto

section \<open>The contract\<close>

locale ordered_map =
  fixes find :: "'m \<Rightarrow> 'k::linorder \<Rightarrow> 'v option"
    and put :: "'k \<Rightarrow> 'v \<Rightarrow> 'm \<Rightarrow> 'm"
    and erase :: "'k \<Rightarrow> 'm \<Rightarrow> 'm"
    and ok :: "'m \<Rightarrow> bool"
  assumes find_put: "ok m \<Longrightarrow> find (put k v m) = (find m)(k \<mapsto> v)"
    and find_erase: "ok m \<Longrightarrow> find (erase k m) = (find m)(k := None)"
    and ok_put: "ok m \<Longrightarrow> ok (put k v m)"
    and ok_erase: "ok m \<Longrightarrow> ok (erase k m)"
begin

lemma find_erase_put: "ok m \<Longrightarrow> find m k = None \<Longrightarrow> find (erase k (put k v m)) = find m"
  using ok_put [of m k v] by (auto simp: find_put find_erase)

lemma puts_ok: "ok m \<Longrightarrow> ok (fold (\<lambda>(k, v). put k v) kvs m)"
  by (induction kvs arbitrary: m) (auto simp: ok_put)

lemma find_puts: "ok m \<Longrightarrow> find (fold (\<lambda>(k, v). put k v) kvs m) = find m ++ map_of (rev kvs)"
proof (induction kvs arbitrary: m)
  case Nil
  then show ?case by simp
next
  case (Cons a kvs)
  then show ?case by (cases a) (auto simp: find_put ok_put map_add_def fun_eq_iff split: option.splits)
qed

end

interpretation std_map: ordered_map map_of map_put map_erase map_sorted
  by unfold_locales simp_all

end
