(* ===== verification/Node_Requests.thy ===== *)
theory Node_Requests
  imports Info_Hash Msgpack Std_Map
begin

text \<open>
  Requests and nodes of the DHT (\<open>request.h\<close>, \<open>node.h\<close>, \<open>node.cpp\<close>). Both are shared objects: a
  \<open>Sp<Node>\<close> and a \<open>Sp<Request>\<close> are references into a heap. The callbacks of a request belong to the
  caller; a call of one is an entry of the log \<open>calls\<close>. A request's \<open>clear()\<close> drops them, which the flags record.
\<close>

type_synonym nref = nat
type_synonym rref = nat
type_synonym tid = uint32

section \<open>Data\<close>

datatype req_state = PENDING | CANCELLED | EXPIRED | COMPLETED

datatype message_type = Error | Reply | Ping | FindNode | GetValues | AnnounceValue | Refresh | Listen | ValueData | ValueUpdate | UpdateValue

record dht_request =
  rq_node :: nref
  rq_reply_time :: time_point
  rq_tid :: tid
  rq_type :: message_type
  rq_state :: req_state
  attempt_count :: uint32
  attempt_duration :: int
  start :: time_point
  last_try :: time_point
  callbacks :: bool
  on_error :: bool
  rq_msg :: bytes
  rq_parts :: "bytes list"

record dht_node =
  n_id :: hash
  n_addr :: bytes
  is_client :: bool
  n_time :: time_point
  reply_time :: time_point
  auth_errors :: uint32
  n_expired :: bool
  transaction_id :: tid
  n_requests :: "(tid \<times> rref) list"
  n_sockets :: "(tid \<times> nat option) list"

datatype callback = On_done rref | On_error rref | On_expired rref bool

record dht_heap =
  nd :: "nref \<Rightarrow> dht_node"
  rq :: "rref \<Rightarrow> dht_request"
  next_rq :: rref
  calls :: "callback list"

definition upd_rq :: "rref \<Rightarrow> (dht_request \<Rightarrow> dht_request) \<Rightarrow> 'a dht_heap_scheme \<Rightarrow> 'a dht_heap_scheme" where
  "upd_rq r f h = h\<lparr>rq := (rq h)(r := f (rq h r))\<rparr>"

definition upd_nd :: "nref \<Rightarrow> (dht_node \<Rightarrow> dht_node) \<Rightarrow> 'a dht_heap_scheme \<Rightarrow> 'a dht_heap_scheme" where
  "upd_nd n f h = h\<lparr>nd := (nd h)(n := f (nd h n))\<rparr>"

definition call_cb :: "callback \<Rightarrow> 'a dht_heap_scheme \<Rightarrow> 'a dht_heap_scheme" where
  "call_cb c h = h\<lparr>calls := calls h @ [c]\<rparr>"

section \<open>Requests\<close>

definition MAX_RESPONSE_TIME :: int where
  "MAX_RESPONSE_TIME = seconds 1"

definition MAX_ATTEMPT_COUNT :: uint32 where
  "MAX_ATTEMPT_COUNT = 3"

definition new_request_obj :: "message_type \<Rightarrow> tid \<Rightarrow> nref \<Rightarrow> bytes \<Rightarrow> bool \<Rightarrow> dht_request" where
  "new_request_obj ty t n m err = \<lparr>rq_node = n, rq_reply_time = time_min, rq_tid = t, rq_type = ty, rq_state = PENDING,
     attempt_count = 0, attempt_duration = MAX_RESPONSE_TIME div 2, start = time_min, last_try = time_min,
     callbacks = True, on_error = err, rq_msg = m, rq_parts = []\<rparr>"

definition pending :: "dht_request \<Rightarrow> bool" where
  "pending r = (rq_state r = PENDING)"

definition over :: "dht_request \<Rightarrow> bool" where
  "over r = (\<not> pending r)"

definition getStateChar :: "dht_request \<Rightarrow> char" where
  "getStateChar r = (case rq_state r of PENDING \<Rightarrow> CHR ''f'' | CANCELLED \<Rightarrow> CHR ''c'' | EXPIRED \<Rightarrow> CHR ''e''
     | COMPLETED \<Rightarrow> CHR ''a'')"

definition req_clear :: "dht_request \<Rightarrow> dht_request" where
  "req_clear r = r\<lparr>callbacks := False, on_error := False, rq_msg := [], rq_parts := []\<rparr>"

definition req_setExpired :: "rref \<Rightarrow> 'a dht_heap_scheme \<Rightarrow> 'a dht_heap_scheme" where
  "req_setExpired r h =
     (if pending (rq h r) then
        upd_rq r req_clear (call_cb (On_expired r True) (upd_rq r (\<lambda>q. q\<lparr>rq_state := EXPIRED\<rparr>) h))
      else h)"

definition req_setDone :: "rref \<Rightarrow> 'a dht_heap_scheme \<Rightarrow> 'a dht_heap_scheme" where
  "req_setDone r h =
     (if pending (rq h r) then
        upd_rq r req_clear (call_cb (On_done r) (upd_rq r (\<lambda>q. q\<lparr>rq_state := COMPLETED\<rparr>) h))
      else h)"

text \<open>The result of the error callback is the parameter \<open>handled\<close>.\<close>

definition req_setError :: "bool \<Rightarrow> rref \<Rightarrow> 'a dht_heap_scheme \<Rightarrow> bool \<times> 'a dht_heap_scheme" where
  "req_setError handled r h =
     (if pending (rq h r) then
        let h1 = upd_rq r (\<lambda>q. q\<lparr>rq_state := EXPIRED\<rparr>) h;
            h2 = if on_error (rq h1 r) then call_cb (On_error r) h1 else h1
        in (on_error (rq h1 r) \<and> handled, upd_rq r req_clear h2)
      else (True, h))"

definition req_cancel :: "rref \<Rightarrow> 'a dht_heap_scheme \<Rightarrow> 'a dht_heap_scheme" where
  "req_cancel r h =
     (if pending (rq h r) then upd_rq r req_clear (upd_rq r (\<lambda>q. q\<lparr>rq_state := CANCELLED\<rparr>) h) else h)"

definition req_isExpired :: "time_point \<Rightarrow> dht_request \<Rightarrow> bool" where
  "req_isExpired now r \<longleftrightarrow> pending r \<and> now > last_try r + attempt_duration r \<and> attempt_count r \<ge> MAX_ATTEMPT_COUNT"

section \<open>Nodes\<close>

definition NODE_GOOD_TIME :: int where
  "NODE_GOOD_TIME = minutes 120"

definition NODE_EXPIRE_TIME :: int where
  "NODE_EXPIRE_TIME = minutes 10"

definition MAX_AUTH_ERRORS :: uint32 where
  "MAX_AUTH_ERRORS = 3"

definition new_node_obj :: "hash \<Rightarrow> bytes \<Rightarrow> tid \<Rightarrow> bool \<Rightarrow> dht_node" where
  "new_node_obj i a rnd client = \<lparr>n_id = i, n_addr = a, is_client = client, n_time = time_min, reply_time = time_min,
     auth_errors = 0, n_expired = False, transaction_id = rnd, n_requests = [], n_sockets = []\<rparr>"

definition isIncoming :: "dht_node \<Rightarrow> bool" where
  "isIncoming n = (n_time n > reply_time n)"

definition isGood :: "time_point \<Rightarrow> dht_node \<Rightarrow> bool" where
  "isGood now n \<longleftrightarrow> \<not> n_expired n \<and> reply_time n \<ge> now - NODE_GOOD_TIME \<and> n_time n \<ge> now - NODE_EXPIRE_TIME"

definition isOld :: "time_point \<Rightarrow> dht_node \<Rightarrow> bool" where
  "isOld now n \<longleftrightarrow> n_time n + NODE_EXPIRE_TIME < now"

definition isRemovable :: "time_point \<Rightarrow> dht_node \<Rightarrow> bool" where
  "isRemovable now n \<longleftrightarrow> n_expired n \<and> isOld now n"

definition isPendingMessage :: "'a dht_heap_scheme \<Rightarrow> nref \<Rightarrow> bool" where
  "isPendingMessage h n = list_ex (\<lambda>e. pending (rq h (snd e))) (n_requests (nd h n))"

definition getPendingMessageCount :: "'a dht_heap_scheme \<Rightarrow> nref \<Rightarrow> nat" where
  "getPendingMessageCount h n = length (filter (\<lambda>e. pending (rq h (snd e))) (n_requests (nd h n)))"

definition node_update :: "nref \<Rightarrow> bytes \<Rightarrow> 'a dht_heap_scheme \<Rightarrow> 'a dht_heap_scheme" where
  "node_update n new_addr = upd_nd n (\<lambda>x. x\<lparr>n_addr := new_addr\<rparr>)"

definition node_requested :: "nref \<Rightarrow> rref \<Rightarrow> 'a dht_heap_scheme \<Rightarrow> 'a dht_heap_scheme" where
  "node_requested n r h =
     (let t = rq_tid (rq h r); rs = n_requests (nd h n) in
      case map_of rs t of
        None \<Rightarrow> upd_nd n (\<lambda>x. x\<lparr>n_requests := map_put t r rs\<rparr>) h
      | Some r' \<Rightarrow> if r \<noteq> r'
          then upd_nd n (\<lambda>x. x\<lparr>n_requests := map_put t r (n_requests x)\<rparr>) (req_setExpired r' h) else h)"

definition node_received :: "nref \<Rightarrow> time_point \<Rightarrow> rref option \<Rightarrow> 'a dht_heap_scheme \<Rightarrow> 'a dht_heap_scheme" where
  "node_received n now req h =
     (let h = upd_nd n (\<lambda>x. x\<lparr>n_time := now, n_expired := False\<rparr>) h in
      case req of None \<Rightarrow> h
      | Some r \<Rightarrow> upd_nd n (\<lambda>x. x\<lparr>reply_time := now, n_requests := map_erase (rq_tid (rq h r)) (n_requests x)\<rparr>) h)"

definition node_getRequest :: "nref \<Rightarrow> tid \<Rightarrow> 'a dht_heap_scheme \<Rightarrow> rref option" where
  "node_getRequest n t h = map_of (n_requests (nd h n)) t"

definition node_cancelRequest :: "nref \<Rightarrow> rref option \<Rightarrow> 'a dht_heap_scheme \<Rightarrow> 'a dht_heap_scheme" where
  "node_cancelRequest n req h = (case req of None \<Rightarrow> h
     | Some r \<Rightarrow> upd_nd n (\<lambda>x. x\<lparr>n_requests := map_erase (rq_tid (rq h r)) (n_requests x)\<rparr>) (req_cancel r h))"

definition node_setExpired :: "nref \<Rightarrow> 'a dht_heap_scheme \<Rightarrow> 'a dht_heap_scheme" where
  "node_setExpired n h =
     (let h = upd_nd n (\<lambda>x. x\<lparr>n_expired := True\<rparr>) h;
          h = fold (\<lambda>e. req_setExpired (snd e)) (n_requests (nd h n)) h
      in upd_nd n (\<lambda>x. x\<lparr>n_requests := [], n_sockets := []\<rparr>) h)"

text \<open>The counter wraps at 32 bits; \<open>++auth_errors > MAX_AUTH_ERRORS\<close> compares after the increment.\<close>

definition authError :: "nref \<Rightarrow> 'a dht_heap_scheme \<Rightarrow> 'a dht_heap_scheme" where
  "authError n h =
     (let h = upd_nd n (\<lambda>x. x\<lparr>auth_errors := auth_errors x + 1\<rparr>) h in
      if auth_errors (nd h n) > MAX_AUTH_ERRORS then node_setExpired n h else h)"

definition authSuccess :: "nref \<Rightarrow> 'a dht_heap_scheme \<Rightarrow> 'a dht_heap_scheme" where
  "authSuccess n = upd_nd n (\<lambda>x. x\<lparr>auth_errors := 0\<rparr>)"

definition node_reset :: "nref \<Rightarrow> 'a dht_heap_scheme \<Rightarrow> 'a dht_heap_scheme" where
  "node_reset n = upd_nd n (\<lambda>x. x\<lparr>n_expired := False, reply_time := time_min\<rparr>)"

text \<open>
  \<open>emplace\<close> takes the socket by move; when the identifier is taken, what is then assigned to the old
  entry is the emptied pointer (\<open>None\<close>).
\<close>

definition openSocket :: "nref \<Rightarrow> nat \<Rightarrow> 'a dht_heap_scheme \<Rightarrow> tid \<times> 'a dht_heap_scheme" where
  "openSocket n cb h =
     (let t = transaction_id (nd h n) + 1;
          t = if t = 0 then 1 else t;
          (inserted, s) = map_emplace t (Some cb) (n_sockets (nd h n));
          s = if inserted then s else map_put t None s
      in (t, upd_nd n (\<lambda>x. x\<lparr>transaction_id := t, n_sockets := s\<rparr>) h))"

definition getSocket :: "nref \<Rightarrow> tid \<Rightarrow> 'a dht_heap_scheme \<Rightarrow> nat option" where
  "getSocket n t h = (case map_of (n_sockets (nd h n)) t of None \<Rightarrow> None | Some s \<Rightarrow> s)"

definition closeSocket :: "nref \<Rightarrow> tid \<Rightarrow> 'a dht_heap_scheme \<Rightarrow> 'a dht_heap_scheme" where
  "closeSocket n t h = (if t \<noteq> 0 then upd_nd n (\<lambda>x. x\<lparr>n_sockets := map_erase t (n_sockets x)\<rparr>) h else h)"

definition getNewTid :: "nref \<Rightarrow> 'a dht_heap_scheme \<Rightarrow> tid \<times> 'a dht_heap_scheme" where
  "getNewTid n h =
     (let t = transaction_id (nd h n) + 1;
          t = if t \<noteq> 0 then t + 1 else t
      in (t, upd_nd n (\<lambda>x. x\<lparr>transaction_id := t\<rparr>) h))"

section \<open>Each request ends once\<close>

text \<open>
  The callbacks that end a request, and what the log may hold for a request in each state. References
  that are not allocated yet count as cancelled.
\<close>

fun final_of :: "rref \<Rightarrow> callback \<Rightarrow> bool" where
  "final_of r (On_done r') = (r' = r)"
| "final_of r (On_error r') = (r' = r)"
| "final_of r (On_expired r' done) = (r' = r \<and> done)"

definition finals :: "rref \<Rightarrow> 'a dht_heap_scheme \<Rightarrow> callback list" where
  "finals r h = filter (final_of r) (calls h)"

definition once_at :: "rref \<Rightarrow> req_state \<Rightarrow> callback list \<Rightarrow> bool" where
  "once_at r st cs = (case st of
     PENDING \<Rightarrow> cs = [] | CANCELLED \<Rightarrow> cs = [] | COMPLETED \<Rightarrow> cs = [On_done r]
   | EXPIRED \<Rightarrow> cs = [] \<or> cs = [On_error r] \<or> cs = [On_expired r True])"

definition once_ok :: "'a dht_heap_scheme \<Rightarrow> bool" where
  "once_ok h \<longleftrightarrow> (\<forall>r. once_at r (rq_state (rq h r)) (finals r h)) \<and> (\<forall>r\<ge>next_rq h. rq_state (rq h r) = CANCELLED)"

definition settles :: "'a dht_heap_scheme \<Rightarrow> 'a dht_heap_scheme \<Rightarrow> bool" where
  "settles h h' \<longleftrightarrow> next_rq h \<le> next_rq h'
     \<and> (\<forall>r<next_rq h. over (rq h r) \<longrightarrow> rq_state (rq h' r) = rq_state (rq h r))
     \<and> (\<exists>cs. calls h' = calls h @ cs)"

text \<open>A step that is sound for the log: it keeps \<open>once_ok\<close> and only settles requests.\<close>

definition sound_step :: "'a dht_heap_scheme \<Rightarrow> 'a dht_heap_scheme \<Rightarrow> bool" where
  "sound_step h h' \<longleftrightarrow> (once_ok h \<longrightarrow> once_ok h') \<and> settles h h'"

lemma settles_refl [simp]: "settles h h"
  by (simp add: settles_def)

lemma settles_trans: "settles h h1 \<Longrightarrow> settles h1 h2 \<Longrightarrow> settles h h2"
  by (auto simp: settles_def over_def pending_def)

lemma sound_step_refl [simp]: "sound_step h h"
  by (simp add: sound_step_def)

lemma sound_step_trans: "sound_step h h1 \<Longrightarrow> sound_step h1 h2 \<Longrightarrow> sound_step h h2"
  by (auto simp: sound_step_def intro: settles_trans)

lemma sound_step_fold:
  "(\<And>x h. sound_step h (f x h)) \<Longrightarrow> sound_step h (fold f xs h)"
  by (induction xs arbitrary: h) (auto intro: sound_step_trans)

lemma sound_stepI:
  assumes "next_rq h' = next_rq h" and "\<And>r. rq_state (rq h' r) = rq_state (rq h r)"
    and "\<exists>cs. calls h' = calls h @ cs \<and> (\<forall>r. filter (final_of r) cs = [])"
  shows "sound_step h h'"
  using assms by (auto simp: sound_step_def once_ok_def settles_def finals_def)

lemma settle_sound:
  assumes "pending (rq h r)" and "\<forall>r'. r' \<noteq> r \<longrightarrow> filter (final_of r') cs = []"
    and "st \<noteq> PENDING" and "once_at r st (filter (final_of r) cs)"
    and "next_rq h' = next_rq h" and "calls h' = calls h @ cs"
    and "rq h' = (rq h)(r := q)" and "rq_state q = st"
  shows "sound_step h h'"
proof -
  have *: "r < next_rq h" "finals r h = []" if "once_ok h"
  proof -
    have "once_at r PENDING (finals r h)" and "\<not> next_rq h \<le> r"
      using that assms(1) unfolding once_ok_def pending_def by (metis, fastforce)
    then show "r < next_rq h" "finals r h = []" by (simp_all add: once_at_def)
  qed
  have "finals r' h' = finals r' h @ filter (final_of r') cs" for r'
    using assms(6) by (simp add: finals_def)
  then have "once_ok h'" if "once_ok h"
    using that * [OF that] assms by (auto simp: once_ok_def)
  moreover have "settles h h'"
    using assms by (auto simp: settles_def over_def pending_def)
  ultimately show ?thesis by (simp add: sound_step_def)
qed

lemmas heap_defs = upd_rq_def upd_nd_def call_cb_def

lemma req_setExpired_sound [inv_intros]: "sound_step h (req_setExpired r h)"
  unfolding req_setExpired_def
  by (auto simp: heap_defs req_clear_def once_at_def
      intro: settle_sound [where cs = "[On_expired r True]" and st = EXPIRED and r = r])

lemma req_setDone_sound [inv_intros]: "sound_step h (req_setDone r h)"
  unfolding req_setDone_def
  by (auto simp: heap_defs req_clear_def once_at_def
      intro: settle_sound [where cs = "[On_done r]" and st = COMPLETED and r = r])

lemma req_setError_sound [inv_intros]: "sound_step h (snd (req_setError b r h))"
  unfolding req_setError_def
  by (auto simp: heap_defs req_clear_def once_at_def Let_def
      intro: settle_sound [where cs = "[On_error r]" and st = EXPIRED and r = r]
        settle_sound [where cs = "[]" and st = EXPIRED and r = r])

lemma req_cancel_sound [inv_intros]: "sound_step h (req_cancel r h)"
  unfolding req_cancel_def
  by (auto simp: heap_defs req_clear_def once_at_def
      intro: settle_sound [where cs = "[]" and st = CANCELLED and r = r])

lemma upd_nd_sound [inv_intros]: "sound_step h (upd_nd n f h)"
  by (rule sound_stepI) (simp_all add: upd_nd_def)

lemma node_requested_sound [inv_intros]: "sound_step h (node_requested n r h)"
  by (auto simp: node_requested_def Let_def intro: inv_intros sound_step_trans [OF req_setExpired_sound] split: option.splits)

lemma node_received_sound [inv_intros]: "sound_step h (node_received n t req h)"
  by (auto simp: node_received_def Let_def intro: inv_intros sound_step_trans [OF upd_nd_sound] split: option.splits)

lemma node_cancelRequest_sound [inv_intros]: "sound_step h (node_cancelRequest n req h)"
  by (auto simp: node_cancelRequest_def intro: inv_intros sound_step_trans [OF req_cancel_sound] split: option.splits)

lemma node_setExpired_sound [inv_intros]: "sound_step h (node_setExpired n h)"
proof -
  have "sound_step h1 (fold (\<lambda>e. req_setExpired (snd e)) xs h1)" for h1 :: "'a dht_heap_scheme" and xs :: "(tid \<times> rref) list"
    by (rule sound_step_fold) (rule req_setExpired_sound)
  then show ?thesis
    unfolding node_setExpired_def Let_def by (meson sound_step_trans upd_nd_sound)
qed

lemma authError_sound [inv_intros]: "sound_step h (authError n h)"
  by (auto simp: authError_def Let_def intro: inv_intros sound_step_trans [OF upd_nd_sound])

section \<open>Expiry of a node\<close>

text \<open>The request index of a node: entries are sorted by transaction identifier and filed under the request's own.\<close>

definition index_ok :: "'a dht_heap_scheme \<Rightarrow> nref \<Rightarrow> bool" where
  "index_ok h n \<longleftrightarrow> map_sorted (n_requests (nd h n)) \<and> (\<forall>(t, r)\<in>set (n_requests (nd h n)). rq_tid (rq h r) = t)"

lemma index_ok_distinct: "index_ok h n \<Longrightarrow> distinct (map snd (n_requests (nd h n)))"
proof -
  assume ok: "index_ok h n"
  then have "distinct (map fst (n_requests (nd h n)))" by (simp add: index_ok_def map_sorted_distinct)
  moreover have "map fst (n_requests (nd h n)) = map (\<lambda>r. rq_tid (rq h r)) (map snd (n_requests (nd h n)))"
    using ok by (auto simp: index_ok_def)
  ultimately show ?thesis by (metis distinct_map)
qed

lemma setExpired_all:
  assumes "distinct rs"
  shows "calls (fold req_setExpired rs h) = calls h @ map (\<lambda>r. On_expired r True) (filter (\<lambda>r. pending (rq h r)) rs)
    \<and> nd (fold req_setExpired rs h) = nd h
    \<and> (\<forall>r. rq_state (rq (fold req_setExpired rs h) r)
         = (if r \<in> set rs \<and> pending (rq h r) then EXPIRED else rq_state (rq h r)))"
  using assms
proof (induction rs arbitrary: h)
  case Nil
  then show ?case by simp
next
  case (Cons r rs)
  let ?h = "req_setExpired r h"
  have h: "nd ?h = nd h" "calls ?h = calls h @ (if pending (rq h r) then [On_expired r True] else [])"
    "\<And>r'. rq_state (rq ?h r') = (if r' = r \<and> pending (rq h r) then EXPIRED else rq_state (rq h r'))"
    by (auto simp: req_setExpired_def heap_defs req_clear_def)
  have "filter (\<lambda>r. pending (rq ?h r)) rs = filter (\<lambda>r. pending (rq h r)) rs"
    using Cons.prems h(3) by (auto simp: pending_def intro!: filter_cong)
  then show ?case
    using Cons.IH [of ?h] Cons.prems h by (auto simp: pending_def)
qed

lemma node_setExpired_eq:
  "node_setExpired n h = upd_nd n (\<lambda>x. x\<lparr>n_requests := [], n_sockets := []\<rparr>)
     (fold req_setExpired (map snd (n_requests (nd h n))) (upd_nd n (\<lambda>x. x\<lparr>n_expired := True\<rparr>) h))"
proof -
  have f: "fold (\<lambda>e. req_setExpired (snd e)) xs = fold req_setExpired (map snd xs)" for xs :: "(tid \<times> rref) list"
    by (simp add: fold_map o_def)
  show ?thesis
    by (simp add: node_setExpired_def Let_def f) (simp add: upd_nd_def)
qed

text \<open>
  When a node expires, every request it still has in flight expires with it: their expiry callbacks are called exactly
  once each, in the order of the transaction identifiers, no request of the node stays pending, its request and socket
  tables are empty, the node counts as expired, and requests and nodes it does not refer to are not touched.
\<close>

theorem node_setExpired_effect:
  assumes "index_ok h n"
  defines "rs \<equiv> map snd (n_requests (nd h n))"
  shows "calls (node_setExpired n h) = calls h @ map (\<lambda>r. On_expired r True) (filter (\<lambda>r. pending (rq h r)) rs)
     \<and> (\<forall>r. rq_state (rq (node_setExpired n h) r)
          = (if r \<in> set rs \<and> pending (rq h r) then EXPIRED else rq_state (rq h r)))
     \<and> n_expired (nd (node_setExpired n h) n) \<and> n_requests (nd (node_setExpired n h) n) = []
     \<and> n_sockets (nd (node_setExpired n h) n) = [] \<and> \<not> isPendingMessage (node_setExpired n h) n
     \<and> (\<forall>m. m \<noteq> n \<longrightarrow> nd (node_setExpired n h) m = nd h m)"
  using setExpired_all [OF index_ok_distinct [OF assms(1)], of "upd_nd n (\<lambda>x. x\<lparr>n_expired := True\<rparr>) h"]
  unfolding node_setExpired_eq by (simp add: rs_def upd_nd_def isPendingMessage_def)

definition init_heap :: dht_heap where
  "init_heap = \<lparr>nd = (\<lambda>n. new_node_obj (replicate 20 (of_nat n)) [of_nat n] 1 False),
     rq = (\<lambda>_. (new_request_obj Ping 0 0 [] False)\<lparr>rq_state := CANCELLED\<rparr>), next_rq = 0, calls = []\<rparr>"

definition busy_heap :: dht_heap where
  "busy_heap = init_heap\<lparr>nd := (nd init_heap)(3 := (nd init_heap 3)\<lparr>n_requests := [(7, 0)]\<rparr>),
     rq := (rq init_heap)(0 := new_request_obj Ping 7 3 [1] False), next_rq := 1\<rparr>"

theorem node_setExpired_effect_witness:
  "index_ok busy_heap 3 \<and> calls (node_setExpired 3 busy_heap) = [On_expired 0 True]"
proof -
  have "index_ok busy_heap 3"
    by (simp add: index_ok_def busy_heap_def new_request_obj_def map_sorted_def)
  then show ?thesis
    using node_setExpired_effect [of busy_heap 3]
    by (simp add: busy_heap_def init_heap_def new_request_obj_def pending_def)
qed

text \<open>
  \<open>getNewTid\<close> does not skip the invalid identifier 0: from the two largest values of the 32-bit counter it returns 0,
  and from any other value it advances by two. Only identifiers of the counter's parity are used.
\<close>

lemma getNewTid_invalid:
  "fst (getNewTid n h) = (if transaction_id (nd h n) = - 1 then 0 else transaction_id (nd h n) + 2)
   \<and> (fst (getNewTid n h) = 0 \<longleftrightarrow> transaction_id (nd h n) = - 1 \<or> transaction_id (nd h n) = - 2)
   \<and> transaction_id (nd (snd (getNewTid n h)) n) = fst (getNewTid n h)"
proof -
  have e: "1 + x = 0 \<longleftrightarrow> x = - 1" "2 + x = 0 \<longleftrightarrow> x = - 2" for x :: tid
    by (simp_all add: eq_neg_iff_add_eq_0 add.commute)
  show ?thesis by (auto simp: getNewTid_def Let_def upd_nd_def add.commute [of _ 1] add.commute [of _ 2] e)
qed

end
