(* ===== verification/Sock_Addr.thy ===== *)
theory Sock_Addr
  imports Info_Hash "HOL-Library.List_Lexorder" "HOL-Library.Product_Lexorder"
begin

text \<open>
  Socket addresses (\<open>sockaddr.h\<close>, \<open>utils.cpp\<close>). An address is the memory of its \<open>sockaddr\<close> structure, the
  empty one being unset: two bytes of family in host order (little endian), two bytes of port in network
  order, then for IPv4 the four address bytes and eight bytes of padding, for IPv6 the flow label, the
  sixteen address bytes and the scope.
\<close>

type_synonym sock_addr = bytes

definition AF_UNSPEC :: nat where
  "AF_UNSPEC = 0"

definition AF_INET :: nat where
  "AF_INET = 2"

definition AF_INET6 :: nat where
  "AF_INET6 = 10"

definition getFamily :: "sock_addr \<Rightarrow> nat" where
  "getFamily a = (if length a = 0 then AF_UNSPEC else unat (a ! 0) + 256 * unat (a ! 1))"

definition family_length :: "nat \<Rightarrow> nat" where
  "family_length af = (if af = AF_INET then 16 else if af = AF_INET6 then 28 else 0)"

text \<open>The structure is cleared when its size changes.\<close>

definition setFamily :: "nat \<Rightarrow> sock_addr \<Rightarrow> sock_addr" where
  "setFamily af a =
     (let n = family_length af;
          a = (if n \<noteq> length a then replicate n 0 else a)
      in if length a > 2 then blit a 0 [of_nat af, of_nat (af div 256)] else a)"

definition setAny :: "sock_addr \<Rightarrow> sock_addr" where
  "setAny a = (if getFamily a = AF_INET then blit a 4 (replicate 4 0)
     else if getFamily a = AF_INET6 then blit a 8 (replicate 16 0) else a)"

definition getPort :: "sock_addr \<Rightarrow> nat" where
  "getPort a = (if getFamily a = AF_INET \<or> getFamily a = AF_INET6 then 256 * unat (a ! 2) + unat (a ! 3) else 0)"

definition setPort :: "nat \<Rightarrow> sock_addr \<Rightarrow> sock_addr" where
  "setPort p a = (if getFamily a = AF_INET \<or> getFamily a = AF_INET6 then blit a 2 [of_nat (p div 256), of_nat p] else a)"

definition ip4 :: "sock_addr \<Rightarrow> bytes" where
  "ip4 a = take 4 (drop 4 a)"

definition ip6 :: "sock_addr \<Rightarrow> bytes" where
  "ip6 a = take 16 (drop 8 a)"

definition addr_less :: "sock_addr \<Rightarrow> sock_addr \<Rightarrow> bool" where
  "addr_less a b = (if length a \<noteq> length b then length a < length b else cmp a b < 0)"

definition addr_equals :: "sock_addr \<Rightarrow> sock_addr \<Rightarrow> bool" where
  "addr_equals a b \<longleftrightarrow> length a = length b \<and> cmp a b = 0"

definition isUnspecified :: "sock_addr \<Rightarrow> bool" where
  "isUnspecified a = (if getFamily a = AF_INET then ip4 a = replicate 4 0
     else if getFamily a = AF_INET6 then ip6 a = replicate 16 0 else True)"

definition isLoopback :: "sock_addr \<Rightarrow> bool" where
  "isLoopback a = (if getFamily a = AF_INET then ip4 a ! 0 = 127
     else if getFamily a = AF_INET6 then ip6 a = replicate 15 0 @ [1] else False)"

definition isPrivate :: "sock_addr \<Rightarrow> bool" where
  "isPrivate a = (if isLoopback a then True
     else if getFamily a = AF_INET then
       let b1 = ip4 a ! 0; b2 = ip4 a ! 1
       in b1 = 10 \<or> b1 = 172 \<and> b2 \<ge> 16 \<and> b2 \<le> 31 \<or> b1 = 192 \<and> b2 = 168
     else if getFamily a = AF_INET6 then ip6 a ! 0 = 0xfc
     else False)"

definition MAPPED_IPV4_PREFIX :: bytes where
  "MAPPED_IPV4_PREFIX = [0, 0, 0, 0, 0, 0, 0, 0, 0, 0, 0xff, 0xff]"

definition isMappedIPv4 :: "sock_addr \<Rightarrow> bool" where
  "isMappedIPv4 a \<longleftrightarrow> getFamily a = AF_INET6 \<and> take 12 (ip6 a) = MAPPED_IPV4_PREFIX"

definition getMappedIPv4 :: "sock_addr \<Rightarrow> sock_addr" where
  "getMappedIPv4 a = (if \<not> isMappedIPv4 a then a
     else blit (setPort (getPort a) (setFamily AF_INET [])) 4 (take 4 (drop 12 (ip6 a))))"

definition getMappedIPv6 :: "sock_addr \<Rightarrow> sock_addr" where
  "getMappedIPv6 a = (if getFamily a \<noteq> AF_INET then a
     else let r = setPort (getPort a) (setFamily AF_INET6 []);
              r = blit r 8 MAPPED_IPV4_PREFIX
          in blit r (8 + 12) (ip4 a))"

text \<open>The order of the quota table: same size, then the address, of which IPv6 counts the first 64 bits.\<close>

definition ip_slice :: "nat \<Rightarrow> sock_addr \<Rightarrow> bytes" where
  "ip_slice af a = (if af = AF_INET then take 4 (drop 4 a) else if af = AF_INET6 then take 8 (drop 8 a) else a)"

definition ipCmp :: "sock_addr \<Rightarrow> sock_addr \<Rightarrow> bool" where
  "ipCmp a b = (if length a \<noteq> length b then length a < length b
     else cmp (ip_slice (getFamily a) a) (ip_slice (getFamily a) b) < 0)"

text \<open>\<open>find_first_of\<close> and \<open>find_last_of\<close> of one character.\<close>

fun find_first_of :: "byte \<Rightarrow> bytes \<Rightarrow> nat option" where
  "find_first_of c [] = None"
| "find_first_of c (x # xs) = (if x = c then Some 0 else map_option Suc (find_first_of c xs))"

definition find_last_of :: "byte \<Rightarrow> bytes \<Rightarrow> nat option" where
  "find_last_of c s = map_option (\<lambda>i. length s - 1 - i) (find_first_of c (rev s))"

text \<open>The characters are \<open>[\<close> 91, \<open>]\<close> 93 and \<open>:\<close> 58.\<close>

definition splitPort :: "bytes \<Rightarrow> bytes \<times> bytes" where
  "splitPort s =
     (if s = [] then ([], [])
      else if hd s = 91 then
        (case (find_first_of 93 s, find_last_of 58 s) of
           (None, _) \<Rightarrow> (s, [])
         | (Some closure, None) \<Rightarrow> (take (closure - 1) (drop 1 s), [])
         | (Some closure, Some found) \<Rightarrow>
             if found < closure then (take (closure - 1) (drop 1 s), [])
             else (take (closure - 1) (drop 1 s), drop (found + 1) s))
      else
        (case (find_last_of 58 s, find_first_of 58 s) of
           (Some found, Some first) \<Rightarrow> if found \<noteq> first then (s, []) else (take found s, drop (found + 1) s)
         | _ \<Rightarrow> (s, [])))"

section \<open>Well-formed addresses\<close>

definition is_addr :: "sock_addr \<Rightarrow> bool" where
  "is_addr a \<longleftrightarrow> length a = 0 \<or> getFamily a = AF_INET \<and> length a = 16 \<or> getFamily a = AF_INET6 \<and> length a = 28"

lemmas family_defs = AF_UNSPEC_def AF_INET_def AF_INET6_def

lemma cmp_lex: "length a = length b \<Longrightarrow> cmp a b < 0 \<longleftrightarrow> a < b"
proof (induction a b rule: cmp.induct)
  case (1 x xs y ys)
  then show ?case by auto
qed simp_all

lemma addr_less_order: "addr_less a b \<longleftrightarrow> (length a, a) < (length b, b)"
  by (auto simp: addr_less_def cmp_lex)

lemma cmp_0: "length a = length b \<Longrightarrow> cmp a b = 0 \<longleftrightarrow> a = b"
  by (metis cmp_lex lex.cmp3_anti less_irrefl neq_iff neg_less_0_iff_less)

definition quota_key :: "sock_addr \<Rightarrow> nat \<times> bytes" where
  "quota_key a = (length a, ip_slice (getFamily a) a)"

lemma ipCmp_key: "is_addr a \<Longrightarrow> is_addr b \<Longrightarrow> ipCmp a b \<longleftrightarrow> quota_key a < quota_key b"
  by (auto simp: is_addr_def ipCmp_def quota_key_def cmp_lex ip_slice_def family_defs)

lemma blit_nth: "k + length src \<le> length a \<Longrightarrow> blit a k src ! i =
    (if i < k then a ! i else if i < k + length src then src ! (i - k) else a ! i)" if "i < length a"
  using that by (auto simp: blit_def nth_append min_def)

lemma take_drop_blit: "k + length src \<le> length a \<Longrightarrow> take (length src) (drop k (blit a k src)) = src"
  by (simp add: blit_def)

lemma getFamily_nth: "0 < length a \<Longrightarrow> getFamily a = unat (a ! 0) + 256 * unat (a ! 1)"
  by (simp add: getFamily_def)

text \<open>The address bytes and the port do not disturb each other.\<close>

lemma fresh_addr:
  assumes "af = AF_INET \<or> af = AF_INET6" and "p < 65536"
  shows "length (setPort p (setFamily af [])) = family_length af"
    and "getFamily (setPort p (setFamily af [])) = af"
    and "getPort (setPort p (setFamily af [])) = p"
proof -
  have f: "getFamily (setFamily af []) = af" "length (setFamily af []) = family_length af" "family_length af \<ge> 16"
    using assms(1) by (auto simp: setFamily_def family_length_def family_defs getFamily_def blit_def)
  have bytes: "256 * unat (of_nat (p div 256) :: byte) + unat (of_nat p :: byte) = p"
    using assms(2) by (simp add: unat_of_nat)
  show l: "length (setPort p (setFamily af [])) = family_length af"
    using f assms(1) by (auto simp: setPort_def blit_def)
  have n: "setPort p (setFamily af []) = blit (setFamily af []) 2 [of_nat (p div 256), of_nat p]"
    using f assms(1) by (auto simp: setPort_def)
  have g: "getFamily (blit (setFamily af []) 2 [of_nat (p div 256), of_nat p]) = af"
    using f by (simp add: getFamily_nth blit_nth blit_def nth_append)
  then show "getFamily (setPort p (setFamily af [])) = af" by (simp only: n)
  show "getPort (setPort p (setFamily af [])) = p"
    using g assms(1) f bytes unfolding n by (auto simp: getPort_def blit_nth)
qed

lemma blit_ip:
  assumes "4 \<le> k" and "k + length src \<le> length a"
  shows "getFamily (blit a k src) = getFamily a" and "getPort (blit a k src) = getPort a" and "length (blit a k src) = length a"
proof -
  have n: "blit a k src ! i = a ! i" if "i < 4" for i
    using that assms by (simp add: blit_nth)
  show l: "length (blit a k src) = length a" using assms by (simp add: blit_def)
  show f: "getFamily (blit a k src) = getFamily a" using n l by (simp add: getFamily_def)
  show "getPort (blit a k src) = getPort a" using n f by (simp add: getPort_def)
qed

lemma getPort_bound: "getPort a < 65536"
proof -
  have "unat x < 256" for x :: byte using unsigned_less [of x, where 'a = nat] by simp
  then have "unat (a ! 2) \<le> 255" "unat (a ! 3) \<le> 255" by (simp_all add: less_Suc_eq_le [symmetric])
  then show ?thesis by (simp add: getPort_def)
qed

lemma find_first_of_append: "c \<notin> set xs \<Longrightarrow> find_first_of c (xs @ c # ys) = Some (length xs)"
  by (induction xs) auto

lemma find_last_of_append: "c \<notin> set ys \<Longrightarrow> find_last_of c (xs @ c # ys) = Some (length xs)"
  by (simp add: find_last_of_def find_first_of_append)

section \<open>Properties\<close>

text \<open>
  An IPv4 address that is mapped into IPv6 is recognised as mapped, and mapping it back gives an IPv4
  address with the same address bytes and the same port.
\<close>

theorem mapped_roundtrip:
  assumes "getFamily a = AF_INET" and "length a = 16"
  shows "isMappedIPv4 (getMappedIPv6 a) \<and> getFamily (getMappedIPv4 (getMappedIPv6 a)) = AF_INET
    \<and> ip4 (getMappedIPv4 (getMappedIPv6 a)) = ip4 a \<and> getPort (getMappedIPv4 (getMappedIPv6 a)) = getPort a"
proof -
  let ?r = "setPort (getPort a) (setFamily AF_INET6 [])"
  let ?m = "blit ?r 8 MAPPED_IPV4_PREFIX"
  let ?b = "blit ?m 20 (ip4 a)"
  have r: "length ?r = 28" "getFamily ?r = AF_INET6" "getPort ?r = getPort a"
    using fresh_addr [of AF_INET6 "getPort a"] getPort_bound by (auto simp: family_length_def family_defs)
  have len: "length (ip4 a) = 4" "length MAPPED_IPV4_PREFIX = 12" using assms by (auto simp: ip4_def MAPPED_IPV4_PREFIX_def)
  have m: "length ?m = 28" "getFamily ?m = AF_INET6" "getPort ?m = getPort a"
    using blit_ip [of 8 MAPPED_IPV4_PREFIX ?r] r len by auto
  have b: "length ?b = 28" "getFamily ?b = AF_INET6" "getPort ?b = getPort a"
    using blit_ip [of 20 "ip4 a" ?m] m len by auto
  have v6: "getMappedIPv6 a = ?b" using assms by (simp add: getMappedIPv6_def)
  have ip6: "ip6 ?b = MAPPED_IPV4_PREFIX @ ip4 a"
    using r len m by (simp add: ip6_def blit_def drop_append take_append)
  then have mapped: "isMappedIPv4 (getMappedIPv6 a)" using b len by (simp add: v6 isMappedIPv4_def)
  let ?s = "setPort (getPort a) (setFamily AF_INET [])"
  have s: "length ?s = 16" "getFamily ?s = AF_INET" "getPort ?s = getPort a"
    using fresh_addr [of AF_INET "getPort a"] getPort_bound by (auto simp: family_length_def family_defs)
  have v4: "getMappedIPv4 (getMappedIPv6 a) = blit ?s 4 (ip4 a)"
    using mapped b ip6 len by (simp add: getMappedIPv4_def v6)
  have "getFamily (blit ?s 4 (ip4 a)) = AF_INET" "getPort (blit ?s 4 (ip4 a)) = getPort a"
    using blit_ip [of 4 "ip4 a" ?s] s len by auto
  moreover have "ip4 (blit ?s 4 (ip4 a)) = ip4 a"
    using take_drop_blit [of 4 "ip4 a" ?s] s len by (simp add: ip4_def [of "blit ?s 4 (ip4 a)"])
  ultimately show ?thesis using mapped v4 by simp
qed

definition sample_addr :: sock_addr where
  "sample_addr = [2, 0, 0x11, 0xd7, 192, 168, 0, 7] @ replicate 8 0"

theorem mapped_roundtrip_witness:
  "isMappedIPv4 (getMappedIPv6 sample_addr) \<and> getFamily (getMappedIPv4 (getMappedIPv6 sample_addr)) = AF_INET
    \<and> ip4 (getMappedIPv4 (getMappedIPv6 sample_addr)) = ip4 sample_addr
    \<and> getPort (getMappedIPv4 (getMappedIPv6 sample_addr)) = getPort sample_addr"
  by (rule mapped_roundtrip) (simp_all add: sample_addr_def getFamily_def family_defs)

text \<open>
  \<open>splitPort\<close> takes apart both notations of host and port: a host in brackets, which may contain
  colons, and a host without colons.
\<close>

lemma splitPort_forms:
  assumes "58 \<notin> set port" and "93 \<notin> set inner" and "58 \<notin> set host" and "host \<noteq> []" and "hd host \<noteq> 91"
  shows "splitPort (91 # inner @ 93 # 58 # port) = (inner, port) \<and> splitPort (host @ 58 # port) = (host, port)"
proof
  have "find_first_of 93 (91 # inner @ 93 # 58 # port) = Some (length inner + 1)"
    using find_first_of_append [of 93 "91 # inner" "58 # port"] assms(2) by simp
  moreover have "find_last_of 58 (91 # inner @ 93 # 58 # port) = Some (length inner + 2)"
    using find_last_of_append [of 58 port "91 # inner @ [93]"] assms(1) by simp
  ultimately show "splitPort (91 # inner @ 93 # 58 # port) = (inner, port)"
    by (simp add: splitPort_def)
  have "find_last_of 58 (host @ 58 # port) = Some (length host)" "find_first_of 58 (host @ 58 # port) = Some (length host)"
    using assms find_last_of_append find_first_of_append by auto
  then show "splitPort (host @ 58 # port) = (host, port)"
    using assms(4,5) by (cases host) (simp_all add: splitPort_def)
qed

lemma splitPort_forms_witness:
  "splitPort (lit ''[::1]:4222'') = (lit ''::1'', lit ''4222'') \<and> splitPort (lit ''node:80'') = (lit ''node'', lit ''80'')"
proof -
  have "splitPort (91 # lit ''::1'' @ 93 # 58 # lit ''4222'') = (lit ''::1'', lit ''4222'')"
    using splitPort_forms [of "lit ''4222''" "lit ''::1''" "lit ''h''"] by (simp add: lit_def)
  moreover have "splitPort (lit ''node'' @ 58 # lit ''80'') = (lit ''node'', lit ''80'')"
    using splitPort_forms [of "lit ''80''" "[]" "lit ''node''"] by (simp add: lit_def)
  ultimately show ?thesis by (simp add: lit_def)
qed

end
