(* ===== verification/Network_Engine.thy ===== *)
theory Network_Engine
  imports Node_Requests Sock_Addr
begin

text \<open>
  The sending side of the network engine (\<open>network_engine.cpp\<close>): request attempts with their
  schedule, and the messages it builds. What comes from outside is in \<open>net_env\<close>: whether a socket is
  open, the error number the \<open>k\<close>-th send returns, the random part of the delay drawn at that send,
  the network identifier of the configuration, the node's own identifier and the readings of the two
  clocks.
\<close>

datatype errno = OK | EAGAIN | ENETUNREACH | EHOSTUNREACH | EAFNOSUPPORT | EPIPE | EPERM | ENOTCONN | Other_errno

record net_env =
  has_socket :: bool
  sendTo :: "nat \<Rightarrow> errno"
  jitter :: "nat \<Rightarrow> int"
  network :: uint32
  myid :: hash
  clock_now :: time_point
  system_now :: int

record message_stats =
  st_ping :: uint32
  st_find :: uint32
  st_get :: uint32
  st_put :: uint32
  st_listen :: uint32
  st_refresh :: uint32
  st_updateValue :: uint32

definition no_stats :: message_stats where
  "no_stats = \<lparr>st_ping = 0, st_find = 0, st_get = 0, st_put = 0, st_listen = 0, st_refresh = 0, st_updateValue = 0\<rparr>"

text \<open>
  \<open>jobs\<close> holds the request steps given to the scheduler, \<open>sent\<close> the datagrams handed to the socket
  with the flag that tells the link layer about a confirmed peer.
\<close>

record engine = dht_heap +
  eng_now :: time_point
  eng_requests :: "(tid \<times> rref) list"
  jobs :: "(time_point \<times> rref) list"
  sent :: "(bytes \<times> bytes \<times> bool) list"
  out_stats :: message_stats

definition UDP_REPLY_TIME :: int where
  "UDP_REPLY_TIME = seconds 15"

definition MTU :: nat where
  "MTU = 1280"

section \<open>Messages\<close>

text \<open>The map header counts the optional network entry.\<close>

definition net_count :: "net_env \<Rightarrow> nat" where
  "net_count E = (if network E \<noteq> 0 then 1 else 0)"

definition pack_net :: "net_env \<Rightarrow> bytes" where
  "pack_net E = (if network E \<noteq> 0 then pack_str (lit ''n'') @ pack_uint32 (network E) else [])"

definition pack_tail :: "net_env \<Rightarrow> tid \<Rightarrow> bytes \<Rightarrow> bytes" where
  "pack_tail E t y = pack_str (lit ''t'') @ pack_uint32 t @ pack_str (lit ''y'') @ pack_str y
     @ pack_str (lit ''v'') @ pack_str (lit ''RNG1'') @ pack_net E"

definition ping_msg :: "net_env \<Rightarrow> tid \<Rightarrow> bytes" where
  "ping_msg E t = pack_map_header (5 + net_count E)
     @ pack_str (lit ''a'') @ pack_map_header 1 @ pack_str (lit ''id'') @ pack_bin (myid E)
     @ pack_str (lit ''q'') @ pack_str (lit ''ping'') @ pack_tail E t (lit ''q'')"

text \<open>\<open>want\<close> is a bit set, \<open>WANT4\<close> is 1 and \<open>WANT6\<close> is 2.\<close>

definition want_count :: "int \<Rightarrow> nat" where
  "want_count w = (if bit w 0 then 1 else 0) + (if bit w 1 then 1 else 0)"

definition pack_want :: "int \<Rightarrow> bytes" where
  "pack_want w = (if w > 0 then pack_str (lit ''w'') @ pack_array_header (want_count w)
     @ (if bit w 0 then pack_uint32 (of_nat AF_INET) else []) @ (if bit w 1 then pack_uint32 (of_nat AF_INET6) else []) else [])"

definition find_msg :: "net_env \<Rightarrow> tid \<Rightarrow> hash \<Rightarrow> int \<Rightarrow> bytes" where
  "find_msg E t target w = pack_map_header (5 + net_count E)
     @ pack_str (lit ''a'') @ pack_map_header (2 + (if w > 0 then 1 else 0))
     @ pack_str (lit ''id'') @ pack_bin (myid E) @ pack_str (lit ''target'') @ pack_bin target @ pack_want w
     @ pack_str (lit ''q'') @ pack_str (lit ''find'') @ pack_tail E t (lit ''q'')"

section \<open>Sending\<close>

definition send :: "net_env \<Rightarrow> bytes \<Rightarrow> bytes \<Rightarrow> bool \<Rightarrow> engine \<Rightarrow> errno \<times> engine" where
  "send E addr buf confirmed e =
     (if has_socket E then (sendTo E (length (sent e)), e\<lparr>sent := sent e @ [(addr, buf, confirmed)]\<rparr>)
      else (ENOTCONN, e))"

text \<open>
  Values that do not fit a packet are sent in parts of at most \<open>MTU\<close> bytes; the loop body runs at
  least once. \<open>parts_of\<close> lists offset and content of each part.
\<close>

function parts_of :: "bytes \<Rightarrow> nat \<Rightarrow> (nat \<times> bytes) list" where
  "parts_of v st =
     (let en = min (st + MTU) (length v);
          here = (st, take (en - st) (drop st v))
      in if en = length v then [here] else here # parts_of v en)"
  by pat_completeness auto
termination
  by (relation "measure (\<lambda>(v, st). length v - st)") (auto simp: MTU_def)

declare parts_of.simps [simp del]

definition part_msg :: "net_env \<Rightarrow> tid \<Rightarrow> nat \<Rightarrow> nat \<Rightarrow> bytes \<Rightarrow> bytes" where
  "part_msg E t i off d = pack_map_header (3 + net_count E) @ pack_net E
     @ pack_str (lit ''y'') @ pack_str (lit ''p'') @ pack_str (lit ''t'') @ pack_uint32 t
     @ pack_str (lit ''p'') @ pack_map_header 1 @ pack_uint32 (of_nat i) @ pack_map_header 2
     @ pack_str (lit ''o'') @ pack_uint64 (of_nat off) @ pack_str (lit ''d'') @ pack_bin d"

definition sendValueParts :: "net_env \<Rightarrow> tid \<Rightarrow> bytes list \<Rightarrow> bytes \<Rightarrow> engine \<Rightarrow> engine" where
  "sendValueParts E t svals addr e =
     fold (\<lambda>(i, v) e. fold (\<lambda>(off, d) e. snd (send E addr (part_msg E t i off d) False e)) (parts_of v 0) e)
       (enumerate 0 svals) e"

definition unreachable :: "errno \<Rightarrow> bool" where
  "unreachable err = (err \<in> {ENETUNREACH, EHOSTUNREACH, EAFNOSUPPORT, EPIPE, EPERM})"

definition expire_request :: "rref \<Rightarrow> engine \<Rightarrow> engine" where
  "expire_request r e =
     (let n = rq_node (rq e r); e = node_setExpired n e in
      if \<not> hash_bool (n_id (nd e n)) then e\<lparr>eng_requests := map_erase (rq_tid (rq e r)) (eng_requests e)\<rparr> else e)"

definition schedule_step :: "rref \<Rightarrow> engine \<Rightarrow> engine" where
  "schedule_step r e =
     (let t = last_try (rq e r) + attempt_duration (rq e r) in
      if t \<noteq> time_max then e\<lparr>jobs := multimap_emplace t r (jobs e)\<rparr> else e)"

definition requestStep :: "net_env \<Rightarrow> rref \<Rightarrow> engine \<Rightarrow> engine" where
  "requestStep E r e =
     (if \<not> pending (rq e r) then e
      else if req_isExpired (eng_now e) (rq e r) then expire_request r e
      else
        let n = rq_node (rq e r);
            e = (if attempt_count (rq e r) = 1 then call_cb (On_expired r False) e else e);
            k = length (sent e);
            (err, e) = send E (n_addr (nd e n)) (rq_msg (rq e r)) (reply_time (nd e n) < eng_now e - UDP_REPLY_TIME) e
        in if unreachable err then expire_request r e
           else
             let e = upd_rq r (\<lambda>q. q\<lparr>last_try := eng_now e\<rparr>) e;
                 e = (if err \<noteq> EAGAIN then
                        let e = upd_rq r (\<lambda>q. q\<lparr>attempt_count := attempt_count q + 1,
                                  attempt_duration := attempt_duration q + (attempt_duration q + jitter E k)\<rparr>) e
                        in if rq_parts (rq e r) \<noteq> [] then
                             sendValueParts E (rq_tid (rq e r)) (rq_parts (rq e r)) (n_addr (nd e n)) e else e
                      else e)
             in schedule_step r e)"

definition sendRequest :: "net_env \<Rightarrow> rref \<Rightarrow> engine \<Rightarrow> engine" where
  "sendRequest E r e =
     (let n = rq_node (rq e r);
          e = (if \<not> hash_bool (n_id (nd e n))
               then e\<lparr>eng_requests := snd (map_emplace (rq_tid (rq e r)) r (eng_requests e))\<rparr> else e);
          e = upd_rq r (\<lambda>q. q\<lparr>start := eng_now e\<rparr>) e;
          e = node_requested n r e
      in requestStep E r e)"

definition alloc_request :: "dht_request \<Rightarrow> 'a dht_heap_scheme \<Rightarrow> rref \<times> 'a dht_heap_scheme" where
  "alloc_request q h = (next_rq h, h\<lparr>rq := (rq h)(next_rq h := q), next_rq := Suc (next_rq h)\<rparr>)"

definition count_out :: "(message_stats \<Rightarrow> message_stats) \<Rightarrow> engine \<Rightarrow> engine" where
  "count_out f e = e\<lparr>out_stats := f (out_stats e)\<rparr>"

definition sendPing :: "net_env \<Rightarrow> nref \<Rightarrow> engine \<Rightarrow> rref \<times> engine" where
  "sendPing E n e =
     (let (t, e) = getNewTid n e;
          (r, e) = alloc_request (new_request_obj Ping t n (ping_msg E t) False) e;
          e = sendRequest E r e
      in (r, count_out (\<lambda>st. st\<lparr>st_ping := st_ping st + 1\<rparr>) e))"

definition sendFindNode :: "net_env \<Rightarrow> nref \<Rightarrow> hash \<Rightarrow> int \<Rightarrow> engine \<Rightarrow> rref \<times> engine" where
  "sendFindNode E n target w e =
     (let (t, e) = getNewTid n e;
          (r, e) = alloc_request (new_request_obj FindNode t n (find_msg E t target w) False) e;
          e = sendRequest E r e
      in (r, count_out (\<lambda>st. st\<lparr>st_find := st_find st + 1\<rparr>) e))"

text \<open>\<open>NetworkEngine::clear\<close>.\<close>

definition engine_clear :: "engine \<Rightarrow> engine" where
  "engine_clear e =
     (fold (\<lambda>(t, r) e. node_setExpired (rq_node (rq e r)) (req_cancel r e)) (eng_requests e) e)\<lparr>eng_requests := []\<rparr>"

section \<open>Fragments\<close>

lemma parts_of_cover:
  "st \<le> length v \<Longrightarrow> concat (map snd (parts_of v st)) = drop st v
     \<and> (\<forall>(off, d)\<in>set (parts_of v st). length d \<le> MTU \<and> d = take (length d) (drop off v))"
proof (induction v st rule: parts_of.induct)
  case (1 v st)
  show ?case
  proof (cases "min (st + MTU) (length v) = length v")
    case True
    then have "parts_of v st = [(st, drop st v)]" using 1 by (subst parts_of.simps) (simp add: Let_def)
    moreover have "length v - st \<le> MTU" using True by (simp add: min_def split: if_splits)
    ultimately show ?thesis by simp
  next
    case False
    then have lt: "st + MTU < length v" by linarith
    then have en: "min (st + MTU) (length v) = st + MTU" by simp
    with lt have p: "parts_of v st = (st, take MTU (drop st v)) # parts_of v (st + MTU)"
      by (subst parts_of.simps) (simp add: Let_def)
    have "drop st v = take MTU (drop st v) @ drop (st + MTU) v"
      by (metis add.commute append_take_drop_id drop_drop)
    then show ?thesis using "1.IH" [OF refl refl False] lt p en by (simp add: min_def)
  qed
qed

text \<open>
  The parts in which a value is sent cover it exactly: their contents in order are the value, no part is longer than
  \<open>MTU\<close>, every part is the piece of the value at its stated offset, and the loop ends, for the empty value after one empty part.
\<close>

theorem value_parts_cover:
  "concat (map snd (parts_of v 0)) = v
   \<and> list_all (\<lambda>p. length (snd p) \<le> MTU \<and> snd p = take (length (snd p)) (drop (fst p) v)) (parts_of v 0)
   \<and> parts_of [] 0 = [(0, [])]"
  using parts_of_cover [of 0 v] by (auto simp: list_all_iff parts_of.simps [of "[]"])

section \<open>Every request ends once, whatever happens\<close>

lemma sound_engine_fields:
  "sound_step h (h\<lparr>eng_requests := x\<rparr>)" "sound_step h (h\<lparr>jobs := y\<rparr>)" "sound_step h (h\<lparr>sent := z\<rparr>)"
  "sound_step h (count_out f h)" "sound_step h (h\<lparr>eng_now := t\<rparr>)"
  by (auto simp: count_out_def intro!: sound_stepI)

lemma send_sound [inv_intros]: "sound_step e (snd (send E a b c e))"
  by (auto simp: send_def intro: sound_engine_fields)

lemma sendValueParts_sound [inv_intros]: "sound_step e (sendValueParts E t vs a e)"
  unfolding sendValueParts_def
  by (auto intro!: sound_step_fold inv_intros split: prod.splits)

lemma upd_rq_sound: "(\<And>q. rq_state (f q) = rq_state q) \<Longrightarrow> sound_step e (upd_rq r f e)"
  by (rule sound_stepI) (auto simp: upd_rq_def)

lemma soft_expired_sound [inv_intros]: "sound_step e (call_cb (On_expired r False) e)"
  by (rule sound_stepI) (auto simp: call_cb_def)

lemma expire_request_sound [inv_intros]: "sound_step e (expire_request r e)"
  by (auto simp: expire_request_def Let_def intro: inv_intros sound_step_trans [OF _ sound_engine_fields(1)])

lemma schedule_step_sound [inv_intros]: "sound_step e (schedule_step r e)"
  by (auto simp: schedule_step_def Let_def intro: sound_engine_fields)

text \<open>The part of a step after the datagram was handed over.\<close>

definition after_send :: "net_env \<Rightarrow> rref \<Rightarrow> nat \<Rightarrow> errno \<times> engine \<Rightarrow> engine" where
  "after_send E r k res =
     (case res of (err, e) \<Rightarrow>
        if unreachable err then expire_request r e
        else
          let e = upd_rq r (\<lambda>q. q\<lparr>last_try := eng_now e\<rparr>) e;
              e = (if err \<noteq> EAGAIN then
                     let e = upd_rq r (\<lambda>q. q\<lparr>attempt_count := attempt_count q + 1,
                               attempt_duration := attempt_duration q + (attempt_duration q + jitter E k)\<rparr>) e
                     in if rq_parts (rq e r) \<noteq> [] then
                          sendValueParts E (rq_tid (rq e r)) (rq_parts (rq e r)) (n_addr (nd e (rq_node (rq e r)))) e else e
                   else e)
          in schedule_step r e)"

lemma requestStep_unfold:
  "requestStep E r e =
     (if \<not> pending (rq e r) then e
      else if req_isExpired (eng_now e) (rq e r) then expire_request r e
      else
        let n = rq_node (rq e r);
            e = (if attempt_count (rq e r) = 1 then call_cb (On_expired r False) e else e)
        in after_send E r (length (sent e))
             (send E (n_addr (nd e n)) (rq_msg (rq e r)) (reply_time (nd e n) < eng_now e - UDP_REPLY_TIME) e))"
  by (auto simp: requestStep_def after_send_def Let_def call_cb_def upd_rq_def send_def)

lemma retry_sound:
  "sound_step e0 e \<Longrightarrow> sound_step e0 (upd_rq r (\<lambda>q. q\<lparr>last_try := t\<rparr>) e)"
  "sound_step e0 e \<Longrightarrow> sound_step e0 (upd_rq r (\<lambda>q. q\<lparr>start := t\<rparr>) e)"
  "sound_step e0 e \<Longrightarrow> sound_step e0 (upd_rq r (\<lambda>q. q\<lparr>attempt_count := attempt_count q + 1,
      attempt_duration := attempt_duration q + (attempt_duration q + d)\<rparr>) e)"
  by (rule sound_step_trans, assumption, rule upd_rq_sound, simp)+

lemma if_sound: "(b \<Longrightarrow> sound_step e x) \<Longrightarrow> (\<not> b \<Longrightarrow> sound_step e y) \<Longrightarrow> sound_step e (if b then x else y)"
  by simp

lemma after_send_sound [inv_intros]: "sound_step (snd res) (after_send E r k res)"
proof (cases res)
  case (Pair err e)
  show ?thesis
    unfolding Pair after_send_def Let_def split snd_conv
    by (intro if_sound expire_request_sound sound_step_trans [OF _ schedule_step_sound]
        sound_step_trans [OF _ sendValueParts_sound] retry_sound sound_step_refl)
qed

lemma requestStep_sound [inv_intros]: "sound_step e (requestStep E r e)"
proof -
  have "sound_step e (after_send E r k (send E a b c e1))" if "sound_step e e1" for e1 k a b c
    using that sound_step_trans [OF send_sound after_send_sound] by (rule sound_step_trans)
  then show ?thesis
    unfolding requestStep_unfold Let_def
    by (intro if_sound sound_step_refl expire_request_sound) (simp_all add: soft_expired_sound)
qed

lemma sendRequest_sound [inv_intros]: "sound_step e (sendRequest E r e)"
  unfolding sendRequest_def Let_def
  by (rule sound_step_trans [OF _ requestStep_sound], rule sound_step_trans [OF _ node_requested_sound],
      rule retry_sound(2), intro if_sound sound_engine_fields sound_step_refl)

lemma alloc_request_sound [inv_intros]:
  assumes "rq_state q = PENDING"
  shows "sound_step h (snd (alloc_request q h))"
proof -
  have "once_ok (snd (alloc_request q h))" if ok: "once_ok h"
  proof -
    have "once_at (next_rq h) CANCELLED (finals (next_rq h) h)" using ok unfolding once_ok_def by (metis order_refl)
    then show ?thesis using ok assms by (auto simp: once_ok_def alloc_request_def finals_def once_at_def)
  qed
  moreover have "settles h (snd (alloc_request q h))"
    by (auto simp: settles_def alloc_request_def)
  ultimately show ?thesis by (simp add: sound_step_def)
qed

lemma getNewTid_sound [inv_intros]: "sound_step h (snd (getNewTid n h))"
  by (auto simp: getNewTid_def Let_def intro: inv_intros)

lemma new_request_sound:
  "sound_step e (sendRequest E (fst (alloc_request (new_request_obj ty t n m b) e1))
     (snd (alloc_request (new_request_obj ty t n m b) e1)))" if "sound_step e e1"
  by (rule sound_step_trans [OF that], rule sound_step_trans [OF alloc_request_sound])
    (auto simp: new_request_obj_def intro: inv_intros)

lemma sendPing_sound [inv_intros]: "sound_step e (snd (sendPing E n e))"
  using sound_step_trans [OF new_request_sound [OF getNewTid_sound] sound_engine_fields(4)]
  by (simp add: sendPing_def Let_def case_prod_beta)

lemma sendFindNode_sound [inv_intros]: "sound_step e (snd (sendFindNode E n target w e))"
  using sound_step_trans [OF new_request_sound [OF getNewTid_sound] sound_engine_fields(4)]
  by (simp add: sendFindNode_def Let_def case_prod_beta)

lemma engine_clear_sound [inv_intros]: "sound_step e (engine_clear e)"
  unfolding engine_clear_def
  by (rule sound_step_trans [OF _ sound_engine_fields(1)], rule sound_step_fold)
    (auto intro: sound_step_trans [OF req_cancel_sound node_setExpired_sound] split: prod.splits)

datatype engine_event =
    Ev_ping nref
  | Ev_find nref hash int
  | Ev_step time_point rref
  | Ev_done rref
  | Ev_error bool rref
  | Ev_cancel nref "rref option"
  | Ev_received nref time_point "rref option"
  | Ev_auth_error nref
  | Ev_expired nref
  | Ev_clear

fun engine_apply :: "net_env \<Rightarrow> engine_event \<Rightarrow> engine \<Rightarrow> engine" where
  "engine_apply E (Ev_ping n) e = snd (sendPing E n e)"
| "engine_apply E (Ev_find n target w) e = snd (sendFindNode E n target w e)"
| "engine_apply E (Ev_step t r) e = requestStep E r (e\<lparr>eng_now := t\<rparr>)"
| "engine_apply E (Ev_done r) e = req_setDone r e"
| "engine_apply E (Ev_error b r) e = snd (req_setError b r e)"
| "engine_apply E (Ev_cancel n req) e = node_cancelRequest n req e"
| "engine_apply E (Ev_received n t req) e = node_received n t req e"
| "engine_apply E (Ev_auth_error n) e = authError n e"
| "engine_apply E (Ev_expired n) e = node_setExpired n e"
| "engine_apply E Ev_clear e = engine_clear e"

inductive engine_step :: "net_env \<Rightarrow> engine \<Rightarrow> engine_event \<Rightarrow> engine \<Rightarrow> bool" for E where
  "engine_step E e ev (engine_apply E ev e)"

inductive_cases engine_stepE: "engine_step E e ev e'"

lemma engine_apply_sound: "sound_step e (engine_apply E ev e)"
  by (cases ev) (auto intro: inv_intros sound_step_trans [OF sound_engine_fields(5) requestStep_sound])

interpretation requests: event_machine "engine_step E" once_ok settles for E
proof unfold_locales
  fix e ev e'
  assume "engine_step E e ev e'"
  then have "sound_step e e'" by (auto elim: engine_stepE intro: engine_apply_sound)
  then show "once_ok e \<Longrightarrow> once_ok e'" and "settles e e'" by (simp_all add: sound_step_def)
qed (auto intro: settles_trans)

text \<open>
  Whatever the engine does and whatever reaches it, in any order (sends, scheduled attempts, replies, errors, cancellations,
  expiry of nodes, a full clear), every request ends at most once: a request that is done has had its completion callback exactly
  once and no other final callback, an expired one at most one error or expiry callback, a pending or cancelled one none; and a
  request that is over never changes its state again.
\<close>

theorem request_ends_once:
  assumes "run (engine_step E) e evs e'" and "once_ok e"
  shows "once_ok e' \<and> settles e e'"
  using requests.run_keeps [OF assms] .

definition init_engine :: engine where
  "init_engine = \<lparr>nd = nd init_heap, rq = rq init_heap, next_rq = 0, calls = [], eng_now = 0, eng_requests = [], jobs = [],
     sent = [], out_stats = no_stats\<rparr>"

definition test_net :: net_env where
  "test_net = \<lparr>has_socket = True, sendTo = (\<lambda>_. OK), jitter = (\<lambda>_. 0), network = 0, myid = replicate 20 1,
     clock_now = 0, system_now = 0\<rparr>"

lemma init_once_ok: "once_ok init_engine"
  by (simp add: once_ok_def init_engine_def init_heap_def finals_def once_at_def)

theorem request_ends_once_witness:
  "once_ok (engine_apply test_net (Ev_done 0) (engine_apply test_net (Ev_ping 3) init_engine))"
proof -
  have "run (engine_step test_net) init_engine [Ev_ping 3, Ev_done 0]
      (engine_apply test_net (Ev_done 0) (engine_apply test_net (Ev_ping 3) init_engine))"
    by (meson engine_step.intros run_Cons run_Nil)
  then show ?thesis using request_ends_once [OF _ init_once_ok] by blast
qed

section \<open>Attempts\<close>

text \<open>Running the steps of one request at given times.\<close>

fun steps_at :: "net_env \<Rightarrow> rref \<Rightarrow> time_point list \<Rightarrow> engine \<Rightarrow> engine" where
  "steps_at E r [] e = e"
| "steps_at E r (t # ts) e = steps_at E r ts (requestStep E r (e\<lparr>eng_now := t\<rparr>))"

definition filed :: "rref \<Rightarrow> engine \<Rightarrow> bool" where
  "filed r e \<longleftrightarrow> index_ok e (rq_node (rq e r)) \<and> r \<in> snd ` set (n_requests (nd e (rq_node (rq e r))))"

definition healthy :: "net_env \<Rightarrow> bool" where
  "healthy E \<longleftrightarrow> has_socket E \<and> (\<forall>k. sendTo E k = OK)"

lemma attempt_sends:
  assumes "pending (rq e r)" and "\<not> req_isExpired (eng_now e) (rq e r)" and "healthy E" and "rq_parts (rq e r) = []"
  shows "attempt_count (rq (requestStep E r e) r) = attempt_count (rq e r) + 1"
    "pending (rq (requestStep E r e) r)" "rq_parts (rq (requestStep E r e) r) = []"
    "length (sent (requestStep E r e)) = length (sent e) + 1"
    "nd (requestStep E r e) = nd e" "rq_tid (rq (requestStep E r e) r') = rq_tid (rq e r')"
    "rq_node (rq (requestStep E r e) r') = rq_node (rq e r')"
  using assms
  by (simp_all add: requestStep_unfold healthy_def send_def after_send_def unreachable_def Let_def
      upd_rq_def schedule_step_def call_cb_def pending_def)

lemma attempt_filed:
  assumes "pending (rq e r)" and "\<not> req_isExpired (eng_now e) (rq e r)" and "healthy E" and "rq_parts (rq e r) = []" and "filed r e"
  shows "filed r (requestStep E r e)"
  using assms attempt_sends [OF assms(1-4)] by (simp add: filed_def index_ok_def)

lemma sent_fold_expired: "sent (fold req_setExpired rs e) = sent e"
  by (induction rs arbitrary: e) (simp_all add: req_setExpired_def heap_defs)

lemma attempt_expires:
  assumes "pending (rq e r)" and "attempt_count (rq e r) \<ge> MAX_ATTEMPT_COUNT"
    and "eng_now e > last_try (rq e r) + attempt_duration (rq e r)"
    and "filed r e"
  shows "rq_state (rq (requestStep E r e) r) = EXPIRED \<and> sent (requestStep E r e) = sent e"
proof -
  let ?n = "rq_node (rq e r)"
  have "req_isExpired (eng_now e) (rq e r)" using assms by (simp add: req_isExpired_def)
  then have step: "requestStep E r e = expire_request r e" using assms(1) by (simp add: requestStep_def)
  have "rq_state (rq (node_setExpired ?n e) r) = EXPIRED"
    using setExpired_all [OF index_ok_distinct, of e ?n "upd_nd ?n (\<lambda>x. x\<lparr>n_expired := True\<rparr>) e"] assms(1,4)
    unfolding node_setExpired_eq filed_def by (simp add: upd_nd_def)
  moreover have "sent (node_setExpired ?n e) = sent e"
    unfolding node_setExpired_eq by (simp add: upd_nd_def sent_fold_expired)
  ultimately show ?thesis by (simp add: step expire_request_def Let_def)
qed

text \<open>An attempt below the limit, at any time: the request stays pending, filed and one datagram goes out.\<close>

definition in_flight :: "net_env \<Rightarrow> rref \<Rightarrow> nat \<Rightarrow> nat \<Rightarrow> engine \<Rightarrow> bool" where
  "in_flight E r a s e \<longleftrightarrow> pending (rq e r) \<and> rq_parts (rq e r) = [] \<and> filed r e \<and> attempt_count (rq e r) = of_nat a
     \<and> length (sent e) = s"

lemma in_flight_step:
  assumes "healthy E" and "in_flight E r a s e" and "\<not> req_isExpired t (rq e r)"
  shows "in_flight E r (Suc a) (Suc s) (requestStep E r (e\<lparr>eng_now := t\<rparr>))"
proof -
  have "filed r (e\<lparr>eng_now := t\<rparr>)" using assms(2) by (simp add: in_flight_def filed_def index_ok_def)
  then show ?thesis
    using attempt_sends [of "e\<lparr>eng_now := t\<rparr>" r E] attempt_filed [of "e\<lparr>eng_now := t\<rparr>" r E] assms
    by (simp add: in_flight_def add.commute)
qed

text \<open>
  C25: A request gets three attempts. On a working socket, a new request is sent by each of its first three steps, at whatever
  times they run; the fourth step expires it, together with every other request of the unresponsive node, provided it runs later
  than the due time. A fourth step exactly at the due time, which is when the scheduler may run it, sends a fourth datagram instead.
\<close>

theorem three_attempts:
  fixes t1 t2 t3 t4 :: time_point
  assumes "healthy E" and "in_flight E r 0 s e"
  defines "e3 \<equiv> steps_at E r [t1, t2, t3] e"
  defines "due \<equiv> last_try (rq e3 r) + attempt_duration (rq e3 r)"
  shows "in_flight E r 3 (s + 3) e3
     \<and> (t4 > due \<longrightarrow> rq_state (rq (steps_at E r [t4] e3) r) = EXPIRED \<and> length (sent (steps_at E r [t4] e3)) = s + 3)
     \<and> (t4 \<le> due \<longrightarrow> in_flight E r 4 (s + 4) (steps_at E r [t4] e3))"
proof -
  have early: "\<not> req_isExpired t (rq e r)" if "in_flight E r a s e" "a < 3" for t a s e
  proof -
    have "a = 0 \<or> a = 1 \<or> a = 2" using that(2) by auto
    then show ?thesis using that(1) by (auto simp: req_isExpired_def in_flight_def MAX_ATTEMPT_COUNT_def word_le_nat_alt)
  qed
  note step = in_flight_step [OF assms(1)]
  have 1: "in_flight E r 1 (Suc s) (steps_at E r [t1] e)"
    using step [OF assms(2) early [OF assms(2)]] by simp
  have 2: "in_flight E r 2 (Suc (Suc s)) (steps_at E r [t1, t2] e)"
    using step [OF 1 early [OF 1], of t2] by (simp add: numeral_2_eq_2)
  have 3: "in_flight E r 3 (s + 3) e3"
    using step [OF 2 early [OF 2], of t3] by (simp add: e3_def eval_nat_numeral)
  have "rq_state (rq (steps_at E r [t4] e3) r) = EXPIRED \<and> length (sent (steps_at E r [t4] e3)) = s + 3" if "t4 > due"
    using attempt_expires [of "e3\<lparr>eng_now := t4\<rparr>" r E] 3 that
    by (simp add: in_flight_def MAX_ATTEMPT_COUNT_def due_def filed_def index_ok_def)
  moreover have "in_flight E r 4 (s + 4) (steps_at E r [t4] e3)" if "t4 \<le> due"
    using step [OF 3, of t4] that by (simp add: req_isExpired_def due_def eval_nat_numeral)
  ultimately show ?thesis using 3 by blast
qed

definition fresh_engine :: engine where
  "fresh_engine = init_engine\<lparr>nd := nd busy_heap, rq := rq busy_heap, next_rq := 1\<rparr>"

lemma fresh_in_flight: "in_flight test_net 0 0 0 fresh_engine" "healthy test_net"
  by (simp_all add: in_flight_def filed_def index_ok_def fresh_engine_def init_engine_def busy_heap_def new_request_obj_def
      pending_def map_sorted_def healthy_def test_net_def)

theorem three_attempts_witness:
  "in_flight test_net 0 3 3 (steps_at test_net 0 [10, 20, 30] fresh_engine)"
  using three_attempts [OF fresh_in_flight(2,1)] by simp

end
