(* ===== verification/Routing.thy ===== *)
theory Routing
  imports Network_Engine "HOL-Library.Multiset"
begin

text \<open>
  The routing table (\<open>routing_table.h\<close>, \<open>routing_table.cpp\<close>): a list of buckets that cut the space of
  identifiers into ranges, each with at most \<open>TARGET_NODES\<close> nodes. An iterator is an index, the end
  iterator is the length of the list. What the table needs from the nodes and from the network engine is
  the record \<open>service\<close>; the engine's own instance is \<open>engine_service\<close>.
\<close>

record 'e service =
  sv_id :: "'e \<Rightarrow> nref \<Rightarrow> hash"
  sv_expired :: "'e \<Rightarrow> nref \<Rightarrow> bool"
  sv_good :: "'e \<Rightarrow> time_point \<Rightarrow> nref \<Rightarrow> bool"
  sv_pending :: "'e \<Rightarrow> nref \<Rightarrow> bool"
  sv_ping :: "nref \<Rightarrow> 'e \<Rightarrow> 'e"

definition engine_service :: "net_env \<Rightarrow> engine service" where
  "engine_service E = \<lparr>sv_id = (\<lambda>e n. n_id (nd e n)), sv_expired = (\<lambda>e n. n_expired (nd e n)),
     sv_good = (\<lambda>e t n. isGood t (nd e n)), sv_pending = isPendingMessage, sv_ping = (\<lambda>n e. snd (sendPing E n e))\<rparr>"

definition TARGET_NODES :: nat where
  "TARGET_NODES = 8"

section \<open>Buckets\<close>

record bucket =
  b_af :: nat
  b_first :: hash
  b_time :: time_point
  b_nodes :: "nref list"
  b_cached :: "nref option"

definition new_bucket :: "nat \<Rightarrow> hash \<Rightarrow> time_point \<Rightarrow> bucket" where
  "new_bucket af f t = \<lparr>b_af = af, b_first = f, b_time = t, b_nodes = [], b_cached = None\<rparr>"

text \<open>\<open>nn\<close> is the number drawn by the generator from the range the code asks for.\<close>

fun nth_allowed :: "(nref \<Rightarrow> bool) \<Rightarrow> nat \<Rightarrow> nref list \<Rightarrow> nref option" where
  "nth_allowed allowed nn [] = None"
| "nth_allowed allowed nn (n # ns) =
     (if allowed n then if nn = 0 then Some n else nth_allowed allowed (nn - 1) ns else nth_allowed allowed nn ns)"

definition rand_range :: "'e service \<Rightarrow> 'e \<Rightarrow> bucket \<Rightarrow> nat" where
  "rand_range sv e b =
     (let n = length (b_nodes b); x = length (filter (sv_expired sv e) (b_nodes b)) in
      if x < n then n - x - 1 else n - 1)"

definition randomNode :: "'e service \<Rightarrow> 'e \<Rightarrow> nat \<Rightarrow> bucket \<Rightarrow> nref option" where
  "randomNode sv e nn b =
     (if b_nodes b = [] then None
      else
        let prioritize = length (filter (sv_expired sv e) (b_nodes b)) < length (b_nodes b) in
        case nth_allowed (\<lambda>n. \<not> (prioritize \<and> sv_expired sv e n)) nn (b_nodes b) of
          Some n \<Rightarrow> Some n
        | None \<Rightarrow> Some (last (b_nodes b)))"

definition sendCachedPing :: "'e service \<Rightarrow> bucket \<Rightarrow> 'e \<Rightarrow> bucket \<times> 'e" where
  "sendCachedPing sv b e = (case b_cached b of None \<Rightarrow> (b, e) | Some n \<Rightarrow> (b\<lparr>b_cached := None\<rparr>, sv_ping sv n e))"

section \<open>The table\<close>

record routing =
  buckets :: "bucket list"
  grow_time :: time_point
  rt_client :: bool

fun find_index :: "hash \<Rightarrow> bucket list \<Rightarrow> nat" where
  "find_index i (b # c # bs) = (if cmp i (b_first c) < 0 then 0 else Suc (find_index i (c # bs)))"
| "find_index i _ = 0"

definition findBucket :: "hash \<Rightarrow> bucket list \<Rightarrow> nat option" where
  "findBucket i bs = (if bs = [] then None else Some (find_index i bs))"

definition contains :: "bucket list \<Rightarrow> nat \<Rightarrow> hash \<Rightarrow> bool" where
  "contains bs it i \<longleftrightarrow> cmp (b_first (bs ! it)) i \<le> 0
     \<and> (Suc it = length bs \<or> cmp i (b_first (bs ! Suc it)) < 0)"

definition isEmpty :: "bucket list \<Rightarrow> bool" where
  "isEmpty bs \<longleftrightarrow> bs = [] \<or> length bs = 1 \<and> b_nodes (bs ! 0) = []"

definition depth_bit :: "bucket list \<Rightarrow> nat \<Rightarrow> int" where
  "depth_bit bs it = (let bit1 = lowbit (b_first (bs ! it));
      bit2 = if Suc it < length bs then lowbit (b_first (bs ! Suc it)) else -1
    in max bit1 bit2 + 1)"

definition depth :: "bucket list \<Rightarrow> nat \<Rightarrow> nat" where
  "depth bs it = (if it \<ge> length bs then 0 else nat (depth_bit bs it))"

text \<open>\<open>None\<close> is the exception \<open>std::out_of_range\<close>.\<close>

definition middle :: "bucket list \<Rightarrow> nat \<Rightarrow> hash option" where
  "middle bs it = (let b = depth bs it in
     if b \<ge> 8 * HASH_LEN then None else Some (setBit (b_first (bs ! it)) b True))"

text \<open>\<open>rnd\<close> supplies the random bytes in the order in which they are drawn.\<close>

definition randomId :: "(nat \<Rightarrow> byte) \<Rightarrow> bucket list \<Rightarrow> nat \<Rightarrow> hash" where
  "randomId rnd bs it =
     (let bt = depth_bit bs it; first = b_first (bs ! it) in
      if bt \<ge> 8 * int HASH_LEN then first
      else
        let b = nat bt div 8; k = nat bt mod 8 in
        take b first
        @ [first ! b AND push_bit (8 - k) 255 OR drop_bit k (rnd 0)]
        @ map (\<lambda>i. rnd (i - b)) [b + 1..<HASH_LEN])"

definition upd_bucket :: "nat \<Rightarrow> (bucket \<Rightarrow> bucket) \<Rightarrow> bucket list \<Rightarrow> bucket list" where
  "upd_bucket i f bs = bs[i := f (bs ! i)]"

text \<open>The nodes leave the bucket and each goes to the front of the bucket that now holds its identifier.\<close>

definition place_node :: "(nref \<Rightarrow> hash) \<Rightarrow> nref \<Rightarrow> bucket list \<Rightarrow> bucket list" where
  "place_node ids n bs = (case findBucket (ids n) bs of None \<Rightarrow> bs
     | Some i \<Rightarrow> upd_bucket i (\<lambda>b. b\<lparr>b_nodes := n # b_nodes b\<rparr>) bs)"

definition split :: "(nref \<Rightarrow> hash) \<Rightarrow> nat \<Rightarrow> bucket list \<Rightarrow> bool \<times> bucket list" where
  "split ids it bs =
     (case middle bs it of
        None \<Rightarrow> (False, bs)
      | Some new_id \<Rightarrow>
        let b = bs ! it;
            bs' = take it bs @ b\<lparr>b_nodes := []\<rparr> # new_bucket (b_af b) new_id (b_time b) # drop (Suc it) bs
        in (True, fold (place_node ids) (b_nodes b) bs'))"

text \<open>Pings the first node that is not good and has no request in flight; tells whether one was not good on the way.\<close>

fun ping_dubious :: "'e service \<Rightarrow> time_point \<Rightarrow> nref list \<Rightarrow> 'e \<Rightarrow> bool \<times> 'e" where
  "ping_dubious sv now [] e = (False, e)"
| "ping_dubious sv now (n # ns) e =
     (if \<not> sv_good sv e now n then
        if \<not> sv_pending sv e n then (True, sv_ping sv n e) else (True, snd (ping_dubious sv now ns e))
      else ping_dubious sv now ns e)"

fun replace_first :: "('a \<Rightarrow> bool) \<Rightarrow> 'a \<Rightarrow> 'a list \<Rightarrow> 'a list option" where
  "replace_first p x [] = None"
| "replace_first p x (y # ys) = (if p y then Some (x # ys) else map_option (Cons y) (replace_first p x ys))"

text \<open>
  One pass through the body of \<open>onNewNode\<close>. \<open>Inl\<close> is a return; \<open>Inr\<close> is the state at the tail call that
  follows a split.
\<close>

definition onNewNode_pass ::
    "'e service \<Rightarrow> nref \<Rightarrow> int \<Rightarrow> time_point \<Rightarrow> hash \<Rightarrow> routing \<Rightarrow> 'e \<Rightarrow> (bool \<times> routing \<times> 'e) + routing \<times> 'e" where
  "onNewNode_pass sv node confirm now me rt e =
     (case findBucket (sv_id sv e node) (buckets rt) of
        None \<Rightarrow> Inl (False, rt, e)
      | Some i \<Rightarrow>
        let rt = (if confirm = 2 then rt\<lparr>buckets := upd_bucket i (\<lambda>b. b\<lparr>b_time := now\<rparr>) (buckets rt)\<rparr> else rt);
            b = buckets rt ! i
        in if node \<in> set (b_nodes b) then Inl (False, rt, e)
           else
             let mybucket = contains (buckets rt) i me;
                 rt = (if mybucket then rt\<lparr>grow_time := now\<rparr> else rt)
             in if length (b_nodes b) \<ge> TARGET_NODES then
                  case replace_first (sv_expired sv e) node (b_nodes b) of
                    Some ns \<Rightarrow> Inl (True, rt\<lparr>buckets := upd_bucket i (\<lambda>b. b\<lparr>b_nodes := ns\<rparr>) (buckets rt)\<rparr>, e)
                  | None \<Rightarrow>
                    let (dubious, e) = ping_dubious sv now (b_nodes b) e in
                    if (mybucket \<or> rt_client rt \<and> depth (buckets rt) i < 6) \<and> (\<not> dubious \<or> length (buckets rt) = 1) then
                      let (b', e) = sendCachedPing sv b e;
                          rt = rt\<lparr>buckets := (buckets rt)[i := b']\<rparr>;
                          rt = rt\<lparr>buckets := snd (split (sv_id sv e) i (buckets rt))\<rparr>
                      in Inr (rt, e)
                    else
                      Inl (True, (if confirm \<noteq> 0 \<or> b_cached b = None
                        then rt\<lparr>buckets := upd_bucket i (\<lambda>b. b\<lparr>b_cached := Some node\<rparr>) (buckets rt)\<rparr> else rt), e)
                else Inl (True, rt\<lparr>buckets := upd_bucket i (\<lambda>b. b\<lparr>b_nodes := node # b_nodes b\<rparr>) (buckets rt)\<rparr>, e))"

text \<open>
  The recursion has no bound in the code; \<open>None\<close> is a call that ran out of the fuel given as first
  argument.
\<close>

fun onNewNode :: "nat \<Rightarrow> 'e service \<Rightarrow> nref \<Rightarrow> int \<Rightarrow> time_point \<Rightarrow> hash \<Rightarrow> routing \<Rightarrow> 'e \<Rightarrow> (bool \<times> routing \<times> 'e) option" where
  "onNewNode 0 sv node confirm now me rt e = None"
| "onNewNode (Suc k) sv node confirm now me rt e =
     (case onNewNode_pass sv node confirm now me rt e of
        Inl r \<Rightarrow> Some r
      | Inr (rt', e') \<Rightarrow> onNewNode k sv node confirm now me rt' e')"

text \<open>The search outwards from the bucket of the target; the two lists are what is left on either side.\<close>

definition bucket_insert :: "(nref \<Rightarrow> hash) \<Rightarrow> (nref \<Rightarrow> bool) \<Rightarrow> hash \<Rightarrow> bucket \<Rightarrow> nref list \<Rightarrow> nref list" where
  "bucket_insert ids good target b acc =
     fold (\<lambda>n acc. if good n then insert_before (\<lambda>m. xorCmp target (ids n) (ids m) < 0) n acc else acc) (b_nodes b) acc"

function closest_loop :: "(nref \<Rightarrow> hash) \<Rightarrow> (nref \<Rightarrow> bool) \<Rightarrow> hash \<Rightarrow> nat \<Rightarrow> bucket list \<Rightarrow> bucket list \<Rightarrow> nref list \<Rightarrow> nref list" where
  "closest_loop ids good target cnt itn itp acc =
     (if length acc < cnt \<and> (itn \<noteq> [] \<or> itp \<noteq> []) then
        let acc = (case itn of [] \<Rightarrow> acc | b # _ \<Rightarrow> bucket_insert ids good target b acc);
            acc = (case itp of [] \<Rightarrow> acc | b # _ \<Rightarrow> bucket_insert ids good target b acc)
        in closest_loop ids good target cnt (tl itn) (tl itp) acc
      else acc)"
  by pat_completeness auto
termination
  by (relation "measure (\<lambda>(ids, good, target, cnt, itn, itp, acc). length itn + length itp)")
    (auto simp: neq_Nil_conv less_Suc_eq_le intro: add_mono)

declare closest_loop.simps [simp del]

definition findClosestNodes :: "'e service \<Rightarrow> 'e \<Rightarrow> hash \<Rightarrow> time_point \<Rightarrow> nat \<Rightarrow> bucket list \<Rightarrow> nref list" where
  "findClosestNodes sv e target now cnt bs =
     (case findBucket target bs of None \<Rightarrow> []
      | Some i \<Rightarrow> take cnt (closest_loop (sv_id sv e) (sv_good sv e now) target cnt (drop i bs) (rev (take i bs)) []))"

definition bucket_connectivityChanged :: "bucket \<Rightarrow> 'a dht_heap_scheme \<Rightarrow> bucket \<times> 'a dht_heap_scheme" where
  "bucket_connectivityChanged b h = (b\<lparr>b_time := time_min\<rparr>,
     fold (\<lambda>n. upd_nd n (\<lambda>x. x\<lparr>n_time := time_min\<rparr>)) (b_nodes b) h)"

definition table_connectivityChanged :: "time_point \<Rightarrow> routing \<Rightarrow> 'a dht_heap_scheme \<Rightarrow> routing \<times> 'a dht_heap_scheme" where
  "table_connectivityChanged now rt h =
     (rt\<lparr>grow_time := now, buckets := map (\<lambda>b. b\<lparr>b_time := time_min\<rparr>) (buckets rt)\<rparr>,
      fold (\<lambda>b h. snd (bucket_connectivityChanged b h)) (buckets rt) h)"

section \<open>Dyadic ranges\<close>

text \<open>
  The first identifiers of the buckets, from the value \<open>s\<close> up to the value \<open>m\<close>: each range is as long as a
  power of two and starts at a multiple of its length.
\<close>

fun tiles_to :: "nat \<Rightarrow> hash list \<Rightarrow> nat \<Rightarrow> bool" where
  "tiles_to s [] m \<longleftrightarrow> s = m"
| "tiles_to s (f # fs) m \<longleftrightarrow> length f = 20 \<and> hval f = s
     \<and> (\<exists>d\<le>160. 2 ^ (160 - d) dvd s \<and> tiles_to (s + 2 ^ (160 - d)) fs m)"

definition tiles :: "hash list \<Rightarrow> bool" where
  "tiles fs \<longleftrightarrow> tiles_to 0 fs (2 ^ 160)"

definition upper :: "hash list \<Rightarrow> nat \<Rightarrow> nat" where
  "upper fs i = (if Suc i < length fs then hval (fs ! Suc i) else 2 ^ 160)"

lemma tiles_to_append: "tiles_to s (xs @ ys) m \<longleftrightarrow> (\<exists>t. tiles_to s xs t \<and> tiles_to t ys m)"
  by (induction xs arbitrary: s) auto

lemma tiles_to_le: "tiles_to s fs m \<Longrightarrow> s \<le> m"
  by (induction fs arbitrary: s) (auto, metis add_leD1)

lemma tiles_to_first: "tiles_to s (f # fs) m \<Longrightarrow> hval f = s" by simp

lemma tiles_nth:
  assumes "tiles_to s fs (2 ^ 160)" and "i < length fs"
  shows "length (fs ! i) = 20 \<and> s \<le> hval (fs ! i)
    \<and> (\<exists>d\<le>160. 2 ^ (160 - d) dvd hval (fs ! i) \<and> upper fs i = hval (fs ! i) + 2 ^ (160 - d))"
  using assms
proof (induction fs arbitrary: s i)
  case Nil
  then show ?case by simp
next
  case (Cons f fs)
  then obtain d where d: "length f = 20" "hval f = s" "d \<le> 160" "2 ^ (160 - d) dvd s" "tiles_to (s + 2 ^ (160 - d)) fs (2 ^ 160)"
    by auto
  show ?case
  proof (cases i)
    case 0
    have "upper (f # fs) 0 = s + 2 ^ (160 - d)"
      using d(5) by (cases fs) (auto simp: upper_def)
    then show ?thesis using d 0 by auto
  next
    case (Suc j)
    have "upper (f # fs) i = upper fs j" using Suc by (simp add: upper_def)
    then show ?thesis using Cons.IH [OF d(5), of j] Cons.prems Suc by auto
  qed
qed

lemma tiles_upper_le: "tiles_to s fs (2 ^ 160) \<Longrightarrow> i < length fs \<Longrightarrow> upper fs i \<le> 2 ^ 160"
  using tiles_nth [of s fs "Suc i"] hval_bound [of "fs ! Suc i"] by (auto simp: upper_def)

lemma tiles_less_upper: "tiles fs \<Longrightarrow> i < length fs \<Longrightarrow> hval (fs ! i) < upper fs i"
  using tiles_nth [of 0 fs i] unfolding tiles_def by (auto simp: less_add_same_cancel1)

lemma tiles_mono:
  assumes "tiles fs" and "i < j" and "j < length fs"
  shows "upper fs i \<le> hval (fs ! j)"
  using assms(2,3)
proof (induction j)
  case (Suc j)
  show ?case
  proof (cases "i = j")
    case True
    then show ?thesis using Suc.prems by (simp add: upper_def)
  next
    case False
    then have "upper fs i \<le> hval (fs ! j)" using Suc by simp
    also have "\<dots> < upper fs j" using tiles_less_upper [OF assms(1)] Suc.prems by simp
    finally show ?thesis using Suc.prems by (simp add: upper_def)
  qed
qed simp

text \<open>What \<open>lowbit\<close> says about alignment, and the depth of a bucket.\<close>

lemma mult_8_20: "8 * (20::nat) = 160" by simp

lemma lowbit_aligned:
  assumes "length h = 20" and "2 ^ Suc k dvd hval h" and "k < 160"
  shows "lowbit h < int (159 - k)"
proof (cases "lowbit h = -1")
  case True
  then show ?thesis by simp
next
  case False
  then obtain i where i: "lowbit h = int i" using lowbit_spec [of h] by auto
  have "\<not> 160 - i \<le> Suc k"
  proof
    assume "160 - i \<le> Suc k"
    then have "(2::nat) ^ (160 - i) dvd 2 ^ Suc k" by (rule le_imp_power_dvd)
    then show False using lowbit_dvd(3) [OF i] assms(1,2) dvd_trans by (metis (no_types) mult_8_20)
  qed
  then show ?thesis using i by simp
qed

lemma tile_depth:
  assumes f: "length f = 20" and d: "d \<le> 160" "2 ^ (160 - d) dvd hval f"
    and nxt: "case g of None \<Rightarrow> hval f + 2 ^ (160 - d) = 2 ^ 160
                      | Some g \<Rightarrow> length g = 20 \<and> hval g = hval f + 2 ^ (160 - d)"
  shows "max (lowbit f) (case g of None \<Rightarrow> -1 | Some g \<Rightarrow> lowbit g) + 1 = int d"
proof (cases "d = 0")
  case True
  have "hval f = 0 \<and> g = None"
  proof (cases g)
    case None
    then show ?thesis using nxt True by simp
  next
    case (Some h)
    then show ?thesis using nxt True hval_bound [of h] by simp
  qed
  then show ?thesis using True lowbit_None_iff [of f] by simp
next
  case False
  define k where "k = 160 - d"
  have k: "k < 160" "int d = int (159 - k) + 1" using False d(1) by (auto simp: k_def)
  obtain q where q: "hval f = 2 ^ k * q" using d(2) by (auto simp: k_def elim: dvdE)
  have odd_iff: "2 ^ Suc k dvd 2 ^ k * x \<longleftrightarrow> even x" for x :: nat
    by (simp add: mult.commute [of 2])
  show ?thesis
  proof (cases "even q")
    case True
    have "g \<noteq> None"
    proof
      assume "g = None"
      then have e: "2 ^ k * (q + 1) = 2 ^ 160" using nxt q by (simp add: k_def [symmetric] algebra_simps)
      have "(2::nat) ^ Suc k dvd 2 ^ 160" using k by (intro le_imp_power_dvd) simp
      then show False using odd_iff [of "q + 1"] e True by (metis even_plus_one_iff)
    qed
    then obtain h where h: "g = Some h" "length h = 20" "hval h = 2 ^ k * (q + 1)"
      using nxt q by (auto simp: k_def [symmetric] algebra_simps)
    have "lowbit h = int (159 - k)"
      using lowbit_eqI [of k h] h k odd_iff [of "q + 1"] True by simp
    moreover have "lowbit f < int (159 - k)"
      using lowbit_aligned [OF f _ k(1)] q odd_iff [of q] True by simp
    ultimately show ?thesis using h k by simp
  next
    case odd: False
    have "lowbit f = int (159 - k)"
      using lowbit_eqI [of k f] f q k odd_iff [of q] odd by simp
    moreover have "(case g of None \<Rightarrow> -1 | Some g \<Rightarrow> lowbit g) < int (159 - k)"
    proof (cases g)
      case (Some h)
      then have "length h = 20" "hval h = 2 ^ k * (q + 1)" using nxt q by (auto simp: k_def [symmetric] algebra_simps)
      then show ?thesis using lowbit_aligned [of h k] Some k(1) odd_iff [of "q + 1"] odd by simp
    qed simp
    ultimately show ?thesis using k by simp
  qed
qed

abbreviation firsts :: "bucket list \<Rightarrow> hash list" where
  "firsts bs \<equiv> map b_first bs"

lemma depth_tiles:
  assumes "tiles (firsts bs)" and "it < length bs"
  obtains d where "d \<le> 160" and "depth_bit bs it = int d" and "depth bs it = d"
    and "2 ^ (160 - d) dvd hval (b_first (bs ! it))"
    and "upper (firsts bs) it = hval (b_first (bs ! it)) + 2 ^ (160 - d)"
proof -
  let ?f = "b_first (bs ! it)"
  obtain d where d: "d \<le> 160" "2 ^ (160 - d) dvd hval ?f" "upper (firsts bs) it = hval ?f + 2 ^ (160 - d)" "length ?f = 20"
    using tiles_nth [of 0 "firsts bs" it] assms by (auto simp: tiles_def)
  define g where "g = (if Suc it < length bs then Some (b_first (bs ! Suc it)) else None)"
  have "case g of None \<Rightarrow> hval ?f + 2 ^ (160 - d) = 2 ^ 160
      | Some g \<Rightarrow> length g = 20 \<and> hval g = hval ?f + 2 ^ (160 - d)"
    using d(3) tiles_nth [of 0 "firsts bs" "Suc it"] assms by (auto simp: g_def upper_def tiles_def)
  from tile_depth [OF d(4,1,2) this] have "depth_bit bs it = int d"
    by (auto simp: depth_bit_def Let_def g_def)
  then show ?thesis using that [of d] d assms(2) by (simp add: depth_def)
qed

end
