(* ===== verification/Routing_Inv.thy ===== *)
theory Routing_Inv
  imports Routing
begin

text \<open>
  Correctness of the routing table: the buckets always cut the whole identifier space, every node is in the
  bucket that covers its identifier, buckets keep their capacity, insertion ends, and a search returns
  the good nodes in the order of the XOR distance.
\<close>

section \<open>Finding a bucket\<close>

definition in_range :: "hash list \<Rightarrow> nat \<Rightarrow> hash \<Rightarrow> bool" where
  "in_range fs i h \<longleftrightarrow> hval (fs ! i) \<le> hval h \<and> hval h < upper fs i"

lemma cmp_less: "length a = length b \<Longrightarrow> cmp a b < 0 \<longleftrightarrow> hval a < hval b"
  by (simp add: cmp_hval sgn_if)

lemma cmp_le: "length a = length b \<Longrightarrow> cmp a b \<le> 0 \<longleftrightarrow> hval a \<le> hval b"
  by (simp add: cmp_hval sgn_if)

lemma hval20: "length h = 20 \<Longrightarrow> hval h < 2 ^ 160"
  using hval_bound [of h] by simp

lemma find_index_range:
  assumes "tiles_to s (firsts bs) (2 ^ 160)" and "bs \<noteq> []" and "length h = 20" and "s \<le> hval h"
  shows "find_index h bs < length bs \<and> in_range (firsts bs) (find_index h bs) h"
  using assms
proof (induction h bs arbitrary: s rule: find_index.induct)
  case (1 h b c bs)
  then obtain d where t: "tiles_to (s + 2 ^ (160 - d)) (firsts (c # bs)) (2 ^ 160)" and s: "hval (b_first b) = s" by auto
  have c: "length (b_first c) = 20" "hval (b_first c) = s + 2 ^ (160 - d)" using t by auto
  show ?case
  proof (cases "cmp h (b_first c) < 0")
    case True
    then show ?thesis using s "1.prems"(3,4) c by (simp add: in_range_def upper_def cmp_less)
  next
    case False
    then have "s + 2 ^ (160 - d) \<le> hval h" using cmp_less [of h "b_first c"] c "1.prems"(3) by simp
    then have "find_index h (c # bs) < length (c # bs) \<and> in_range (firsts (c # bs)) (find_index h (c # bs)) h"
      using "1.IH" [OF False t] "1.prems"(3) by blast
    then show ?thesis using False by (simp add: in_range_def upper_def split: if_splits)
  qed
qed (use hval20 in \<open>auto simp: in_range_def upper_def\<close>)

lemma tiles_nonempty: "tiles (firsts bs) \<Longrightarrow> bs \<noteq> []"
  by (auto simp: tiles_def)

lemma find_index_ok:
  "tiles (firsts bs) \<Longrightarrow> length h = 20 \<Longrightarrow> find_index h bs < length bs \<and> in_range (firsts bs) (find_index h bs) h"
  using find_index_range [of 0 bs h] tiles_nonempty [of bs] by (simp add: tiles_def)

lemma in_range_unique:
  assumes "tiles fs" "i < length fs" "j < length fs" "in_range fs i h" "in_range fs j h"
  shows "i = j"
  using tiles_mono [OF assms(1), of i j] tiles_mono [OF assms(1), of j i] assms
  by (auto simp: in_range_def intro: linorder_cases [of i j])

lemma find_index_unique:
  assumes "tiles (firsts bs)" "length h = 20" "i < length bs" "in_range (firsts bs) i h"
  shows "find_index h bs = i"
  using find_index_ok [OF assms(1,2)] in_range_unique [OF assms(1), of "find_index h bs" i h] assms by simp

lemma contains_in_range:
  assumes "tiles (firsts bs)" "length h = 20" "i < length bs"
  shows "contains bs i h \<longleftrightarrow> in_range (firsts bs) i h"
proof -
  have "length (b_first (bs ! j)) = 20" if "j < length bs" for j
    using tiles_nth [of 0 "firsts bs" j] assms(1) that by (simp add: tiles_def)
  then show ?thesis
    using assms hval20 [OF assms(2)] by (auto simp: contains_def in_range_def upper_def cmp_le cmp_less)
qed

lemma find_index_firsts: "firsts bs = firsts bs' \<Longrightarrow> find_index h bs = find_index h bs'"
proof (induction h bs arbitrary: bs' rule: find_index.induct)
  case (1 h b c bs)
  then obtain b' c' bs'' where "bs' = b' # c' # bs''" "b_first c = b_first c'" "firsts (c # bs) = firsts (c' # bs'')"
    by (auto simp: Cons_eq_map_conv)
  then show ?case using 1 by simp
qed (auto simp: Cons_eq_map_conv)

text \<open>
  C17: The bucket list always covers an identifier exactly once: on a table whose ranges tile the identifier space,
  \<open>findBucket\<close> returns a bucket that contains the identifier in the sense of \<open>contains\<close>, and no other bucket does.
\<close>

theorem findBucket_unique:
  assumes "tiles (firsts bs)" and "length h = 20"
  shows "\<exists>i<length bs. findBucket h bs = Some i \<and> contains bs i h \<and> (\<forall>j<length bs. contains bs j h \<longrightarrow> j = i)"
  using find_index_ok [OF assms] in_range_unique [OF assms(1), of _ "find_index h bs" h] contains_in_range [OF assms]
    tiles_nonempty [OF assms(1)]
  by (auto simp: findBucket_def)

section \<open>Splitting\<close>

lemma middle_half:
  assumes "tiles (firsts bs)" and "it < length bs" and "depth bs it < 160"
  obtains m where "middle bs it = Some m" and "length m = 20"
    and "hval m = hval (b_first (bs ! it)) + 2 ^ (159 - depth bs it)"
proof -
  obtain d where d: "depth bs it = d" "2 ^ (160 - d) dvd hval (b_first (bs ! it))"
    by (rule depth_tiles [OF assms(1,2)]) blast
  have len: "length (b_first (bs ! it)) = 20" using tiles_nth [of 0 "firsts bs" it] assms by (simp add: tiles_def)
  have "\<not> bit (hval (b_first (bs ! it))) (159 - d)"
  proof -
    have "159 - d < 160 - d" using assms(3) d(1) by arith
    then show ?thesis using d(2) unfolding pow_dvd_iff_bits by blast
  qed
  then have "\<not> getBit (b_first (bs ! it)) d" using getBit_hval [of d "b_first (bs ! it)"] len assms(3) d(1) by simp
  then show ?thesis
    using that [of "setBit (b_first (bs ! it)) d True"] hval_setBit [of d "b_first (bs ! it)"] len assms(3) d(1)
    by (simp add: middle_def HASH_LEN_def length_setBit Let_def)
qed

lemma tiles_split:
  assumes "tiles (xs @ f # ys)" and "upper (xs @ f # ys) (length xs) = hval f + 2 ^ (160 - d)" and "d < 160"
    and "length m = 20" and "hval m = hval f + 2 ^ (159 - d)"
  shows "tiles (xs @ f # m # ys)"
proof -
  obtain t where t: "tiles_to 0 xs t" "tiles_to t (f # ys) (2 ^ 160)"
    using assms(1) unfolding tiles_def tiles_to_append by auto
  then obtain c where c: "length f = 20" "hval f = t" "c \<le> 160" "2 ^ (160 - c) dvd t" "tiles_to (t + 2 ^ (160 - c)) ys (2 ^ 160)"
    by auto
  have "upper (xs @ f # ys) (length xs) = t + 2 ^ (160 - c)"
    using c(5) by (cases ys) (auto simp: upper_def nth_append)
  then have "(2::nat) ^ (160 - c) = 2 ^ (160 - d)" using assms(2) c(2) by simp
  then have cd: "c = d" using c(3) assms(3) by (simp add: power_inject_exp)
  define w where "w = (2::nat) ^ (159 - d)"
  have w: "2 ^ (160 - d) = w + w" using assms(3) by (simp add: w_def Suc_diff_le [symmetric] mult_2 [symmetric] power_Suc [symmetric] del: power_Suc)
  have dv: "w dvd t" using c(4) cd w by (metis dvd_add_left_iff dvd_def dvd_refl dvd_trans mult_2_right)
  have "160 - Suc d = 159 - d" by simp
  then have "2 ^ (160 - Suc d) dvd t" "2 ^ (160 - Suc d) dvd t + w"
    "tiles_to (t + w + 2 ^ (160 - Suc d)) ys (2 ^ 160)" "hval m = t + w"
    using dv c(5) cd w assms(5) c(2) by (simp_all add: w_def add.assoc)
  moreover have "(2::nat) ^ (160 - Suc d) = w" by (simp add: w_def)
  ultimately have "tiles_to t (f # m # ys) (2 ^ 160)"
    using c(1,2) assms(3,4) by (auto intro!: exI [of _ "Suc d"])
  then show ?thesis using t(1) unfolding tiles_def tiles_to_append by blast
qed

text \<open>Placing nodes one after the other.\<close>

lemma firsts_update: "b_first b = b_first (bs ! i) \<Longrightarrow> firsts (bs[i := b]) = firsts bs"
  by (metis list_update_beyond list_update_id map_update not_less nth_map length_map)

lemma place_node_eq:
  "bs \<noteq> [] \<Longrightarrow> place_node ids n bs = bs[find_index (ids n) bs := (bs ! find_index (ids n) bs)
     \<lparr>b_nodes := n # b_nodes (bs ! find_index (ids n) bs)\<rparr>]"
  by (simp add: place_node_def findBucket_def upd_bucket_def)

lemma place_node_props:
  assumes "bs \<noteq> []"
  shows "length (place_node ids n bs) = length bs" "firsts (place_node ids n bs) = firsts bs"
    "j < length bs \<Longrightarrow> b_nodes (place_node ids n bs ! j)
       = (if find_index (ids n) bs = j then [n] else []) @ b_nodes (bs ! j)"
  unfolding place_node_eq [OF assms] by (simp, rule firsts_update, simp, simp add: nth_list_update)

lemma fold_place_props:
  assumes "bs \<noteq> []"
  shows "length (fold (place_node ids) ns bs) = length bs \<and> firsts (fold (place_node ids) ns bs) = firsts bs
    \<and> (\<forall>j<length bs. b_nodes (fold (place_node ids) ns bs ! j)
         = rev (filter (\<lambda>n. find_index (ids n) bs = j) ns) @ b_nodes (bs ! j))"
  using assms
proof (induction ns arbitrary: bs)
  case Nil
  then show ?case by simp
next
  case (Cons n ns)
  let ?bs = "place_node ids n bs"
  have p: "length ?bs = length bs" "firsts ?bs = firsts bs" using place_node_props [OF Cons.prems] by auto
  then have "?bs \<noteq> []" using Cons.prems by auto
  moreover have "find_index h ?bs = find_index h bs" for h using find_index_firsts [OF p(2)] .
  ultimately show ?case
    using Cons.IH [of ?bs] p place_node_props(3) [OF Cons.prems, of _ ids n] by auto
qed

section \<open>The invariant\<close>

text \<open>
  The ranges tile the space; no bucket is over its capacity; every node is in the bucket of its identifier;
  no node is in the table twice.
\<close>

definition placed :: "(nref \<Rightarrow> hash) \<Rightarrow> bucket list \<Rightarrow> bool" where
  "placed ids bs \<longleftrightarrow> (\<forall>i<length bs. \<forall>n\<in>set (b_nodes (bs ! i)). find_index (ids n) bs = i)"

definition table_ok :: "(nref \<Rightarrow> hash) \<Rightarrow> bucket list \<Rightarrow> bool" where
  "table_ok ids bs \<longleftrightarrow> tiles (firsts bs) \<and> placed ids bs
     \<and> (\<forall>b\<in>set bs. length (b_nodes b) \<le> TARGET_NODES \<and> distinct (b_nodes b))"

definition table_nodes :: "bucket list \<Rightarrow> nref set" where
  "table_nodes bs = (\<Union>b\<in>set bs. set (b_nodes b))"

lemma table_nodes_nth: "table_nodes bs = (\<Union>i<length bs. set (b_nodes (bs ! i)))"
  by (auto simp: table_nodes_def in_set_conv_nth) (metis lessThan_iff, metis nth_mem)

lemma in_table_iff:
  assumes "table_ok ids bs" and "length (ids n) = 20"
  shows "n \<in> table_nodes bs \<longleftrightarrow> n \<in> set (b_nodes (bs ! find_index (ids n) bs))"
  using find_index_ok [of bs "ids n"] assms by (auto simp: table_nodes_nth table_ok_def placed_def)

lemma table_okI:
  assumes "tiles (firsts bs)"
    and "\<And>i. i < length bs \<Longrightarrow> length (b_nodes (bs ! i)) \<le> TARGET_NODES \<and> distinct (b_nodes (bs ! i))
      \<and> (\<forall>n\<in>set (b_nodes (bs ! i)). find_index (ids n) bs = i)"
  shows "table_ok ids bs"
  using assms by (auto simp: table_ok_def placed_def in_set_conv_nth)

lemma table_ok_nth:
  "table_ok ids bs \<Longrightarrow> i < length bs \<Longrightarrow> length (b_nodes (bs ! i)) \<le> TARGET_NODES \<and> distinct (b_nodes (bs ! i))
      \<and> (\<forall>n\<in>set (b_nodes (bs ! i)). find_index (ids n) bs = i)"
  by (simp add: table_ok_def placed_def)

text \<open>Changing one bucket without moving its range.\<close>

lemma table_ok_update:
  assumes "table_ok ids bs" and "i < length bs" and "b_first b = b_first (bs ! i)"
    and "length (b_nodes b) \<le> TARGET_NODES" and "distinct (b_nodes b)"
    and "\<forall>n\<in>set (b_nodes b). find_index (ids n) bs = i"
  shows "table_ok ids (bs[i := b])"
proof (rule table_okI)
  have f: "firsts (bs[i := b]) = firsts bs"
    using assms(3) by (rule firsts_update)
  then show "tiles (firsts (bs[i := b]))" using assms(1) by (simp add: table_ok_def)
  fix j assume "j < length (bs[i := b])"
  then show "length (b_nodes (bs[i := b] ! j)) \<le> TARGET_NODES \<and> distinct (b_nodes (bs[i := b] ! j))
      \<and> (\<forall>n\<in>set (b_nodes (bs[i := b] ! j)). find_index (ids n) (bs[i := b]) = j)"
    using table_ok_nth [OF assms(1), of j] assms find_index_firsts [OF f] by (cases "j = i") auto
qed

text \<open>The list with one element inserted behind position \<open>it\<close>.\<close>

definition insert_after :: "nat \<Rightarrow> 'a \<Rightarrow> 'a list \<Rightarrow> 'a list" where
  "insert_after it x xs = take (Suc it) xs @ x # drop (Suc it) xs"

lemma length_insert_after: "length (insert_after it x xs) = Suc (length xs)"
  by (simp add: insert_after_def)

lemma insert_after_nth:
  assumes "it < length xs" and "j < Suc (length xs)"
  shows "insert_after it x xs ! j = (if j \<le> it then xs ! j else if j = Suc it then x else xs ! (j - 1))"
proof (cases "Suc it < j")
  case True
  then obtain k where "j = Suc (Suc it) + k" by (metis Suc_leI le_Suc_ex)
  then show ?thesis using assms by (simp add: insert_after_def nth_append)
next
  case False
  then show ?thesis using assms by (auto simp: insert_after_def nth_append min_def not_less_eq_eq le_Suc_eq)
qed

lemma upper_insert_after:
  assumes "it < length fs" and "j < Suc (length fs)"
  shows "upper (insert_after it m fs) j = (if j < it then upper fs j else if j = it then hval m else upper fs (j - 1))"
  using assms by (auto simp: upper_def length_insert_after insert_after_nth)

lemma in_range_insert_after:
  assumes "it < length fs" and "i < length fs" and "in_range fs i h"
  shows "in_range (insert_after it m fs) (if i < it \<or> i = it \<and> hval h < hval m then i else Suc i) h"
  using assms by (auto simp: in_range_def insert_after_nth upper_insert_after)

lemma split_parts:
  assumes "it < length bs"
  shows "take it bs @ (bs ! it)\<lparr>b_nodes := []\<rparr> # x # drop (Suc it) bs
    = insert_after it x (bs[it := (bs ! it)\<lparr>b_nodes := []\<rparr>])"
  using assms by (simp add: insert_after_def take_Suc_conv_app_nth)

text \<open>
  The table between the insertion of the new bucket and the distribution of the nodes.
\<close>

definition opened :: "nat \<Rightarrow> hash \<Rightarrow> bucket list \<Rightarrow> bucket list" where
  "opened it m bs = insert_after it (new_bucket (b_af (bs ! it)) m (b_time (bs ! it))) (bs[it := (bs ! it)\<lparr>b_nodes := []\<rparr>])"

lemma firsts_opened: "it < length bs \<Longrightarrow> firsts (opened it m bs) = insert_after it m (firsts bs)"
proof -
  assume "it < length bs"
  have "firsts (bs[it := (bs ! it)\<lparr>b_nodes := []\<rparr>]) = firsts bs" by (rule firsts_update) simp
  then show ?thesis
    by (simp add: opened_def insert_after_def new_bucket_def take_map [symmetric] drop_map [symmetric])
qed

lemma nodes_opened:
  assumes "it < length bs" and "j < Suc (length bs)"
  shows "b_nodes (opened it m bs ! j)
    = (if j < it then b_nodes (bs ! j) else if j = it \<or> j = Suc it then [] else b_nodes (bs ! (j - 1)))"
  using assms by (auto simp: opened_def insert_after_nth new_bucket_def nth_list_update)

lemma split_eq:
  assumes "it < length bs" and "middle bs it = Some m"
  shows "split ids it bs = (True, fold (place_node ids) (b_nodes (bs ! it)) (opened it m bs))"
  using assms split_parts [OF assms(1)] by (simp add: split_def opened_def Let_def)

lemma tiles_opened:
  assumes "tiles (firsts bs)" and "it < length bs" and "depth bs it < 160" and "middle bs it = Some m"
  shows "tiles (firsts (opened it m bs))"
proof -
  obtain d where d: "depth bs it = d" "upper (firsts bs) it = hval (b_first (bs ! it)) + 2 ^ (160 - d)"
    by (rule depth_tiles [OF assms(1,2)]) blast
  obtain m' where m: "middle bs it = Some m'" "length m' = 20" "hval m' = hval (b_first (bs ! it)) + 2 ^ (159 - d)"
    using middle_half [OF assms(1-3)] d(1) by metis
  have "firsts bs = take it (firsts bs) @ b_first (bs ! it) # drop (Suc it) (firsts bs)"
    using assms(2) by (metis id_take_nth_drop length_map nth_map)
  then show ?thesis
    using tiles_split [of "take it (firsts bs)" "b_first (bs ! it)" "drop (Suc it) (firsts bs)" d m] assms d m
    by (simp add: firsts_opened insert_after_def take_Suc_conv_app_nth)
qed

lemma find_index_opened:
  assumes "tiles (firsts bs)" and "it < length bs" and "depth bs it < 160" and "middle bs it = Some m"
    and "length h = 20" and "find_index h bs = i"
  shows "find_index h (opened it m bs) = (if i < it \<or> i = it \<and> hval h < hval m then i else Suc i)"
proof (rule find_index_unique [OF tiles_opened [OF assms(1-4)] assms(5)])
  have i: "i < length bs" "in_range (firsts bs) i h" using find_index_ok [OF assms(1,5)] assms(6) by auto
  show "(if i < it \<or> i = it \<and> hval h < hval m then i else Suc i) < length (opened it m bs)"
    using i(1) by (simp add: opened_def length_insert_after)
  show "in_range (firsts (opened it m bs)) (if i < it \<or> i = it \<and> hval h < hval m then i else Suc i) h"
    using in_range_insert_after [of it "firsts bs" i h m] assms(2) i by (simp add: firsts_opened)
qed

lemma split_ok:
  assumes ok: "table_ok ids bs" and "\<And>n. length (ids n) = 20" and it: "it < length bs" and "depth bs it < 160"
  shows "fst (split ids it bs)" and "table_ok ids (snd (split ids it bs))" and "length (snd (split ids it bs)) = Suc (length bs)"
    and "\<exists>m. middle bs it = Some m \<and> firsts (snd (split ids it bs)) = firsts (opened it m bs)"
    and "table_nodes (snd (split ids it bs)) \<subseteq> table_nodes bs"
proof -
  have tiles: "tiles (firsts bs)" using ok by (simp add: table_ok_def)
  obtain m where m: "middle bs it = Some m" using middle_half [OF tiles it assms(4)] by blast
  let ?bs = "opened it m bs" and ?ns = "b_nodes (bs ! it)"
  have eq: "split ids it bs = (True, fold (place_node ids) ?ns ?bs)" by (rule split_eq [OF it m])
  have len: "length ?bs = Suc (length bs)" by (simp add: opened_def length_insert_after)
  then have "?bs \<noteq> []" by auto
  note fp = fold_place_props [OF this, of ids ?ns]
  have idx: "find_index (ids n) ?bs = (if i < it \<or> i = it \<and> hval (ids n) < hval m then i else Suc i)"
    if "n \<in> set (b_nodes (bs ! i))" "i < length bs" for n i
    using find_index_opened [OF tiles it assms(4) m assms(2)] table_ok_nth [OF ok that(2)] that(1) by simp
  have nodes: "b_nodes (fold (place_node ids) ?ns ?bs ! j) = (if j < it then b_nodes (bs ! j)
      else if j = it \<or> j = Suc it then rev (filter (\<lambda>n. find_index (ids n) ?bs = j) ?ns) else b_nodes (bs ! (j - 1)))"
    if "j < Suc (length bs)" for j
  proof -
    have "filter (\<lambda>n. find_index (ids n) ?bs = j) ?ns = []" if "j \<noteq> it" "j \<noteq> Suc it"
      using that idx [OF _ it] by (auto simp: filter_empty_conv)
    then show ?thesis using fp nodes_opened [OF it that, of m] that len by auto
  qed
  have flt: "length (filter P ?ns) \<le> TARGET_NODES" "distinct (filter P ?ns)" for P
    using table_ok_nth [OF ok it] le_trans [OF length_filter_le [of P ?ns]] by auto
  let ?new = "fold (place_node ids) ?ns ?bs"
  have same: "find_index h ?new = find_index h ?bs" for h using find_index_firsts fp by blast
  have "table_ok ids ?new"
  proof (rule table_okI)
    show "tiles (firsts ?new)" using fp tiles_opened [OF tiles it assms(4) m] by simp
    fix j assume "j < length ?new"
    then have j: "j < Suc (length bs)" using fp len by simp
    consider "j < it" | "j = it \<or> j = Suc it" | "Suc it < j" by linarith
    then show "length (b_nodes (?new ! j)) \<le> TARGET_NODES \<and> distinct (b_nodes (?new ! j))
        \<and> (\<forall>n\<in>set (b_nodes (?new ! j)). find_index (ids n) ?new = j)"
    proof cases
      case 1
      then show ?thesis using nodes [OF j] table_ok_nth [OF ok, of j] idx [of _ j] it by (simp add: same)
    next
      case 2
      then show ?thesis using nodes [OF j] flt by (auto simp: same)
    next
      case 3
      then have "j - 1 < length bs" "\<not> j - 1 < it" "j - 1 \<noteq> it" "Suc (j - 1) = j" using j by auto
      then show ?thesis using 3 nodes [OF j] table_ok_nth [OF ok, of "j - 1"] idx [of _ "j - 1"] by (simp add: same)
    qed
  qed
  then show "table_ok ids (snd (split ids it bs))" using eq by simp
  have "set (b_nodes (?new ! j)) \<subseteq> table_nodes bs" if "j < length ?new" for j
  proof -
    have j: "j < Suc (length bs)" using that fp len by simp
    have "j - 1 < length bs" if "Suc it < j" using that j by auto
    moreover have "x \<in> table_nodes bs" if "x \<in> set (b_nodes (bs ! k))" "k < length bs" for x k
      using that nth_mem [of k bs] unfolding table_nodes_def by blast
    ultimately show ?thesis using nodes [OF j] it j by (fastforce simp: not_less_eq split: if_splits)
  qed
  then show "table_nodes (snd (split ids it bs)) \<subseteq> table_nodes bs"
    using eq by (auto simp: table_nodes_nth [of ?new])
  show "fst (split ids it bs)" "length (snd (split ids it bs)) = Suc (length bs)"
    "\<exists>m. middle bs it = Some m \<and> firsts (snd (split ids it bs)) = firsts (opened it m bs)"
    using eq fp len m by auto
qed

section \<open>Insertion\<close>

text \<open>
  What the table relies on: sending a ping does not change the identifier of a node.
\<close>

locale ping_service =
  fixes sv :: "'e service"
  assumes ping_id: "sv_id sv (sv_ping sv n e) = sv_id sv e"
begin

lemma ping_dubious_id: "sv_id sv (snd (ping_dubious sv now ns e)) = sv_id sv e"
  by (induction ns) (auto simp: ping_id)

lemma sendCachedPing_id: "sv_id sv (snd (sendCachedPing sv b e)) = sv_id sv e"
  by (auto simp: sendCachedPing_def ping_id split: option.splits)

end

lemma sendCachedPing_bucket:
  "b_first (fst (sendCachedPing sv b e)) = b_first b" "b_nodes (fst (sendCachedPing sv b e)) = b_nodes b"
  by (auto simp: sendCachedPing_def split: option.splits)

lemma replace_first_Some:
  assumes "replace_first p x ys = Some zs"
  shows "length zs = length ys" and "set zs \<subseteq> insert x (set ys)" and "x \<in> set zs"
    and "x \<notin> set ys \<Longrightarrow> distinct ys \<Longrightarrow> distinct zs"
  using assms by (induction ys arbitrary: zs) (auto split: if_splits)

text \<open>The table of a pass after the time stamps were written: same ranges, same nodes.\<close>

definition stamped :: "int \<Rightarrow> time_point \<Rightarrow> nat \<Rightarrow> bucket list \<Rightarrow> bucket list" where
  "stamped confirm now i bs = (if confirm = 2 then upd_bucket i (\<lambda>b. b\<lparr>b_time := now\<rparr>) bs else bs)"

lemma stamped_ok:
  assumes "table_ok ids bs" and "i < length bs"
  shows "table_ok ids (stamped confirm now i bs)" and "length (stamped confirm now i bs) = length bs"
    and "firsts (stamped confirm now i bs) = firsts bs"
    and "b_nodes (stamped confirm now i bs ! j) = b_nodes (bs ! j)"
proof -
  have f: "firsts (bs[i := (bs ! i)\<lparr>b_time := now\<rparr>]) = firsts bs" by (rule firsts_update) simp
  show "table_ok ids (stamped confirm now i bs)"
    using table_ok_update [OF assms, of "(bs ! i)\<lparr>b_time := now\<rparr>"] table_ok_nth [OF assms] assms(1)
    by (simp add: stamped_def upd_bucket_def)
  show "length (stamped confirm now i bs) = length bs" "firsts (stamped confirm now i bs) = firsts bs"
    using f by (simp_all add: stamped_def upd_bucket_def)
  show "b_nodes (stamped confirm now i bs ! j) = b_nodes (bs ! j)"
    using assms(2) by (cases "j = i") (simp_all add: stamped_def upd_bucket_def)
qed

text \<open>
  A pass in terms of the stamped table \<open>bs\<close> and the bucket \<open>i\<close> of the new node: the branches, with what each
  returns.
\<close>

lemma pass_eq:
  fixes rt :: routing and sv :: "'e service" and e :: 'e and node :: nref and confirm :: int and now :: time_point and me :: hash
  assumes "buckets rt \<noteq> []"
  defines "i \<equiv> find_index (sv_id sv e node) (buckets rt)"
  defines "bs \<equiv> stamped confirm now i (buckets rt)"
  defines "b \<equiv> bs ! i" and "my \<equiv> contains bs i me"
  defines "rt1 \<equiv> rt\<lparr>buckets := bs, grow_time := if my then now else grow_time rt\<rparr>"
  shows "onNewNode_pass sv node confirm now me rt e =
    (if node \<in> set (b_nodes b) then Inl (False, rt\<lparr>buckets := bs\<rparr>, e)
     else if length (b_nodes b) < TARGET_NODES then
       Inl (True, rt1\<lparr>buckets := bs[i := b\<lparr>b_nodes := node # b_nodes b\<rparr>]\<rparr>, e)
     else case replace_first (sv_expired sv e) node (b_nodes b) of
       Some ns \<Rightarrow> Inl (True, rt1\<lparr>buckets := bs[i := b\<lparr>b_nodes := ns\<rparr>]\<rparr>, e)
     | None \<Rightarrow>
       let e1 = snd (ping_dubious sv now (b_nodes b) e); c = sendCachedPing sv b e1 in
       if (my \<or> rt_client rt \<and> depth bs i < 6)
          \<and> (\<not> fst (ping_dubious sv now (b_nodes b) e) \<or> length bs = 1)
       then Inr (rt1\<lparr>buckets := snd (split (sv_id sv (snd c)) i (bs[i := fst c]))\<rparr>, snd c)
       else Inl (True, rt1\<lparr>buckets := bs[i := if confirm \<noteq> 0 \<or> b_cached b = None then b\<lparr>b_cached := Some node\<rparr> else b]\<rparr>, e1))"
proof -
  have rt: "(if confirm = 2 then rt\<lparr>buckets := upd_bucket i (\<lambda>b. b\<lparr>b_time := now\<rparr>) (buckets rt)\<rparr> else rt) = rt\<lparr>buckets := bs\<rparr>"
    by (simp add: bs_def stamped_def)
  have rt1: "(if my then rt\<lparr>buckets := bs, grow_time := now\<rparr> else rt\<lparr>buckets := bs\<rparr>) = rt1"
    by (simp add: rt1_def)
  have "bs[i := b] = bs" by (simp add: b_def)
  then show ?thesis
    using assms(1)
    by (simp add: onNewNode_pass_def findBucket_def i_def [symmetric] rt Let_def b_def [symmetric] my_def [symmetric] rt1
        case_prod_beta upd_bucket_def rt1_def not_less [symmetric] split: option.splits) auto
qed

lemma table_nodes_update:
  assumes "set (b_nodes b) \<subseteq> insert n (set (b_nodes (bs ! i)))"
  shows "table_nodes (bs[i := b]) \<subseteq> insert n (table_nodes bs)"
proof (cases "i < length bs")
  case True
  then have "set (b_nodes (bs ! i)) \<subseteq> table_nodes bs" by (auto simp: table_nodes_nth)
  then show ?thesis using assms set_update_subset_insert [of bs i b] by (auto simp: table_nodes_def)
qed (simp add: not_less list_update_beyond subset_insertI)

lemma pass_nodes:
  assumes ne: "buckets rt \<noteq> []" and pass: "onNewNode_pass sv node confirm now me rt e = Inl (r, rt', e')"
  shows "table_nodes (buckets rt') \<subseteq> insert node (table_nodes (buckets rt))"
proof -
  define i where "i = find_index (sv_id sv e node) (buckets rt)"
  define bs where "bs = stamped confirm now i (buckets rt)"
  note eq = pass_eq [OF ne, where sv = sv and e = e and node = node and confirm = confirm and now = now and me = me,
      folded i_def, folded bs_def]
  have nth: "b_nodes (xs[i := (xs ! i)\<lparr>b_time := now\<rparr>] ! j) = b_nodes (xs ! j)" for xs j
    by (cases "i < length xs"; cases "j = i") (simp_all add: not_less list_update_beyond)
  have same: "table_nodes (upd_bucket i (\<lambda>b. b\<lparr>b_time := now\<rparr>) xs) \<subseteq> table_nodes xs" for xs
    by (simp add: upd_bucket_def table_nodes_nth nth)
  have "\<exists>b. buckets rt' = bs[i := b] \<and> set (b_nodes b) \<subseteq> insert node (set (b_nodes (bs ! i)))"
  proof (cases "node \<in> set (b_nodes (bs ! i))")
    case True
    then show ?thesis using pass unfolding eq by (intro exI [of _ "bs ! i"]) auto
  next
    case new: False
    show ?thesis
    proof (cases "length (b_nodes (bs ! i)) < TARGET_NODES")
      case True
      then show ?thesis using new pass unfolding eq by (intro exI [of _ "(bs ! i)\<lparr>b_nodes := node # b_nodes (bs ! i)\<rparr>"]) auto
    next
      case full: False
      show ?thesis
      proof (cases "replace_first (sv_expired sv e) node (b_nodes (bs ! i))")
        case (Some ns)
        then show ?thesis using new full pass replace_first_Some(2) [OF Some] unfolding eq by (intro exI [of _ "(bs ! i)\<lparr>b_nodes := ns\<rparr>"]) auto
      next
        case None
        then show ?thesis using new full pass unfolding eq
          by (intro exI [of _ "if confirm \<noteq> 0 \<or> b_cached (bs ! i) = None then (bs ! i)\<lparr>b_cached := Some node\<rparr> else bs ! i"]) (auto simp: Let_def split: if_splits)
      qed
    qed
  qed
  then obtain b where b: "buckets rt' = bs[i := b]" "set (b_nodes b) \<subseteq> insert node (set (b_nodes (bs ! i)))" by blast
  have "table_nodes bs \<subseteq> table_nodes (buckets rt)" using same by (simp add: bs_def stamped_def)
  then show ?thesis using table_nodes_update [OF b(2)] b(1) by auto
qed

text \<open>One pass keeps the invariant, and a tail call is made only on a full bucket without the node.\<close>

lemma depth_firsts:
  assumes "firsts bs = firsts bs'"
  shows "depth bs i = depth bs' i"
proof -
  have len: "length bs = length bs'" using assms by (metis length_map)
  have "b_first (bs ! j) = b_first (bs' ! j)" if "j < length bs" for j
    using assms len that by (metis nth_map)
  then show ?thesis using len by (auto simp: depth_def depth_bit_def Let_def)
qed

lemma split_end: "depth bs i \<ge> 160 \<Longrightarrow> split ids i bs = (False, bs)"
  by (simp add: split_def middle_def HASH_LEN_def Let_def)

lemma split_any_ok:
  assumes "table_ok ids bs" and "\<And>n. length (ids n) = 20" and "i < length bs"
  shows "table_ok ids (snd (split ids i bs))" and "table_nodes (snd (split ids i bs)) \<subseteq> table_nodes bs"
  using split_ok(2,5) [OF assms] split_end [of bs i ids] assms(1) by (cases "depth bs i < 160"; auto)+

text \<open>The four ways in which a pass changes the bucket of the new node.\<close>

lemma bucket_changes:
  assumes ok: "table_ok ids bs" and i: "i < length bs" and fi: "find_index (ids node) bs = i"
  shows "node \<notin> set (b_nodes (bs ! i)) \<Longrightarrow> length (b_nodes (bs ! i)) < TARGET_NODES \<Longrightarrow>
      table_ok ids (bs[i := (bs ! i)\<lparr>b_nodes := node # b_nodes (bs ! i)\<rparr>])"
    and "node \<notin> set (b_nodes (bs ! i)) \<Longrightarrow> replace_first p node (b_nodes (bs ! i)) = Some ns \<Longrightarrow>
      table_ok ids (bs[i := (bs ! i)\<lparr>b_nodes := ns\<rparr>])"
    and "table_ok ids (bs[i := if c then (bs ! i)\<lparr>b_cached := Some node\<rparr> else bs ! i])"
    and "table_ok ids (bs[i := fst (sendCachedPing sv (bs ! i) e)])"
proof -
  note cap = table_ok_nth [OF ok i] and upd = table_ok_update [OF ok i]
  show "table_ok ids (bs[i := (bs ! i)\<lparr>b_nodes := node # b_nodes (bs ! i)\<rparr>])"
    if "node \<notin> set (b_nodes (bs ! i))" "length (b_nodes (bs ! i)) < TARGET_NODES"
    by (rule upd) (use that cap fi in auto)
  show "table_ok ids (bs[i := (bs ! i)\<lparr>b_nodes := ns\<rparr>])"
    if "node \<notin> set (b_nodes (bs ! i))" "replace_first p node (b_nodes (bs ! i)) = Some ns"
    by (rule upd) (use that cap fi replace_first_Some [OF that(2)] in auto)
  show "table_ok ids (bs[i := if c then (bs ! i)\<lparr>b_cached := Some node\<rparr> else bs ! i])"
    by (rule upd) (use cap in auto)
  show "table_ok ids (bs[i := fst (sendCachedPing sv (bs ! i) e)])"
    by (rule upd) (use cap in \<open>simp_all add: sendCachedPing_bucket\<close>)
qed

lemma cached_ping_frame:
  assumes "i < length bs"
  shows "firsts (bs[i := fst (sendCachedPing sv (bs ! i) e)]) = firsts bs"
    and "table_nodes (bs[i := fst (sendCachedPing sv (bs ! i) e)]) = table_nodes bs"
    and "b_nodes (bs[i := fst (sendCachedPing sv (bs ! i) e)] ! j) = b_nodes (bs ! j)"
proof -
  show "firsts (bs[i := fst (sendCachedPing sv (bs ! i) e)]) = firsts bs"
    by (rule firsts_update) (rule sendCachedPing_bucket)
  show n: "b_nodes (bs[i := fst (sendCachedPing sv (bs ! i) e)] ! j) = b_nodes (bs ! j)" for j
    using assms by (cases "j = i") (simp_all add: sendCachedPing_bucket)
  then show "table_nodes (bs[i := fst (sendCachedPing sv (bs ! i) e)]) = table_nodes bs"
    by (simp add: table_nodes_nth)
qed

text \<open>Room in a range: a bucket with eight different identifiers is at most 157 deep, and a split adds one to the depth.\<close>

lemma full_depth:
  assumes ok: "table_ok ids bs" and len: "\<And>n. length (ids n) = 20" and i: "i < length bs"
    and inj: "inj_on ids (set (b_nodes (bs ! i)))" and full: "TARGET_NODES \<le> length (b_nodes (bs ! i))"
  shows "depth bs i < 160"
proof -
  have tiles: "tiles (firsts bs)" using ok by (simp add: table_ok_def)
  obtain d where d: "d \<le> 160" "depth bs i = d" "upper (firsts bs) i = hval (b_first (bs ! i)) + 2 ^ (160 - d)"
    by (rule depth_tiles [OF tiles i]) blast
  let ?lo = "hval (b_first (bs ! i))" and ?S = "set (b_nodes (bs ! i))"
  have "hval (ids n) \<in> {?lo..<?lo + 2 ^ (160 - d)}" if "n \<in> ?S" for n
    using find_index_ok [OF tiles len, of n] table_ok_nth [OF ok i] that d(3) i by (auto simp: in_range_def)
  then have "(\<lambda>n. hval (ids n)) ` ?S \<subseteq> {?lo..<?lo + 2 ^ (160 - d)}" by blast
  moreover have "inj_on (\<lambda>n. hval (ids n)) ?S"
    using inj hval_inject len by (auto simp: inj_on_def)
  ultimately have "card ?S \<le> card {?lo..<?lo + 2 ^ (160 - d)}"
    by (metis card_image card_mono finite_atLeastLessThan)
  moreover have "card ?S = length (b_nodes (bs ! i))" using table_ok_nth [OF ok i] distinct_card by blast
  ultimately have "8 \<le> (2::nat) ^ (160 - d)" using full by (simp add: TARGET_NODES_def)
  then show ?thesis using d(1,2) by (cases "d = 160") auto
qed

lemma split_deeper:
  assumes ok: "table_ok ids bs" and len: "\<And>n. length (ids n) = 20" and h: "length h = 20"
    and deep: "depth bs (find_index h bs) < 160"
  defines "bs' \<equiv> snd (split ids (find_index h bs) bs)"
  shows "depth bs' (find_index h bs') = Suc (depth bs (find_index h bs))"
proof -
  let ?i = "find_index h bs"
  have tiles: "tiles (firsts bs)" using ok by (simp add: table_ok_def)
  have i: "?i < length bs" using find_index_ok [OF tiles h] by simp
  obtain m where m: "middle bs ?i = Some m" "hval m = hval (b_first (bs ! ?i)) + 2 ^ (159 - depth bs ?i)"
    by (rule middle_half [OF tiles i deep]) blast
  have f: "firsts bs' = firsts (opened ?i m bs)" using split_ok(4) [OF ok len i deep] m(1) by (auto simp: bs'_def)
  define j where "j = find_index h bs'"
  have j: "j = (if hval h < hval m then ?i else Suc ?i)"
    using find_index_opened [OF tiles i deep m(1) h refl] find_index_firsts [OF f] by (simp add: j_def)
  have t': "tiles (firsts bs')" and j': "j < length bs'"
    using tiles_opened [OF tiles i deep m(1)] f find_index_ok [of bs' h] h by (simp_all add: j_def)
  obtain d where d: "depth bs ?i = d" "upper (firsts bs) ?i = hval (b_first (bs ! ?i)) + 2 ^ (160 - d)"
    by (rule depth_tiles [OF tiles i]) blast
  obtain c where c: "c \<le> 160" "depth bs' j = c" "upper (firsts bs') j = hval (firsts bs' ! j) + 2 ^ (160 - c)"
    by (rule depth_tiles [OF t' j']) (use j' in auto)
  have w: "(2::nat) ^ (160 - d) = 2 ^ (159 - d) + 2 ^ (159 - d)"
  proof -
    have "160 - d = Suc (159 - d)" using deep d(1) by simp
    then show ?thesis by simp
  qed
  have "upper (firsts bs') j = hval (firsts bs' ! j) + 2 ^ (159 - d)"
    using j i m(2) d w by (simp add: f firsts_opened upper_insert_after insert_after_nth)
  then have "(2::nat) ^ (160 - c) = 2 ^ (159 - d)" using c(3) by simp
  then have "160 - c = 159 - d" by (simp add: power_inject_exp)
  then show ?thesis using c(1,2) d(1) deep by (simp add: j_def)
qed

context ping_service
begin

lemma pass_ok:
  assumes ok: "table_ok (sv_id sv e) (buckets rt)" and len: "\<And>n. length (sv_id sv e n) = 20"
  shows "case onNewNode_pass sv node confirm now me rt e of
      Inl (r, rt', e') \<Rightarrow> sv_id sv e' = sv_id sv e \<and> table_ok (sv_id sv e) (buckets rt')
        \<and> (r \<longleftrightarrow> node \<notin> table_nodes (buckets rt))
    | Inr (rt', e') \<Rightarrow> sv_id sv e' = sv_id sv e \<and> table_ok (sv_id sv e) (buckets rt') \<and> node \<notin> table_nodes (buckets rt)
        \<and> (\<exists>bs. table_ok (sv_id sv e) bs \<and> firsts bs = firsts (buckets rt) \<and> table_nodes bs = table_nodes (buckets rt)
             \<and> TARGET_NODES \<le> length (b_nodes (bs ! find_index (sv_id sv e node) bs))
             \<and> buckets rt' = snd (split (sv_id sv e) (find_index (sv_id sv e node) bs) bs))"
proof -
  define ids where "ids = sv_id sv e"
  define i where "i = find_index (ids node) (buckets rt)"
  define bs where "bs = stamped confirm now i (buckets rt)"
  have tiles: "tiles (firsts (buckets rt))" and ne: "buckets rt \<noteq> []"
    using ok tiles_nonempty by (auto simp: table_ok_def)
  have i: "i < length (buckets rt)" using find_index_ok [OF tiles len] by (simp add: i_def ids_def)
  have bs: "table_ok ids bs" "i < length bs" "find_index (ids node) bs = i" "firsts bs = firsts (buckets rt)"
      "table_nodes bs = table_nodes (buckets rt)"
    using stamped_ok [OF ok i] i find_index_firsts [of bs "buckets rt"] by (simp_all add: bs_def i_def ids_def table_nodes_nth)
  have mem: "node \<in> table_nodes (buckets rt) \<longleftrightarrow> node \<in> set (b_nodes (bs ! i))"
    using in_table_iff [OF bs(1), of node] len bs(3,5) by (simp add: ids_def)
  note chg = bucket_changes(1-3) [OF bs(1-3)] bucket_changes(4) [OF bs(1-3), where sv = sv] and cpf = cached_ping_frame [OF bs(2), where sv = sv]
  have ids1: "sv_id sv (snd (ping_dubious sv now ns e)) = ids" "sv_id sv (snd (sendCachedPing sv b (snd (ping_dubious sv now ns e)))) = ids" for ns b
    by (simp_all add: ping_dubious_id sendCachedPing_id ids_def)
  note eq = pass_eq [OF ne, where sv = sv and e = e and node = node and confirm = confirm and now = now and me = me,
      folded ids_def, folded i_def, folded bs_def]
  let ?b = "bs ! i" and ?p = "ping_dubious sv now (b_nodes (bs ! i)) e"
  consider (early) "node \<in> set (b_nodes ?b) \<or> length (b_nodes ?b) < TARGET_NODES
        \<or> replace_first (sv_expired sv e) node (b_nodes ?b) \<noteq> None"
    | (full) "node \<notin> set (b_nodes ?b)" "\<not> length (b_nodes ?b) < TARGET_NODES"
        "replace_first (sv_expired sv e) node (b_nodes ?b) = None"
    by fastforce
  then show ?thesis
  proof cases
    case early
    then show ?thesis using eq bs(1) chg(1,2) mem by (auto simp: ids_def [symmetric] split: if_splits option.splits)
  next
    case full
    show ?thesis
    proof (cases "(contains bs i me \<or> rt_client rt \<and> depth bs i < 6) \<and> (\<not> fst ?p \<or> length bs = 1)")
      case True
      let ?bs = "bs[i := fst (sendCachedPing sv ?b (snd ?p))]"
      have "find_index (ids node) ?bs = i" using find_index_firsts [OF cpf(1)] bs(3) by simp
      then have "table_ok ids ?bs \<and> firsts ?bs = firsts (buckets rt) \<and> table_nodes ?bs = table_nodes (buckets rt)
          \<and> TARGET_NODES \<le> length (b_nodes (?bs ! find_index (ids node) ?bs)) \<and> find_index (ids node) ?bs = i"
        using chg(4) cpf(1,2) full bs by (simp add: sendCachedPing_bucket)
      moreover have "table_ok ids (snd (split ids i ?bs))"
        by (rule split_any_ok(1) [OF chg(4)]) (use len bs(2) in \<open>simp_all add: ids_def\<close>)
      ultimately show ?thesis using eq full True ids1 mem unfolding ids_def [symmetric] Let_def by auto
    next
      case False
      from eq full have "onNewNode_pass sv node confirm now me rt e = Inl (True, rt\<lparr>buckets := bs,
          grow_time := if contains bs i me then now else grow_time rt, buckets := bs[i := if confirm \<noteq> 0 \<or> b_cached ?b = None
            then ?b\<lparr>b_cached := Some node\<rparr> else ?b]\<rparr>, snd ?p)"
        unfolding Let_def if_not_P [OF False] by simp
      then show ?thesis using chg(3) ids1 mem full(1) by (simp add: ids_def [symmetric])
    qed
  qed
qed

lemma onNewNode_ok:
  assumes "table_ok (sv_id sv e) (buckets rt)" and "\<And>n. length (sv_id sv e n) = 20"
    and "onNewNode k sv node confirm now me rt e = Some (r, rt', e')"
  shows "sv_id sv e' = sv_id sv e \<and> table_ok (sv_id sv e) (buckets rt') \<and> (r \<longleftrightarrow> node \<notin> table_nodes (buckets rt))"
  using assms
proof (induction k arbitrary: rt e)
  case (Suc k)
  show ?case
  proof (cases "onNewNode_pass sv node confirm now me rt e")
    case (Inl x)
    then show ?thesis using pass_ok [OF Suc.prems(1,2), of node confirm now me] Suc.prems(3) by auto
  next
    case (Inr y)
    then obtain rt1 e1 where y: "onNewNode_pass sv node confirm now me rt e = Inr (rt1, e1)" by (cases y) auto
    with pass_ok [OF Suc.prems(1,2), of node confirm now me] obtain bs where
      p: "sv_id sv e1 = sv_id sv e" "table_ok (sv_id sv e) (buckets rt1)" "node \<notin> table_nodes (buckets rt)"
        "table_ok (sv_id sv e) bs" "table_nodes bs = table_nodes (buckets rt)"
        "buckets rt1 = snd (split (sv_id sv e) (find_index (sv_id sv e node) bs) bs)" by auto
    have "find_index (sv_id sv e node) bs < length bs" using find_index_ok Suc.prems(2) p(4) by (simp add: table_ok_def)
    then have "table_nodes (buckets rt1) \<subseteq> table_nodes (buckets rt)"
      using split_any_ok(2) [OF p(4) Suc.prems(2)] p(5,6) by simp
    then show ?thesis using Suc.IH [of e1 rt1] Suc.prems(2,3) y p by auto
  qed
qed simp

text \<open>No node but the new one comes into the table.\<close>

lemma onNewNode_nodes:
  assumes "table_ok (sv_id sv e) (buckets rt)" and "\<And>n. length (sv_id sv e n) = 20"
    and "onNewNode k sv node confirm now me rt e = Some (r, rt', e')"
  shows "table_nodes (buckets rt') \<subseteq> insert node (table_nodes (buckets rt))"
  using assms
proof (induction k arbitrary: rt e)
  case (Suc k)
  show ?case
  proof (cases "onNewNode_pass sv node confirm now me rt e")
    case (Inl x)
    moreover have "buckets rt \<noteq> []" using tiles_nonempty Suc.prems(1) by (auto simp: table_ok_def)
    ultimately show ?thesis using pass_nodes [of rt sv node confirm now me e r rt' e'] Suc.prems(3) by simp
  next
    case (Inr y)
    then obtain rt1 e1 where y: "onNewNode_pass sv node confirm now me rt e = Inr (rt1, e1)" by (cases y) auto
    with pass_ok [OF Suc.prems(1,2), of node confirm now me] obtain bs where
      p: "sv_id sv e1 = sv_id sv e" "table_ok (sv_id sv e) (buckets rt1)"
        "table_ok (sv_id sv e) bs" "table_nodes bs = table_nodes (buckets rt)"
        "buckets rt1 = snd (split (sv_id sv e) (find_index (sv_id sv e node) bs) bs)" by auto
    have "find_index (sv_id sv e node) bs < length bs" using find_index_ok Suc.prems(2) p(3) by (simp add: table_ok_def)
    then have "table_nodes (buckets rt1) \<subseteq> table_nodes (buckets rt)"
      using split_any_ok(2) [OF p(3) Suc.prems(2)] p(4,5) by simp
    then show ?thesis using Suc.IH [of e1 rt1] Suc.prems(2,3) y p by auto
  qed
qed simp

lemma onNewNode_ends:
  assumes "table_ok (sv_id sv e) (buckets rt)" and "\<And>n. length (sv_id sv e n) = 20"
    and "inj_on (sv_id sv e) (table_nodes (buckets rt))"
    and "160 - depth (buckets rt) (find_index (sv_id sv e node) (buckets rt)) < k"
  shows "onNewNode k sv node confirm now me rt e \<noteq> None"
  using assms
proof (induction k arbitrary: rt e)
  case (Suc k)
  let ?ids = "sv_id sv e"
  show ?case
  proof (cases "onNewNode_pass sv node confirm now me rt e")
    case (Inr y)
    then obtain rt1 e1 where y: "onNewNode_pass sv node confirm now me rt e = Inr (rt1, e1)" by (cases y) auto
    with pass_ok [OF Suc.prems(1,2), of node confirm now me] obtain bs where
      p: "sv_id sv e1 = ?ids" "table_ok ?ids (buckets rt1)" "table_ok ?ids bs" "firsts bs = firsts (buckets rt)"
        "table_nodes bs = table_nodes (buckets rt)" "TARGET_NODES \<le> length (b_nodes (bs ! find_index (?ids node) bs))"
        "buckets rt1 = snd (split ?ids (find_index (?ids node) bs) bs)" by auto
    let ?i = "find_index (?ids node) bs"
    have i: "?i < length bs" using find_index_ok Suc.prems(2) p(3) by (simp add: table_ok_def)
    then have "set (b_nodes (bs ! ?i)) \<subseteq> table_nodes bs" using nth_mem unfolding table_nodes_def by blast
    then have "inj_on ?ids (set (b_nodes (bs ! ?i)))" using Suc.prems(3) p(5) inj_on_subset by metis
    then have deep: "depth bs ?i < 160" using full_depth [OF p(3) Suc.prems(2) i _ p(6)] by blast
    have "table_nodes (buckets rt1) \<subseteq> table_nodes (buckets rt)"
      using split_any_ok(2) [OF p(3) Suc.prems(2) i] p(5,7) by simp
    then have "inj_on ?ids (table_nodes (buckets rt1))" using Suc.prems(3) inj_on_subset by blast
    moreover have "depth (buckets rt1) (find_index (?ids node) (buckets rt1)) = Suc (depth bs ?i)"
      using split_deeper [OF p(3) Suc.prems(2) Suc.prems(2) deep] p(7) by simp
    moreover have "depth bs ?i = depth (buckets rt) (find_index (?ids node) (buckets rt))"
      using depth_firsts [OF p(4)] find_index_firsts [OF p(4)] by simp
    ultimately show ?thesis
      using Suc.IH [of e1 rt1] Suc.prems(2,4) p(1,2) y deep by simp
  qed simp
qed simp

end

text \<open>The engine keeps the identifiers and addresses of nodes.\<close>

definition same_ids :: "'a dht_heap_scheme \<Rightarrow> 'a dht_heap_scheme \<Rightarrow> bool" where
  "same_ids h h' \<longleftrightarrow> (\<forall>n. n_id (nd h' n) = n_id (nd h n) \<and> n_addr (nd h' n) = n_addr (nd h n))"

lemma same_ids_trans: "same_ids h h1 \<Longrightarrow> same_ids h1 h2 \<Longrightarrow> same_ids h h2"
  by (simp add: same_ids_def)

lemma same_ids_nd: "nd h' = nd h \<Longrightarrow> same_ids h h'"
  by (simp add: same_ids_def)

lemma nd_req_setExpired [simp]: "nd (req_setExpired r h) = nd h"
  by (simp add: req_setExpired_def heap_defs)

lemma nd_fold_setExpired [simp]: "nd (fold req_setExpired rs h) = nd h"
  by (induction rs arbitrary: h) simp_all

lemma same_ids_upd_nd: "(\<And>x. n_id (f x) = n_id x \<and> n_addr (f x) = n_addr x) \<Longrightarrow> same_ids h (upd_nd n f h)"
  by (simp add: same_ids_def upd_nd_def)

lemma same_ids_node_setExpired: "same_ids h (node_setExpired n h)"
  unfolding node_setExpired_eq by (simp add: same_ids_def upd_nd_def)

lemma same_ids_requested: "same_ids h (node_requested n r h)"
  by (auto simp: node_requested_def same_ids_def upd_nd_def Let_def split: option.splits)

lemma nd_send [simp]: "nd (snd (send E a b c e)) = nd e"
  by (simp add: send_def)

lemma nd_sendValueParts [simp]: "nd (sendValueParts E t vs a e) = nd e"
proof -
  have "nd (fold (\<lambda>(off, d) e. snd (send E a (part_msg E t i off d) False e)) ps e) = nd e" for i ps e
    by (induction ps arbitrary: e) auto
  then have "nd (fold (\<lambda>(i, v) e. fold (\<lambda>(off, d) e. snd (send E a (part_msg E t i off d) False e)) (parts_of v 0) e) ivs e) = nd e" for ivs
    by (induction ivs arbitrary: e) auto
  then show ?thesis by (simp add: sendValueParts_def)
qed

lemma nd_schedule_step [simp]: "nd (schedule_step r e) = nd e"
  by (simp add: schedule_step_def Let_def)

lemma nd_upd_rq [simp]: "nd (upd_rq r f e) = nd e"
  by (simp add: upd_rq_def)

lemma nd_call_cb [simp]: "nd (call_cb c e) = nd e"
  by (simp add: call_cb_def)

lemma same_ids_expire: "same_ids e (expire_request r e)"
  using same_ids_node_setExpired by (auto simp: expire_request_def Let_def same_ids_def)

lemma same_ids_requestStep: "same_ids e (requestStep E r e)"
proof -
  have "same_ids (snd res) (after_send E r k res)" for k res
    using same_ids_expire by (auto simp: after_send_def Let_def same_ids_def split: prod.splits)
  then have "same_ids e1 (after_send E r k (send E a b c e1))" for e1 k a b c
    by (metis nd_send same_ids_def)
  then show ?thesis
    unfolding requestStep_unfold Let_def using same_ids_expire by (auto simp: same_ids_def)
qed

lemma same_ids_sendPing: "same_ids e (snd (sendPing E n e))"
proof -
  have "same_ids e (sendRequest E r e)" for r e
    unfolding sendRequest_def Let_def
    by (rule same_ids_trans [OF _ same_ids_requestStep], rule same_ids_trans [OF _ same_ids_requested]) (auto intro: same_ids_nd)
  then show ?thesis
    by (auto simp: sendPing_def Let_def case_prod_beta same_ids_def getNewTid_def alloc_request_def upd_nd_def count_out_def)
qed

interpretation dht: ping_service "engine_service E" for E
  by unfold_locales (use same_ids_sendPing in \<open>simp add: engine_service_def same_ids_def fun_eq_iff\<close>)

text \<open>
  C2: Inserting a node always ends and keeps the routing table in order. On a table whose ranges tile the identifier space, with
  every node in the bucket of its identifier, no bucket over its capacity and no node twice, and whose nodes have different
  identifiers, \<open>onNewNode\<close> makes at most 160 splits (its recursion, unbounded in the code, ends within 161 passes), the resulting table
  satisfies the same invariant, node identifiers are unchanged by the pings it sends, and the result is false exactly
  when the node was in the table before.
\<close>

theorem onNewNode_total:
  assumes "table_ok (\<lambda>n. n_id (nd e n)) (buckets rt)" and "\<And>n. length (n_id (nd e n)) = 20"
    and "inj_on (\<lambda>n. n_id (nd e n)) (table_nodes (buckets rt))"
  shows "\<exists>r rt' e'. onNewNode 161 (engine_service E) node confirm now me rt e = Some (r, rt', e')
     \<and> table_ok (\<lambda>n. n_id (nd e' n)) (buckets rt') \<and> (\<lambda>n. n_id (nd e' n)) = (\<lambda>n. n_id (nd e n))
     \<and> (r \<longleftrightarrow> node \<notin> table_nodes (buckets rt))"
proof -
  have ids: "sv_id (engine_service E) e = (\<lambda>n. n_id (nd e n))" for e by (simp add: engine_service_def)
  have "onNewNode 161 (engine_service E) node confirm now me rt e \<noteq> None"
    using dht.onNewNode_ends [of E e rt node 161 confirm now me] assms by (simp add: ids)
  then obtain r rt' e' where run: "onNewNode 161 (engine_service E) node confirm now me rt e = Some (r, rt', e')" by auto
  then show ?thesis using dht.onNewNode_ok [OF _ _ run] assms by (auto simp: ids)
qed

definition init_table :: routing where
  "init_table = \<lparr>buckets = [new_bucket 2 (hash_zero 20) time_min], grow_time = time_min, rt_client = False\<rparr>"

lemma hval_zero: "hval (replicate n 0) = 0"
  by (induction n) simp_all

lemma init_table_ok: "table_ok ids (buckets init_table)" "table_nodes (buckets init_table) = {}"
proof -
  have "tiles_to 0 [hash_zero 20] (2 ^ 160)"
    by (auto simp: hash_zero_def hval_zero intro!: exI [of _ 0])
  then show "table_ok ids (buckets init_table)"
    by (simp add: table_ok_def placed_def tiles_def init_table_def new_bucket_def)
qed (simp add: init_table_def table_nodes_def new_bucket_def)

theorem findBucket_unique_witness:
  "\<exists>i<1. findBucket (replicate 20 3) (buckets init_table) = Some i \<and> contains (buckets init_table) i (replicate 20 3)"
  using findBucket_unique [of "buckets init_table" "replicate 20 3"] init_table_ok(1)
  by (auto simp: table_ok_def init_table_def)

theorem onNewNode_total_witness:
  "\<exists>r rt' e'. onNewNode 161 (engine_service test_net) 5 1 0 (replicate 20 9) init_table init_engine = Some (r, rt', e') \<and> r"
  using onNewNode_total [of init_engine init_table test_net 5 1 0 "replicate 20 9"] init_table_ok
  by (auto simp: init_engine_def init_heap_def new_node_obj_def)

section \<open>Random identifiers\<close>

lemma byte_mask_bit: "j < 8 \<Longrightarrow> bit (255::byte) j"
proof -
  have "\<forall>j\<in>set [0..<8]. bit (255::byte) j" by code_simp
  then show "j < 8 \<Longrightarrow> bit (255::byte) j" by simp
qed

lemma byte_bit_bound: "8 \<le> m \<Longrightarrow> \<not> bit (b::byte) m"
  using bit_imp_le_length [of b m] by auto

lemma masked_bit:
  assumes "m < c" and "c < 8"
  shows "bit (x AND push_bit (8 - c) 255 OR drop_bit c y :: byte) (7 - m) = bit x (7 - m)"
proof -
  have "bit (push_bit (8 - c) 255 :: byte) (7 - m)"
  proof -
    have "8 - c \<le> 7 - m" "7 - m < 8" "7 - m - (8 - c) < 8" using assms by linarith+
    then show ?thesis using byte_mask_bit [of "7 - m - (8 - c)"] by (simp add: bit_push_bit_iff)
  qed
  moreover have "\<not> bit (drop_bit c y) (7 - m)"
    using byte_bit_bound [of "c + (7 - m)" y] assms by (simp add: bit_drop_bit_eq)
  ultimately show ?thesis by (simp add: bit_or_iff bit_and_iff)
qed

lemma prefix_range:
  assumes "length r = 20" and "length f = 20" and "d \<le> 160" and "2 ^ (160 - d) dvd hval f"
    and "\<And>n. n < d \<Longrightarrow> getBit r n = getBit f n"
  shows "hval f \<le> hval r \<and> hval r < hval f + 2 ^ (160 - d)"
proof -
  have "drop_bit (160 - d) (hval r) = drop_bit (160 - d) (hval f)"
  proof (rule bit_eqI)
    fix j
    show "bit (drop_bit (160 - d) (hval r)) j = bit (drop_bit (160 - d) (hval f)) j"
    proof (cases "160 - d + j < 160")
      case True
      then show ?thesis using assms(5) [of "159 - (160 - d + j)"] assms(1,2) bit_hval [of "160 - d + j"]
        by (simp add: bit_drop_bit_eq)
    next
      case False
      then show ?thesis using nat_bit_bound [OF hval20 [OF assms(1)]] nat_bit_bound [OF hval20 [OF assms(2)]]
        by (simp add: bit_drop_bit_eq)
    qed
  qed
  then have "hval r div 2 ^ (160 - d) = hval f div 2 ^ (160 - d)" by (simp add: drop_bit_eq_div)
  moreover have "hval f = hval f div 2 ^ (160 - d) * 2 ^ (160 - d)" using assms(4) by simp
  ultimately have "hval r = hval f + hval r mod 2 ^ (160 - d)" by (metis div_mult_mod_eq)
  moreover have "hval r mod 2 ^ (160 - d) < 2 ^ (160 - d)" by simp
  ultimately show ?thesis by linarith
qed

text \<open>
  \<open>randomId\<close> returns an identifier of the bucket's own range, whatever bytes the generator gives.
\<close>

theorem randomId_in_bucket:
  assumes "tiles (firsts bs)" and "it < length bs"
  shows "length (randomId rnd bs it) = 20 \<and> contains bs it (randomId rnd bs it)"
proof -
  let ?f = "b_first (bs ! it)" and ?r = "randomId rnd bs it"
  obtain d where d: "d \<le> 160" "depth_bit bs it = int d" "2 ^ (160 - d) dvd hval ?f"
      "upper (firsts bs) it = hval ?f + 2 ^ (160 - d)"
    by (rule depth_tiles [OF assms]) blast
  have f: "length ?f = 20" using tiles_nth [of 0 "firsts bs" it] assms by (simp add: tiles_def)
  have "length ?r = 20 \<and> (\<forall>n<d. getBit ?r n = getBit ?f n)"
  proof (cases "d = 160")
    case True
    then show ?thesis using d f by (simp add: randomId_def Let_def HASH_LEN_def)
  next
    case False
    let ?b = "d div 8" and ?k = "d mod 8"
    have b: "?b < 20" using d(1) False by auto
    have r: "?r = take ?b ?f @ [?f ! ?b AND push_bit (8 - ?k) 255 OR drop_bit ?k (rnd 0)] @ map (\<lambda>i. rnd (i - ?b)) [?b + 1..<20]"
      using d False by (simp add: randomId_def Let_def HASH_LEN_def)
    have "getBit ?r n = getBit ?f n" if "n < d" for n
    proof (cases "n div 8 < ?b")
      case True
      then show ?thesis using f b by (simp add: r getBit_bit nth_append)
    next
      case n: False
      then have e: "n div 8 = ?b" using that by (metis div_le_mono less_imp_le_nat nat_less_le)
      then have k: "n mod 8 < ?k" "?k < 8" using that by (metis div_mult_mod_eq nat_add_left_cancel_less) simp
      then show ?thesis using f b e masked_bit [OF k] by (simp add: r getBit_bit nth_append)
    qed
    then show ?thesis using f b by (simp add: r)
  qed
  then show ?thesis
    using prefix_range [OF _ f d(1,3)] contains_in_range [OF assms(1) _ assms(2)] d(4) assms(2)
    by (auto simp: in_range_def)
qed

section \<open>The closest nodes\<close>

lemma mset_insert_before [simp]: "mset (insert_before p x ys) = add_mset x (mset ys)"
  by (induction ys) auto

definition by_distance :: "(nref \<Rightarrow> hash) \<Rightarrow> hash \<Rightarrow> nref list \<Rightarrow> bool" where
  "by_distance ids target = sorted_wrt (\<lambda>a b. xorCmp target (ids a) (ids b) \<le> 0)"

lemma bucket_insert_props:
  assumes "\<And>n. length (ids n) = length target" and "by_distance ids target acc"
  shows "by_distance ids target (bucket_insert ids good target b acc)"
    and "mset (bucket_insert ids good target b acc) = mset (filter good (b_nodes b)) + mset acc"
proof -
  let ?ins = "\<lambda>n acc. if good n then insert_before (\<lambda>m. xorCmp target (ids n) (ids m) < 0) n acc else acc"
  have "by_distance ids target (fold ?ins ns acc) \<and> mset (fold ?ins ns acc) = mset (filter good ns) + mset acc" for ns
    using assms(2)
  proof (induction ns arbitrary: acc)
    case (Cons n ns)
    have "by_distance ids target (?ins n acc)"
      using xor.insert_before_sorted [where d = target and key = ids and x = n and ys = acc] Cons.prems assms(1)
      by (simp add: by_distance_def)
    then show ?case using Cons.IH [of "?ins n acc"] by auto
  qed simp
  then show "by_distance ids target (bucket_insert ids good target b acc)"
    and "mset (bucket_insert ids good target b acc) = mset (filter good (b_nodes b)) + mset acc"
    by (simp_all add: bucket_insert_def)
qed

abbreviation good_nodes :: "(nref \<Rightarrow> bool) \<Rightarrow> bucket list \<Rightarrow> nref multiset" where
  "good_nodes good bs \<equiv> mset (filter good (concat (map b_nodes bs)))"

lemma closest_loop_props:
  assumes "\<And>n. length (ids n) = length target" and "by_distance ids target acc"
  shows "by_distance ids target (closest_loop ids good target cnt itn itp acc)
    \<and> mset (closest_loop ids good target cnt itn itp acc) \<subseteq># mset acc + good_nodes good (itn @ itp)
    \<and> (length (closest_loop ids good target cnt itn itp acc) < cnt \<longrightarrow>
         mset (closest_loop ids good target cnt itn itp acc) = mset acc + good_nodes good (itn @ itp))"
  using assms
proof (induction ids good target cnt itn itp acc rule: closest_loop.induct)
  case (1 ids good target cnt itn itp acc)
  define a1 where "a1 = (case itn of [] \<Rightarrow> acc | b # _ \<Rightarrow> bucket_insert ids good target b acc)"
  define a2 where "a2 = (case itp of [] \<Rightarrow> a1 | b # _ \<Rightarrow> bucket_insert ids good target b a1)"
  note ins = bucket_insert_props [OF "1.prems"(1)]
  have a1: "by_distance ids target a1 \<and> mset a1 + good_nodes good (tl itn) = mset acc + good_nodes good itn"
    using ins [OF "1.prems"(2)] "1.prems"(2) by (cases itn) (simp_all add: a1_def)
  then have a2: "by_distance ids target a2 \<and> mset a2 + good_nodes good (tl itp) = mset a1 + good_nodes good itp"
    using ins [where acc = a1] by (cases itp) (simp_all add: a2_def)
  have "mset a2 + good_nodes good (tl itp) + good_nodes good (tl itn) = mset a1 + good_nodes good itp + good_nodes good (tl itn)"
    using a2 by simp
  also have "\<dots> = mset a1 + good_nodes good (tl itn) + good_nodes good itp" by (simp only: ac_simps)
  also have "\<dots> = mset acc + good_nodes good itn + good_nodes good itp" using a1 by simp
  finally have "mset a2 + good_nodes good (tl itp) + good_nodes good (tl itn) = mset acc + good_nodes good itn + good_nodes good itp" .
  then have total: "mset a2 + good_nodes good (tl itn @ tl itp) = mset acc + good_nodes good (itn @ itp)"
    by (simp add: ac_simps)
  show ?case
  proof (cases "length acc < cnt \<and> (itn \<noteq> [] \<or> itp \<noteq> [])")
    case False
    then show ?thesis using "1.prems" by (auto simp: closest_loop.simps [of ids good target cnt itn itp acc])
  next
    case True
    have "closest_loop ids good target cnt itn itp acc = closest_loop ids good target cnt (tl itn) (tl itp) a2"
      unfolding a2_def a1_def using True by (subst closest_loop.simps) (simp add: Let_def)
    then show ?thesis
      using "1.IH" [OF True a1_def a2_def "1.prems"(1)] a2 total by simp
  qed
qed

lemma distinct_concat_nth:
  assumes "\<forall>i<length xs. \<forall>j<length xs. i \<noteq> j \<longrightarrow> set (xs ! i) \<inter> set (xs ! j) = {}" and "\<forall>x\<in>set xs. distinct x"
  shows "distinct (concat xs)"
  using assms
proof (induction xs)
  case (Cons x xs)
  have "set x \<inter> set y = {}" if y: "y \<in> set xs" for y
  proof -
    obtain k where "k < length xs" "y = xs ! k" using y by (auto simp: in_set_conv_nth)
    then show ?thesis using Cons.prems(1) [rule_format, of 0 "Suc k"] by simp
  qed
  moreover have "\<forall>i<length xs. \<forall>j<length xs. i \<noteq> j \<longrightarrow> set (xs ! i) \<inter> set (xs ! j) = {}"
    using Cons.prems(1) by (metis Suc_less_eq length_Cons nat.inject nth_Cons_Suc)
  ultimately show ?case using Cons by auto
qed simp

lemma distinct_table:
  assumes "table_ok ids bs"
  shows "distinct (concat (map b_nodes bs))"
proof (rule distinct_concat_nth)
  have "set (b_nodes (bs ! i)) \<inter> set (b_nodes (bs ! j)) = {}" if "i < length bs" "j < length bs" "i \<noteq> j" for i j
    using that table_ok_nth [OF assms that(1)] table_ok_nth [OF assms that(2)] by (metis disjoint_iff)
  then show "\<forall>i<length (map b_nodes bs). \<forall>j<length (map b_nodes bs). i \<noteq> j \<longrightarrow>
      set (map b_nodes bs ! i) \<inter> set (map b_nodes bs ! j) = {}" by simp
  show "\<forall>x\<in>set (map b_nodes bs). distinct x" using assms by (simp add: table_ok_def)
qed

lemma good_nodes_perm:
  assumes "mset xs = mset ys"
  shows "good_nodes g xs = good_nodes g ys"
proof -
  have "good_nodes g bs = sum_mset (image_mset (\<lambda>b. mset (filter g (b_nodes b))) (mset bs))" for bs
    by (induction bs) simp_all
  then show ?thesis using assms by simp
qed

lemma distinct_sub_mset:
  assumes "mset xs \<subseteq># mset ys" and "distinct ys"
  shows "distinct xs"
  unfolding distinct_count_atmost_1
proof
  fix a
  have "count (mset xs) a \<le> count (mset ys) a" using assms(1) by (rule mset_subset_eq_count)
  also have "\<dots> \<le> 1" using assms(2) by (simp add: distinct_count_atmost_1)
  finally show "count (mset xs) a = (if a \<in> set xs then 1 else 0)"
    by (cases "a \<in> set xs") (auto simp: le_Suc_eq count_eq_zero_iff)
qed

lemma closest_from_table:
  assumes "table_ok ids bs" and "\<And>n. length (ids n) = length target"
  defines "all \<equiv> \<lambda>cnt good. closest_loop ids good target cnt (drop (find_index target bs) bs) (rev (take (find_index target bs) bs)) []"
  shows "by_distance ids target (all cnt good)" and "distinct (all cnt good)"
    and "set (all cnt good) \<subseteq> {n \<in> table_nodes bs. good n}"
    and "length (all cnt good) < cnt \<Longrightarrow> set (all cnt good) = {n \<in> table_nodes bs. good n}"
proof -
  let ?i = "find_index target bs" and ?good = "filter good (concat (map b_nodes bs))"
  have "mset (drop ?i bs @ rev (take ?i bs)) = mset bs"
    by (metis append_take_drop_id mset_append mset_rev union_commute)
  then have perm: "good_nodes good (drop ?i bs @ rev (take ?i bs)) = mset ?good" by (rule good_nodes_perm)
  have "by_distance ids target []" by (simp add: by_distance_def)
  from closest_loop_props [OF assms(2) this, of good cnt "drop ?i bs" "rev (take ?i bs)"] perm
  have L: "by_distance ids target (all cnt good)" "mset (all cnt good) \<subseteq># mset ?good"
    "length (all cnt good) < cnt \<Longrightarrow> mset (all cnt good) = mset ?good" by (simp_all add: all_def)
  have g: "set ?good = {n \<in> table_nodes bs. good n}" by (auto simp: table_nodes_def)
  show "by_distance ids target (all cnt good)" by (rule L)
  show "distinct (all cnt good)" using distinct_sub_mset [OF L(2)] distinct_table [OF assms(1)] by simp
  show "set (all cnt good) \<subseteq> {n \<in> table_nodes bs. good n}" using L(2) g by (metis set_mset_mono set_mset_mset)
  show "set (all cnt good) = {n \<in> table_nodes bs. good n}" if "length (all cnt good) < cnt"
    using L(3) [OF that] g by (metis set_mset_mset)
qed

text \<open>
  C12: \<open>findClosestNodes\<close> returns at most \<open>count\<close> nodes of the table, all of them good at the given time, none twice, in the order of
  their XOR distance to the target. When it returns fewer than \<open>count\<close>, it has returned every good node of the table.
\<close>

theorem findClosestNodes_sorted:
  fixes E :: net_env and now :: time_point and cnt :: nat
  assumes "table_ok (\<lambda>n. n_id (nd e n)) bs" and "\<And>n. length (n_id (nd e n)) = 20" and "length target = 20"
  defines "res \<equiv> findClosestNodes (engine_service E) e target now cnt bs"
  shows "length res \<le> cnt \<and> distinct res \<and> by_distance (\<lambda>n. n_id (nd e n)) target res
     \<and> (\<forall>n\<in>set res. n \<in> table_nodes bs \<and> isGood now (nd e n))
     \<and> (length res < cnt \<longrightarrow> set res = {n \<in> table_nodes bs. isGood now (nd e n)})"
proof -
  let ?ids = "\<lambda>n. n_id (nd e n)" and ?good = "\<lambda>n. isGood now (nd e n)" and ?i = "find_index target bs"
  define L where "L = closest_loop ?ids ?good target cnt (drop ?i bs) (rev (take ?i bs)) []"
  have "bs \<noteq> []" using assms(1) tiles_nonempty by (auto simp: table_ok_def)
  then have res: "res = take cnt L"
    by (simp add: res_def findClosestNodes_def findBucket_def engine_service_def L_def)
  note props = closest_from_table [OF assms(1), where target = target and cnt = cnt and good = ?good, folded L_def]
  have "by_distance ?ids target L" "distinct L" "set L \<subseteq> {n \<in> table_nodes bs. ?good n}"
    "length L < cnt \<Longrightarrow> set L = {n \<in> table_nodes bs. ?good n}"
    using props assms(2,3) by simp_all
  then show ?thesis
    unfolding res by_distance_def by (auto simp: sorted_wrt_take dest: in_set_takeD)
qed

theorem findClosestNodes_sorted_witness:
  "findClosestNodes (engine_service test_net) init_engine (replicate 20 4) 0 8 (buckets init_table) = []"
  using findClosestNodes_sorted [of init_engine "buckets init_table" "replicate 20 4" test_net 0 8] init_table_ok
  by (auto simp: init_engine_def init_heap_def new_node_obj_def)

end
