(* ===== verification/Dht_Value.thy ===== *)
theory Dht_Value
  imports Info_Hash Std_Map
begin

text \<open>
  Values of the table and queries on them (\<open>value.h\<close>, \<open>value.cpp\<close>): a value with its metadata, the value
  types with their policies, filters and their combinators, restrictions on fields (\<open>Where\<close>), field
  selections (\<open>Select\<close>), when a query is answered by another one, and the field index of an answer.
  Values are shared objects: \<open>v_ref\<close> tells two objects apart where the code compares pointers. Of a
  public key the code reads whether it is set, its identifier and its exported form, which the
  cryptographic library computes.
\<close>

type_synonym uint16 = "16 word"
type_synonym value_id = uint64

record public_key =
  pk_set :: bool
  pk_getId :: hash
  pk_export :: bytes

record dht_value =
  v_ref :: nat
  v_id :: value_id
  v_owner :: "public_key option"
  v_recipient :: hash
  v_type :: uint16
  v_data :: bytes
  v_user_type :: bytes
  v_seq :: uint16
  v_signature :: bytes
  v_cypher :: bytes
  v_priority :: uint32

definition value_size :: "dht_value \<Rightarrow> nat" where
  "value_size v = length (v_cypher v) + length (v_data v) + length (v_signature v) + length (v_user_type v)"

definition isEncrypted :: "dht_value \<Rightarrow> bool" where
  "isEncrypted v \<longleftrightarrow> v_cypher v \<noteq> []"

definition isSigned :: "dht_value \<Rightarrow> bool" where
  "isSigned v \<longleftrightarrow> v_owner v \<noteq> None \<and> v_signature v \<noteq> []"

text \<open>Two owners agree if they are the same object, both absent, or have the same identifier.\<close>

definition owner_eq :: "public_key option \<Rightarrow> public_key option \<Rightarrow> bool" where
  "owner_eq a b = (case (a, b) of (None, None) \<Rightarrow> True | (Some x, Some y) \<Rightarrow> pk_getId x = pk_getId y | _ \<Rightarrow> False)"

definition contentEquals :: "dht_value \<Rightarrow> dht_value \<Rightarrow> bool" where
  "contentEquals v w =
     (if isEncrypted v then v_cypher v = v_cypher w
      else owner_eq (v_owner v) (v_owner w) \<and> v_type v = v_type w \<and> v_data v = v_data w
        \<and> v_user_type v = v_user_type w \<and> v_signature v = v_signature w)"

definition value_eq :: "dht_value \<Rightarrow> dht_value \<Rightarrow> bool" where
  "value_eq v w \<longleftrightarrow> v_id v = v_id w \<and> contentEquals v w"

definition INVALID_ID :: value_id where
  "INVALID_ID = 0"

section \<open>Value types\<close>

text \<open>
  A store policy sees the key, the value, the sender and its address; it answers and may put another
  value in the place of the one it got. An edit policy also sees the value stored before.
\<close>

definition MAX_VALUE_SIZE :: nat where
  "MAX_VALUE_SIZE = 1024 * 64"

record value_type =
  vt_id :: uint16
  vt_name :: string
  vt_expiration :: int
  storePolicy :: "hash \<Rightarrow> dht_value \<Rightarrow> hash \<Rightarrow> bytes \<Rightarrow> bool \<times> dht_value"
  editPolicy :: "hash \<Rightarrow> dht_value \<Rightarrow> dht_value \<Rightarrow> hash \<Rightarrow> bytes \<Rightarrow> bool \<times> dht_value"

definition DEFAULT_STORE_POLICY :: "hash \<Rightarrow> dht_value \<Rightarrow> hash \<Rightarrow> bytes \<Rightarrow> bool \<times> dht_value" where
  "DEFAULT_STORE_POLICY key v from adr = (value_size v \<le> MAX_VALUE_SIZE, v)"

definition DEFAULT_EDIT_POLICY :: "hash \<Rightarrow> dht_value \<Rightarrow> dht_value \<Rightarrow> hash \<Rightarrow> bytes \<Rightarrow> bool \<times> dht_value" where
  "DEFAULT_EDIT_POLICY key old new from adr = (False, new)"

definition USER_DATA :: value_type where
  "USER_DATA = \<lparr>vt_id = 0, vt_name = ''User Data'', vt_expiration = minutes 10,
     storePolicy = DEFAULT_STORE_POLICY, editPolicy = DEFAULT_EDIT_POLICY\<rparr>"

type_synonym type_store = "(uint16 \<times> value_type) list"

definition registerType :: "value_type \<Rightarrow> type_store \<Rightarrow> type_store" where
  "registerType t ts = map_put (vt_id t) t ts"

definition getType :: "type_store \<Rightarrow> uint16 \<Rightarrow> value_type" where
  "getType ts i = (case map_of ts i of None \<Rightarrow> USER_DATA | Some t \<Rightarrow> t)"

section \<open>Filters\<close>

text \<open>A filter is a \<open>std::function\<close>, which may be empty.\<close>

type_synonym value_filter = "(dht_value \<Rightarrow> bool) option"

definition passes :: "value_filter \<Rightarrow> dht_value \<Rightarrow> bool" where
  "passes f v = (case f of None \<Rightarrow> True | Some p \<Rightarrow> p v)"

definition chain :: "value_filter \<Rightarrow> value_filter \<Rightarrow> value_filter" where
  "chain f1 f2 = (case (f1, f2) of (None, _) \<Rightarrow> f2 | (_, None) \<Rightarrow> f1 | (Some p, Some q) \<Rightarrow> Some (\<lambda>v. p v \<and> q v))"

definition chainAll :: "value_filter list \<Rightarrow> value_filter" where
  "chainAll fs = (if fs = [] then None else Some (\<lambda>v. list_all (\<lambda>f. \<not> (f \<noteq> None \<and> \<not> passes f v)) fs))"

definition chainOr :: "value_filter \<Rightarrow> value_filter \<Rightarrow> value_filter" where
  "chainOr f1 f2 = (case (f1, f2) of (Some p, Some q) \<Rightarrow> Some (\<lambda>v. p v \<or> q v) | _ \<Rightarrow> None)"

definition notFilter :: "value_filter \<Rightarrow> value_filter" where
  "notFilter f = (case f of None \<Rightarrow> Some (\<lambda>v. False) | Some p \<Rightarrow> Some (\<lambda>v. \<not> p v))"

definition IdFilter :: "value_id \<Rightarrow> value_filter" where
  "IdFilter i = Some (\<lambda>v. v_id v = i)"

definition TypeFilter :: "uint16 \<Rightarrow> value_filter" where
  "TypeFilter t = Some (\<lambda>v. v_type v = t)"

definition RecipientFilter :: "hash \<Rightarrow> value_filter" where
  "RecipientFilter r = Some (\<lambda>v. v_recipient v = r)"

definition OwnerFilter :: "hash \<Rightarrow> value_filter" where
  "OwnerFilter h = Some (\<lambda>v. case v_owner v of None \<Rightarrow> False | Some k \<Rightarrow> pk_getId k = h)"

definition SeqNumFilter :: "uint16 \<Rightarrow> value_filter" where
  "SeqNumFilter s = Some (\<lambda>v. v_seq v = s)"

definition UserTypeFilter :: "bytes \<Rightarrow> value_filter" where
  "UserTypeFilter ut = Some (\<lambda>v. v_user_type v = ut)"

section \<open>Fields and restrictions\<close>

text \<open>
  A field number read from a message is cast to the enumeration without a check: numbers from \<open>COUNT\<close>
  on are \<open>FOther\<close>, negative ones \<open>FNegative\<close>.
\<close>

datatype field = FNone | FId | FValueType | FOwnerPk | FSeqNum | FUserType | FOther nat | FNegative nat

fun field_code :: "field \<Rightarrow> int" where
  "field_code FNone = 0"
| "field_code FId = 1"
| "field_code FValueType = 2"
| "field_code FOwnerPk = 3"
| "field_code FSeqNum = 4"
| "field_code FUserType = 5"
| "field_code (FOther n) = 6 + int n"
| "field_code (FNegative n) = - 1 - int n"

lemma field_code_inject: "field_code f = field_code g \<Longrightarrow> f = g"
  by (cases f; cases g) simp_all

instantiation field :: linorder
begin

definition less_eq_field :: "field \<Rightarrow> field \<Rightarrow> bool" where
  "f \<le> g \<longleftrightarrow> field_code f \<le> field_code g"

definition less_field :: "field \<Rightarrow> field \<Rightarrow> bool" where
  "f < g \<longleftrightarrow> field_code f < field_code g"

instance
  by standard (auto simp: less_eq_field_def less_field_def intro: field_code_inject)

end

record field_value =
  fv_field :: field
  intValue :: uint64
  hashValue :: hash
  blobValue :: bytes

definition no_field_value :: field_value where
  "no_field_value = \<lparr>fv_field = FNone, intValue = 0, hashValue = hash_zero HASH_LEN, blobValue = []\<rparr>"

definition fv_int :: "field \<Rightarrow> uint64 \<Rightarrow> field_value" where
  "fv_int f n = no_field_value\<lparr>fv_field := f, intValue := n\<rparr>"

definition fv_hash :: "field \<Rightarrow> hash \<Rightarrow> field_value" where
  "fv_hash f h = no_field_value\<lparr>fv_field := f, hashValue := h\<rparr>"

definition fv_blob :: "field \<Rightarrow> bytes \<Rightarrow> field_value" where
  "fv_blob f b = no_field_value\<lparr>fv_field := f, blobValue := b\<rparr>"

definition fv_eq :: "field_value \<Rightarrow> field_value \<Rightarrow> bool" where
  "fv_eq a b = (if fv_field a \<noteq> fv_field b then False
     else case fv_field a of
        FId \<Rightarrow> intValue a = intValue b
      | FValueType \<Rightarrow> intValue a = intValue b
      | FSeqNum \<Rightarrow> intValue a = intValue b
      | FOwnerPk \<Rightarrow> hashValue a = hashValue b
      | FUserType \<Rightarrow> blobValue a = blobValue b
      | FNone \<Rightarrow> True
      | _ \<Rightarrow> False)"

definition getLocalFilter :: "field_value \<Rightarrow> value_filter" where
  "getLocalFilter fv = (case fv_field fv of
        FId \<Rightarrow> IdFilter (intValue fv)
      | FValueType \<Rightarrow> TypeFilter (ucast (intValue fv))
      | FOwnerPk \<Rightarrow> OwnerFilter (hashValue fv)
      | FSeqNum \<Rightarrow> SeqNumFilter (ucast (intValue fv))
      | FUserType \<Rightarrow> UserTypeFilter (blobValue fv)
      | _ \<Rightarrow> None)"

text \<open>\<open>Where\<close>: a restriction is added unless an equal one is there.\<close>

definition add_filter :: "field_value \<Rightarrow> field_value list \<Rightarrow> field_value list" where
  "add_filter fv w = (if list_ex (\<lambda>x. fv_eq x fv) w then w else w @ [fv])"

definition where_id :: "value_id \<Rightarrow> field_value list \<Rightarrow> field_value list" where
  "where_id i w = add_filter (fv_int FId i) w"

definition where_valueType :: "uint16 \<Rightarrow> field_value list \<Rightarrow> field_value list" where
  "where_valueType t w = add_filter (fv_int FValueType (ucast t)) w"

definition where_owner :: "hash \<Rightarrow> field_value list \<Rightarrow> field_value list" where
  "where_owner h w = add_filter (fv_hash FOwnerPk h) w"

definition where_seq :: "uint16 \<Rightarrow> field_value list \<Rightarrow> field_value list" where
  "where_seq s w = add_filter (fv_int FSeqNum (ucast s)) w"

definition where_userType :: "bytes \<Rightarrow> field_value list \<Rightarrow> field_value list" where
  "where_userType ut w = add_filter (fv_blob FUserType ut) w"

definition getFilter :: "field_value list \<Rightarrow> value_filter" where
  "getFilter w = (if w = [] then None else chainAll (filter (\<lambda>f. f \<noteq> None) (map getLocalFilter w)))"

section \<open>Selections and queries\<close>

definition select_field :: "field \<Rightarrow> field list \<Rightarrow> field list" where
  "select_field f s = (if f \<in> set s then s else s @ [f])"

definition getSelection :: "field list \<Rightarrow> field list" where
  "getSelection s = sort (remdups s)"

record query =
  q_select :: "field list"
  q_where :: "field_value list"
  q_none :: bool

text \<open>The template \<open>subset\<close> takes the comparison of its element type.\<close>

definition subset_by :: "('a \<Rightarrow> 'a \<Rightarrow> bool) \<Rightarrow> 'a list \<Rightarrow> 'a list \<Rightarrow> bool" where
  "subset_by eq fds qfds = list_all (\<lambda>fd. list_ex (\<lambda>q. eq fd q) qfds) fds"

definition select_isSatisfiedBy :: "field list \<Rightarrow> field list \<Rightarrow> bool" where
  "select_isSatisfiedBy s os = (if s = [] then os = [] else subset_by (=) s os)"

definition where_isSatisfiedBy :: "field_value list \<Rightarrow> field_value list \<Rightarrow> bool" where
  "where_isSatisfiedBy w ow = subset_by fv_eq ow w"

definition query_isSatisfiedBy :: "query \<Rightarrow> query \<Rightarrow> bool" where
  "query_isSatisfiedBy p q \<longleftrightarrow> q_none p \<or> where_isSatisfiedBy (q_where p) (q_where q) \<and> select_isSatisfiedBy (q_select p) (q_select q)"

section \<open>Field index\<close>

type_synonym field_index = "(field \<times> field_value) list"

definition all_fields :: "field list" where
  "all_fields = [FId, FValueType, FOwnerPk, FSeqNum, FUserType]"

definition index_field :: "dht_value \<Rightarrow> field \<Rightarrow> field_value" where
  "index_field v f = (case f of
        FId \<Rightarrow> fv_int f (v_id v)
      | FValueType \<Rightarrow> fv_int f (ucast (v_type v))
      | FOwnerPk \<Rightarrow> fv_hash f (case v_owner v of None \<Rightarrow> hash_zero HASH_LEN | Some k \<Rightarrow> pk_getId k)
      | FSeqNum \<Rightarrow> fv_int f (ucast (v_seq v))
      | FUserType \<Rightarrow> fv_blob f (v_user_type v)
      | _ \<Rightarrow> no_field_value)"

definition fieldValueIndex :: "dht_value \<Rightarrow> field list \<Rightarrow> field_index" where
  "fieldValueIndex v s = map (\<lambda>f. (f, index_field v f)) (if s \<noteq> [] then getSelection s else all_fields)"

definition containedIn :: "field_index \<Rightarrow> field_index \<Rightarrow> bool" where
  "containedIn a b = (if length a > length b then False
     else list_all (\<lambda>(f, _). map_of b f \<noteq> None) a)"

section \<open>Lemmas\<close>

lemma passes_simps [simp]: "passes None v" "passes (Some p) v = p v"
  by (simp_all add: passes_def)

lemma passes_chain: "passes (chain f g) v \<longleftrightarrow> passes f v \<and> passes g v"
  by (cases f; cases g) (simp_all add: chain_def)

lemma passes_chainAll: "passes (chainAll fs) v \<longleftrightarrow> list_all (\<lambda>f. passes f v) fs"
proof -
  have "(\<not> (f \<noteq> None \<and> \<not> passes f v)) = passes f v" for f by (cases f) auto
  then show ?thesis by (simp add: chainAll_def)
qed

lemma passes_getFilter: "passes (getFilter w) v \<longleftrightarrow> (\<forall>fv\<in>set w. passes (getLocalFilter fv) v)"
proof -
  have "passes f v" if "f = None" for f using that by simp
  then have "(\<forall>f\<in>{f \<in> getLocalFilter ` set w. f \<noteq> None}. passes f v) \<longleftrightarrow> (\<forall>fv\<in>set w. passes (getLocalFilter fv) v)"
    by blast
  then show ?thesis by (simp add: getFilter_def passes_chainAll list_all_iff)
qed

lemma fv_eq_filter: "fv_eq a b \<Longrightarrow> getLocalFilter a = getLocalFilter b"
  by (auto simp: fv_eq_def getLocalFilter_def split: if_splits field.splits)

lemma subset_by_iff: "subset_by eq a b \<longleftrightarrow> (\<forall>x\<in>set a. \<exists>y\<in>set b. eq x y)"
  by (simp add: subset_by_def list_all_iff list_ex_iff)

lemma where_satisfied_filter:
  assumes "where_isSatisfiedBy w ow" and "passes (getFilter w) v"
  shows "passes (getFilter ow) v"
  unfolding passes_getFilter
proof
  fix fv assume "fv \<in> set ow"
  with assms(1) obtain g where "g \<in> set w" "fv_eq fv g"
    by (auto simp: where_isSatisfiedBy_def subset_by_iff)
  then show "passes (getLocalFilter fv) v"
    using assms(2) fv_eq_filter by (auto simp: passes_getFilter)
qed

lemma getSelection_set [simp]: "set (getSelection s) = set s"
  by (simp add: getSelection_def)

lemma getSelection_distinct [simp]: "distinct (getSelection s)"
  by (simp add: getSelection_def)

lemma containedIn_index:
  "distinct fs \<Longrightarrow> set fs \<subseteq> set gs \<Longrightarrow> containedIn (map (\<lambda>f. (f, index_field v f)) fs) (map (\<lambda>f. (f, index_field w f)) gs)"
proof -
  assume fs: "distinct fs" "set fs \<subseteq> set gs"
  have "length fs \<le> length gs"
    using fs by (metis card_length card_mono distinct_card le_trans List.finite_set)
  moreover have "map_of (map (\<lambda>f. (f, index_field w f)) gs) f \<noteq> None" if "f \<in> set fs" for f
    using that fs(2) by (auto simp: map_of_eq_None_iff image_image)
  ultimately show ?thesis by (auto simp: containedIn_def list_all_iff)
qed

lemma select_satisfied_index:
  assumes "select_isSatisfiedBy s os"
  shows "containedIn (fieldValueIndex v s) (fieldValueIndex w os)"
proof (cases "s = []")
  case True
  moreover have "distinct all_fields" by (simp add: all_fields_def)
  ultimately show ?thesis using assms by (auto simp: select_isSatisfiedBy_def fieldValueIndex_def intro: containedIn_index)
next
  case False
  then have "set s \<subseteq> set os" "os \<noteq> []"
    using assms by (cases s; auto simp: select_isSatisfiedBy_def subset_by_iff)+
  with False show ?thesis by (auto simp: fieldValueIndex_def intro!: containedIn_index)
qed

lemma where_add_filter: "passes (getFilter (add_filter fv w)) v \<longleftrightarrow> passes (getFilter w) v \<and> passes (getLocalFilter fv) v"
proof (cases "list_ex (\<lambda>x. fv_eq x fv) w")
  case True
  then obtain x where "x \<in> set w" "getLocalFilter x = getLocalFilter fv" by (auto simp: list_ex_iff dest: fv_eq_filter)
  with True show ?thesis by (auto simp: add_filter_def passes_getFilter)
qed (auto simp: add_filter_def passes_getFilter)

lemma ucast_16_64 [simp]: "(ucast (ucast (x :: uint16) :: uint64) :: uint16) = x"
  by (rule bit_word_eqI) (simp add: bit_ucast_iff)

section \<open>Properties\<close>

text \<open>
  C27: when the code finds that a query, not being a none-query (which it takes as satisfied by any), is satisfied by another one, the answers to the other query
  are enough: every value that passes the first query's restrictions passes the second's, and the index
  of the fields that the first selects is contained in the index of the fields that the second selects.
\<close>

theorem query_satisfaction_sound:
  assumes "query_isSatisfiedBy p q" and "\<not> q_none p"
  shows "(passes (getFilter (q_where p)) v \<longrightarrow> passes (getFilter (q_where q)) v)
    \<and> containedIn (fieldValueIndex v (q_select p)) (fieldValueIndex v (q_select q))"
  using assms where_satisfied_filter select_satisfied_index
  by (auto simp: query_isSatisfiedBy_def)

definition sample_value :: "nat \<Rightarrow> value_id \<Rightarrow> bytes \<Rightarrow> dht_value" where
  "sample_value r i d = \<lparr>v_ref = r, v_id = i, v_owner = None, v_recipient = hash_zero HASH_LEN, v_type = 3,
     v_data = d, v_user_type = [], v_seq = 0, v_signature = [], v_cypher = [], v_priority = 0\<rparr>"

definition narrow_query :: query where
  "narrow_query = \<lparr>q_select = [FSeqNum, FId], q_where = where_id 7 (where_valueType 3 []), q_none = False\<rparr>"

definition wide_query :: query where
  "wide_query = \<lparr>q_select = [FId, FUserType, FSeqNum], q_where = where_valueType 3 [], q_none = False\<rparr>"

theorem query_satisfaction_sound_witness:
  "query_isSatisfiedBy narrow_query wide_query
    \<and> passes (getFilter (q_where narrow_query)) (sample_value 0 7 []) \<and> passes (getFilter (q_where wide_query)) (sample_value 0 7 [])
    \<and> containedIn (fieldValueIndex (sample_value 0 7 []) (q_select narrow_query)) (fieldValueIndex (sample_value 0 7 []) (q_select wide_query))"
proof -
  note defs = narrow_query_def wide_query_def where_id_def where_valueType_def add_filter_def fv_eq_def fv_int_def no_field_value_def
  have s: "query_isSatisfiedBy narrow_query wide_query"
    by (simp add: query_isSatisfiedBy_def where_isSatisfiedBy_def select_isSatisfiedBy_def subset_by_def defs)
  have n: "passes (getFilter (q_where narrow_query)) (sample_value 0 7 [])"
    by (simp add: passes_getFilter getLocalFilter_def IdFilter_def TypeFilter_def sample_value_def defs)
  have "\<not> q_none narrow_query" by (simp add: narrow_query_def)
  from s n query_satisfaction_sound [OF s this] show ?thesis by blast
qed

text \<open>
  The restrictions of a query mean what the builder calls ask for: the filter of a query built from
  restrictions on identifier, type, owner, sequence number and user type accepts exactly the values with
  all of these fields; a restriction that is made again is not stored twice and changes nothing.
\<close>

lemma where_builders_filter:
  "passes (getFilter (where_id i (where_valueType t (where_owner h (where_seq s (where_userType u (where_id i w))))))) v
    \<longleftrightarrow> v_id v = i \<and> v_type v = t \<and> map_option pk_getId (v_owner v) = Some h \<and> v_seq v = s \<and> v_user_type v = u
      \<and> passes (getFilter w) v"
  by (auto simp: where_id_def where_valueType_def where_owner_def where_seq_def where_userType_def where_add_filter
    getLocalFilter_def fv_int_def fv_hash_def fv_blob_def IdFilter_def TypeFilter_def OwnerFilter_def SeqNumFilter_def
    UserTypeFilter_def no_field_value_def split: option.splits)

end
