(* ===== verification/Storage.thy ===== *)
theory Storage
  imports Dht_Value "HOL-Library.Multiset"
begin

text \<open>
  Local storage of values (\<open>storage.h\<close>, \<open>listener.h\<close>): the values of one key with their listeners, and the
  quota buckets that account for what an address has stored. Quota buckets are shared objects: a
  pointer to one is a number, \<open>quotas\<close> gives the live ones, and an access through a pointer to one that
  is gone has no meaning. Sizes are far below \<open>2 ^ 63\<close>, so their signed differences are integers; the two
  counters are 64-bit words.
\<close>

section \<open>Quota buckets\<close>

record storage_bucket =
  storedValues :: "(time_point \<times> hash \<times> value_id) list"
  totalSize :: uint64

definition empty_bucket :: storage_bucket where
  "empty_bucket = \<lparr>storedValues = [], totalSize = 0\<rparr>"

definition bucket_add :: "hash \<Rightarrow> dht_value \<Rightarrow> time_point \<Rightarrow> storage_bucket \<Rightarrow> storage_bucket" where
  "bucket_add i v ex b = \<lparr>storedValues = multimap_emplace ex (i, v_id v) (storedValues b),
     totalSize = totalSize b + of_nat (value_size v)\<rparr>"

text \<open>Among the entries with this expiration time, the first one with this key and identifier goes.\<close>

definition bucket_erase :: "hash \<Rightarrow> dht_value \<Rightarrow> time_point \<Rightarrow> storage_bucket \<Rightarrow> storage_bucket" where
  "bucket_erase i v ex b = \<lparr>storedValues = remove1 (ex, i, v_id v) (storedValues b),
     totalSize = totalSize b - of_nat (value_size v)\<rparr>"

text \<open>\<open>storedValues_.begin()->second\<close>, which must not be called on an empty bucket.\<close>

definition getOldest :: "storage_bucket \<Rightarrow> (hash \<times> value_id) option" where
  "getOldest b = (case storedValues b of [] \<Rightarrow> None | e # _ \<Rightarrow> Some (snd e))"

section \<open>Storage of a key\<close>

record value_storage =
  vs_data :: dht_value
  vs_created :: time_point
  vs_expiration :: time_point
  vs_bucket :: "nat option"

text \<open>
  A callback is known by a number. Foreign listeners are grouped by node object and kept under the
  socket number the node gave.
\<close>

record listener =
  l_time :: time_point
  l_query :: query
  l_version :: nat

record local_listener =
  ll_query :: "query option"
  ll_filter :: value_filter
  ll_cb :: nat

type_synonym node_listeners = "(nat \<times> listener) list"

definition listener_refresh :: "time_point \<Rightarrow> query \<Rightarrow> listener \<Rightarrow> listener" where
  "listener_refresh t q l = l\<lparr>l_time := t, l_query := q\<rparr>"

record storage =
  maintenance_time :: time_point
  st_listeners :: "(nat \<times> node_listeners) list"
  local_listeners :: "(uint64 \<times> local_listener) list"
  listener_token :: uint64
  st_values :: "value_storage list"
  total_size :: uint64

record store_diff =
  size_diff :: int
  values_diff :: int
  listeners_diff :: int

type_synonym quotas = "nat \<rightharpoonup> storage_bucket"

definition MAX_VALUES :: nat where
  "MAX_VALUES = 1024"

definition new_storage :: "time_point \<Rightarrow> storage" where
  "new_storage t = \<lparr>maintenance_time = t, st_listeners = [], local_listeners = [], listener_token = 1, st_values = [],
     total_size = 0\<rparr>"

definition no_diff :: store_diff where
  "no_diff = \<lparr>size_diff = 0, values_diff = 0, listeners_diff = 0\<rparr>"

definition on_bucket :: "nat option \<Rightarrow> (storage_bucket \<Rightarrow> storage_bucket) \<Rightarrow> quotas \<Rightarrow> quotas outcome" where
  "on_bucket p f q = (case p of
        None \<Rightarrow> Ret q
      | Some b \<Rightarrow> (case q b of None \<Rightarrow> Undef | Some x \<Rightarrow> Ret (q(b \<mapsto> f x))))"

definition storage_empty :: "storage \<Rightarrow> bool" where
  "storage_empty st = (st_values st = [])"

definition valueCount :: "storage \<Rightarrow> nat" where
  "valueCount st = length (st_values st)"

definition getById :: "value_id \<Rightarrow> storage \<Rightarrow> dht_value option" where
  "getById vid st = map_option vs_data (find (\<lambda>vs. v_id (vs_data vs) = vid) (st_values st))"

definition storage_get :: "value_filter \<Rightarrow> storage \<Rightarrow> dht_value list" where
  "storage_get f st = filter (\<lambda>v. f = None \<or> passes f v) (map vs_data (st_values st))"

fun find_pos :: "('a \<Rightarrow> bool) \<Rightarrow> 'a list \<Rightarrow> nat option" where
  "find_pos p [] = None"
| "find_pos p (x # xs) = (if p x then Some 0 else map_option Suc (find_pos p xs))"

text \<open>
  The result is the pointer to the stored entry (\<open>None\<close> is null) with the changes. On a replacement the code
  takes the quota of the \<^emph>\<open>new\<close> value out of the old entry's bucket.
\<close>

definition store :: "hash \<Rightarrow> dht_value \<Rightarrow> time_point \<Rightarrow> time_point \<Rightarrow> nat option \<Rightarrow> storage \<Rightarrow> quotas
    \<Rightarrow> ((nat option \<times> store_diff) \<times> storage \<times> quotas) outcome" where
  "store i v created ex sb st q =
     (let size_new = int (value_size v);
          new = \<lparr>vs_data = v, vs_created = created, vs_expiration = ex, vs_bucket = sb\<rparr>
      in case find_pos (\<lambda>vr. v_ref (vs_data vr) = v_ref v \<or> v_id (vs_data vr) = v_id v) (st_values st) of
        Some k \<Rightarrow>
          let old = st_values st ! k;
              sdiff = size_new - int (value_size (vs_data old))
          in if v_ref (vs_data old) \<noteq> v_ref v then
               bind_outcome (on_bucket (vs_bucket old) (bucket_erase i v (vs_expiration old)) q) (\<lambda>q.
               bind_outcome (on_bucket sb (bucket_add i v ex) q) (\<lambda>q.
               Ret ((Some k, no_diff\<lparr>size_diff := sdiff\<rparr>),
                 st\<lparr>st_values := (st_values st)[k := new], total_size := total_size st + of_int sdiff\<rparr>, q)))
             else Ret ((None, no_diff), st\<lparr>st_values := (st_values st)[k := old\<lparr>vs_created := created\<rparr>]\<rparr>, q)
      | None \<Rightarrow>
          if length (st_values st) < MAX_VALUES then
            bind_outcome (on_bucket sb (bucket_add i v ex) q) (\<lambda>q.
            Ret ((Some (length (st_values st)), no_diff\<lparr>size_diff := size_new, values_diff := 1\<rparr>),
              st\<lparr>st_values := st_values st @ [new], total_size := total_size st + of_int size_new\<rparr>, q))
          else Ret ((None, no_diff), st, q))"

definition storage_refresh :: "time_point \<Rightarrow> value_id \<Rightarrow> type_store \<Rightarrow> storage \<Rightarrow> time_point \<times> storage" where
  "storage_refresh t vid types st =
     (case find_pos (\<lambda>vs. v_id (vs_data vs) = vid) (st_values st) of
        None \<Rightarrow> (time_max, st)
      | Some k \<Rightarrow>
        let vs = st_values st ! k;
            ex = max (vs_expiration vs) (t + vt_expiration (getType types (v_type (vs_data vs))))
        in (ex, st\<lparr>st_values := (st_values st)[k := vs\<lparr>vs_created := t, vs_expiration := ex\<rparr>]\<rparr>))"

text \<open>\<open>keep\<close> is what the callback answers when it is shown the values.\<close>

definition storage_listen :: "nat \<Rightarrow> (dht_value list \<Rightarrow> bool) \<Rightarrow> value_filter \<Rightarrow> query option \<Rightarrow> storage \<Rightarrow> uint64 \<times> storage" where
  "storage_listen cb keep f qu st =
     (let newvals = storage_get f st in
      if \<not> storage_empty st \<and> newvals \<noteq> [] \<and> \<not> keep newvals then (0, st)
      else
        let tokenlocal = listener_token st + 1
        in (tokenlocal, st\<lparr>listener_token := tokenlocal,
              local_listeners := snd (map_emplace tokenlocal \<lparr>ll_query = qu, ll_filter = f, ll_cb = cb\<rparr> (local_listeners st))\<rparr>))"

definition storage_cancelListen :: "uint64 \<Rightarrow> storage \<Rightarrow> storage" where
  "storage_cancelListen t st = st\<lparr>local_listeners := map_erase t (local_listeners st)\<rparr>"

definition storage_remove :: "hash \<Rightarrow> value_id \<Rightarrow> storage \<Rightarrow> quotas \<Rightarrow> (store_diff \<times> storage \<times> quotas) outcome" where
  "storage_remove i vid st q =
     (case find_pos (\<lambda>vs. v_id (vs_data vs) = vid) (st_values st) of
        None \<Rightarrow> Ret (no_diff, st, q)
      | Some k \<Rightarrow>
        let vs = st_values st ! k; sz = int (value_size (vs_data vs))
        in bind_outcome (on_bucket (vs_bucket vs) (bucket_erase i (vs_data vs) (vs_expiration vs)) q) (\<lambda>q.
           Ret (no_diff\<lparr>size_diff := - sz, values_diff := -1\<rparr>,
             st\<lparr>st_values := take k (st_values st) @ drop (Suc k) (st_values st), total_size := total_size st - of_int sz\<rparr>, q)))"

text \<open>The total is cast to a signed number before it is negated.\<close>

definition storage_clear :: "storage \<Rightarrow> store_diff \<times> storage" where
  "storage_clear st = (no_diff\<lparr>size_diff := - sint (total_size st), values_diff := - int (length (st_values st))\<rparr>,
     st\<lparr>st_values := [], total_size := 0\<rparr>)"

text \<open>
  \<open>std::partition\<close> on a vector: the first element that fails and the last one that passes change places, then the
  range between them is treated the same way.
\<close>

function partition_swap :: "('a \<Rightarrow> bool) \<Rightarrow> 'a list \<Rightarrow> 'a list \<times> 'a list" where
  "partition_swap p [] = ([], [])"
| "partition_swap p (x # xs) =
     (if p x then let (t, f) = partition_swap p xs in (x # t, f)
      else case dropWhile (\<lambda>y. \<not> p y) (rev xs) of
        [] \<Rightarrow> ([], x # xs)
      | y # ys \<Rightarrow>
        let (t, f) = partition_swap p (rev ys)
        in (y # t, f @ x # rev (takeWhile (\<lambda>y. \<not> p y) (rev xs))))"
  by pat_completeness auto
termination
proof (relation "measure (\<lambda>(p, xs). length xs)", goal_cases)
  case (3 p x xs y ys)
  have "length (dropWhile (\<lambda>y. \<not> p y) (rev xs)) \<le> length (rev xs)" by (rule length_dropWhile_le)
  with 3 show ?case by simp
qed auto

text \<open>\<open>NODE_EXPIRE_TIME\<close> of \<open>node.h\<close> is ten minutes.\<close>

definition listener_expired :: "time_point \<Rightarrow> listener \<Rightarrow> bool" where
  "listener_expired t l \<longleftrightarrow> l_time l + minutes 10 < t"

definition expire_listeners :: "time_point \<Rightarrow> (nat \<times> node_listeners) list \<Rightarrow> (nat \<times> node_listeners) list" where
  "expire_listeners t ls =
     filter (\<lambda>e. snd e \<noteq> []) (map (\<lambda>(n, l). (n, filter (\<lambda>e. \<not> listener_expired t (snd e)) l)) ls)"

fun erase_quotas :: "hash \<Rightarrow> value_storage list \<Rightarrow> quotas \<Rightarrow> quotas outcome" where
  "erase_quotas i [] q = Ret q"
| "erase_quotas i (v # vs) q =
     bind_outcome (on_bucket (vs_bucket v) (bucket_erase i (vs_data v) (vs_expiration v)) q) (erase_quotas i vs)"

definition storage_expire :: "hash \<Rightarrow> time_point \<Rightarrow> storage \<Rightarrow> quotas \<Rightarrow> ((int \<times> dht_value list) \<times> storage \<times> quotas) outcome" where
  "storage_expire i t st q =
     (let (kept, gone) = partition_swap (\<lambda>v. vs_expiration v > t) (st_values st);
          sdiff = - int (sum_list (map (\<lambda>v. value_size (vs_data v)) gone))
      in bind_outcome (erase_quotas i gone q) (\<lambda>q.
         Ret ((sdiff, map vs_data gone),
           st\<lparr>st_listeners := expire_listeners t (st_listeners st), st_values := kept,
              total_size := total_size st + of_int sdiff\<rparr>, q)))"

section \<open>Lemmas on the list operations\<close>

lemma find_pos_Some:
  "find_pos p xs = Some k \<Longrightarrow> k < length xs \<and> p (xs ! k) \<and> (\<forall>j<k. \<not> p (xs ! j))"
proof (induction xs arbitrary: k)
  case (Cons x xs)
  then show ?case by (cases "p x") (auto simp: nth_Cons split: nat.splits)
qed simp

lemma find_pos_None: "find_pos p xs = None \<longleftrightarrow> (\<forall>x\<in>set xs. \<not> p x)"
  by (induction xs) auto

lemma find_pos_cong: "(\<And>x. x \<in> set xs \<Longrightarrow> P x = Q x) \<Longrightarrow> find_pos P xs = find_pos Q xs"
  by (induction xs) auto

lemma find_of_find_pos: "find p xs = map_option ((!) xs) (find_pos p xs)"
  by (induction xs) (auto simp: option.map_comp o_def)

lemma sum_list_nat_update:
  "k < length xs \<Longrightarrow> int (sum_list (map f (xs[k := x]))) = int (sum_list (map f xs)) - int (f (xs ! k)) + int (f x)"
  for f :: "'a \<Rightarrow> nat"
proof (induction xs arbitrary: k)
  case (Cons y xs)
  then show ?case by (cases k) auto
qed simp

lemma sum_list_nat_cut:
  "k < length xs \<Longrightarrow> int (sum_list (map f (take k xs @ drop (Suc k) xs))) = int (sum_list (map f xs)) - int (f (xs ! k))"
  for f :: "'a \<Rightarrow> nat"
proof (induction xs arbitrary: k)
  case (Cons y xs)
  then show ?case by (cases k) auto
qed simp

lemma distinct_cut: "distinct xs \<Longrightarrow> distinct (take k xs @ drop (Suc k) xs)"
  using set_take_disj_set_drop_if_distinct [of xs k "Suc k"] by simp

lemma mset_cut: "k < length xs \<Longrightarrow> mset (take k xs @ drop (Suc k) xs) = mset xs - {#xs ! k#}"
proof -
  assume k: "k < length xs"
  have "mset xs = mset (take k xs @ xs ! k # drop (Suc k) xs)" by (simp only: id_take_nth_drop [OF k, symmetric])
  then show ?thesis by simp
qed

lemma partition_swap_split:
  "partition_swap p xs = (t, f) \<Longrightarrow> mset t = filter_mset p (mset xs) \<and> mset f = filter_mset (\<lambda>x. \<not> p x) (mset xs)"
proof (induction p xs arbitrary: t f rule: partition_swap.induct)
  case (1 p)
  then show ?case by simp
next
  case (2 p x xs)
  show ?case
  proof (cases "p x")
    case True
    then show ?thesis using 2 by (auto split: prod.splits)
  next
    case False
    let ?d = "dropWhile (\<lambda>y. \<not> p y) (rev xs)" and ?w = "takeWhile (\<lambda>y. \<not> p y) (rev xs)"
    have xs: "mset xs = mset ?w + mset ?d"
      by (metis mset_append mset_rev takeWhile_dropWhile_id)
    have w: "filter_mset p (mset ?w) = {#}" "filter_mset (\<lambda>x. \<not> p x) (mset ?w) = mset ?w"
      using set_takeWhileD [of _ "\<lambda>y. \<not> p y" "rev xs"] by (fastforce simp: filter_mset_eq_conv)+
    show ?thesis
    proof (cases ?d)
      case Nil
      then have "\<forall>y\<in>set xs. \<not> p y" by (simp add: dropWhile_eq_Nil_conv)
      then have "filter_mset p (mset xs) = {#}" "filter_mset (\<lambda>x. \<not> p x) (mset xs) = mset xs"
        by (auto simp: filter_mset_eq_conv)
      moreover have "t = []" "f = x # xs" using "2.prems" False Nil by auto
      ultimately show ?thesis using False by simp
    next
      case (Cons y ys)
      have y: "p y" using hd_dropWhile [of "\<lambda>y. \<not> p y" "rev xs"] Cons by auto
      obtain t' f' where r: "partition_swap p (rev ys) = (t', f')" by fastforce
      from 2(2) [OF False Cons r] have "mset t' = filter_mset p (mset ys)" "mset f' = filter_mset (\<lambda>x. \<not> p x) (mset ys)"
        by auto
      then show ?thesis using "2.prems" False Cons xs w y r by auto
    qed
  qed
qed

section \<open>Accounting\<close>

definition stored_size :: "storage \<Rightarrow> nat" where
  "stored_size st = sum_list (map (\<lambda>v. value_size (vs_data v)) (st_values st))"

definition value_ids :: "storage \<Rightarrow> value_id list" where
  "value_ids st = map (\<lambda>v. v_id (vs_data v)) (st_values st)"

definition storage_ok :: "storage \<Rightarrow> bool" where
  "storage_ok st \<longleftrightarrow> distinct (value_ids st) \<and> length (st_values st) \<le> MAX_VALUES \<and> total_size st = of_nat (stored_size st)"

text \<open>An operation accounts for its changes if they are the differences of the two totals.\<close>

definition accounts :: "storage \<Rightarrow> store_diff \<Rightarrow> storage \<Rightarrow> bool" where
  "accounts st d st' \<longleftrightarrow> int (stored_size st') = int (stored_size st) + size_diff d
     \<and> int (valueCount st') = int (valueCount st) + values_diff d"

lemmas storage_defs = storage_ok_def accounts_def stored_size_def value_ids_def valueCount_def

lemma new_storage_ok: "storage_ok (new_storage t)"
  by (simp add: new_storage_def storage_defs MAX_VALUES_def)

lemma on_bucket_Ret: "on_bucket p f q = Ret q' \<Longrightarrow> dom q' = dom q"
  by (auto simp: on_bucket_def split: option.splits if_splits)

lemma of_int_size: "int b = int a + d \<Longrightarrow> (of_nat a :: uint64) + of_int d = of_nat b"
  by (metis of_int_add of_int_of_nat_eq)

lemma storage_ok_replace:
  assumes ok: "storage_ok st" and k: "k < length (st_values st)"
    and new: "v_id (vs_data new) = v_id (vs_data (st_values st ! k))"
    and d: "d = int (value_size (vs_data new)) - int (value_size (vs_data (st_values st ! k)))"
    and st': "st_values st' = (st_values st)[k := new]" "total_size st' = total_size st + of_int d"
  shows "storage_ok st'" and "accounts st (no_diff\<lparr>size_diff := d\<rparr>) st'"
proof -
  have sz: "int (stored_size st') = int (stored_size st) + d"
    unfolding stored_size_def st' d using sum_list_nat_update [OF k, of "\<lambda>v. value_size (vs_data v)" new] by simp
  have ids: "value_ids st' = value_ids st"
    unfolding value_ids_def st' using k new by (simp add: map_update list_update_same_conv)
  show "storage_ok st'"
    using ok ids sz st' of_int_size [OF sz] by (simp add: storage_ok_def)
  show "accounts st (no_diff\<lparr>size_diff := d\<rparr>) st'"
    using sz st' by (simp add: accounts_def no_diff_def valueCount_def)
qed

lemma store_keeps:
  assumes ok: "storage_ok st" and r: "store i v created ex sb st q = Ret ((res, d), st', q')"
  shows "storage_ok st' \<and> accounts st d st' \<and> dom q' = dom q"
proof (cases "find_pos (\<lambda>vr. v_ref (vs_data vr) = v_ref v \<or> v_id (vs_data vr) = v_id v) (st_values st)")
  case None
  then have new: "v_id v \<notin> set (value_ids st)" by (auto simp: find_pos_None value_ids_def)
  from r None show ?thesis
  proof (cases "length (st_values st) < MAX_VALUES")
    case True
    have "storage_ok st' \<and> accounts st d st'"
      using r None True ok new
      by (auto simp: store_def Let_def storage_defs bind_outcome_Ret no_diff_def)
    moreover have "on_bucket sb (bucket_add i v ex) q = Ret q'"
      using r None True by (simp add: store_def Let_def bind_outcome_Ret)
    ultimately show ?thesis using on_bucket_Ret by blast
  next
    case False
    then show ?thesis using r None ok by (auto simp: store_def Let_def accounts_def no_diff_def)
  qed
next
  case (Some k)
  note k = find_pos_Some [OF Some]
  show ?thesis
  proof (cases "v_ref (vs_data (st_values st ! k)) = v_ref v")
    case True
    then have "st' = st\<lparr>st_values := (st_values st)[k := (st_values st ! k)\<lparr>vs_created := created\<rparr>]\<rparr>" "d = no_diff" "q' = q"
      using r Some by (auto simp: store_def Let_def)
    then show ?thesis
      using storage_ok_replace [OF ok, of k "(st_values st ! k)\<lparr>vs_created := created\<rparr>" 0 st'] k by (simp add: no_diff_def)
  next
    case False
    let ?d = "int (value_size v) - int (value_size (vs_data (st_values st ! k)))"
    let ?new = "\<lparr>vs_data = v, vs_created = created, vs_expiration = ex, vs_bucket = sb\<rparr>"
    have st': "st_values st' = (st_values st)[k := ?new]" "total_size st' = total_size st + of_int ?d"
      and d: "d = no_diff\<lparr>size_diff := ?d\<rparr>"
      using r Some False by (auto simp: store_def Let_def bind_outcome_Ret)
    obtain q1 where "on_bucket (vs_bucket (st_values st ! k)) (bucket_erase i v (vs_expiration (st_values st ! k))) q = Ret q1"
      "on_bucket sb (bucket_add i v ex) q1 = Ret q'"
      using r Some False by (auto simp: store_def Let_def bind_outcome_Ret)
    then have q': "dom q' = dom q" using on_bucket_Ret by blast
    show ?thesis using storage_ok_replace [OF ok, of k ?new ?d st'] k False st' d q' by auto
  qed
qed

lemma storage_refresh_keeps:
  assumes ok: "storage_ok st" and r: "storage_refresh t vid types st = (ex, st')"
  shows "storage_ok st' \<and> accounts st no_diff st'"
proof (cases "find_pos (\<lambda>vs. v_id (vs_data vs) = vid) (st_values st)")
  case None
  then show ?thesis using r ok by (auto simp: storage_refresh_def accounts_def no_diff_def)
next
  case (Some k)
  let ?new = "(st_values st ! k)\<lparr>vs_created := t, vs_expiration := ex\<rparr>"
  have "st_values st' = (st_values st)[k := ?new]" "total_size st' = total_size st"
    using r Some by (auto simp: storage_refresh_def Let_def)
  then show ?thesis
    using storage_ok_replace [OF ok, of k ?new 0 st'] find_pos_Some [OF Some] by (simp add: no_diff_def)
qed

lemma storage_remove_keeps:
  assumes ok: "storage_ok st" and r: "storage_remove i vid st q = Ret (d, st', q')"
  shows "storage_ok st' \<and> accounts st d st' \<and> dom q' = dom q"
proof (cases "find_pos (\<lambda>vs. v_id (vs_data vs) = vid) (st_values st)")
  case None
  then show ?thesis using r ok by (auto simp: storage_remove_def accounts_def no_diff_def)
next
  case (Some k)
  then have k: "k < length (st_values st)" by (auto dest: find_pos_Some)
  let ?sz = "int (value_size (vs_data (st_values st ! k)))"
  have st': "st_values st' = take k (st_values st) @ drop (Suc k) (st_values st)" "total_size st' = total_size st + of_int (- ?sz)"
    and d: "d = no_diff\<lparr>size_diff := - ?sz, values_diff := -1\<rparr>"
    and "on_bucket (vs_bucket (st_values st ! k)) (bucket_erase i (vs_data (st_values st ! k)) (vs_expiration (st_values st ! k))) q = Ret q'"
    using r Some by (auto simp: storage_remove_def Let_def bind_outcome_Ret)
  then have q': "dom q' = dom q" using on_bucket_Ret by blast
  have sz: "int (stored_size st') = int (stored_size st) + - ?sz"
    unfolding stored_size_def st' using sum_list_nat_cut [OF k, of "\<lambda>v. value_size (vs_data v)"] by simp
  have "distinct (value_ids st')"
    using ok distinct_cut [of "value_ids st" k] by (simp add: storage_ok_def value_ids_def st' take_map drop_map)
  moreover have "int (length (st_values st')) = int (length (st_values st)) - 1" using st' k by simp
  ultimately show ?thesis
    using ok sz st'(2) d q' of_int_size [OF sz]
    by (simp add: storage_ok_def accounts_def no_diff_def valueCount_def)
qed

lemma erase_quotas_Ret: "erase_quotas i vs q = Ret q' \<Longrightarrow> dom q' = dom q"
proof (induction i vs q rule: erase_quotas.induct)
  case (2 i v vs q)
  then show ?case using on_bucket_Ret by (fastforce simp: bind_outcome_Ret)
qed simp

text \<open>What an expiry pass leaves and returns, as multisets: \<open>std::partition\<close> does not keep the order.\<close>

lemma storage_expire_parts:
  assumes "storage_expire i t st q = Ret ((d, gone), st', q')"
  shows "mset (st_values st') = filter_mset (\<lambda>v. vs_expiration v > t) (mset (st_values st))"
    and "mset gone = image_mset vs_data (filter_mset (\<lambda>v. \<not> vs_expiration v > t) (mset (st_values st)))"
    and "d = - int (sum_list (map value_size gone))"
    and "total_size st' = total_size st + of_int d"
    and "st_listeners st' = expire_listeners t (st_listeners st)"
    and "local_listeners st' = local_listeners st"
    and "dom q' = dom q"
proof -
  obtain kept out where p: "partition_swap (\<lambda>v. vs_expiration v > t) (st_values st) = (kept, out)" by fastforce
  from assms p have r: "gone = map vs_data out" "st_values st' = kept" "d = - int (sum_list (map value_size gone))"
    "total_size st' = total_size st + of_int d" "st_listeners st' = expire_listeners t (st_listeners st)"
    "local_listeners st' = local_listeners st" "erase_quotas i out q = Ret q'"
    by (auto simp: storage_expire_def Let_def bind_outcome_Ret o_def)
  from r partition_swap_split [OF p] erase_quotas_Ret [OF r(7)] show
    "mset (st_values st') = filter_mset (\<lambda>v. vs_expiration v > t) (mset (st_values st))"
    "mset gone = image_mset vs_data (filter_mset (\<lambda>v. \<not> vs_expiration v > t) (mset (st_values st)))"
    "d = - int (sum_list (map value_size gone))"
    "total_size st' = total_size st + of_int d"
    "st_listeners st' = expire_listeners t (st_listeners st)"
    "local_listeners st' = local_listeners st"
    "dom q' = dom q"
    by simp_all
qed

lemma storage_expire_out:
  assumes "storage_expire i t st q = Ret ((d, gone), st', q')"
  shows "\<exists>out. mset out = filter_mset (\<lambda>v. \<not> vs_expiration v > t) (mset (st_values st)) \<and> gone = map vs_data out"
proof -
  obtain kept out where p: "partition_swap (\<lambda>v. vs_expiration v > t) (st_values st) = (kept, out)" by fastforce
  then have "gone = map vs_data out" using assms by (auto simp: storage_expire_def Let_def bind_outcome_Ret)
  then show ?thesis using partition_swap_split [OF p] by blast
qed

lemma split_list_facts:
  assumes "mset xs = mset ys + mset zs"
  shows "sum_list (map f xs) = sum_list (map f ys) + (sum_list (map f zs) :: nat)"
    and "length xs = length ys + length zs"
    and "distinct (map g xs) \<Longrightarrow> distinct (map g ys)"
proof -
  have "mset (map f xs) = mset (map f (ys @ zs))" using assms by simp
  then have "sum_list (map f xs) = sum_list (map f (ys @ zs))" by (metis sum_mset_sum_list)
  then show "sum_list (map f xs) = sum_list (map f ys) + (sum_list (map f zs) :: nat)" by simp
  show "length xs = length ys + length zs" using assms by (metis size_mset size_union)
  have "mset (map g xs) = mset (map g (ys @ zs))" using assms by simp
  from mset_eq_imp_distinct_iff [OF this] show "distinct (map g xs) \<Longrightarrow> distinct (map g ys)" by simp
qed

lemma storage_expire_keeps:
  assumes ok: "storage_ok st" and r: "storage_expire i t st q = Ret ((d, gone), st', q')"
  shows "storage_ok st' \<and> accounts st (no_diff\<lparr>size_diff := d, values_diff := - int (length gone)\<rparr>) st' \<and> dom q' = dom q"
proof -
  note p = storage_expire_parts [OF r]
  obtain out where out: "mset out = filter_mset (\<lambda>v. \<not> vs_expiration v > t) (mset (st_values st))" "gone = map vs_data out"
    using storage_expire_out [OF r] by blast
  have m: "mset (st_values st) = mset (st_values st') + mset out"
    unfolding p(1) out(1) by (rule multiset_partition)
  note f = split_list_facts [OF m]
  have sz: "int (stored_size st') = int (stored_size st) + d"
    using f(1) [of "\<lambda>v. value_size (vs_data v)"] p(3) out(2) by (simp add: stored_size_def o_def)
  have "distinct (value_ids st')" using ok f(3) [of "\<lambda>v. v_id (vs_data v)"] by (simp add: storage_ok_def value_ids_def)
  moreover have "int (length (st_values st')) = int (length (st_values st)) - int (length gone)"
    using f(2) out(2) by simp
  ultimately show ?thesis
    using ok sz p(4,7) of_int_size [OF sz] by (simp add: storage_ok_def accounts_def valueCount_def no_diff_def)
qed

lemma storage_clear_keeps:
  assumes ok: "storage_ok st" and small: "stored_size st < 2 ^ 63" and r: "storage_clear st = (d, st')"
  shows "storage_ok st' \<and> accounts st d st'"
proof -
  have "sint (total_size st) = int (stored_size st)"
    using ok small by (simp add: storage_ok_def signed_of_nat signed_take_bit_int_eq_self)
  then show ?thesis using r by (auto simp: storage_clear_def storage_defs no_diff_def MAX_VALUES_def)
qed

lemma accounts_trans:
  "accounts a d b \<Longrightarrow> accounts b e c \<Longrightarrow> accounts a \<lparr>size_diff = size_diff d + size_diff e, values_diff = values_diff d + values_diff e,
     listeners_diff = listeners_diff d + listeners_diff e\<rparr> c"
  by (simp add: accounts_def)

section \<open>Totality and lookup\<close>

definition bucket_live :: "quotas \<Rightarrow> nat option \<Rightarrow> bool" where
  "bucket_live q p = (case p of None \<Rightarrow> True | Some b \<Rightarrow> q b \<noteq> None)"

definition buckets_live :: "quotas \<Rightarrow> storage \<Rightarrow> bool" where
  "buckets_live q st = list_all (\<lambda>v. bucket_live q (vs_bucket v)) (st_values st)"

lemma on_bucket_live: "bucket_live q p \<Longrightarrow> \<exists>q'. on_bucket p f q = Ret q'"
  by (auto simp: bucket_live_def on_bucket_def split: option.splits)

lemma bucket_live_dom: "dom q' = dom q \<Longrightarrow> bucket_live q' p = bucket_live q p"
  by (auto simp: bucket_live_def dom_def set_eq_iff split: option.splits)

lemma buckets_live_nth: "buckets_live q st \<Longrightarrow> k < length (st_values st) \<Longrightarrow> bucket_live q (vs_bucket (st_values st ! k))"
  by (auto simp: buckets_live_def list_all_length)

lemma store_total:
  assumes live: "buckets_live q st" "bucket_live q sb"
  shows "\<exists>r. store i v created ex sb st q = Ret r"
proof (cases "find_pos (\<lambda>vr. v_ref (vs_data vr) = v_ref v \<or> v_id (vs_data vr) = v_id v) (st_values st)")
  case None
  then show ?thesis using on_bucket_live [OF live(2), of "bucket_add i v ex"] by (auto simp: store_def Let_def)
next
  case (Some k)
  then have "bucket_live q (vs_bucket (st_values st ! k))"
    using live find_pos_Some [OF Some] by (auto intro: buckets_live_nth)
  then obtain q1 where q1: "on_bucket (vs_bucket (st_values st ! k)) (bucket_erase i v (vs_expiration (st_values st ! k))) q = Ret q1"
    using on_bucket_live by blast
  moreover obtain q2 where "on_bucket sb (bucket_add i v ex) q1 = Ret q2"
    using live(2) on_bucket_live bucket_live_dom [OF on_bucket_Ret [OF q1]] by blast
  ultimately show ?thesis using Some by (auto simp: store_def Let_def)
qed

lemma getById_nth:
  assumes "distinct (value_ids st)" and "k < length (st_values st)"
  shows "getById (v_id (vs_data (st_values st ! k))) st = Some (vs_data (st_values st ! k))"
proof -
  have "find_pos (\<lambda>vs. v_id (vs_data vs) = v_id (vs_data (st_values st ! k))) (st_values st) \<noteq> None"
    unfolding find_pos_None using assms(2) nth_mem by blast
  then obtain j where j: "find_pos (\<lambda>vs. v_id (vs_data vs) = v_id (vs_data (st_values st ! k))) (st_values st) = Some j" by blast
  with assms have "j = k" by (auto simp: value_ids_def distinct_conv_nth dest!: find_pos_Some)
  then show ?thesis using j by (simp add: getById_def find_of_find_pos)
qed

lemma getById_Some: "distinct (value_ids st) \<Longrightarrow> getById vid st = Some w \<longleftrightarrow> w \<in> vs_data ` set (st_values st) \<and> v_id w = vid"
proof
  assume "getById vid st = Some w"
  then obtain k where "find_pos (\<lambda>vs. v_id (vs_data vs) = vid) (st_values st) = Some k" "w = vs_data (st_values st ! k)"
    by (auto simp: getById_def find_of_find_pos)
  then show "w \<in> vs_data ` set (st_values st) \<and> v_id w = vid" by (auto dest!: find_pos_Some)
next
  assume d: "distinct (value_ids st)" and "w \<in> vs_data ` set (st_values st) \<and> v_id w = vid"
  then obtain k where "k < length (st_values st)" "w = vs_data (st_values st ! k)" "v_id w = vid"
    by (auto simp: in_set_conv_nth)
  with getById_nth [OF d] show "getById vid st = Some w" by metis
qed

lemma getById_same_data: "map vs_data (st_values st') = map vs_data (st_values st) \<Longrightarrow> getById vid st' = getById vid st"
proof -
  have f: "map_option vs_data (find (\<lambda>vs. v_id (vs_data vs) = vid) xs) = find (\<lambda>v. v_id v = vid) (map vs_data xs)" for xs
    by (induction xs) auto
  assume "map vs_data (st_values st') = map vs_data (st_values st)"
  then show ?thesis by (simp add: getById_def f)
qed

lemma store_stored:
  assumes "store i v created ex sb st q = Ret ((Some k, d), st', q')"
  shows "vs_data ` set (st_values st') = insert v (vs_data ` set (st_values st) - {w. v_id w = v_id v})
    \<or> \<not> distinct (value_ids st)"
proof (cases "find_pos (\<lambda>vr. v_ref (vs_data vr) = v_ref v \<or> v_id (vs_data vr) = v_id v) (st_values st)")
  case None
  then have "\<forall>w \<in> vs_data ` set (st_values st). v_id w \<noteq> v_id v" by (auto simp: find_pos_None)
  moreover have "st_values st' = st_values st @ [\<lparr>vs_data = v, vs_created = created, vs_expiration = ex, vs_bucket = sb\<rparr>]"
    using assms None by (auto simp: store_def Let_def bind_outcome_Ret split: if_splits)
  ultimately show ?thesis by auto
next
  case (Some j)
  let ?new = "\<lparr>vs_data = v, vs_created = created, vs_expiration = ex, vs_bucket = sb\<rparr>"
  have st': "st_values st' = (st_values st)[j := ?new]" and ne: "v_ref (vs_data (st_values st ! j)) \<noteq> v_ref v"
    using assms Some by (auto simp: store_def Let_def bind_outcome_Ret split: if_splits)
  then have j: "j < length (st_values st)" "v_id (vs_data (st_values st ! j)) = v_id v"
    using find_pos_Some [OF Some] by auto
  have "x \<noteq> st_values st ! j \<longrightarrow> v_id (vs_data x) \<noteq> v_id v" if "distinct (value_ids st)" "x \<in> set (st_values st)" for x
    using that j by (auto simp: value_ids_def distinct_conv_nth in_set_conv_nth) (metis j(2))
  moreover have "distinct (value_ids st) \<Longrightarrow> distinct (st_values st)" by (simp add: value_ids_def distinct_map)
  ultimately show ?thesis using j unfolding st' by (auto simp: set_update_distinct)
qed

lemma store_refused:
  assumes "store i v created ex sb st q = Ret ((None, d), st', q')"
  shows "map vs_data (st_values st') = map vs_data (st_values st)" and "q' = q"
proof -
  have "map vs_data (st_values st') = map vs_data (st_values st) \<and> q' = q"
  proof (cases "find_pos (\<lambda>vr. v_ref (vs_data vr) = v_ref v \<or> v_id (vs_data vr) = v_id v) (st_values st)")
    case None
    then show ?thesis using assms by (auto simp: store_def Let_def bind_outcome_Ret split: if_splits)
  next
    case (Some k)
    then show ?thesis using assms find_pos_Some [OF Some]
      by (auto simp: store_def Let_def bind_outcome_Ret map_update list_update_same_conv split: if_splits)
  qed
  then show "map vs_data (st_values st') = map vs_data (st_values st)" "q' = q" by auto
qed

lemma store_refused_iff:
  assumes "storage_ok st" and "store i v created ex sb st q = Ret ((res, d), st', q')"
    and "\<forall>w \<in> vs_data ` set (st_values st). v_ref w = v_ref v \<longrightarrow> v_id w = v_id v"
  shows "res = None \<longleftrightarrow> (case getById (v_id v) st of
        Some w \<Rightarrow> v_ref w = v_ref v | None \<Rightarrow> length (st_values st) = MAX_VALUES)"
proof -
  have d: "distinct (value_ids st)" using assms(1) by (simp add: storage_ok_def)
  have p: "find_pos (\<lambda>vr. v_ref (vs_data vr) = v_ref v \<or> v_id (vs_data vr) = v_id v) (st_values st)
      = find_pos (\<lambda>vr. v_id (vs_data vr) = v_id v) (st_values st)"
    by (rule find_pos_cong) (use assms(3) in auto)
  show ?thesis
  proof (cases "find_pos (\<lambda>vr. v_id (vs_data vr) = v_id v) (st_values st)")
    case None
    then show ?thesis using assms(1,2)
      by (auto simp: store_def Let_def p bind_outcome_Ret getById_def find_of_find_pos storage_ok_def split: if_splits)
  next
    case (Some k)
    then show ?thesis using assms(2)
      by (auto simp: store_def Let_def p bind_outcome_Ret getById_def find_of_find_pos split: if_splits)
  qed
qed

lemma store_result:
  assumes ok: "storage_ok st" and live: "buckets_live q st" "bucket_live q sb"
    and obj: "list_all (\<lambda>w. v_ref w = v_ref v \<longrightarrow> v_id w = v_id v) (map vs_data (st_values st))"
  shows "\<exists>res d st' q'. store i v created ex sb st q = Ret ((res, d), st', q') \<and> storage_ok st' \<and> accounts st d st'
    \<and> (res = None) = (case getById (v_id v) st of Some w \<Rightarrow> v_ref w = v_ref v | None \<Rightarrow> length (st_values st) = MAX_VALUES)
    \<and> (res = None \<longrightarrow> map vs_data (st_values st') = map vs_data (st_values st))
    \<and> (res \<noteq> None \<longrightarrow> getById (v_id v) st' = Some v \<and> (\<forall>vid. vid \<noteq> v_id v \<longrightarrow> getById vid st' = getById vid st))"
proof -
  obtain res d st' q' where r: "store i v created ex sb st q = Ret ((res, d), st', q')"
    using store_total [OF live] by (metis prod.exhaust)
  note k = store_keeps [OF ok r]
  have dist: "distinct (value_ids st)" "distinct (value_ids st')" using ok k by (auto simp: storage_ok_def)
  have found: "getById (v_id v) st' = Some v \<and> (\<forall>vid. vid \<noteq> v_id v \<longrightarrow> getById vid st' = getById vid st)" if "res \<noteq> None"
  proof -
    from that r have data: "vs_data ` set (st_values st') = insert v (vs_data ` set (st_values st) - {w. v_id w = v_id v})"
      using store_stored dist(1) by blast
    have "getById vid st' = Some w \<longleftrightarrow> getById vid st = Some w" if "vid \<noteq> v_id v" for vid w
      using that dist data by (auto simp: getById_Some)
    then have "getById vid st' = getById vid st" if "vid \<noteq> v_id v" for vid
      using that by (metis not_None_eq)
    then show ?thesis using dist data by (simp add: getById_Some)
  qed
  have "(res = None) = (case getById (v_id v) st of Some w \<Rightarrow> v_ref w = v_ref v | None \<Rightarrow> length (st_values st) = MAX_VALUES)"
    using store_refused_iff [OF ok r] obj by (simp add: list_all_iff)
  moreover have "res = None \<longrightarrow> map vs_data (st_values st') = map vs_data (st_values st)"
    using r store_refused(1) by blast
  ultimately show ?thesis using r k found by blast
qed

section \<open>Properties\<close>

text \<open>
  C15: storing a value under a key always ends with a result while the quota buckets are alive. The value is
  refused exactly when this very object is stored already or the key has its full 1024 values and none with
  this identifier; then no stored value changes. Otherwise it is the value that a lookup of its identifier
  finds, every other identifier finds what it found before, identifiers stay distinct, at most 1024 values are
  held, and the reported differences are the true ones.
\<close>

theorem store_lookup:
  assumes ok: "storage_ok st" and live: "buckets_live q st" "bucket_live q sb"
    and obj: "list_all (\<lambda>w. v_ref w = v_ref v \<longrightarrow> v_id w = v_id v) (map vs_data (st_values st))"
  shows "\<exists>res d st' q'. store i v created ex sb st q = Ret ((res, d), st', q') \<and> storage_ok st' \<and> accounts st d st'
    \<and> (res = None) = (case getById (v_id v) st of Some w \<Rightarrow> v_ref w = v_ref v | None \<Rightarrow> length (st_values st) = MAX_VALUES)
    \<and> (res = None \<longrightarrow> map vs_data (st_values st') = map vs_data (st_values st))
    \<and> (res \<noteq> None \<longrightarrow> getById (v_id v) st' = Some v \<and> (\<forall>vid. vid \<noteq> v_id v \<longrightarrow> getById vid st' = getById vid st))"
  using assms by (rule store_result)

definition one_bucket :: quotas where
  "one_bucket = [0 \<mapsto> empty_bucket]"

theorem store_lookup_witness:
  "\<exists>k d st' q'. store [1] (sample_value 0 7 [5]) 10 20 (Some 0) (new_storage 0) one_bucket = Ret ((Some k, d), st', q')
    \<and> storage_ok st' \<and> accounts (new_storage 0) d st' \<and> getById (v_id (sample_value 0 7 [5])) st' = Some (sample_value 0 7 [5])"
proof -
  have "storage_ok (new_storage 0)" by (rule new_storage_ok)
  moreover have "buckets_live one_bucket (new_storage 0)" by (simp add: buckets_live_def new_storage_def)
  moreover have "bucket_live one_bucket (Some 0)" by (simp add: bucket_live_def one_bucket_def)
  moreover have "list_all (\<lambda>w. v_ref w = v_ref (sample_value 0 7 [5]) \<longrightarrow> v_id w = v_id (sample_value 0 7 [5])) (map vs_data (st_values (new_storage 0)))"
    by (simp add: new_storage_def)
  ultimately obtain res d st' q' where r: "store [1] (sample_value 0 7 [5]) 10 20 (Some 0) (new_storage 0) one_bucket = Ret ((res, d), st', q')"
    "storage_ok st'" "accounts (new_storage 0) d st'"
    "(res = None) = (case getById (v_id (sample_value 0 7 [5])) (new_storage 0) of
        Some w \<Rightarrow> v_ref w = v_ref (sample_value 0 7 [5]) | None \<Rightarrow> length (st_values (new_storage 0)) = MAX_VALUES)"
    "res \<noteq> None \<longrightarrow> getById (v_id (sample_value 0 7 [5])) st' = Some (sample_value 0 7 [5])"
    using store_lookup [of "new_storage 0" one_bucket "Some 0" "sample_value 0 7 [5]" "[1]" 10 20] by blast
  then have "res \<noteq> None" by (simp add: getById_def new_storage_def MAX_VALUES_def)
  with r show ?thesis by auto
qed

text \<open>
  C28: an expiry pass returns exactly the values whose expiration time is not in the future and keeps
  exactly the others; listeners that have been silent for ten minutes are gone and no node is left without
  listeners; the totals stay exact.
\<close>

theorem expire_exact:
  assumes "storage_ok st" and "storage_expire i t st q = Ret ((d, gone), st', q')"
  shows "storage_ok st' \<and> accounts st (no_diff\<lparr>size_diff := d, values_diff := - int (length gone)\<rparr>) st'
    \<and> mset (st_values st') = filter_mset (\<lambda>v. vs_expiration v > t) (mset (st_values st))
    \<and> mset gone = image_mset vs_data (filter_mset (\<lambda>v. \<not> vs_expiration v > t) (mset (st_values st)))
    \<and> list_all (\<lambda>(n, ls). ls \<noteq> [] \<and> list_all (\<lambda>e. t \<le> l_time (snd e) + minutes 10) ls) (st_listeners st')"
proof -
  have "list_all (\<lambda>(n, ls). ls \<noteq> [] \<and> list_all (\<lambda>e. t \<le> l_time (snd e) + minutes 10) ls) (expire_listeners t xs)" for xs
    by (auto simp: expire_listeners_def list_all_iff listener_expired_def not_less)
  then show ?thesis
    using storage_expire_keeps [OF assms] storage_expire_parts [OF assms(2)] by simp
qed

definition two_values :: storage where
  "two_values = (new_storage 0)\<lparr>
     st_values := [\<lparr>vs_data = sample_value 0 7 [5], vs_created = 1, vs_expiration = 10, vs_bucket = None\<rparr>,
                   \<lparr>vs_data = sample_value 1 8 [6, 6], vs_created = 1, vs_expiration = 30, vs_bucket = None\<rparr>],
     st_listeners := [(4, [(1, \<lparr>l_time = 0, l_query = narrow_query, l_version = 0\<rparr>)])], total_size := 3\<rparr>"

definition two_values_after :: storage where
  "two_values_after = two_values\<lparr>
     st_values := [\<lparr>vs_data = sample_value 1 8 [6, 6], vs_created = 1, vs_expiration = 30, vs_bucket = None\<rparr>], total_size := 2\<rparr>"

theorem expire_exact_witness:
  "storage_expire [1] 20 two_values Map.empty = Ret ((-1, [sample_value 0 7 [5]]), two_values_after, Map.empty)
    \<and> storage_ok two_values_after
    \<and> mset (st_values two_values_after) = filter_mset (\<lambda>v. vs_expiration v > 20) (mset (st_values two_values))"
proof -
  have r: "storage_expire [1] 20 two_values Map.empty = Ret ((-1, [sample_value 0 7 [5]]), two_values_after, Map.empty)"
    by (simp add: storage_expire_def two_values_def two_values_after_def new_storage_def on_bucket_def sample_value_def
      value_size_def expire_listeners_def listener_expired_def minutes_def seconds_def)
  have "storage_ok two_values"
    by (simp add: two_values_def new_storage_def storage_defs sample_value_def value_size_def MAX_VALUES_def)
  from r expire_exact [OF this r] show ?thesis by blast
qed

end
