(* ===== verification/Dht_Store.thy ===== *)
theory Dht_Store
  imports Storage Sock_Addr
begin

text \<open>
  The store of a node (\<open>dht.cpp\<close>): the table of storages by key with its totals, the quota of each address,
  expiry and eviction, local and foreign listeners, tokens, and the handlers of put, refresh and listen
  requests. What the store asks of the rest of the node is in the environment: the types, the hash
  function of the cryptographic library, the address and identifier of a node object, and what
  \<open>findClosestNodes\<close> (theory \<open>Routing\<close>) answers. Calls to callbacks and to the network engine are entries of a
  log, jobs given to the scheduler another one; a callback does not call back into the object.

  An eviction loop of the code may not end: operations that contain it return an \<open>option\<close>, \<open>None\<close> being no
  return at all.
\<close>

section \<open>State\<close>

record store_env =
  e_myid :: hash
  e_types :: type_store
  e_hash :: "bytes \<Rightarrow> nat \<Rightarrow> bytes"
  e_addr :: "nat \<Rightarrow> sock_addr"
  e_nid :: "nat \<Rightarrow> hash"
  e_near :: "nat \<Rightarrow> hash \<Rightarrow> nat \<Rightarrow> nat list"

datatype store_job = DataPersistence hash | ExpireStorage hash | RotateSecrets

datatype store_event =
    LocalCallback nat "dht_value list" bool
  | TellListener nat nat hash nat bytes "nat list" "nat list" "dht_value list" query nat
  | TellListenerExpired nat nat hash bytes "value_id list" nat
  | TellListenerRefreshed nat nat hash bytes "value_id list" nat
  | Announce hash nat dht_value time_point

record dht_store =
  ds_time :: time_point
  ds_store :: "(hash \<times> storage) list"
  store_quota :: "((nat \<times> bytes) \<times> nat) list"
  ds_buckets :: quotas
  ds_next_bucket :: nat
  total_values :: uint64
  total_store_size :: uint64
  max_store_keys :: uint64
  max_store_size :: uint64
  maintain_storage :: bool
  ds_secret :: uint64
  ds_oldsecret :: uint64
  ds_listener_token :: uint64
  ds_listeners :: "(uint64 \<times> uint64 \<times> uint64 \<times> uint64) list"
  ds_jobs :: "(time_point \<times> store_job) list"
  ds_out :: "store_event list"

definition MAX_HASHES :: uint64 where
  "MAX_HASHES = 1024 * 1024"

definition DEFAULT_STORAGE_LIMIT :: uint64 where
  "DEFAULT_STORAGE_LIMIT = 1024 * 1024 * 64"

definition MAX_STORAGE_MAINTENANCE_EXPIRE_TIME :: int where
  "MAX_STORAGE_MAINTENANCE_EXPIRE_TIME = minutes 10"

definition TOKEN_SIZE :: nat where
  "TOKEN_SIZE = 32"

definition SEARCH_NODES :: nat where
  "SEARCH_NODES = 14"

definition add_job :: "time_point \<Rightarrow> store_job \<Rightarrow> dht_store \<Rightarrow> dht_store" where
  "add_job t j s = s\<lparr>ds_jobs := ds_jobs s @ [(t, j)]\<rparr>"

definition emit :: "store_event list \<Rightarrow> dht_store \<Rightarrow> dht_store" where
  "emit es s = s\<lparr>ds_out := ds_out s @ es\<rparr>"

definition put_storage :: "hash \<Rightarrow> storage \<Rightarrow> dht_store \<Rightarrow> dht_store" where
  "put_storage h st s = s\<lparr>ds_store := map_put h st (ds_store s)\<rparr>"

definition add_diff :: "store_diff \<Rightarrow> dht_store \<Rightarrow> dht_store" where
  "add_diff d s = s\<lparr>total_store_size := total_store_size s + of_int (size_diff d),
     total_values := total_values s + of_int (values_diff d)\<rparr>"

section \<open>Tokens\<close>

definition le64 :: "uint64 \<Rightarrow> bytes" where
  "le64 w = map (\<lambda>i. ucast (drop_bit (8 * i) w)) [0..<8]"

definition makeToken :: "store_env \<Rightarrow> sock_addr \<Rightarrow> bool \<Rightarrow> dht_store \<Rightarrow> bytes" where
  "makeToken e a old s =
     (let c1 = (if old then ds_oldsecret s else ds_secret s);
          port = take 2 (drop 2 a)
      in if getFamily a = AF_INET then e_hash e (le64 c1 @ ip4 a @ port) TOKEN_SIZE
         else if getFamily a = AF_INET6 then e_hash e (le64 c1 @ ip6 a @ port) TOKEN_SIZE
         else [])"

definition tokenMatch :: "store_env \<Rightarrow> bytes \<Rightarrow> sock_addr \<Rightarrow> dht_store \<Rightarrow> bool" where
  "tokenMatch e token a s =
     (if a = [] \<or> length token \<noteq> TOKEN_SIZE then False
      else token = makeToken e a False s \<or> token = makeToken e a True s)"

text \<open>The new secret and the delay come from the random generator.\<close>

definition rotateSecrets :: "uint64 \<Rightarrow> int \<Rightarrow> dht_store \<Rightarrow> dht_store" where
  "rotateSecrets r delay s = add_job (ds_time s + delay) RotateSecrets (s\<lparr>ds_oldsecret := ds_secret s, ds_secret := r\<rparr>)"

section \<open>Listeners\<close>

definition node_token :: "store_env \<Rightarrow> nat \<Rightarrow> dht_store \<Rightarrow> bytes" where
  "node_token e n s = makeToken e (e_addr e n) False s"

definition flat_listeners :: "storage \<Rightarrow> (nat \<times> nat \<times> listener) list" where
  "flat_listeners st = concat (map (\<lambda>(n, ls). map (\<lambda>(sid, l). (n, sid, l)) ls) (st_listeners st))"

definition storageChanged :: "store_env \<Rightarrow> hash \<Rightarrow> storage \<Rightarrow> dht_value \<Rightarrow> bool \<Rightarrow> dht_store \<Rightarrow> dht_store" where
  "storageChanged e h st v newValue s =
     (let cbs = (if newValue then
                   map (\<lambda>(t, l). LocalCallback (ll_cb l) [v] False)
                     (filter (\<lambda>(t, l). ll_filter l = None \<or> passes (ll_filter l) v) (local_listeners st))
                 else []);
          told = map (\<lambda>(n, sid, l). TellListener n sid h 0 (node_token e n s) [] [] [v] (l_query l) (l_version l))
                   (filter (\<lambda>(n, sid, l). passes (getFilter (q_where (l_query l))) v) (flat_listeners st))
      in emit (cbs @ told) s)"

definition storageAddListener :: "store_env \<Rightarrow> hash \<Rightarrow> nat \<Rightarrow> nat \<Rightarrow> query \<Rightarrow> nat \<Rightarrow> dht_store \<Rightarrow> dht_store" where
  "storageAddListener e h n sid q version s =
     (let t = ds_time s in
      case (case map_of (ds_store s) h of
              Some st \<Rightarrow> Some st
            | None \<Rightarrow> if length (ds_store s) \<ge> unat (max_store_keys s) then None else Some (new_storage t)) of
        None \<Rightarrow> s
      | Some st \<Rightarrow>
        let nls = (case map_of (st_listeners st) n of None \<Rightarrow> [] | Some ls \<Rightarrow> ls)
        in case map_of nls sid of
             Some l \<Rightarrow> put_storage h (st\<lparr>st_listeners := map_put n (map_put sid (listener_refresh t q l) nls) (st_listeners st)\<rparr>) s
           | None \<Rightarrow>
             let vals = storage_get (getFilter (q_where q)) st;
                 s = (if vals = [] then s
                      else emit [TellListener n sid h 3 (node_token e n s) (e_near e AF_INET h 8) (e_near e AF_INET6 h 8) vals q version] s);
                 l = \<lparr>l_time = t, l_query = q, l_version = version\<rparr>
             in put_storage h (st\<lparr>st_listeners := map_put n (map_put sid l nls) (st_listeners st)\<rparr>) s)"

section \<open>Expiry\<close>

definition expireStore_at :: "store_env \<Rightarrow> hash \<Rightarrow> storage \<Rightarrow> dht_store \<Rightarrow> dht_store outcome" where
  "expireStore_at e h st s =
     bind_outcome (storage_expire h (ds_time s) st (ds_buckets s)) (\<lambda>((d, gone), st', q).
       let s = add_diff (no_diff\<lparr>size_diff := d, values_diff := - int (length gone)\<rparr>) (put_storage h st' (s\<lparr>ds_buckets := q\<rparr>))
       in if gone = [] then Ret s
          else Ret (emit
            (map (\<lambda>(n, sid, l). TellListenerExpired n sid h (node_token e n s) (map v_id gone) (l_version l)) (flat_listeners st')
             @ map (\<lambda>(t, l). LocalCallback (ll_cb l) gone True) (local_listeners st')) s))"

definition expireStorage :: "store_env \<Rightarrow> hash \<Rightarrow> dht_store \<Rightarrow> dht_store outcome" where
  "expireStorage e h s = (case map_of (ds_store s) h of None \<Rightarrow> Ret s | Some st \<Rightarrow> expireStore_at e h st s)"

text \<open>The loop over the table, one key after the other; a storage left empty is erased.\<close>

definition expire_key :: "store_env \<Rightarrow> hash \<Rightarrow> dht_store \<Rightarrow> dht_store outcome" where
  "expire_key e h s = bind_outcome (expireStorage e h s) (\<lambda>s. Ret (case map_of (ds_store s) h of
        None \<Rightarrow> s
      | Some st \<Rightarrow> if storage_empty st \<and> st_listeners st = [] \<and> local_listeners st = []
                   then s\<lparr>ds_store := map_erase h (ds_store s)\<rparr> else s))"

fun expire_keys :: "store_env \<Rightarrow> hash list \<Rightarrow> dht_store \<Rightarrow> dht_store outcome" where
  "expire_keys e [] s = Ret s"
| "expire_keys e (h # hs) s = bind_outcome (expire_key e h s) (expire_keys e hs)"

definition bucket_size :: "dht_store \<Rightarrow> nat \<Rightarrow> uint64" where
  "bucket_size s b = (case ds_buckets s b of None \<Rightarrow> 0 | Some x \<Rightarrow> totalSize x)"

text \<open>
  \<open>auto it = ++largest\<close> also moves \<open>largest\<close>: the first entry is never looked at, and with a single entry
  \<open>largest\<close> is the end iterator, which must not be read.
\<close>

definition largest_quota :: "dht_store \<Rightarrow> nat option" where
  "largest_quota s = (case map snd (store_quota s) of
        [] \<Rightarrow> None
      | [_] \<Rightarrow> None
      | _ # b # bs \<Rightarrow> Some (foldl (\<lambda>l it. if bucket_size s it > bucket_size s l then it else l) b bs))"

partial_function (option) discard_oldest :: "nat \<Rightarrow> dht_store \<Rightarrow> dht_store outcome option" where
  "discard_oldest b s =
     (case ds_buckets s b of
        None \<Rightarrow> Some Undef
      | Some bk \<Rightarrow> (case getOldest bk of
          None \<Rightarrow> Some Undef
        | Some (h, vid) \<Rightarrow> (case map_of (ds_store s) h of
            None \<Rightarrow> discard_oldest b s
          | Some st \<Rightarrow> (case storage_remove h vid st (ds_buckets s) of
              Ret r \<Rightarrow>
                (let s' = add_diff (fst r) (put_storage h (fst (snd r)) (s\<lparr>ds_buckets := snd (snd r)\<rparr>))
                 in if values_diff (fst r) \<noteq> 0 then Some (Ret s') else discard_oldest b s')
            | Throw \<Rightarrow> Some Throw | Terminate \<Rightarrow> Some Terminate | Undef \<Rightarrow> Some Undef))))"

partial_function (option) evict :: "dht_store \<Rightarrow> dht_store outcome option" where
  "evict s =
     (if total_store_size s > max_store_size s then
        (if store_quota s = [] then Some (Ret s)
         else case largest_quota s of
             None \<Rightarrow> Some Undef
           | Some b \<Rightarrow> (case discard_oldest b s of
               None \<Rightarrow> None
             | Some r \<Rightarrow> (case r of
                 Ret s' \<Rightarrow> evict s'
               | Throw \<Rightarrow> Some Throw | Terminate \<Rightarrow> Some Terminate | Undef \<Rightarrow> Some Undef)))
      else Some (Ret s))"

definition drop_quotas :: "dht_store \<Rightarrow> dht_store" where
  "drop_quotas s =
     s\<lparr>store_quota := filter (\<lambda>(k, b). bucket_size s b \<noteq> 0) (store_quota s),
       ds_buckets := ds_buckets s |` (- snd ` set (filter (\<lambda>(k, b). bucket_size s b = 0) (store_quota s)))\<rparr>"

fun bind_loop :: "'a outcome option \<Rightarrow> ('a \<Rightarrow> 'b outcome option) \<Rightarrow> 'b outcome option" where
  "bind_loop None f = None"
| "bind_loop (Some (Ret x)) f = f x"
| "bind_loop (Some Throw) f = Some Throw"
| "bind_loop (Some Terminate) f = Some Terminate"
| "bind_loop (Some Undef) f = Some Undef"

definition expireStore :: "store_env \<Rightarrow> dht_store \<Rightarrow> dht_store outcome option" where
  "expireStore e s =
     bind_loop (Some (expire_keys e (map fst (ds_store s)) s)) (\<lambda>s. bind_loop (evict s) (\<lambda>s. Some (Ret (drop_quotas s))))"

section \<open>Storing and looking up\<close>

definition getLocal :: "hash \<Rightarrow> value_filter \<Rightarrow> dht_store \<Rightarrow> dht_value list" where
  "getLocal h f s = (case map_of (ds_store s) h of None \<Rightarrow> [] | Some st \<Rightarrow> storage_get f st)"

definition getLocalById :: "hash \<Rightarrow> value_id \<Rightarrow> dht_store \<Rightarrow> dht_value option" where
  "getLocalById h vid s = (case map_of (ds_store s) h of None \<Rightarrow> None | Some st \<Rightarrow> getById vid st)"

text \<open>\<open>&store_quota[sa]\<close> makes an entry for a new address; an unset address has no quota.\<close>

definition quota_bucket :: "sock_addr \<Rightarrow> dht_store \<Rightarrow> nat option \<times> dht_store" where
  "quota_bucket sa s =
     (if sa = [] then (None, s)
      else case map_of (store_quota s) (quota_key sa) of
        Some b \<Rightarrow> (Some b, s)
      | None \<Rightarrow> let b = ds_next_bucket s
                in (Some b, s\<lparr>store_quota := map_put (quota_key sa) b (store_quota s),
                     ds_buckets := (ds_buckets s)(b \<mapsto> empty_bucket), ds_next_bucket := b + 1\<rparr>))"

text \<open>The table with an entry for the key, as \<open>storageStore\<close> makes it.\<close>

definition with_key :: "hash \<Rightarrow> dht_store \<Rightarrow> dht_store" where
  "with_key h s = (if map_of (ds_store s) h = None then
      let s' = put_storage h (new_storage (ds_time s)) s
      in if maintain_storage s' then add_job (ds_time s) (DataPersistence h) s' else s'
    else s)"

text \<open>
  The last part of \<open>storageStore\<close>, once the value is in its slot. After the eviction the code reads the storage and
  the slot of the vector through the iterator and the pointer it had before: if the storage was erased, or
  the vector is now shorter, this has no meaning.
\<close>

definition after_store :: "store_env \<Rightarrow> hash \<Rightarrow> nat \<Rightarrow> bool \<Rightarrow> dht_store \<Rightarrow> (bool \<times> dht_store) outcome option" where
  "after_store e h k new s =
     bind_loop (if total_store_size s > max_store_size s then expireStore e s else Some (Ret s)) (\<lambda>s.
       case map_of (ds_store s) h of
         None \<Rightarrow> Some Undef
       | Some st \<Rightarrow>
         if k < length (st_values st) then Some (Ret (True, storageChanged e h st (vs_data (st_values st ! k)) new s))
         else Some Undef)"

definition storageStore :: "store_env \<Rightarrow> hash \<Rightarrow> dht_value \<Rightarrow> time_point \<Rightarrow> sock_addr \<Rightarrow> bool \<Rightarrow> dht_store
    \<Rightarrow> (bool \<times> dht_store) outcome option" where
  "storageStore e h v created sa permanent s =
     (let created = min created (ds_time s);
          ex = (if permanent then time_max else created + vt_expiration (getType (e_types e) (v_type v)))
      in if ex < ds_time s \<or> map_of (ds_store s) h = None \<and> length (ds_store s) \<ge> unat (max_store_keys s) then Some (Ret (False, s))
         else
           let s1 = with_key h s;
               st = the (map_of (ds_store s1) h);
               sb = fst (quota_bucket sa s1);
               s2 = snd (quota_bucket sa s1)
           in bind_loop (Some (store h v created ex sb st (ds_buckets s2))) (\<lambda>((res, d), st', q).
             let s3 = put_storage h st' (s2\<lparr>ds_buckets := q\<rparr>)
             in case res of
                  None \<Rightarrow> Some (Ret (False, s3))
                | Some k \<Rightarrow> after_store e h k (values_diff d > 0)
                    (if permanent then add_diff d s3 else add_job ex (ExpireStorage h) (add_diff d s3))))"

definition storageErase :: "hash \<Rightarrow> value_id \<Rightarrow> dht_store \<Rightarrow> (bool \<times> dht_store) outcome" where
  "storageErase h vid s = (case map_of (ds_store s) h of
        None \<Rightarrow> Ret (False, s)
      | Some st \<Rightarrow> bind_outcome (storage_remove h vid st (ds_buckets s)) (\<lambda>(d, st', q).
          Ret (values_diff d \<noteq> 0, add_diff d (put_storage h st' (s\<lparr>ds_buckets := q\<rparr>)))))"

definition storageRefresh :: "store_env \<Rightarrow> hash \<Rightarrow> value_id \<Rightarrow> dht_store \<Rightarrow> bool \<times> dht_store" where
  "storageRefresh e h vid s = (case map_of (ds_store s) h of
        None \<Rightarrow> (False, s)
      | Some st \<Rightarrow>
        let s = emit (map (\<lambda>(n, sid, l). TellListenerRefreshed n sid h (node_token e n s) [vid] (l_version l)) (flat_listeners st)) s;
            (ex, st') = storage_refresh (ds_time s) vid (e_types e) st;
            s = put_storage h st' s
        in (True, if ex \<noteq> time_max then add_job ex (ExpireStorage h) s else s))"

section \<open>Maintenance\<close>

text \<open>One address family: whether the node still wants the key, and the announces made.\<close>

definition maintain :: "store_env \<Rightarrow> bool \<Rightarrow> hash \<Rightarrow> storage \<Rightarrow> nat \<Rightarrow> time_point \<Rightarrow> bool \<times> store_event list" where
  "maintain e force h st af t =
     (let nodes = e_near e af h 8 in
      if nodes \<noteq> [] \<and> (force \<or> xorCmp h (e_nid e (last nodes)) (e_myid e) < 0) then
        (False, map (\<lambda>v. Announce h af (vs_data v) (vs_created v))
           (filter (\<lambda>v. force \<or> vs_created v + vt_expiration (getType (e_types e) (v_type (vs_data v))) > t + MAX_STORAGE_MAINTENANCE_EXPIRE_TIME)
              (st_values st)))
      else (True, []))"

definition maintainStorage :: "store_env \<Rightarrow> bool \<Rightarrow> hash \<Rightarrow> storage \<Rightarrow> dht_store \<Rightarrow> nat \<times> dht_store" where
  "maintainStorage e force h st s =
     (let (want4, out4) = maintain e force h st AF_INET (ds_time s);
          (want6, out6) = maintain e force h st AF_INET6 (ds_time s);
          s = emit (out4 @ out6) s
      in (length out4 + length out6,
          if \<not> want4 \<and> \<not> want6 then
            let (d, st') = storage_clear st in add_diff d (put_storage h st' s)
          else s))"

definition dataPersistence :: "store_env \<Rightarrow> hash \<Rightarrow> dht_store \<Rightarrow> dht_store" where
  "dataPersistence e h s = (case map_of (ds_store s) h of
        None \<Rightarrow> s
      | Some st \<Rightarrow>
        if ds_time s > maintenance_time st then
          let s = snd (maintainStorage e False h st s);
              mt = ds_time s + MAX_STORAGE_MAINTENANCE_EXPIRE_TIME
          in add_job mt (DataPersistence h) (case map_of (ds_store s) h of
               None \<Rightarrow> s | Some st \<Rightarrow> put_storage h (st\<lparr>maintenance_time := mt\<rparr>) s)
        else s)"

section \<open>Local operations\<close>

text \<open>
  \<open>listen\<close>: \<open>keep\<close> is what the callback answers to the values shown at once; \<open>l4\<close> and \<open>l6\<close> are what \<open>listenTo\<close> gives for
  the two families, a token that is 0 if the family is not running, or an exception.
\<close>

definition listen_local :: "hash \<Rightarrow> nat \<Rightarrow> (dht_value list \<Rightarrow> bool) \<Rightarrow> value_filter \<Rightarrow> query \<Rightarrow> dht_store \<Rightarrow> uint64 \<times> dht_store" where
  "listen_local h cb keep flt q s =
     (let s = (if map_of (ds_store s) h = None \<and> length (ds_store s) < unat (max_store_keys s)
               then put_storage h (new_storage (ds_time s + MAX_STORAGE_MAINTENANCE_EXPIRE_TIME)) s else s)
      in case map_of (ds_store s) h of
           None \<Rightarrow> (0, s)
         | Some st \<Rightarrow> let r = storage_listen cb keep flt (Some q) st in (fst r, put_storage h (snd r) s))"

definition listen_end :: "hash \<Rightarrow> uint64 \<Rightarrow> uint64 \<Rightarrow> uint64 \<Rightarrow> uint64 \<Rightarrow> dht_store \<Rightarrow> uint64 outcome \<times> dht_store" where
  "listen_end h token tokenlocal token4 token6 s =
     (case (map_of (ds_store s) h, token6 = 0) of
        (Some st, True) \<Rightarrow> (Ret 0, put_storage h (storage_cancelListen tokenlocal st) s)
      | _ \<Rightarrow> (Ret token, s\<lparr>ds_listeners := snd (map_emplace token (tokenlocal, token4, token6) (ds_listeners s))\<rparr>))"

definition dht_listen :: "hash \<Rightarrow> nat \<Rightarrow> (dht_value list \<Rightarrow> bool) \<Rightarrow> value_filter \<Rightarrow> field_value list \<Rightarrow> uint64 outcome \<Rightarrow> uint64 outcome
    \<Rightarrow> dht_store \<Rightarrow> uint64 outcome \<times> dht_store" where
  "dht_listen h cb keep f w l4 l6 s =
     (let token = ds_listener_token s + 1;
          q = \<lparr>q_select = [], q_where = w, q_none = False\<rparr>;
          r = listen_local h cb keep (chain f (getFilter w)) q (s\<lparr>ds_listener_token := token\<rparr>);
          tokenlocal = fst r; s = snd r
      in if map_of (ds_store s) h \<noteq> None \<and> tokenlocal = 0 then (Ret 0, s)
         else and_then (l4, s) (\<lambda>token4 s. and_then (if token4 = 0 then Ret 0 else l6, s) (\<lambda>token6 s.
                listen_end h token tokenlocal token4 token6 s)))"

text \<open>Cancelling in the searches of the two families is not part of the store.\<close>

definition dht_cancelListen :: "hash \<Rightarrow> uint64 \<Rightarrow> dht_store \<Rightarrow> bool \<times> dht_store" where
  "dht_cancelListen h token s = (case map_of (ds_listeners s) token of
        None \<Rightarrow> (False, s)
      | Some (tokenlocal, _, _) \<Rightarrow>
        let s = (if tokenlocal \<noteq> 0 then
                   (case map_of (ds_store s) h of None \<Rightarrow> s | Some st \<Rightarrow> put_storage h (storage_cancelListen tokenlocal st) s)
                 else s)
        in (True, s\<lparr>ds_listeners := map_erase token (ds_listeners s)\<rparr>))"

text \<open>\<open>r\<close> is the identifier drawn for a value that has none.\<close>

definition dht_put :: "store_env \<Rightarrow> hash \<Rightarrow> dht_value option \<Rightarrow> uint64 \<Rightarrow> time_point \<Rightarrow> bool \<Rightarrow> dht_store \<Rightarrow> dht_store outcome option" where
  "dht_put e h vo r created permanent s = (case vo of
        None \<Rightarrow> Some (Ret s)
      | Some v \<Rightarrow>
        let v = (if v_id v = INVALID_ID then v\<lparr>v_id := r\<rparr> else v);
            created = min (ds_time s) created
        in bind_loop (storageStore e h v created [] permanent s) (\<lambda>(_, s).
             Some (Ret (emit [Announce h AF_INET v created, Announce h AF_INET6 v created] s))))"

section \<open>Request handlers\<close>

type_synonym proto_error = "nat \<times> string"

fun announce_values :: "store_env \<Rightarrow> hash \<Rightarrow> nat \<Rightarrow> time_point \<Rightarrow> dht_value list \<Rightarrow> dht_store
    \<Rightarrow> (proto_error option \<times> dht_store) outcome option" where
  "announce_values e h n created [] s = Some (Ret (None, s))"
| "announce_values e h n created (v # vs) s =
     (if v_id v = INVALID_ID then Some (Ret (Some (203, ''PUT_INVALID_ID''), s))
      else case getLocalById h (v_id v) s of
        Some lv \<Rightarrow>
          if value_eq lv v then announce_values e h n created vs (snd (storageRefresh e h (v_id v) s))
          else
            let (ok, vc) = editPolicy (getType (e_types e) (v_type lv)) h lv v (e_nid e n) (e_addr e n)
            in if ok then bind_loop (storageStore e h vc created (e_addr e n) False s) (\<lambda>(_, s). announce_values e h n created vs s)
               else announce_values e h n created vs s
      | None \<Rightarrow>
          let (ok, vc) = storePolicy (getType (e_types e) (v_type v)) h v (e_nid e n) (e_addr e n)
          in if ok then bind_loop (storageStore e h vc created (e_addr e n) False s) (\<lambda>(_, s). announce_values e h n created vs s)
             else announce_values e h n created vs s)"

definition onAnnounce :: "store_env \<Rightarrow> nat \<Rightarrow> hash \<Rightarrow> bytes \<Rightarrow> dht_value list \<Rightarrow> time_point \<Rightarrow> dht_store
    \<Rightarrow> (proto_error option \<times> dht_store) outcome option" where
  "onAnnounce e n h token vs creation_date s =
     (if \<not> hash_bool h then Some (Ret (Some (203, ''PUT_NO_INFOHASH''), s))
      else if \<not> tokenMatch e token (e_addr e n) s then Some (Ret (Some (401, ''PUT_WRONG_TOKEN''), s))
      else
        let closest = e_near e (getFamily (e_addr e n)) h SEARCH_NODES
        in if length closest \<ge> 8 \<and> xorCmp h (e_nid e (last closest)) (e_myid e) < 0 then Some (Ret (None, s))
           else announce_values e h n (min creation_date (ds_time s)) vs s)"

definition onRefresh :: "store_env \<Rightarrow> nat \<Rightarrow> hash \<Rightarrow> bytes \<Rightarrow> value_id \<Rightarrow> dht_store \<Rightarrow> proto_error option \<times> dht_store" where
  "onRefresh e n h token vid s =
     (if \<not> tokenMatch e token (e_addr e n) s then (Some (401, ''PUT_WRONG_TOKEN''), s)
      else case storageRefresh e h vid s of (ok, s) \<Rightarrow>
        if ok then (None, s) else (Some (404, ''STORAGE_NOT_FOUND''), s))"

definition onListen :: "store_env \<Rightarrow> nat \<Rightarrow> hash \<Rightarrow> bytes \<Rightarrow> nat \<Rightarrow> query \<Rightarrow> nat \<Rightarrow> dht_store \<Rightarrow> proto_error option \<times> dht_store" where
  "onListen e n h token sid q version s =
     (if \<not> hash_bool h then (Some (203, ''LISTEN_NO_INFOHASH''), s)
      else if \<not> tokenMatch e token (e_addr e n) s then (Some (401, ''LISTEN_WRONG_TOKEN''), s)
      else (None, storageAddListener e h n sid q version s))"

end
