(* ===== verification/Dht_Store_Inv.thy ===== *)
theory Dht_Store_Inv
  imports Dht_Store "HOL-Library.Sublist"
begin

text \<open>
  The store of a node keeps exact totals: each operation of \<open>Dht_Store\<close> that returns keeps the accounting
  invariant, the limits and the logs, and so does every sequence of operations (an event machine).
\<close>

section \<open>The accounting invariant\<close>

definition sum_over :: "(storage \<Rightarrow> nat) \<Rightarrow> (hash \<times> storage) list \<Rightarrow> nat" where
  "sum_over f m = sum_list (map (\<lambda>(h, st). f st) m)"

definition store_ok :: "dht_store \<Rightarrow> bool" where
  "store_ok s \<longleftrightarrow> map_sorted (ds_store s) \<and> list_all (\<lambda>(h, st). storage_ok st) (ds_store s)
     \<and> total_values s = of_nat (sum_over valueCount (ds_store s))
     \<and> total_store_size s = of_nat (sum_over stored_size (ds_store s))
     \<and> length (ds_store s) \<le> unat (max_store_keys s)"

lemma store_ok_storage: "store_ok s \<Longrightarrow> map_of (ds_store s) h = Some st \<Longrightarrow> storage_ok st"
  by (auto simp: store_ok_def list_all_iff dest: map_of_SomeD)

lemma sum_over_put:
  "map_sorted m \<Longrightarrow> int (sum_over f (map_put h st m)) =
     int (sum_over f m) + int (f st) - (case map_of m h of None \<Rightarrow> 0 | Some old \<Rightarrow> int (f old))"
proof (induction h st m rule: map_put.induct)
  case (2 h st h' st' m)
  have "map_of m h = None" if "h < h'"
    using 2(2) that by (force simp: map_sorted_Cons map_of_eq_None_iff)
  with 2 show ?case by (auto simp: sum_over_def map_sorted_Cons split: option.splits)
qed (simp add: sum_over_def)

lemma length_map_put: "map_sorted m \<Longrightarrow> length (map_put h st m) = length m + (case map_of m h of None \<Rightarrow> 1 | Some _ \<Rightarrow> 0)"
proof (induction h st m rule: map_put.induct)
  case (2 h st h' st' m)
  have "map_of m h = None" if "h < h'"
    using 2(2) that by (force simp: map_sorted_Cons map_of_eq_None_iff)
  with 2 show ?case by (auto simp: map_sorted_Cons split: option.splits)
qed simp

lemma sum_over_erase:
  "map_sorted m \<Longrightarrow> map_of m h = Some st \<Longrightarrow> int (sum_over f (map_erase h m)) = int (sum_over f m) - int (f st)"
proof (induction m)
  case (Cons e m)
  obtain h' st' where e: "e = (h', st')" by (cases e)
  have "map_erase h m = m" if "h = h'"
    using Cons.prems(1) that by (auto simp: map_erase_def e map_sorted_Cons filter_id_conv)
  with Cons show ?case by (auto simp: e map_erase_def sum_over_def map_sorted_Cons split: if_splits)
qed simp

lemma list_all_map_put: "list_all (\<lambda>(h, st). P st) m \<Longrightarrow> P st \<Longrightarrow> list_all (\<lambda>(h, st). P st) (map_put h st m)"
  by (induction h st m rule: map_put.induct) auto

text \<open>The changes that an operation reports, modulo the width of the totals.\<close>

definition accounts64 :: "storage \<Rightarrow> store_diff \<Rightarrow> storage \<Rightarrow> bool" where
  "accounts64 st d st' \<longleftrightarrow> (of_nat (stored_size st') :: uint64) = of_nat (stored_size st) + of_int (size_diff d)
     \<and> (of_nat (valueCount st') :: uint64) = of_nat (valueCount st) + of_int (values_diff d)"

lemma accounts_64: "accounts st d st' \<Longrightarrow> accounts64 st d st'"
  using of_int_size [of "stored_size st'" "stored_size st" "size_diff d"] of_int_size [of "valueCount st'" "valueCount st" "values_diff d"]
  by (simp add: accounts_def accounts64_def)

lemma clear_64: "storage_ok st \<Longrightarrow> storage_clear st = (d, st') \<Longrightarrow> storage_ok st' \<and> accounts64 st d st'"
  by (auto simp: storage_clear_def storage_defs accounts64_def no_diff_def MAX_VALUES_def)

lemma same_values_64:
  "storage_ok st \<Longrightarrow> st_values st' = st_values st \<Longrightarrow> total_size st' = total_size st \<Longrightarrow> storage_ok st' \<and> accounts64 st no_diff st'"
  by (auto simp: storage_defs accounts64_def no_diff_def)

text \<open>
  What every operation keeps: the invariant, the limits, and the two logs, which only grow. Operations
  that touch neither table nor totals keep it by simplification.
\<close>

definition sound :: "dht_store \<Rightarrow> dht_store \<Rightarrow> bool" where
  "sound s s' \<longleftrightarrow> (store_ok s \<longrightarrow> store_ok s') \<and> max_store_keys s' = max_store_keys s \<and> max_store_size s' = max_store_size s
     \<and> prefix (ds_out s) (ds_out s') \<and> prefix (ds_jobs s) (ds_jobs s')"

lemma sound_refl [simp]: "sound s s"
  by (simp add: sound_def)

lemma sound_trans: "sound s s1 \<Longrightarrow> sound s1 s2 \<Longrightarrow> sound s s2"
  by (auto simp: sound_def)

lemma sound_frame [intro]:
  "ds_store s' = ds_store s \<Longrightarrow> total_values s' = total_values s \<Longrightarrow> total_store_size s' = total_store_size s
    \<Longrightarrow> max_store_keys s' = max_store_keys s \<Longrightarrow> max_store_size s' = max_store_size s
    \<Longrightarrow> prefix (ds_out s) (ds_out s') \<Longrightarrow> prefix (ds_jobs s) (ds_jobs s') \<Longrightarrow> sound s s'"
  by (simp add: sound_def store_ok_def)

lemma sound_emit [simp]: "sound s (emit es s)" and sound_add_job [simp]: "sound s (add_job t j s)"
  by (auto simp: emit_def add_job_def)

lemma word_sum_put:
  assumes "map_sorted m"
  shows "(of_nat (sum_over f (map_put h st m)) :: uint64) =
    of_nat (sum_over f m) + of_nat (f st) - (case map_of m h of None \<Rightarrow> 0 | Some old \<Rightarrow> of_nat (f old))"
proof -
  have "of_int (int (sum_over f (map_put h st m))) =
      (of_int (int (sum_over f m) + int (f st) - (case map_of m h of None \<Rightarrow> 0 | Some old \<Rightarrow> int (f old))) :: uint64)"
    by (simp only: sum_over_put [OF assms])
  then show ?thesis by (simp split: option.splits)
qed

lemma store_ok_put:
  assumes "store_ok s" and "map_of (ds_store s) h = Some st" and "storage_ok st'" and "accounts64 st d st'"
  shows "store_ok (add_diff d (put_storage h st' s))"
  using assms word_sum_put [of "ds_store s" _ h st'] length_map_put [of "ds_store s" h st']
  by (auto simp: store_ok_def add_diff_def put_storage_def accounts64_def list_all_map_put)

lemma sound_put:
  assumes "map_of (ds_store s) h = Some st" and "storage_ok st \<Longrightarrow> storage_ok st' \<and> accounts64 st d st'"
    and "ds_store s' = ds_store s" "total_values s' = total_values s" "total_store_size s' = total_store_size s"
      "max_store_keys s' = max_store_keys s" "max_store_size s' = max_store_size s" "ds_out s' = ds_out s" "ds_jobs s' = ds_jobs s"
  shows "sound s (add_diff d (put_storage h st' s'))"
proof -
  have "store_ok s \<longrightarrow> store_ok (add_diff d (put_storage h st' s'))"
  proof
    assume "store_ok s"
    moreover from this have "store_ok s'" using assms(3-) by (simp add: store_ok_def)
    ultimately show "store_ok (add_diff d (put_storage h st' s'))"
      using assms(1-3) store_ok_storage store_ok_put [of s' h st st' d] by simp
  qed
  then show ?thesis using assms by (simp add: sound_def add_diff_def put_storage_def)
qed

lemma add_diff_none [simp]: "add_diff no_diff s = s"
  by (simp add: add_diff_def no_diff_def)

lemma sound_put_same:
  "map_of (ds_store s) h = Some st \<Longrightarrow> st_values st' = st_values st \<Longrightarrow> total_size st' = total_size st \<Longrightarrow> sound s (put_storage h st' s)"
  using sound_put [of s h st st' no_diff s] same_values_64 by simp

lemma sound_put_new:
  assumes "map_of (ds_store s) h = None" and "length (ds_store s) < unat (max_store_keys s)"
    and "st_values st = []" and "total_size st = 0"
  shows "sound s (put_storage h st s)"
proof -
  have "storage_ok st" "stored_size st = 0" "valueCount st = 0" using assms(3,4) by (simp_all add: storage_defs MAX_VALUES_def)
  then have "store_ok s \<longrightarrow> store_ok (put_storage h st s)"
    using assms(1,2) word_sum_put [of "ds_store s" _ h st] length_map_put [of "ds_store s" h st]
    by (auto simp: store_ok_def put_storage_def list_all_map_put)
  then show ?thesis by (simp add: sound_def put_storage_def)
qed

lemma bind_loop_Ret: "bind_loop m f = Some (Ret y) \<longleftrightarrow> (\<exists>x. m = Some (Ret x) \<and> f x = Some (Ret y))"
  by (induction m f rule: bind_loop.induct) auto

section \<open>Every operation is sound\<close>

lemma expireStore_at_sound:
  assumes "map_of (ds_store s) h = Some st" and "expireStore_at e h st s = Ret s'"
  shows "sound s s'"
proof -
  obtain d gone st' q where r: "storage_expire h (ds_time s) st (ds_buckets s) = Ret ((d, gone), st', q)"
    using assms(2) by (auto simp: expireStore_at_def bind_outcome_Ret)
  let ?d = "no_diff\<lparr>size_diff := d, values_diff := - int (length gone)\<rparr>"
  let ?s = "add_diff ?d (put_storage h st' (s\<lparr>ds_buckets := q\<rparr>))"
  have "sound s ?s"
    using assms(1) storage_expire_keeps [OF _ r] accounts_64 by (intro sound_put [of s h st]) auto
  moreover have "sound ?s s'" using assms(2) r by (auto simp: expireStore_at_def Let_def split: if_splits)
  ultimately show ?thesis by (rule sound_trans)
qed

lemma expireStorage_sound: "expireStorage e h s = Ret s' \<Longrightarrow> sound s s'"
  by (auto simp: expireStorage_def expireStore_at_sound split: option.splits)

lemma sound_erase_empty:
  assumes "map_of (ds_store s) h = Some st" and "storage_empty st"
  shows "sound s (s\<lparr>ds_store := map_erase h (ds_store s)\<rparr>)"
proof -
  have z: "stored_size st = 0" "valueCount st = 0" using assms(2) by (auto simp: storage_empty_def stored_size_def valueCount_def)
  have "sum_over f (map_erase h (ds_store s)) = sum_over f (ds_store s)" if "map_sorted (ds_store s)" "f st = 0" for f
    using sum_over_erase [OF that(1) assms(1), of f] that(2) by simp
  moreover have "length (map_erase h m) \<le> length m" "list_all P m \<Longrightarrow> list_all P (map_erase h m)" for P and m :: "(hash \<times> storage) list"
    by (auto simp: map_erase_def list_all_iff)
  ultimately have "store_ok s \<longrightarrow> store_ok (s\<lparr>ds_store := map_erase h (ds_store s)\<rparr>)"
    using z by (auto simp: store_ok_def intro: order_trans)
  then show ?thesis by (simp add: sound_def)
qed

lemma expire_key_sound:
  assumes "expire_key e h s = Ret s'"
  shows "sound s s'"
proof -
  obtain s1 where s1: "expireStorage e h s = Ret s1" using assms by (auto simp: expire_key_def bind_outcome_Ret)
  have "sound s1 s'"
  proof (cases "map_of (ds_store s1) h")
    case None
    then show ?thesis using assms s1 by (simp add: expire_key_def)
  next
    case (Some st)
    then show ?thesis using assms s1 sound_erase_empty [OF Some] by (auto simp: expire_key_def split: if_splits)
  qed
  with expireStorage_sound [OF s1] show ?thesis by (rule sound_trans)
qed

lemma expire_keys_sound: "expire_keys e hs s = Ret s' \<Longrightarrow> sound s s'"
proof (induction hs arbitrary: s)
  case (Cons h hs)
  then obtain s1 where "expire_key e h s = Ret s1" "expire_keys e hs s1 = Ret s'" by (auto simp: bind_outcome_Ret)
  then show ?case by (intro sound_trans [OF expire_key_sound Cons.IH])
qed simp

lemma remove_sound:
  assumes "map_of (ds_store s) h = Some st" and r: "storage_remove h vid st (ds_buckets s) = Ret (d, st', q)"
  shows "sound s (add_diff d (put_storage h st' (s\<lparr>ds_buckets := q\<rparr>)))"
  using assms(1) storage_remove_keeps [OF _ r] accounts_64 by (intro sound_put [of s h st]) auto

lemma discard_oldest_sound: "discard_oldest b s = Some r \<Longrightarrow> \<forall>s'. r = Ret s' \<longrightarrow> sound s s'"
proof (erule discard_oldest.raw_induct [rotated], intro allI impI)
  fix rec b s r s'
  assume IH: "\<And>b s r. rec b s = Some r \<Longrightarrow> \<forall>s'. r = Ret s' \<longrightarrow> sound s s'"
    and body: "(case ds_buckets s b of None \<Rightarrow> Some Undef
      | Some bk \<Rightarrow> (case getOldest bk of None \<Rightarrow> Some Undef
        | Some (h, vid) \<Rightarrow> (case map_of (ds_store s) h of None \<Rightarrow> rec b s
          | Some st \<Rightarrow> (case storage_remove h vid st (ds_buckets s) of
              Ret r \<Rightarrow> (let s' = add_diff (fst r) (put_storage h (fst (snd r)) (s\<lparr>ds_buckets := snd (snd r)\<rparr>))
                 in if values_diff (fst r) \<noteq> 0 then Some (Ret s') else rec b s')
            | Throw \<Rightarrow> Some Throw | Terminate \<Rightarrow> Some Terminate | Undef \<Rightarrow> Some Undef)))) = Some r"
    and r: "r = Ret s'"
  obtain bk h vid where bk: "ds_buckets s b = Some bk" "getOldest bk = Some (h, vid)"
    using body r by (auto split: option.splits)
  show "sound s s'"
  proof (cases "map_of (ds_store s) h")
    case None
    then show ?thesis using IH body bk r by auto
  next
    case (Some st)
    obtain d st' q where rm: "storage_remove h vid st (ds_buckets s) = Ret (d, st', q)"
      using body bk Some r by (auto split: outcome.splits)
    let ?s = "add_diff d (put_storage h st' (s\<lparr>ds_buckets := q\<rparr>))"
    have "sound s ?s" by (rule remove_sound [OF Some rm])
    moreover have "sound ?s s'" using IH body bk Some rm r by (auto simp: Let_def split: if_splits)
    ultimately show ?thesis by (rule sound_trans)
  qed
qed

lemma evict_sound: "evict s = Some r \<Longrightarrow> \<forall>s'. r = Ret s' \<longrightarrow>
    sound s s' \<and> (total_store_size s' \<le> max_store_size s' \<or> store_quota s' = [])"
proof (erule evict.raw_induct [rotated], intro allI impI)
  fix rec s r s'
  assume IH: "\<And>s r. rec s = Some r \<Longrightarrow> \<forall>s'. r = Ret s' \<longrightarrow> sound s s' \<and> (total_store_size s' \<le> max_store_size s' \<or> store_quota s' = [])"
    and body: "(if total_store_size s > max_store_size s then
        (if store_quota s = [] then Some (Ret s)
         else case largest_quota s of None \<Rightarrow> Some Undef
           | Some b \<Rightarrow> (case discard_oldest b s of None \<Rightarrow> None
             | Some r \<Rightarrow> (case r of Ret s' \<Rightarrow> rec s' | Throw \<Rightarrow> Some Throw | Terminate \<Rightarrow> Some Terminate | Undef \<Rightarrow> Some Undef)))
      else Some (Ret s)) = Some r"
    and r: "r = Ret s'"
  show "sound s s' \<and> (total_store_size s' \<le> max_store_size s' \<or> store_quota s' = [])"
  proof (cases "total_store_size s > max_store_size s \<and> store_quota s \<noteq> []")
    case False
    then show ?thesis using body r by (auto split: if_splits simp: not_less)
  next
    case True
    then obtain b s1 where d: "discard_oldest b s = Some (Ret s1)" "rec s1 = Some r"
      using body r by (auto split: if_splits option.splits outcome.splits)
    have "sound s s1" using discard_oldest_sound [OF d(1)] by simp
    then show ?thesis using IH [OF d(2)] r by (auto intro: sound_trans)
  qed
qed

lemma drop_quotas_sound [simp]: "sound s (drop_quotas s)"
  by (auto simp: drop_quotas_def)

lemma expireStore_sound:
  assumes "expireStore e s = Some (Ret s')"
  shows "sound s s'"
proof -
  obtain s1 s2 where r: "expire_keys e (map fst (ds_store s)) s = Ret s1" "evict s1 = Some (Ret s2)" "s' = drop_quotas s2"
    using assms by (auto simp: expireStore_def bind_loop_Ret)
  have "sound s s1" by (rule expire_keys_sound [OF r(1)])
  moreover have "sound s1 s2" using evict_sound [OF r(2)] by simp
  ultimately have "sound s s2" by (rule sound_trans)
  then show ?thesis unfolding r(3) by (rule sound_trans) simp
qed

lemma storageErase_sound:
  assumes "storageErase h vid s = Ret (ok, s')"
  shows "sound s s'"
proof (cases "map_of (ds_store s) h")
  case None
  then show ?thesis using assms by (simp add: storageErase_def)
next
  case (Some st)
  then obtain d st' q where r: "storage_remove h vid st (ds_buckets s) = Ret (d, st', q)"
    and s': "s' = add_diff d (put_storage h st' (s\<lparr>ds_buckets := q\<rparr>))"
    using assms by (auto simp: storageErase_def bind_outcome_Ret)
  show ?thesis unfolding s' by (rule remove_sound [OF Some r])
qed

lemma storageRefresh_sound: "sound s (snd (storageRefresh e h vid s))"
proof (cases "map_of (ds_store s) h")
  case None
  then show ?thesis by (simp add: storageRefresh_def)
next
  case (Some st)
  let ?s = "emit (map (\<lambda>(n, sid, l). TellListenerRefreshed n sid h (node_token e n s) [vid] (l_version l)) (flat_listeners st)) s"
  obtain ex st' where r: "storage_refresh (ds_time s) vid (e_types e) st = (ex, st')" by fastforce
  have em: "ds_store ?s = ds_store s" "ds_time ?s = ds_time s" by (simp_all add: emit_def)
  have "sound ?s (add_diff no_diff (put_storage h st' ?s))"
    using Some em storage_refresh_keeps [OF _ r] accounts_64 by (intro sound_put [of ?s h st]) auto
  then have p: "sound s (put_storage h st' ?s)" using sound_trans [OF sound_emit] by simp
  then have "sound s (add_job ex (ExpireStorage h) (put_storage h st' ?s))" by (rule sound_trans) simp
  then show ?thesis using Some r em p by (simp add: storageRefresh_def Let_def)
qed

lemma storageAddListener_sound: "sound s (storageAddListener e h n sid q version s)"
proof (cases "map_of (ds_store s) h = None \<and> length (ds_store s) \<ge> unat (max_store_keys s)")
  case True
  then show ?thesis by (simp add: storageAddListener_def)
next
  case False
  define st where "st = (case map_of (ds_store s) h of Some st \<Rightarrow> st | None \<Rightarrow> new_storage (ds_time s))"
  have put: "sound s1 (put_storage h (st\<lparr>st_listeners := ls\<rparr>) s1)" if "ds_store s1 = ds_store s" "max_store_keys s1 = max_store_keys s" for s1 ls
  proof (cases "map_of (ds_store s) h")
    case None
    then show ?thesis using False that by (intro sound_put_new) (auto simp: st_def new_storage_def)
  next
    case (Some st')
    then show ?thesis using that by (intro sound_put_same [of s1 h st']) (auto simp: st_def)
  qed
  have "\<exists>s1 ls. (s1 = s \<or> (\<exists>es. s1 = emit es s)) \<and> storageAddListener e h n sid q version s = put_storage h (st\<lparr>st_listeners := ls\<rparr>) s1"
    using False by (auto simp: storageAddListener_def Let_def st_def split: option.splits)
  then obtain s1 ls where s1: "s1 = s \<or> (\<exists>es. s1 = emit es s)"
    "storageAddListener e h n sid q version s = put_storage h (st\<lparr>st_listeners := ls\<rparr>) s1" by blast
  have "sound s s1" "ds_store s1 = ds_store s" "max_store_keys s1 = max_store_keys s" using s1(1) by (auto simp: emit_def)
  then show ?thesis unfolding s1(2) by (intro sound_trans [OF _ put]) auto
qed

lemma quota_bucket_frame:
  "ds_store (snd (quota_bucket sa s)) = ds_store s" "total_values (snd (quota_bucket sa s)) = total_values s"
  "total_store_size (snd (quota_bucket sa s)) = total_store_size s" "max_store_keys (snd (quota_bucket sa s)) = max_store_keys s"
  "max_store_size (snd (quota_bucket sa s)) = max_store_size s" "ds_out (snd (quota_bucket sa s)) = ds_out s"
  "ds_jobs (snd (quota_bucket sa s)) = ds_jobs s"
  by (auto simp: quota_bucket_def Let_def split: option.splits)

lemma quota_bucket_sound [simp]: "sound s (snd (quota_bucket sa s))"
  by (rule sound_frame) (simp_all add: quota_bucket_frame)

lemma storageChanged_sound [simp]: "sound s (storageChanged e h st v new s)"
  by (simp add: storageChanged_def Let_def)

lemma with_key_sound:
  assumes "\<not> (map_of (ds_store s) h = None \<and> length (ds_store s) \<ge> unat (max_store_keys s))"
  shows "sound s (with_key h s)"
proof (cases "map_of (ds_store s) h")
  case None
  with assms have p: "sound s (put_storage h (new_storage (ds_time s)) s)"
    by (intro sound_put_new) (auto simp: new_storage_def)
  then have "sound s (add_job (ds_time s) (DataPersistence h) (put_storage h (new_storage (ds_time s)) s))"
    by (rule sound_trans) simp
  then show ?thesis using None p by (simp add: with_key_def Let_def)
qed (simp add: with_key_def)

lemma map_of_map_put_same: "map_of (map_put h st m) h = Some st"
  by (induction h st m rule: map_put.induct) auto

lemma with_key_has: "\<exists>st. map_of (ds_store (with_key h s)) h = Some st"
  by (auto simp: with_key_def Let_def put_storage_def add_job_def map_of_map_put_same)

lemma after_store_sound:
  assumes "after_store e h k new s = Some (Ret (ok, s'))"
  shows "sound s s' \<and> ok"
proof -
  obtain s1 where s1: "(if total_store_size s > max_store_size s then expireStore e s else Some (Ret s)) = Some (Ret s1)"
    and r: "(case map_of (ds_store s1) h of None \<Rightarrow> Some Undef
       | Some st \<Rightarrow> if k < length (st_values st) then Some (Ret (True, storageChanged e h st (vs_data (st_values st ! k)) new s1))
         else Some Undef) = Some (Ret (ok, s'))"
    using assms unfolding after_store_def bind_loop_Ret by blast
  have "sound s s1" using s1 expireStore_sound by (auto split: if_splits)
  moreover have "sound s1 s' \<and> ok" using r by (auto split: option.splits if_splits)
  ultimately show ?thesis using sound_trans by blast
qed

lemma storageStore_sound:
  assumes "storageStore e h v created sa permanent s = Some (Ret (ok, s'))"
  shows "sound s s'"
proof -
  define ex where "ex = (if permanent then time_max else min created (ds_time s) + vt_expiration (getType (e_types e) (v_type v)))"
  define s2 where "s2 = snd (quota_bucket sa (with_key h s))"
  define sb where "sb = fst (quota_bucket sa (with_key h s))"
  define st where "st = the (map_of (ds_store (with_key h s)) h)"
  show ?thesis
  proof (cases "ex < ds_time s \<or> map_of (ds_store s) h = None \<and> length (ds_store s) \<ge> unat (max_store_keys s)")
    case True
    then show ?thesis using assms by (auto simp: storageStore_def ex_def Let_def)
  next
    case False
    have "bind_loop (Some (store h v (min created (ds_time s)) ex sb st (ds_buckets s2))) (\<lambda>((res, d), st', q).
        let s3 = put_storage h st' (s2\<lparr>ds_buckets := q\<rparr>) in case res of None \<Rightarrow> Some (Ret (False, s3))
          | Some k \<Rightarrow> after_store e h k (values_diff d > 0)
              (if permanent then add_diff d s3 else add_job ex (ExpireStorage h) (add_diff d s3))) = Some (Ret (ok, s'))"
      using assms unfolding storageStore_def Let_def ex_def [symmetric] if_not_P [OF False] sb_def s2_def st_def .
    then obtain res d st' q where r: "store h v (min created (ds_time s)) ex sb st (ds_buckets s2) = Ret ((res, d), st', q)"
      and cont: "(let s3 = put_storage h st' (s2\<lparr>ds_buckets := q\<rparr>) in case res of None \<Rightarrow> Some (Ret (False, s3))
          | Some k \<Rightarrow> after_store e h k (values_diff d > 0)
              (if permanent then add_diff d s3 else add_job ex (ExpireStorage h) (add_diff d s3))) = Some (Ret (ok, s'))"
      unfolding bind_loop_Ret by (force simp del: bind_loop.simps)
    have st: "map_of (ds_store s2) h = Some st"
      using with_key_has [of h s] by (auto simp: s2_def st_def quota_bucket_frame)
    let ?s3 = "put_storage h st' (s2\<lparr>ds_buckets := q\<rparr>)"
    have "sound s (with_key h s)" using False by (intro with_key_sound) auto
    then have s2: "sound s s2" unfolding s2_def by (rule sound_trans) simp
    have put: "sound s2 (add_diff d ?s3)"
      using st store_keeps [OF _ r] accounts_64 by (intro sound_put [of s2 h st]) auto
    show ?thesis
    proof (cases res)
      case None
      then have "d = no_diff" using r by (auto simp: store_def Let_def bind_outcome_Ret split: option.splits if_splits)
      then show ?thesis using cont None put s2 by (auto intro: sound_trans)
    next
      case (Some k)
      then have "sound (if permanent then add_diff d ?s3 else add_job ex (ExpireStorage h) (add_diff d ?s3)) s'"
        using cont after_store_sound by auto
      moreover have "sound (add_diff d ?s3) (if permanent then add_diff d ?s3 else add_job ex (ExpireStorage h) (add_diff d ?s3))"
        by simp
      ultimately show ?thesis using s2 put sound_trans by metis
    qed
  qed
qed

lemma maintainStorage_sound:
  assumes "map_of (ds_store s) h = Some st"
  shows "sound s (snd (maintainStorage e force h st s))"
proof -
  obtain want4 out4 want6 out6 where m: "maintain e force h st AF_INET (ds_time s) = (want4, out4)"
    "maintain e force h st AF_INET6 (ds_time s) = (want6, out6)" by fastforce
  obtain d st' where c: "storage_clear st = (d, st')" by fastforce
  let ?s = "emit (out4 @ out6) s"
  have "map_of (ds_store ?s) h = Some st" using assms by (simp add: emit_def)
  then have "sound ?s (add_diff d (put_storage h st' ?s))" using clear_64 [OF _ c] by (intro sound_put) auto
  then have "sound s (add_diff d (put_storage h st' ?s))" using sound_trans [OF sound_emit] by blast
  then show ?thesis by (simp add: maintainStorage_def m c Let_def)
qed

lemma maintainStorage_keeps_key:
  "map_of (ds_store s) h = Some st \<Longrightarrow> \<exists>st'. map_of (ds_store (snd (maintainStorage e force h st s))) h = Some st'"
  by (auto simp: maintainStorage_def Let_def put_storage_def add_diff_def emit_def map_of_map_put_same split: prod.splits)

lemma dataPersistence_sound: "sound s (dataPersistence e h s)"
proof (cases "map_of (ds_store s) h")
  case None
  then show ?thesis by (simp add: dataPersistence_def)
next
  case (Some st)
  let ?s = "snd (maintainStorage e False h st s)"
  obtain st' where st': "map_of (ds_store ?s) h = Some st'" using maintainStorage_keeps_key [OF Some] by blast
  let ?mt = "ds_time ?s + MAX_STORAGE_MAINTENANCE_EXPIRE_TIME"
  have "sound ?s (put_storage h (st'\<lparr>maintenance_time := ?mt\<rparr>) ?s)" using st' by (intro sound_put_same) auto
  with maintainStorage_sound [OF Some] have "sound s (put_storage h (st'\<lparr>maintenance_time := ?mt\<rparr>) ?s)" by (rule sound_trans)
  then have "sound s (add_job ?mt (DataPersistence h) (put_storage h (st'\<lparr>maintenance_time := ?mt\<rparr>) ?s))" by (rule sound_trans) simp
  then show ?thesis using Some st' by (simp add: dataPersistence_def Let_def)
qed

lemma put_listen_sound:
  "map_of (ds_store s) h = Some st \<Longrightarrow> sound s (put_storage h (snd (storage_listen cb keep f q st)) s)"
  "map_of (ds_store s) h = Some st \<Longrightarrow> sound s (put_storage h (storage_cancelListen t st) s)"
  by (rule sound_put_same [of s h st]; simp add: storage_listen_def storage_cancelListen_def Let_def)+

lemma dht_cancelListen_sound: "sound s (snd (dht_cancelListen h token s))"
proof (cases "map_of (ds_listeners s) token")
  case None
  then show ?thesis by (simp add: dht_cancelListen_def)
next
  case (Some p)
  obtain tl t4 t6 where p: "p = (tl, t4, t6)" by (cases p) auto
  let ?s = "if tl \<noteq> 0 then (case map_of (ds_store s) h of None \<Rightarrow> s | Some st \<Rightarrow> put_storage h (storage_cancelListen tl st) s) else s"
  have "sound s ?s" using put_listen_sound(2) by (auto split: option.splits)
  then have "sound s (?s\<lparr>ds_listeners := map_erase token (ds_listeners ?s)\<rparr>)" by (rule sound_trans) auto
  then show ?thesis using Some p by (simp add: dht_cancelListen_def Let_def)
qed

lemma dht_put_sound:
  assumes "dht_put e h vo r created permanent s = Some (Ret s')"
  shows "sound s s'"
proof (cases vo)
  case None
  then show ?thesis using assms by (simp add: dht_put_def)
next
  case (Some v)
  then obtain ok s1 es where "storageStore e h (if v_id v = INVALID_ID then v\<lparr>v_id := r\<rparr> else v) (min (ds_time s) created) [] permanent s = Some (Ret (ok, s1))"
    and s': "s' = emit es s1"
    using assms by (auto simp: dht_put_def Let_def bind_loop_Ret)
  then have "sound s s1" by (intro storageStore_sound)
  then show ?thesis unfolding s' by (rule sound_trans) simp
qed

lemma announce_values_sound:
  "announce_values e h n created vs s = Some (Ret (err, s')) \<Longrightarrow> sound s s'"
proof (induction vs arbitrary: s)
  case Nil
  then show ?case by simp
next
  case (Cons v vs)
  have store: ?case if b: "bind_loop (storageStore e h vc created (e_addr e n) False s) (\<lambda>(_, s). announce_values e h n created vs s) = Some (Ret (err, s'))" for vc
  proof -
    obtain ok s1 where s1: "storageStore e h vc created (e_addr e n) False s = Some (Ret (ok, s1))" "announce_values e h n created vs s1 = Some (Ret (err, s'))"
      using b unfolding bind_loop_Ret by auto
    show ?thesis by (rule sound_trans [OF storageStore_sound [OF s1(1)] Cons.IH [OF s1(2)]])
  qed
  show ?case
  proof (cases "v_id v = INVALID_ID")
    case True
    then show ?thesis using Cons.prems by simp
  next
    case False
    show ?thesis
    proof (cases "getLocalById h (v_id v) s")
      case None
      obtain ok vc where p: "storePolicy (getType (e_types e) (v_type v)) h v (e_nid e n) (e_addr e n) = (ok, vc)" by fastforce
      then show ?thesis using Cons None False store [of vc] by (cases ok) auto
    next
      case (Some lv)
      obtain ok vc where p: "editPolicy (getType (e_types e) (v_type lv)) h lv v (e_nid e n) (e_addr e n) = (ok, vc)" by fastforce
      show ?thesis
      proof (cases "value_eq lv v")
        case True
        then have "announce_values e h n created vs (snd (storageRefresh e h (v_id v) s)) = Some (Ret (err, s'))"
          using Cons.prems Some False by simp
        from sound_trans [OF storageRefresh_sound Cons.IH [OF this]] show ?thesis .
      next
        case ne: False
        then show ?thesis using Cons Some False p store [of vc] by (cases ok) auto
      qed
    qed
  qed
qed

lemma onAnnounce_sound:
  assumes "onAnnounce e n h token vs creation s = Some (Ret (err, s'))"
  shows "sound s s'"
proof -
  have "s' = s \<or> announce_values e h n (min creation (ds_time s)) vs s = Some (Ret (err, s'))"
    using assms unfolding onAnnounce_def Let_def by (simp split: if_splits)
  then show ?thesis using announce_values_sound sound_refl by blast
qed

lemma onRefresh_sound: "sound s (snd (onRefresh e n h token vid s))"
  using storageRefresh_sound [of s e h vid] by (auto simp: onRefresh_def split: prod.splits)

lemma onListen_sound: "sound s (snd (onListen e n h token sid q version s))"
  using storageAddListener_sound by (auto simp: onListen_def)

lemma rotateSecrets_sound: "sound s (rotateSecrets r delay s)"
  unfolding rotateSecrets_def by (rule sound_trans [OF _ sound_add_job]) auto

lemma and_then_sound:
  "(\<And>x. sound s' (snd (f x s'))) \<Longrightarrow> sound s s' \<Longrightarrow> sound s (snd (and_then (m, s') f))"
  by (cases m) (auto intro: sound_trans)

lemma listen_local_sound: "sound s (snd (listen_local h cb keep flt q s))"
proof -
  let ?s = "if map_of (ds_store s) h = None \<and> length (ds_store s) < unat (max_store_keys s)
    then put_storage h (new_storage (ds_time s + MAX_STORAGE_MAINTENANCE_EXPIRE_TIME)) s else s"
  have "sound s ?s" by (auto intro!: sound_put_new simp: new_storage_def)
  moreover have "sound ?s (snd (listen_local h cb keep flt q s))"
    unfolding listen_local_def Let_def by (auto split: option.split intro: put_listen_sound(1))
  ultimately show ?thesis by (rule sound_trans)
qed

lemma listen_end_sound: "sound s (snd (listen_end h token tokenlocal token4 token6 s))"
  by (auto simp: listen_end_def put_listen_sound(2) split: option.split bool.split)

lemma dht_listen_sound: "sound s (snd (dht_listen h cb keep f w l4 l6 s))"
proof -
  let ?s = "snd (listen_local h cb keep (chain f (getFilter w)) \<lparr>q_select = [], q_where = w, q_none = False\<rparr>
    (s\<lparr>ds_listener_token := ds_listener_token s + 1\<rparr>))"
  have "sound s ?s" by (rule sound_trans [OF _ listen_local_sound]) auto
  then show ?thesis unfolding dht_listen_def Let_def
    by (auto intro!: and_then_sound listen_end_sound)
qed

section \<open>Runs of the store\<close>

datatype store_op =
    Op_put hash "dht_value option" uint64 time_point bool
  | Op_announce nat hash bytes "dht_value list" time_point
  | Op_refresh nat hash bytes value_id
  | Op_listen nat hash bytes nat query nat
  | Op_erase hash value_id
  | Op_local_listen hash nat "dht_value list \<Rightarrow> bool" value_filter "field_value list" "uint64 outcome" "uint64 outcome"
  | Op_cancel_listen hash uint64
  | Op_expire_key hash
  | Op_expire
  | Op_persistence hash
  | Op_rotate uint64 int
  | Op_time time_point

text \<open>One call of the store that returns.\<close>

inductive store_step :: "store_env \<Rightarrow> dht_store \<Rightarrow> store_op \<Rightarrow> dht_store \<Rightarrow> bool" for e where
  "dht_put e h vo r c p s = Some (Ret s') \<Longrightarrow> store_step e s (Op_put h vo r c p) s'"
| "onAnnounce e n h tok vs c s = Some (Ret (err, s')) \<Longrightarrow> store_step e s (Op_announce n h tok vs c) s'"
| "store_step e s (Op_refresh n h tok vid) (snd (onRefresh e n h tok vid s))"
| "store_step e s (Op_listen n h tok sid q version) (snd (onListen e n h tok sid q version s))"
| "storageErase h vid s = Ret (ok, s') \<Longrightarrow> store_step e s (Op_erase h vid) s'"
| "store_step e s (Op_local_listen h cb keep f w l4 l6) (snd (dht_listen h cb keep f w l4 l6 s))"
| "store_step e s (Op_cancel_listen h token) (snd (dht_cancelListen h token s))"
| "expireStorage e h s = Ret s' \<Longrightarrow> store_step e s (Op_expire_key h) s'"
| "expireStore e s = Some (Ret s') \<Longrightarrow> store_step e s Op_expire s'"
| "store_step e s (Op_persistence h) (dataPersistence e h s)"
| "store_step e s (Op_rotate r delay) (rotateSecrets r delay s)"
| "store_step e s (Op_time t) (s\<lparr>ds_time := t\<rparr>)"

lemma store_step_sound: "store_step e s op s' \<Longrightarrow> sound s s'"
proof (induction rule: store_step.induct)
qed (auto intro: dht_put_sound onAnnounce_sound onRefresh_sound onListen_sound storageErase_sound dht_listen_sound
    dht_cancelListen_sound expireStorage_sound expireStore_sound dataPersistence_sound rotateSecrets_sound)

interpretation store_machine: event_machine "store_step e" store_ok sound for e
  by unfold_locales (auto simp: sound_def dest!: store_step_sound)

definition empty_store :: "uint64 \<Rightarrow> uint64 \<Rightarrow> dht_store" where
  "empty_store keys limit = \<lparr>ds_time = 0, ds_store = [], store_quota = [], ds_buckets = Map.empty, ds_next_bucket = 0,
     total_values = 0, total_store_size = 0, max_store_keys = keys, max_store_size = limit, maintain_storage = False,
     ds_secret = 0, ds_oldsecret = 0, ds_listener_token = 1, ds_listeners = [], ds_jobs = [], ds_out = []\<rparr>"

lemma empty_store_ok: "store_ok (empty_store keys limit)"
  by (simp add: store_ok_def empty_store_def map_sorted_def sum_over_def)

end
