(* ===== verification/Dht_Store_Props.thy ===== *)
theory Dht_Store_Props
  imports Dht_Store_Inv
begin

text \<open>
  What the operations of the store achieve: exact totals over every run, lookup after a local
  put, and what requests with and without a valid token can do; and where eviction and
  maintenance go wrong.
\<close>

section \<open>Eviction\<close>

text \<open>
  The oldest entry of a quota that names no stored value is never taken out: the loop does not return.
  With a single quota entry the eviction reads through the end iterator.
\<close>

lemma discard_stale_loops:
  assumes "ds_buckets s b = Some bk" and "getOldest bk = Some (h, vid)"
    and "case map_of (ds_store s) h of None \<Rightarrow> True | Some st \<Rightarrow> getById vid st = None"
  shows "discard_oldest b s = None"
proof -
  have same: "add_diff no_diff (put_storage h st (s\<lparr>ds_buckets := ds_buckets s\<rparr>)) = put_storage h st s" for st by simp
  define stale :: "dht_store \<Rightarrow> bool" where "stale = (\<lambda>s'. ds_buckets s' b = Some bk \<and> (case map_of (ds_store s') h of None \<Rightarrow> True | Some st \<Rightarrow> getById vid st = None))"
  have "r = r \<longrightarrow> b' = b \<longrightarrow> \<not> stale s'" if "discard_oldest b' s' = Some r" for b' s' r
    using that
  proof (rule discard_oldest.raw_induct [rotated], intro impI notI)
    fix rec b' s' r
    assume IH: "\<And>b' s' r. rec b' s' = Some r \<Longrightarrow> r = r \<longrightarrow> b' = b \<longrightarrow> \<not> stale s'"
      and body: "(case ds_buckets s' b' of None \<Rightarrow> Some Undef
      | Some bk \<Rightarrow> (case getOldest bk of None \<Rightarrow> Some Undef
        | Some (h, vid) \<Rightarrow> (case map_of (ds_store s') h of None \<Rightarrow> rec b' s'
          | Some st \<Rightarrow> (case storage_remove h vid st (ds_buckets s') of
              Ret r \<Rightarrow> (let s'' = add_diff (fst r) (put_storage h (fst (snd r)) (s'\<lparr>ds_buckets := snd (snd r)\<rparr>))
                 in if values_diff (fst r) \<noteq> 0 then Some (Ret s'') else rec b' s'')
            | Throw \<Rightarrow> Some Throw | Terminate \<Rightarrow> Some Terminate | Undef \<Rightarrow> Some Undef)))) = Some r"
      and b: "b' = b" and st: "stale s'"
    show False
    proof (cases "map_of (ds_store s') h")
      case None
      then have "rec b' s' = Some r" using body b st assms(2) by (auto simp: stale_def)
      from IH [OF this] b st show False by blast
    next
      case (Some x)
      then have "find_pos (\<lambda>vs. v_id (vs_data vs) = vid) (st_values x) = None"
        using st by (auto simp: stale_def getById_def find_of_find_pos)
      then have "storage_remove h vid x (ds_buckets s') = Ret (no_diff, x, ds_buckets s')" by (simp add: storage_remove_def)
      then have "rec b' (put_storage h x s') = Some r"
        using body b st assms(2) Some by (auto simp: stale_def no_diff_def Let_def add_diff_none [unfolded no_diff_def])
      moreover have "stale (put_storage h x s')"
        using st Some by (auto simp: stale_def put_storage_def map_of_map_put_same)
      ultimately show False using IH b by blast
    qed
  qed
  moreover have "stale s" using assms by (simp add: stale_def)
  ultimately show ?thesis by (metis not_None_eq)
qed

lemma evict_single_quota: "total_store_size s > max_store_size s \<Longrightarrow> length (store_quota s) = 1 \<Longrightarrow> evict s = Some Undef"
  by (subst evict.simps) (auto simp: largest_quota_def length_Suc_conv)

section \<open>Properties\<close>

text \<open>
  C4: after every sequence of store operations that return (puts, announces from other nodes, refreshes,
  listens, erasures, expiry passes, evictions, maintenance, in any order), the node's total of values and its
  total size are exactly the sums over its storages; no more than the configured number of keys is kept, no
  key has more than 1024 values, and the identifiers under a key are distinct.
\<close>

theorem store_totals_exact:
  assumes "run (store_step e) (empty_store keys limit) ops s"
  shows "total_values s = of_nat (sum_over valueCount (ds_store s))
    \<and> total_store_size s = of_nat (sum_over stored_size (ds_store s))
    \<and> length (ds_store s) \<le> unat keys
    \<and> list_all (\<lambda>(h, st). valueCount st \<le> 1024 \<and> distinct (value_ids st)) (ds_store s)"
proof -
  have "store_ok s" "sound (empty_store keys limit) s"
    using store_machine.run_keeps [OF assms empty_store_ok] by auto
  then show ?thesis by (auto simp: store_ok_def sound_def empty_store_def storage_ok_def valueCount_def MAX_VALUES_def list_all_iff)
qed

definition test_env :: store_env where
  "test_env = \<lparr>e_myid = replicate 20 1, e_types = [], e_hash = (\<lambda>d n. replicate n 9), e_addr = (\<lambda>n. sample_addr),
     e_nid = (\<lambda>n. replicate 20 2), e_near = (\<lambda>af h n. [])\<rparr>"

definition key1 :: hash where
  "key1 = replicate 20 7"

definition one_value :: dht_store where
  "one_value = (empty_store 10 100)\<lparr>ds_store := [(key1, (new_storage 0)\<lparr>
       st_values := [\<lparr>vs_data = sample_value 0 7 [5, 5], vs_created = 0, vs_expiration = minutes 10, vs_bucket = None\<rparr>], total_size := 2\<rparr>)],
     total_values := 1, total_store_size := 2, ds_jobs := [(minutes 10, ExpireStorage key1)],
     ds_out := [Announce key1 AF_INET (sample_value 0 7 [5, 5]) 0, Announce key1 AF_INET6 (sample_value 0 7 [5, 5]) 0]\<rparr>"

lemma one_value_put: "dht_put test_env key1 (Some (sample_value 0 7 [5, 5])) 3 0 False (empty_store 10 100) = Some (Ret one_value)"
  by (simp add: dht_put_def storageStore_def after_store_def with_key_def quota_bucket_def empty_store_def test_env_def
    sample_value_def INVALID_ID_def getType_def USER_DATA_def minutes_def seconds_def put_storage_def new_storage_def store_def
    on_bucket_def value_size_def MAX_VALUES_def no_diff_def add_diff_def add_job_def storageChanged_def flat_listeners_def emit_def one_value_def Let_def)

theorem store_totals_exact_witness:
  "total_values one_value = of_nat (sum_over valueCount (ds_store one_value))
    \<and> total_store_size one_value = of_nat (sum_over stored_size (ds_store one_value))
    \<and> length (ds_store one_value) \<le> unat (10 :: uint64)
    \<and> list_all (\<lambda>(h, st). valueCount st \<le> 1024 \<and> distinct (value_ids st)) (ds_store one_value)"
proof -
  have "run (store_step test_env) (empty_store 10 100) [Op_put key1 (Some (sample_value 0 7 [5, 5])) 3 0 False] one_value"
    by (auto simp: run_Cons_iff run_Nil_iff intro: store_step.intros one_value_put)
  then show ?thesis by (rule store_totals_exact)
qed

section \<open>Putting and getting\<close>

lemma getLocalById_put:
  "map_sorted (ds_store s) \<Longrightarrow> getLocalById h' vid (put_storage h st s) = (if h' = h then getById vid st else getLocalById h' vid s)"
  by (simp add: getLocalById_def put_storage_def)

lemma storage_changed_frame [frame_simps]:
  "ds_store (storageChanged e h st v new s) = ds_store s" "ds_store (add_diff d s) = ds_store s"
  "ds_store (add_job t j s) = ds_store s" "ds_store (emit es s) = ds_store s"
  by (simp_all add: storageChanged_def emit_def add_diff_def add_job_def Let_def)

lemma getLocalById_frame: "ds_store s' = ds_store s \<Longrightarrow> getLocalById h vid s' = getLocalById h vid s"
  by (simp add: getLocalById_def)

lemma getById_new: "getById vid (new_storage t) = None"
  by (simp add: getById_def new_storage_def)

lemma with_key_lookup:
  assumes "map_sorted (ds_store s)"
  shows "getLocalById h' vid (with_key h s) = getLocalById h' vid s"
    and "map_sorted (ds_store (with_key h s))"
    and "ds_buckets (with_key h s) = ds_buckets s" "max_store_size (with_key h s) = max_store_size s"
    and "total_store_size (with_key h s) = total_store_size s"
    and "st = the (map_of (ds_store (with_key h s)) h) \<Longrightarrow> map_of (ds_store (with_key h s)) h = Some st
      \<and> (map_of (ds_store s) h = Some st \<or> map_of (ds_store s) h = None \<and> st = new_storage (ds_time s))"
  using assms with_key_has [of h s]
  by (auto simp: with_key_def Let_def getLocalById_def put_storage_def add_job_def getById_new map_of_map_put_same)

lemma sum_over_mem: "map_sorted m \<Longrightarrow> map_of m h = Some st \<Longrightarrow> f st \<le> sum_over f m"
  by (induction m) (auto simp: sum_over_def map_sorted_Cons split: if_splits)

text \<open>Within the limit no eviction happens: the total after a store is the old one plus the reported difference.\<close>

lemma total_within:
  assumes ok: "store_ok s" and st: "map_of (ds_store s) h = Some st" and acc: "accounts st d st'"
    and fits: "sum_over stored_size (ds_store s) + m \<le> unat limit" and d: "size_diff d \<le> int m"
  shows "total_store_size s + of_int (size_diff d) \<le> (limit :: uint64)"
proof -
  let ?n = "sum_over stored_size (ds_store s)"
  have "stored_size st \<le> ?n" using ok st by (auto simp: store_ok_def intro: sum_over_mem)
  moreover define k where "k = ?n - stored_size st + stored_size st'"
  ultimately have k: "int k = int ?n + size_diff d" using acc by (simp add: accounts_def)
  then have "total_store_size s + of_int (size_diff d) = of_nat k" using ok of_int_size [OF k] by (simp add: store_ok_def)
  moreover have "k \<le> unat limit" using k fits d by linarith
  ultimately show ?thesis by (simp add: word_le_nat_alt unat_of_nat take_bit_nat_eq_self_iff order_le_less_trans [OF _ unsigned_less])
qed

lemma store_diff_bound:
  "store i v created ex sb st q = Ret ((res, d), st', q') \<Longrightarrow> size_diff d \<le> int (value_size v)"
  by (auto simp: store_def Let_def bind_outcome_Ret no_diff_def split: option.splits if_splits)

lemma store_slot: "store i v created ex sb st q = Ret ((Some k, d), st', q') \<Longrightarrow> k < length (st_values st')"
  by (auto simp: store_def Let_def bind_outcome_Ret split: option.splits if_splits dest: find_pos_Some)

lemma after_store_fits:
  "total_store_size s \<le> max_store_size s \<Longrightarrow> map_of (ds_store s) h = Some st \<Longrightarrow> k < length (st_values st)
    \<Longrightarrow> after_store e h k new s = Some (Ret (True, storageChanged e h st (vs_data (st_values st ! k)) new s))"
  by (simp add: after_store_def not_less [symmetric])

definition quotas_live :: "dht_store \<Rightarrow> bool" where
  "quotas_live s \<longleftrightarrow> list_all (\<lambda>(k, b). ds_buckets s b \<noteq> None) (store_quota s)
     \<and> list_all (\<lambda>(h, st). buckets_live (ds_buckets s) st) (ds_store s)"

lemma buckets_live_mono: "buckets_live q st \<Longrightarrow> dom q \<subseteq> dom q' \<Longrightarrow> buckets_live q' st"
  by (auto simp: buckets_live_def bucket_live_def list_all_iff subset_iff dom_def split: option.splits)

lemma quota_bucket_live:
  assumes "quotas_live s"
  shows "bucket_live (ds_buckets (snd (quota_bucket sa s))) (fst (quota_bucket sa s))"
    and "dom (ds_buckets s) \<subseteq> dom (ds_buckets (snd (quota_bucket sa s)))"
  using assms by (auto simp: quota_bucket_def Let_def bucket_live_def quotas_live_def list_all_iff split: option.splits dest: map_of_SomeD)

lemma with_key_quota: "quotas_live s \<Longrightarrow> map_sorted (ds_store s) \<Longrightarrow> quotas_live (with_key h s)"
  by (auto simp: quotas_live_def with_key_def Let_def put_storage_def add_job_def new_storage_def buckets_live_def intro!: list_all_map_put)

text \<open>
  What the store takes: the value's lifetime is not over, the key is known or there is room for a new
  one, and under the key the identifier is that of another object or there is room for one more.
\<close>

definition takes :: "store_env \<Rightarrow> hash \<Rightarrow> dht_value \<Rightarrow> time_point \<Rightarrow> bool \<Rightarrow> dht_store \<Rightarrow> bool" where
  "takes e h v created permanent s \<longleftrightarrow>
     \<not> ((if permanent then time_max else min created (ds_time s) + vt_expiration (getType (e_types e) (v_type v))) < ds_time s
       \<or> map_of (ds_store s) h = None \<and> length (ds_store s) \<ge> unat (max_store_keys s))
     \<and> (case getLocalById h (v_id v) s of Some w \<Rightarrow> v_ref w \<noteq> v_ref v | None \<Rightarrow> length (getLocal h None s) \<noteq> MAX_VALUES)"

text \<open>The protocol versions of the nodes that listen to a key, and events that only these are told.\<close>

definition listener_versions :: "hash \<Rightarrow> dht_store \<Rightarrow> nat set" where
  "listener_versions h s = (case map_of (ds_store s) h of None \<Rightarrow> {} | Some st \<Rightarrow> (\<lambda>(n, sid, l). l_version l) ` set (flat_listeners st))"

definition told_to :: "nat set \<Rightarrow> store_event \<Rightarrow> bool" where
  "told_to vers ev = (case ev of TellListener n sid h want token n4 n6 vs q version \<Rightarrow> version \<in> vers | _ \<Rightarrow> True)"

definition told_only :: "nat set \<Rightarrow> dht_store \<Rightarrow> dht_store \<Rightarrow> bool" where
  "told_only vers s s' \<longleftrightarrow> (\<exists>evs. ds_out s' = ds_out s @ evs \<and> list_all (told_to vers) evs)"

lemma told_only_refl [simp]: "told_only vers s s"
  by (simp add: told_only_def)

lemma storageChanged_told:
  "told_only ((\<lambda>(n, sid, l). l_version l) ` set (flat_listeners st)) s (storageChanged e h st v new s)"
  by (force simp: told_only_def storageChanged_def emit_def list_all_iff told_to_def Let_def split: prod.splits)

lemma store_listeners: "store i v created ex sb st q = Ret ((res, d), st', q') \<Longrightarrow> st_listeners st' = st_listeners st"
  by (auto simp: store_def Let_def bind_outcome_Ret split: option.splits if_splits)

lemma storageStore_fits:
  assumes ok: "store_ok s" and live: "quotas_live s"
    and obj: "\<And>st. map_of (ds_store s) h = Some st \<Longrightarrow> list_all (\<lambda>w. v_ref w = v_ref v \<longrightarrow> v_id w = v_id v) (map vs_data (st_values st))"
    and fits: "sum_over stored_size (ds_store s) + value_size v \<le> unat (max_store_size s)"
  shows "\<exists>ok s'. storageStore e h v created sa permanent s = Some (Ret (ok, s')) \<and> ok = takes e h v created permanent s
    \<and> (ok \<longrightarrow> getLocalById h (v_id v) s' = Some v)
    \<and> (\<forall>h' vid. (h', vid) \<noteq> (h, v_id v) \<longrightarrow> getLocalById h' vid s' = getLocalById h' vid s)
    \<and> told_only (listener_versions h s) s s'"
proof -
  define ex where "ex = (if permanent then time_max else min created (ds_time s) + vt_expiration (getType (e_types e) (v_type v)))"
  define s1 where "s1 = with_key h s"
  define st where "st = the (map_of (ds_store s1) h)"
  define sb where "sb = fst (quota_bucket sa s1)"
  define s2 where "s2 = snd (quota_bucket sa s1)"
  show ?thesis
  proof (cases "ex < ds_time s \<or> map_of (ds_store s) h = None \<and> length (ds_store s) \<ge> unat (max_store_keys s)")
    case True
    then have "storageStore e h v created sa permanent s = Some (Ret (False, s))" by (simp add: storageStore_def ex_def [symmetric])
    moreover have "\<not> takes e h v created permanent s" using True by (auto simp: takes_def ex_def)
    ultimately show ?thesis by auto
  next
    case False
    have sorted: "map_sorted (ds_store s)" using ok by (simp add: store_ok_def)
    note w = with_key_lookup(1-5) [OF sorted, where h = h, folded s1_def]
    have "sound s s1" unfolding s1_def using False by (intro with_key_sound) auto
    then have ok1: "store_ok s1" using ok by (simp add: sound_def)
    have st: "map_of (ds_store s1) h = Some st" "map_of (ds_store s) h = Some st \<or> map_of (ds_store s) h = None \<and> st = new_storage (ds_time s)"
      using with_key_lookup(6) [OF sorted, where h = h and st = st] by (auto simp: st_def s1_def)
    have live1: "quotas_live s1" unfolding s1_def by (rule with_key_quota [OF live sorted])
    then have "buckets_live (ds_buckets s1) st" using st(1) by (auto simp: quotas_live_def list_all_iff dest: map_of_SomeD)
    then have "buckets_live (ds_buckets s2) st" "bucket_live (ds_buckets s2) sb"
      using quota_bucket_live [OF live1, of sa] buckets_live_mono by (auto simp: s2_def sb_def)
    moreover have "list_all (\<lambda>w. v_ref w = v_ref v \<longrightarrow> v_id w = v_id v) (map vs_data (st_values st))"
      using st(2) obj by (auto simp: new_storage_def)
    ultimately obtain res d st' q' where r: "store h v (min created (ds_time s)) ex sb st (ds_buckets s2) = Ret ((res, d), st', q')"
      and keep: "accounts st d st'"
      and ref: "(res = None) = (case getById (v_id v) st of Some w \<Rightarrow> v_ref w = v_ref v | None \<Rightarrow> length (st_values st) = MAX_VALUES)"
      and none: "res = None \<longrightarrow> map vs_data (st_values st') = map vs_data (st_values st)"
      and some: "res \<noteq> None \<longrightarrow> getById (v_id v) st' = Some v \<and> (\<forall>vid. vid \<noteq> v_id v \<longrightarrow> getById vid st' = getById vid st)"
      using store_result [OF store_ok_storage [OF ok1 st(1)], of "ds_buckets s2" sb v h "min created (ds_time s)" ex]
      by blast
    let ?s3 = "put_storage h st' (s2\<lparr>ds_buckets := q'\<rparr>)"
    have look: "getLocalById h' vid ?s3 = (if h' = h then getById vid st' else getLocalById h' vid s)" for h' vid
    proof -
      have "map_sorted (ds_store (s2\<lparr>ds_buckets := q'\<rparr>))" using w(2) by (simp add: s2_def quota_bucket_frame)
      from getLocalById_put [OF this] show ?thesis using w(1) getLocalById_frame [of "s2\<lparr>ds_buckets := q'\<rparr>" s1] by (simp add: s2_def quota_bucket_frame)
    qed
    have key: "getLocalById h vid s = getById vid st" for vid
      using w(1) [of h vid] st(1) by (simp add: getLocalById_def)
    have vals: "length (getLocal h None s) = length (st_values st)"
      using st(2) by (auto simp: getLocal_def storage_get_def new_storage_def)
    have takes: "takes e h v created permanent s = (res \<noteq> None)"
      using False ref vals by (auto simp: takes_def key ex_def [symmetric] split: option.splits)
    have u: "storageStore e h v created sa permanent s = (case res of None \<Rightarrow> Some (Ret (False, ?s3))
        | Some k \<Rightarrow> after_store e h k (values_diff d > 0) (if permanent then add_diff d ?s3 else add_job ex (ExpireStorage h) (add_diff d ?s3)))"
      unfolding storageStore_def Let_def ex_def [symmetric] if_not_P [OF False] s1_def [symmetric] st_def [symmetric]
        sb_def [symmetric] s2_def [symmetric] r by simp
    have out: "ds_out ?s3 = ds_out s"
      by (simp add: put_storage_def s2_def s1_def quota_bucket_def with_key_def add_job_def Let_def split: option.splits)
    have versions: "(\<lambda>(n, sid, l). l_version l) ` set (flat_listeners st') = listener_versions h s"
    proof -
      have "flat_listeners st' = flat_listeners st" using store_listeners [OF r] by (simp add: flat_listeners_def)
      then show ?thesis using st(2) by (elim disjE) (simp_all add: listener_versions_def flat_listeners_def new_storage_def)
    qed
    show ?thesis
    proof (cases res)
      case None
      then have "storageStore e h v created sa permanent s = Some (Ret (False, ?s3))" using u by simp
      moreover have "getById vid st' = getById vid st" for vid using none None by (intro getById_same_data) simp
      then have "getLocalById h' vid ?s3 = getLocalById h' vid s" for h' vid using look key by simp
      moreover have "told_only (listener_versions h s) s ?s3" using out by (simp add: told_only_def)
      ultimately show ?thesis using takes None by blast
    next
      case (Some k)
      let ?s4 = "if permanent then add_diff d ?s3 else add_job ex (ExpireStorage h) (add_diff d ?s3)"
      have "total_store_size ?s4 = total_store_size s1 + of_int (size_diff d)" "max_store_size ?s4 = max_store_size s"
        by (simp_all add: add_diff_def add_job_def put_storage_def w(4) s2_def quota_bucket_frame)
      moreover have "sum_over stored_size (ds_store s1) = sum_over stored_size (ds_store s)"
        using sorted sum_over_put [of "ds_store s" stored_size h "new_storage (ds_time s)"]
        by (auto simp: s1_def with_key_def Let_def put_storage_def add_job_def new_storage_def stored_size_def)
      ultimately have "total_store_size ?s4 \<le> max_store_size ?s4"
        using total_within [OF ok1 st(1) keep _ store_diff_bound [OF r], of "max_store_size s"] fits by simp
      moreover have store4: "ds_store ?s4 = ds_store ?s3" by (simp add: frame_simps)
      moreover have "map_of (ds_store ?s3) h = Some st'" by (simp add: put_storage_def map_of_map_put_same)
      ultimately obtain s' where "storageStore e h v created sa permanent s = Some (Ret (True, s'))" "ds_store s' = ds_store ?s3"
          and changed: "s' = storageChanged e h st' (vs_data (st_values st' ! k)) (values_diff d > 0) ?s4"
        using u Some after_store_fits [of ?s4 h st' k] store_slot [OF r [unfolded Some]] by (auto simp: frame_simps)
      moreover from this have "getLocalById h' vid s' = (if h' = h then getById vid st' else getLocalById h' vid s)" for h' vid
        using look getLocalById_frame [of s' ?s3] by simp
      moreover have "told_only (listener_versions h s) s s'"
      proof -
        have "ds_out ?s4 = ds_out s" using out by (simp add: add_job_def add_diff_def)
        then show ?thesis
          using storageChanged_told [of st' ?s4 e h "vs_data (st_values st' ! k)" "values_diff d > 0"] by (simp only: versions changed told_only_def)
      qed
      ultimately show ?thesis using key some Some takes by (intro exI [of _ True] exI [of _ s']) auto
    qed
  qed
qed

lemma announce_one:
  assumes "v_id v \<noteq> INVALID_ID" and "getLocalById h (v_id v) s = None"
    and "storePolicy (getType (e_types e) (v_type v)) h v (e_nid e n) (e_addr e n) = (True, vc)"
    and "storageStore e h vc created (e_addr e n) False s = Some (Ret (ok, s'))"
  shows "announce_values e h n created [v] s = Some (Ret (None, s'))"
  using assms by simp

text \<open>The effect of the handler on the store for one new value that the policy of its type accepts.\<close>

lemma announce_effect:
  assumes "store_ok S" and "quotas_live S" and "hash_bool h" and "tokenMatch e token (e_addr e n) S"
    and "v_id v \<noteq> INVALID_ID" and "getLocalById h (v_id v) S = None"
    and "storePolicy (getType (e_types e) (v_type v)) h v (e_nid e n) (e_addr e n) = (True, vc)"
    and "list_all (\<lambda>w. v_ref w = v_ref vc \<longrightarrow> v_id w = v_id vc) (getLocal h None S)"
    and "sum_over stored_size (ds_store S) + value_size vc \<le> unat (max_store_size S)"
  shows "\<exists>S'. onAnnounce e n h token [v] created S = Some (Ret (None, S')) \<and> store_ok S' \<and> told_only (listener_versions h S) S S'
    \<and> (\<not> (length (e_near e (getFamily (e_addr e n)) h SEARCH_NODES) \<ge> 8
          \<and> xorCmp h (e_nid e (last (e_near e (getFamily (e_addr e n)) h SEARCH_NODES))) (e_myid e) < 0)
        \<and> takes e h vc (min created (ds_time S)) False S \<longrightarrow> getLocalById h (v_id vc) S' = Some vc)
    \<and> (\<forall>h' vid. (h', vid) \<noteq> (h, v_id vc) \<longrightarrow> getLocalById h' vid S' = getLocalById h' vid S)"
    (is "\<exists>S'. _ \<and> _ \<and> _ \<and> (\<not> ?far \<and> _ \<longrightarrow> _) \<and> _")
proof (cases ?far)
  case True
  then show ?thesis using assms(1,3,4) by (simp add: onAnnounce_def Let_def)
next
  case False
  have "\<And>st. map_of (ds_store S) h = Some st \<Longrightarrow> list_all (\<lambda>w. v_ref w = v_ref vc \<longrightarrow> v_id w = v_id vc) (map vs_data (st_values st))"
    using assms(8) by (simp add: getLocal_def storage_get_def)
  from storageStore_fits [OF assms(1,2) this assms(9)] obtain stored S' where
    st: "storageStore e h vc (min created (ds_time S)) (e_addr e n) False S = Some (Ret (stored, S'))"
      "stored = takes e h vc (min created (ds_time S)) False S"
      "stored \<longrightarrow> getLocalById h (v_id vc) S' = Some vc"
      "\<forall>h' vid. (h', vid) \<noteq> (h, v_id vc) \<longrightarrow> getLocalById h' vid S' = getLocalById h' vid S"
      "told_only (listener_versions h S) S S'" by blast
  have "store_ok S'" using storageStore_sound [OF st(1)] assms(1) by (simp add: sound_def)
  moreover have "onAnnounce e n h token [v] created S = Some (Ret (None, S'))"
    using announce_one [OF assms(5-7) st(1)] assms(3,4) False by (simp only: onAnnounce_def Let_def if_False simp_thms)
  ultimately show ?thesis using st by blast
qed

section \<open>Tokens\<close>

text \<open>The token of an address under a secret: a hash of the secret, the address and the port.\<close>

definition token_for :: "store_env \<Rightarrow> sock_addr \<Rightarrow> uint64 \<Rightarrow> bytes" where
  "token_for e a c = e_hash e (le64 c @ (if getFamily a = AF_INET then ip4 a else ip6 a) @ take 2 (drop 2 a)) TOKEN_SIZE"

text \<open>The secrets after a sequence of rotations; the last two count.\<close>

definition rotated :: "(uint64 \<times> int) list \<Rightarrow> dht_store \<Rightarrow> dht_store" where
  "rotated rs s = fold (\<lambda>(r, d). rotateSecrets r d) rs s"

definition secrets :: "(uint64 \<times> int) list \<Rightarrow> dht_store \<Rightarrow> uint64 list" where
  "secrets rs s = drop (length rs) ([ds_oldsecret s, ds_secret s] @ map fst rs)"

lemma rotated_secrets: "secrets rs s = [ds_oldsecret (rotated rs s), ds_secret (rotated rs s)]"
proof (induction rs arbitrary: s)
  case (Cons x rs)
  then show ?case using Cons.IH [of "rotateSecrets (fst x) (snd x) s"]
    by (cases x) (simp add: secrets_def rotated_def rotateSecrets_def add_job_def)
qed (simp add: secrets_def rotated_def)

lemma tokenMatch_iff:
  assumes "getFamily a = AF_INET \<or> getFamily a = AF_INET6" and "\<And>d n. length (e_hash e d n) = n"
  shows "tokenMatch e token a (rotated rs s) \<longleftrightarrow> token \<in> token_for e a ` set (secrets rs s)"
proof -
  have "a \<noteq> []" using assms(1) by (auto simp: getFamily_def family_defs)
  moreover have "makeToken e a old t = token_for e a (if old then ds_oldsecret t else ds_secret t)" for old t
    using assms(1) by (auto simp: makeToken_def token_for_def Let_def family_defs)
  ultimately show ?thesis using assms(2) by (auto simp: tokenMatch_def rotated_secrets token_for_def)
qed

text \<open>
  C30: the store is guarded by tokens. After any number of rotations of the secret, the requests that are not refused for their token are exactly those whose token is the hash of one of the
  last two secrets with the address and port of the sender: a put, refresh or listen with any other token ends in a protocol error and leaves the store as it
  was; with such a token a listen on a key is accepted and a refresh fails only for an unknown key. So a token given out is good until the second rotation after it.
\<close>

theorem tokens_guard_store:
  assumes "getFamily (e_addr e n) = AF_INET \<or> getFamily (e_addr e n) = AF_INET6" and "\<And>d k. length (e_hash e d k) = k"
  shows "(token \<notin> token_for e (e_addr e n) ` set (secrets rs s) \<longrightarrow>
        onAnnounce e n h token vs creation (rotated rs s)
          = Some (Ret (Some (if hash_bool h then (401, ''PUT_WRONG_TOKEN'') else (203, ''PUT_NO_INFOHASH'')), rotated rs s))
      \<and> onRefresh e n h token vid (rotated rs s) = (Some (401, ''PUT_WRONG_TOKEN''), rotated rs s)
      \<and> onListen e n h token sid q version (rotated rs s)
          = (Some (if hash_bool h then (401, ''LISTEN_WRONG_TOKEN'') else (203, ''LISTEN_NO_INFOHASH'')), rotated rs s))
    \<and> (token \<in> token_for e (e_addr e n) ` set (secrets rs s) \<longrightarrow>
        (hash_bool h \<longrightarrow> fst (onListen e n h token sid q version (rotated rs s)) = None)
      \<and> fst (onRefresh e n h token vid (rotated rs s)) = (if h \<in> dom (map_of (ds_store (rotated rs s))) then None else Some (404, ''STORAGE_NOT_FOUND'')))
    \<and> (length rs \<le> 1 \<longrightarrow> makeToken e (e_addr e n) False s \<in> token_for e (e_addr e n) ` set (secrets rs s))"
proof (intro conjI impI)
  note valid = tokenMatch_iff [OF assms, of token rs s]
  { assume "token \<notin> token_for e (e_addr e n) ` set (secrets rs s)"
    then have no: "\<not> tokenMatch e token (e_addr e n) (rotated rs s)" using valid by simp
    then show "onAnnounce e n h token vs creation (rotated rs s)
          = Some (Ret (Some (if hash_bool h then (401, ''PUT_WRONG_TOKEN'') else (203, ''PUT_NO_INFOHASH'')), rotated rs s))"
        "onRefresh e n h token vid (rotated rs s) = (Some (401, ''PUT_WRONG_TOKEN''), rotated rs s)"
        "onListen e n h token sid q version (rotated rs s)
          = (Some (if hash_bool h then (401, ''LISTEN_WRONG_TOKEN'') else (203, ''LISTEN_NO_INFOHASH'')), rotated rs s)"
      by (simp_all add: onAnnounce_def onRefresh_def onListen_def) }
  { assume "token \<in> token_for e (e_addr e n) ` set (secrets rs s)"
    then have yes: "tokenMatch e token (e_addr e n) (rotated rs s)" using valid by simp
    then show "fst (onListen e n h token sid q version (rotated rs s)) = None" if "hash_bool h" using that by (simp add: onListen_def)
    show "fst (onRefresh e n h token vid (rotated rs s)) = (if h \<in> dom (map_of (ds_store (rotated rs s))) then None else Some (404, ''STORAGE_NOT_FOUND''))"
      using yes by (auto simp: onRefresh_def storageRefresh_def Let_def domIff split: option.splits prod.splits) }
  assume "length rs \<le> 1"
  then have "ds_secret s \<in> set (secrets rs s)" by (cases rs) (auto simp: secrets_def)
  moreover have "makeToken e (e_addr e n) False s = token_for e (e_addr e n) (ds_secret s)"
    using assms(1) by (auto simp: makeToken_def token_for_def Let_def family_defs)
  ultimately show "makeToken e (e_addr e n) False s \<in> token_for e (e_addr e n) ` set (secrets rs s)" by simp
qed

text \<open>A token is refused after two rotations and accepted after one.\<close>

definition copy_env :: store_env where
  "copy_env = test_env\<lparr>e_hash := (\<lambda>d n. take n (d @ replicate n 0))\<rparr>"

theorem tokens_guard_store_witness:
  "onListen copy_env 4 key1 (makeToken copy_env sample_addr False one_value) 2 narrow_query 1 (rotated [(5, 0), (6, 0)] one_value)
      = (Some (401, ''LISTEN_WRONG_TOKEN''), rotated [(5, 0), (6, 0)] one_value)
   \<and> fst (onListen copy_env 4 key1 (makeToken copy_env sample_addr False one_value) 2 narrow_query 1 (rotated [(5, 0)] one_value)) = None"
proof -
  have a: "e_addr copy_env 4 = sample_addr" "getFamily (e_addr copy_env 4) = AF_INET \<or> getFamily (e_addr copy_env 4) = AF_INET6"
    by (simp_all add: copy_env_def test_env_def sample_addr_def getFamily_def family_defs)
  have len: "length (e_hash copy_env d k) = k" for d k by (simp add: copy_env_def)
  have key: "hash_bool key1" by code_simp
  have out: "makeToken copy_env sample_addr False one_value \<notin> token_for copy_env (e_addr copy_env 4) ` set (secrets [(5, 0), (6, 0)] one_value)"
    by (simp add: a(1)) code_simp
  note guard = tokens_guard_store [of copy_env 4, OF a(2) len]
  show ?thesis
    using out key guard [where token = "makeToken copy_env sample_addr False one_value" and rs = "[(5, 0), (6, 0)]" and s = one_value and h = key1]
      guard [where token = "makeToken copy_env sample_addr False one_value" and rs = "[(5, 0)]" and s = one_value and h = key1] a(1) by auto
qed

section \<open>Where the store goes wrong\<close>

text \<open>A refresh of a value that is not stored is reported as a success when the key is known.\<close>

lemma refresh_unknown_succeeds:
  "tokenMatch e token (e_addr e n) s \<Longrightarrow> map_of (ds_store s) h = Some st \<Longrightarrow> fst (onRefresh e n h token vid s) = None"
  by (simp add: onRefresh_def storageRefresh_def Let_def split: prod.splits)

text \<open>A maintenance job that runs at its due time does nothing and is not scheduled again.\<close>

lemma persistence_stops:
  "map_of (ds_store s) h = Some st \<Longrightarrow> maintenance_time st = ds_time s \<Longrightarrow> dataPersistence e h s = s"
  by (simp add: dataPersistence_def)

text \<open>Listening on a node without IPv6 fails although the search on IPv4 was started.\<close>

lemma listen_single_stack:
  assumes "map_of (ds_store s) h = Some st" and "st_values st = []"
  shows "fst (dht_listen h cb keep f w (Ret 1) (Ret 0) s) = Ret 0"
  using assms by (auto simp: dht_listen_def listen_local_def storage_listen_def listen_end_def storage_empty_def Let_def
    put_storage_def map_of_map_put_same split: option.splits)

text \<open>
  A value without content has no weight: an expiry pass frees the quota bucket of its sender while the value
  still points to it, and the expiry of the value then reads the bucket after it was freed.
\<close>

definition weightless :: dht_store where
  "weightless = (empty_store 10 100)\<lparr>ds_store := [(key1, (new_storage 0)\<lparr>
       st_values := [\<lparr>vs_data = sample_value 0 7 [], vs_created = 0, vs_expiration = minutes 10, vs_bucket = Some 0\<rparr>]\<rparr>)],
     store_quota := [(quota_key sample_addr, 0)],
     ds_buckets := [0 \<mapsto> \<lparr>storedValues = [(minutes 10, key1, 7)], totalSize = 0\<rparr>], ds_next_bucket := 1,
     total_values := 1, ds_jobs := [(minutes 10, ExpireStorage key1)]\<rparr>"

lemma weightless_reached:
  "storageStore test_env key1 (sample_value 0 7 []) 0 sample_addr False (empty_store 10 100) = Some (Ret (True, weightless))"
  by (simp add: storageStore_def after_store_def with_key_def quota_bucket_def empty_store_def test_env_def
    sample_value_def getType_def USER_DATA_def minutes_def seconds_def put_storage_def new_storage_def store_def
    on_bucket_def bucket_add_def empty_bucket_def value_size_def MAX_VALUES_def no_diff_def add_diff_def add_job_def storageChanged_def
    flat_listeners_def emit_def weightless_def Let_def sample_addr_def quota_key_def ip_slice_def getFamily_def family_defs)

lemma weightless_expire:
  "\<exists>s'. expireStore test_env weightless = Some (Ret s') \<and> expireStorage test_env key1 (s'\<lparr>ds_time := minutes 11\<rparr>) = Undef"
proof -
  have k: "expire_keys test_env (map fst (ds_store weightless)) weightless = Ret weightless"
    by (simp add: weightless_def expire_key_def expireStorage_def expireStore_at_def storage_expire_def empty_store_def
      new_storage_def minutes_def seconds_def expire_listeners_def put_storage_def add_diff_def no_diff_def storage_empty_def)
  have "evict weightless = Some (Ret weightless)" by (subst evict.simps) (simp add: weightless_def empty_store_def)
  then have "expireStore test_env weightless = Some (Ret (drop_quotas weightless))" using k by (simp add: expireStore_def)
  moreover have "expireStorage test_env key1 (drop_quotas weightless\<lparr>ds_time := minutes 11\<rparr>) = Undef"
    by (simp add: expireStorage_def expireStore_at_def storage_expire_def weightless_def drop_quotas_def bucket_size_def
      empty_store_def new_storage_def minutes_def seconds_def on_bucket_def)
  ultimately show ?thesis by blast
qed

text \<open>
  When a value is replaced by one from another address, the quota of the first address is charged with the
  size of the new value: it is left with no entry and a size that is not zero, so that it looks like the largest
  consumer and has no oldest value.
\<close>

lemma replaced_quota:
  assumes "q 0 = Some \<lparr>storedValues = [(ex, h, v_id w)], totalSize = of_nat (value_size w)\<rparr>" and "q 1 = Some b1"
    and "st_values st = [\<lparr>vs_data = w, vs_created = c, vs_expiration = ex, vs_bucket = Some 0\<rparr>]"
    and "v_id v = v_id w" and "v_ref v \<noteq> v_ref w"
  shows "\<exists>res st' q'. store h v c' ex' (Some 1) st q = Ret (res, st', q')
    \<and> q' 0 = Some \<lparr>storedValues = [], totalSize = of_nat (value_size w) - of_nat (value_size v)\<rparr>"
  using assms by (auto simp: store_def Let_def on_bucket_def bucket_erase_def bucket_add_def)

end
