(* ===== verification/Value_Cache.thy ===== *)
theory Value_Cache
  imports Dht_Value "HOL-Library.Sublist"
begin

text \<open>
  The cache of listened values (\<open>value_cache.h\<close>): the values a listener currently sees, with the callbacks that
  tell it about new and expired ones. Callbacks run in the order of the queue; the calls made are kept in a
  log. The loop that trims the cache to its maximal size may not end, so it returns an \<open>option\<close>.
\<close>

datatype listen_sync_status = ADDED | SYNCED | UNSYNCED | REMOVED

datatype cache_call = ValuesCall "dht_value list" bool | SyncCall listen_sync_status

record cache_entry =
  ce_data :: dht_value
  ce_created :: time_point
  ce_expiration :: time_point

type_synonym cache_values = "(value_id \<times> cache_entry) list"

record value_cache =
  vc_values :: cache_values
  vc_callback :: bool
  vc_syncCallback :: bool
  vc_status :: listen_sync_status
  vc_calls :: "cache_call list"

type_synonym callback_queue = "(dht_value list \<times> bool) list"

definition CACHE_MAX_VALUES :: nat where
  "CACHE_MAX_VALUES = 4096"

definition call_sync :: "listen_sync_status \<Rightarrow> value_cache \<Rightarrow> value_cache" where
  "call_sync st c = (if vc_syncCallback c then c\<lparr>vc_calls := vc_calls c @ [SyncCall st]\<rparr> else c)"

definition run_queue :: "callback_queue \<Rightarrow> value_cache \<Rightarrow> value_cache" where
  "run_queue q c = (if vc_callback c then c\<lparr>vc_calls := vc_calls c @ map (\<lambda>(vs, ex). ValuesCall vs ex) q\<rparr> else c)"

definition new_cache :: "bool \<Rightarrow> bool \<Rightarrow> value_cache" where
  "new_cache cb scb = call_sync ADDED \<lparr>vc_values = [], vc_callback = cb, vc_syncCallback = scb, vc_status = UNSYNCED, vc_calls = []\<rparr>"

definition cache_clear :: "value_cache \<Rightarrow> callback_queue \<times> value_cache" where
  "cache_clear c =
     (let expired = map (\<lambda>e. ce_data (snd e)) (vc_values c)
      in (if expired \<noteq> [] \<and> vc_callback c then [(expired, True)] else [], c\<lparr>vc_values := []\<rparr>))"

definition destroy_cache :: "value_cache \<Rightarrow> value_cache" where
  "destroy_cache c =
     (let (q, c) = cache_clear c;
          c = run_queue q c;
          c = (if vc_status c = SYNCED then call_sync UNSYNCED c else c)
      in call_sync REMOVED c)"

definition type_lifetime :: "type_store \<Rightarrow> dht_value \<Rightarrow> int" where
  "type_lifetime types v = vt_expiration (getType types (v_type v))"

fun add_values :: "dht_value list \<Rightarrow> type_store \<Rightarrow> time_point \<Rightarrow> cache_values \<Rightarrow> dht_value list \<times> cache_values" where
  "add_values [] types t m = ([], m)"
| "add_values (v # vs) types t m =
     (case map_of m (v_id v) of
        None \<Rightarrow>
          let (n, m') = add_values vs types t
                (map_put (v_id v) \<lparr>ce_data = v, ce_created = t, ce_expiration = t + type_lifetime types v\<rparr> m)
          in (v # n, m')
      | Some e \<Rightarrow>
          add_values vs types t (map_put (v_id v) (e\<lparr>ce_created := t, ce_expiration := t + type_lifetime types (ce_data e)\<rparr>) m))"

definition addValues :: "dht_value list \<Rightarrow> type_store \<Rightarrow> time_point \<Rightarrow> value_cache \<Rightarrow> callback_queue \<times> value_cache" where
  "addValues vs types t c =
     (let (n, m) = add_values vs types t (vc_values c)
      in (if n \<noteq> [] then [(n, False)] else [], c\<lparr>vc_values := m\<rparr>))"

definition refreshValue :: "value_id \<Rightarrow> type_store \<Rightarrow> time_point \<Rightarrow> value_cache \<Rightarrow> value_cache" where
  "refreshValue vid types t c = (case map_of (vc_values c) vid of
        None \<Rightarrow> c
      | Some e \<Rightarrow> c\<lparr>vc_values := map_put vid (e\<lparr>ce_created := t, ce_expiration := t + type_lifetime types (ce_data e)\<rparr>) (vc_values c)\<rparr>)"

definition expireValue :: "value_id \<Rightarrow> value_cache \<Rightarrow> callback_queue \<times> value_cache" where
  "expireValue vid c = (case map_of (vc_values c) vid of
        None \<Rightarrow> ([], c)
      | Some e \<Rightarrow> ([([ce_data e], True)], c\<lparr>vc_values := map_erase vid (vc_values c)\<rparr>))"

fun expireValue_all :: "value_id list \<Rightarrow> value_cache \<Rightarrow> callback_queue \<times> value_cache" where
  "expireValue_all [] c = ([], c)"
| "expireValue_all (vid # vids) c =
     (let (q, c) = expireValue vid c; (q', c) = expireValue_all vids c in (q @ q', c))"

text \<open>The first entry among those with the smallest creation time below \<open>time_point::max()\<close>.\<close>

fun oldest_entry :: "time_point \<Rightarrow> (value_id \<times> cache_entry) option \<Rightarrow> cache_values \<Rightarrow> (value_id \<times> cache_entry) option" where
  "oldest_entry t best [] = best"
| "oldest_entry t best (e # m) =
     (if ce_created (snd e) < t then oldest_entry (ce_created (snd e)) (Some e) m else oldest_entry t best m)"

partial_function (option) trim_values :: "cache_values \<Rightarrow> dht_value list \<Rightarrow> (cache_values \<times> dht_value list) option" where
  "trim_values m gone =
     (if length m > CACHE_MAX_VALUES then
        (case oldest_entry time_max None m of
           None \<Rightarrow> trim_values m gone
         | Some e \<Rightarrow> trim_values (map_erase (fst e) m) (gone @ [ce_data (snd e)]))
      else Some (m, gone))"

definition expireValues :: "time_point \<Rightarrow> value_cache \<Rightarrow> ((callback_queue \<times> time_point) \<times> value_cache) option" where
  "expireValues t c =
     (let gone = map (\<lambda>e. ce_data (snd e)) (filter (\<lambda>e. ce_expiration (snd e) \<le> t) (vc_values c));
          m = filter (\<lambda>e. \<not> ce_expiration (snd e) \<le> t) (vc_values c);
          nxt = foldl min time_max (map (\<lambda>e. ce_expiration (snd e)) m)
      in case trim_values m gone of
           None \<Rightarrow> None
         | Some (m, gone) \<Rightarrow>
             Some ((if gone \<noteq> [] \<and> vc_callback c then [(gone, True)] else [], nxt), c\<lparr>vc_values := m\<rparr>))"

definition expireValues_now :: "time_point \<Rightarrow> value_cache \<Rightarrow> (time_point \<times> value_cache) option" where
  "expireValues_now t c = (case expireValues t c of None \<Rightarrow> None | Some ((q, nxt), c) \<Rightarrow> Some (nxt, run_queue q c))"

definition onValues :: "dht_value list \<Rightarrow> value_id list \<Rightarrow> value_id list \<Rightarrow> type_store \<Rightarrow> time_point \<Rightarrow> value_cache
    \<Rightarrow> (time_point \<times> value_cache) option" where
  "onValues vs refreshed expired types t c =
     (let (q1, c) = (if vs \<noteq> [] then addValues vs types t c else ([], c));
          c = fold (\<lambda>vid. refreshValue vid types t) refreshed c;
          (q2, c) = expireValue_all expired c
      in case expireValues t c of
           None \<Rightarrow> None
         | Some ((q3, nxt), c) \<Rightarrow> Some (nxt, run_queue (q1 @ q2 @ q3) c))"

definition onSynced :: "bool \<Rightarrow> value_cache \<Rightarrow> value_cache" where
  "onSynced synced c =
     (let st = (if synced then SYNCED else UNSYNCED)
      in if vc_status c \<noteq> st then call_sync st (c\<lparr>vc_status := st\<rparr>) else c)"

text \<open>
  The move constructor: the new object, and what is left of the old one. The status is not among what is moved.
\<close>

definition move_cache :: "value_cache \<Rightarrow> value_cache \<times> value_cache" where
  "move_cache c = (c\<lparr>vc_status := UNSYNCED\<rparr>, c\<lparr>vc_values := [], vc_callback := False, vc_syncCallback := False\<rparr>)"

section \<open>The view of the listener\<close>

text \<open>What the calls have told: the values announced and not yet reported as expired, by identifier.\<close>

definition forget :: "dht_value list \<Rightarrow> (value_id \<rightharpoonup> dht_value) \<Rightarrow> (value_id \<rightharpoonup> dht_value)" where
  "forget vs = fold (\<lambda>v m. m(v_id v := None)) vs"

definition learn :: "dht_value list \<Rightarrow> (value_id \<rightharpoonup> dht_value) \<Rightarrow> (value_id \<rightharpoonup> dht_value)" where
  "learn vs = fold (\<lambda>v m. m(v_id v \<mapsto> v)) vs"

fun told :: "callback_queue \<Rightarrow> (value_id \<rightharpoonup> dht_value) \<Rightarrow> (value_id \<rightharpoonup> dht_value)" where
  "told [] m = m"
| "told ((vs, ex) # q) m = told q (if ex then forget vs m else learn vs m)"

fun heard :: "cache_call list \<Rightarrow> (value_id \<rightharpoonup> dht_value) \<Rightarrow> (value_id \<rightharpoonup> dht_value)" where
  "heard [] m = m"
| "heard (ValuesCall vs ex # cs) m = heard cs (if ex then forget vs m else learn vs m)"
| "heard (SyncCall _ # cs) m = heard cs m"

definition cached :: "cache_values \<Rightarrow> (value_id \<rightharpoonup> dht_value)" where
  "cached m = (\<lambda>k. map_option ce_data (map_of m k))"

text \<open>Entries are kept under the identifier of their value and were created before the end of time.\<close>

definition entries_ok :: "cache_values \<Rightarrow> bool" where
  "entries_ok m \<longleftrightarrow> map_sorted m \<and> list_all (\<lambda>(k, e). v_id (ce_data e) = k \<and> ce_created e < time_max) m"

lemma heard_append: "heard (cs @ cs') m = heard cs' (heard cs m)"
  by (induction cs m rule: heard.induct) auto

lemma heard_queue: "heard (map (\<lambda>(vs, ex). ValuesCall vs ex) q) m = told q m"
  by (induction q m rule: told.induct) auto

lemma told_append: "told (q @ q') m = told q' (told q m)"
  by (induction q m rule: told.induct) auto

lemma forget_append: "forget (vs @ ws) m = forget ws (forget vs m)"
  by (simp add: forget_def)

lemma forget_apply: "forget vs m k = (if k \<in> v_id ` set vs then None else m k)"
  unfolding forget_def by (induction vs arbitrary: m) auto

lemma entries_ok_put:
  "entries_ok m \<Longrightarrow> v_id (ce_data e) = k \<Longrightarrow> ce_created e < time_max \<Longrightarrow> entries_ok (map_put k e m)"
proof -
  have "list_all P (map_put k e m)" if "list_all P m" "P (k, e)" for P using that
    by (induction k e m rule: map_put.induct) auto
  then show "entries_ok m \<Longrightarrow> v_id (ce_data e) = k \<Longrightarrow> ce_created e < time_max \<Longrightarrow> entries_ok (map_put k e m)"
    by (auto simp: entries_ok_def)
qed

lemma entries_ok_filter: "entries_ok m \<Longrightarrow> entries_ok (filter P m)"
proof -
  have "map_sorted m \<Longrightarrow> map_sorted (filter P m)" by (induction m) (auto simp: map_sorted_def)
  then show "entries_ok m \<Longrightarrow> entries_ok (filter P m)" by (auto simp: entries_ok_def list_all_iff)
qed

lemma entries_ok_of: "entries_ok m \<Longrightarrow> map_of m k = Some e \<Longrightarrow> v_id (ce_data e) = k \<and> ce_created e < time_max"
  by (auto simp: entries_ok_def list_all_iff dest: map_of_SomeD)

lemma cached_put: "map_sorted m \<Longrightarrow> cached (map_put k e m) = (cached m)(k \<mapsto> ce_data e)"
  by (auto simp: cached_def)

lemma cached_erase: "cached (map_erase k m) = (cached m)(k := None)"
  by (auto simp: cached_def)

section \<open>Each operation tells what it changes\<close>

lemma add_values_told:
  "add_values vs types t m = (n, m') \<Longrightarrow> entries_ok m \<Longrightarrow> t < time_max \<Longrightarrow> entries_ok m' \<and> cached m' = learn n (cached m)"
proof (induction vs types t m arbitrary: n m' rule: add_values.induct)
  case (1 types t m)
  then show ?case by (simp add: learn_def)
next
  case (2 v vs types t m)
  have sorted: "map_sorted m" using "2.prems" by (simp add: entries_ok_def)
  show ?case
  proof (cases "map_of m (v_id v)")
    case None
    let ?e = "\<lparr>ce_data = v, ce_created = t, ce_expiration = t + type_lifetime types v\<rparr>"
    obtain n' where r: "add_values vs types t (map_put (v_id v) ?e m) = (n', m')" "n = v # n'"
      using "2.prems" None by (auto split: prod.splits)
    have "entries_ok (map_put (v_id v) ?e m)" using "2.prems" by (intro entries_ok_put) auto
    with "2.IH"(1) [OF None r(1)] "2.prems"(3) have "entries_ok m'" "cached m' = learn n' (cached (map_put (v_id v) ?e m))" by auto
    moreover have "learn n (cached m) = learn n' (cached (map_put (v_id v) ?e m))"
      unfolding cached_put [OF sorted] by (simp add: r(2) learn_def)
    ultimately show ?thesis by simp
  next
    case (Some e)
    let ?e = "e\<lparr>ce_created := t, ce_expiration := t + type_lifetime types (ce_data e)\<rparr>"
    have "add_values vs types t (map_put (v_id v) ?e m) = (n, m')" using "2.prems" Some by simp
    moreover have "entries_ok (map_put (v_id v) ?e m)"
      using "2.prems" entries_ok_of [OF _ Some] by (intro entries_ok_put) auto
    moreover have "cached (map_put (v_id v) ?e m) = cached m"
      using sorted Some by (auto simp: cached_put cached_def)
    ultimately show ?thesis using "2.IH"(2) [OF Some] "2.prems" by simp
  qed
qed

lemma refreshValue_told:
  assumes "entries_ok (vc_values c)" and "t < time_max"
  shows "entries_ok (vc_values (refreshValue vid types t c)) \<and> cached (vc_values (refreshValue vid types t c)) = cached (vc_values c)"
proof (cases "map_of (vc_values c) vid")
  case None
  then show ?thesis using assms by (simp add: refreshValue_def)
next
  case (Some e)
  let ?e = "e\<lparr>ce_created := t, ce_expiration := t + type_lifetime types (ce_data e)\<rparr>"
  have "entries_ok (map_put vid ?e (vc_values c))" using assms entries_ok_of [OF _ Some] by (intro entries_ok_put) auto
  moreover have "cached (map_put vid ?e (vc_values c)) = cached (vc_values c)"
    using assms Some by (auto simp: cached_put cached_def entries_ok_def)
  ultimately show ?thesis using Some by (simp add: refreshValue_def)
qed

lemma refresh_all_told:
  "entries_ok (vc_values c) \<Longrightarrow> t < time_max \<Longrightarrow>
    entries_ok (vc_values (fold (\<lambda>vid. refreshValue vid types t) vids c)) \<and> cached (vc_values (fold (\<lambda>vid. refreshValue vid types t) vids c)) = cached (vc_values c)"
  using refreshValue_told by (induction vids arbitrary: c) auto

lemma expireValue_all_told:
  "expireValue_all vids c = (q, c') \<Longrightarrow> entries_ok (vc_values c) \<Longrightarrow> entries_ok (vc_values c') \<and> cached (vc_values c') = told q (cached (vc_values c))"
proof (induction vids c arbitrary: q c' rule: expireValue_all.induct)
  case (1 c)
  then show ?case by simp
next
  case (2 vid vids c)
  obtain q1 c1 where e: "expireValue vid c = (q1, c1)" by fastforce
  obtain q2 where r: "expireValue_all vids c1 = (q2, c')" "q = q1 @ q2" using "2.prems" e by (auto split: prod.splits)
  have "entries_ok (vc_values c1) \<and> cached (vc_values c1) = told q1 (cached (vc_values c))"
  proof (cases "map_of (vc_values c) vid")
    case None
    then show ?thesis using e "2.prems" by (auto simp: expireValue_def)
  next
    case (Some x)
    then have "q1 = [([ce_data x], True)]" "vc_values c1 = map_erase vid (vc_values c)" using e by (auto simp: expireValue_def)
    moreover have "v_id (ce_data x) = vid" using entries_ok_of [OF _ Some] "2.prems" by simp
    ultimately show ?thesis using "2.prems" entries_ok_filter by (auto simp: map_erase_def cached_erase [unfolded map_erase_def] forget_def)
  qed
  with "2.IH" [OF e [symmetric] refl r(1)] show ?case by (simp add: r(2) told_append)
qed

lemma oldest_entry_in: "oldest_entry t best m = Some e \<Longrightarrow> e \<in> set m \<or> best = Some e"
  by (induction t best m rule: oldest_entry.induct) (auto split: if_splits)

lemma oldest_entry_some: "best \<noteq> None \<or> (\<exists>e\<in>set m. ce_created (snd e) < t) \<Longrightarrow> oldest_entry t best m \<noteq> None"
  by (induction t best m rule: oldest_entry.induct) auto

lemma trim_values_told:
  "entries_ok m \<Longrightarrow> \<exists>m' more. trim_values m gone = Some (m', gone @ more) \<and> entries_ok m' \<and> cached m' = forget more (cached m)
    \<and> length m' \<le> CACHE_MAX_VALUES \<and> set m' \<subseteq> set m"
proof (induction "length m" arbitrary: m gone rule: less_induct)
  case less
  show ?case
  proof (cases "length m > CACHE_MAX_VALUES")
    case False
    then show ?thesis using less.prems by (subst trim_values.simps) (auto intro!: exI [of _ m] exI [of _ "[]"] simp: forget_def)
  next
    case True
    then have "m \<noteq> []" by auto
    then have "\<exists>e\<in>set m. ce_created (snd e) < time_max" using less.prems by (cases m) (auto simp: entries_ok_def)
    then have "oldest_entry time_max None m \<noteq> None" by (intro oldest_entry_some) simp
    then obtain k e where o: "oldest_entry time_max None m = Some (k, e)" by auto
    from oldest_entry_in [OF o] have mem: "(k, e) \<in> set m" by simp
    let ?m = "map_erase k m"
    have len: "length ?m < length m" using mem by (auto simp: map_erase_def intro: length_filter_less)
    have "entries_ok ?m" unfolding map_erase_def by (rule entries_ok_filter [OF less.prems])
    from less.hyps [OF len this, of "gone @ [ce_data e]"] obtain m' more where
      r: "trim_values ?m (gone @ [ce_data e]) = Some (m', (gone @ [ce_data e]) @ more)" "entries_ok m'" "cached m' = forget more (cached ?m)"
        "length m' \<le> CACHE_MAX_VALUES" "set m' \<subseteq> set ?m" by blast
    have "v_id (ce_data e) = k" using less.prems mem by (auto simp: entries_ok_def list_all_iff)
    then have "cached m' = forget (ce_data e # more) (cached m)" using r(3) by (simp add: cached_erase forget_def)
    moreover have "trim_values m gone = Some (m', gone @ ce_data e # more)"
      using True o r(1) by (subst trim_values.simps) simp
    moreover have "set m' \<subseteq> set m" using r(5) by (auto simp: map_erase_def)
    ultimately show ?thesis using r by blast
  qed
qed

lemma cached_filter:
  assumes "entries_ok m"
  shows "cached (filter (\<lambda>e. \<not> P e) m) = forget (map (\<lambda>e. ce_data (snd e)) (filter P m)) (cached m)"
proof
  fix k
  have ids: "v_id ` set (map (\<lambda>e. ce_data (snd e)) (filter P m)) = fst ` set (filter P m)"
    using assms by (force simp: entries_ok_def list_all_iff image_iff)
  have sorted: "map_sorted m" "map_sorted (filter (\<lambda>e. \<not> P e) m)"
    using assms entries_ok_filter [OF assms, of "\<lambda>e. \<not> P e"] by (auto simp: entries_ok_def)
  have uniq: "(k, e) \<in> set m \<Longrightarrow> (k, e') \<in> set m \<Longrightarrow> e = e'" for e e'
    using map_of_in_set [OF sorted(1)] by (metis option.inject)
  show "cached (filter (\<lambda>e. \<not> P e) m) k = forget (map (\<lambda>e. ce_data (snd e)) (filter P m)) (cached m) k"
  proof (cases "k \<in> fst ` set (filter P m)")
    case True
    then have "map_of (filter (\<lambda>e. \<not> P e) m) k = None" using uniq by (fastforce simp: map_of_eq_None_iff)
    then show ?thesis using True unfolding forget_apply ids by (simp add: cached_def)
  next
    case False
    have "map_of (filter (\<lambda>e. \<not> P e) m) k = Some e \<longleftrightarrow> map_of m k = Some e" for e
      using False by (auto simp: map_of_in_set [OF sorted(1)] map_of_in_set [OF sorted(2)] image_iff)
    then have "map_of (filter (\<lambda>e. \<not> P e) m) k = map_of m k" by (metis not_None_eq)
    then show ?thesis using False unfolding forget_apply ids by (simp add: cached_def)
  qed
qed

lemma foldl_min: "foldl min t xs \<le> t" "x \<in> set xs \<Longrightarrow> foldl min t xs \<le> x" for t :: int
proof -
  have le: "foldl min t xs \<le> t" for t :: int and xs proof (induction xs arbitrary: t)
    case (Cons a xs)
    from Cons [of "min t a"] show ?case by simp
  qed simp
  then show "foldl min t xs \<le> t" .
  show "x \<in> set xs \<Longrightarrow> foldl min t xs \<le> x"
    by (induction xs arbitrary: t) (auto intro: order_trans [OF le])
qed

lemma expireValues_told:
  assumes ok: "entries_ok (vc_values c)" and cb: "vc_callback c"
  shows "\<exists>q nxt c'. expireValues t c = Some ((q, nxt), c') \<and> entries_ok (vc_values c')
    \<and> cached (vc_values c') = told q (cached (vc_values c)) \<and> length (vc_values c') \<le> CACHE_MAX_VALUES
    \<and> list_all (\<lambda>(k, e). t < ce_expiration e \<and> nxt \<le> ce_expiration e) (vc_values c')
    \<and> vc_calls c' = vc_calls c \<and> vc_callback c'"
proof -
  let ?P = "\<lambda>e. ce_expiration (snd e) \<le> t"
  let ?gone = "map (\<lambda>e. ce_data (snd e)) (filter ?P (vc_values c))" and ?m = "filter (\<lambda>e. \<not> ?P e) (vc_values c)"
  obtain m' more where r: "trim_values ?m ?gone = Some (m', ?gone @ more)" "entries_ok m'" "cached m' = forget more (cached ?m)"
      "length m' \<le> CACHE_MAX_VALUES" "set m' \<subseteq> set ?m"
    using trim_values_told [OF entries_ok_filter [OF ok]] by blast
  let ?q = "if ?gone @ more \<noteq> [] then [(?gone @ more, True)] else []"
  let ?nxt = "foldl min time_max (map (\<lambda>e. ce_expiration (snd e)) ?m)"
  have e: "expireValues t c = Some ((?q, ?nxt), c\<lparr>vc_values := m'\<rparr>)"
    using r(1) cb by (simp add: expireValues_def Let_def)
  have "cached m' = forget (?gone @ more) (cached (vc_values c))"
    using r(3) cached_filter [OF ok, of ?P] by (simp add: forget_append)
  then have "cached m' = told ?q (cached (vc_values c))" by (simp add: forget_def)
  moreover have "list_all (\<lambda>(k, e). t < ce_expiration e \<and> ?nxt \<le> ce_expiration e) m'"
    using r(5) by (force simp: list_all_iff intro!: foldl_min(2))
  ultimately show ?thesis using e r(2,4) cb
    by (intro exI [of _ ?q] exI [of _ ?nxt] exI [of _ "c\<lparr>vc_values := m'\<rparr>"]) auto
qed

definition cache_ok :: "value_cache \<Rightarrow> bool" where
  "cache_ok c \<longleftrightarrow> vc_callback c \<and> entries_ok (vc_values c) \<and> heard (vc_calls c) Map.empty = cached (vc_values c)"

lemma heard_run_queue: "vc_callback c \<Longrightarrow> heard (vc_calls (run_queue q c)) m = told q (heard (vc_calls c) m)"
  by (simp add: run_queue_def heard_append heard_queue)

lemma refresh_all_frame: "vc_calls (fold (\<lambda>vid. refreshValue vid types t) vids c) = vc_calls c"
    "vc_callback (fold (\<lambda>vid. refreshValue vid types t) vids c) = vc_callback c"
proof -
  have "vc_calls (refreshValue vid types t c) = vc_calls c" "vc_callback (refreshValue vid types t c) = vc_callback c" for vid c
    by (simp_all add: refreshValue_def split: option.split)
  then show "vc_calls (fold (\<lambda>vid. refreshValue vid types t) vids c) = vc_calls c"
    "vc_callback (fold (\<lambda>vid. refreshValue vid types t) vids c) = vc_callback c"
    by (induction vids arbitrary: c) auto
qed

lemma expireValue_all_frame:
  "expireValue_all vids c = (q, c') \<Longrightarrow> vc_calls c' = vc_calls c \<and> vc_callback c' = vc_callback c"
proof (induction vids c arbitrary: q c' rule: expireValue_all.induct)
  case (2 vid vids c)
  have "vc_calls (snd (expireValue vid c)) = vc_calls c \<and> vc_callback (snd (expireValue vid c)) = vc_callback c"
    by (simp add: expireValue_def split: option.split)
  then show ?case using 2 by (auto split: prod.splits)
qed simp

lemma onValues_correct:
  assumes ok: "cache_ok c" and t: "t < time_max"
  shows "\<exists>nxt c'. onValues vs refreshed expired types t c = Some (nxt, c') \<and> cache_ok c'
    \<and> length (vc_values c') \<le> CACHE_MAX_VALUES \<and> list_all (\<lambda>(k, e). t < ce_expiration e \<and> nxt \<le> ce_expiration e) (vc_values c')"
proof -
  obtain q1 c1 where a: "(if vs \<noteq> [] then addValues vs types t c else ([], c)) = (q1, c1)" by fastforce
  have c1: "entries_ok (vc_values c1)" "cached (vc_values c1) = told q1 (cached (vc_values c))" "vc_calls c1 = vc_calls c" "vc_callback c1"
    using a ok t add_values_told [of vs types t "vc_values c"]
    by (auto simp: cache_ok_def addValues_def learn_def split: if_splits prod.splits)
  let ?c2 = "fold (\<lambda>vid. refreshValue vid types t) refreshed c1"
  have c2: "entries_ok (vc_values ?c2)" "cached (vc_values ?c2) = cached (vc_values c1)"
    using refresh_all_told [OF c1(1) t] by auto
  obtain q2 c3 where e: "expireValue_all expired ?c2 = (q2, c3)" by fastforce
  have c3: "entries_ok (vc_values c3)" "cached (vc_values c3) = told q2 (cached (vc_values ?c2))" "vc_calls c3 = vc_calls c" "vc_callback c3"
    using expireValue_all_told [OF e c2(1)] expireValue_all_frame [OF e] c1 by (auto simp: refresh_all_frame)
  obtain q3 nxt c4 where x: "expireValues t c3 = Some ((q3, nxt), c4)" "entries_ok (vc_values c4)"
      "cached (vc_values c4) = told q3 (cached (vc_values c3))" "length (vc_values c4) \<le> CACHE_MAX_VALUES"
      "list_all (\<lambda>(k, e). t < ce_expiration e \<and> nxt \<le> ce_expiration e) (vc_values c4)" "vc_calls c4 = vc_calls c3" "vc_callback c4"
    using expireValues_told [OF c3(1,4), of t] by blast
  let ?c = "run_queue (q1 @ q2 @ q3) c4"
  have "onValues vs refreshed expired types t c = Some (nxt, ?c)"
    unfolding onValues_def Let_def a by (simp add: e x(1))
  moreover have "vc_values ?c = vc_values c4" "vc_callback ?c" using x(7) by (simp_all add: run_queue_def)
  moreover from x(7) have "heard (vc_calls ?c) Map.empty = cached (vc_values c4)"
    using ok x c3 c2 c1 by (simp add: heard_run_queue told_append cache_ok_def)
  ultimately show ?thesis using x by (auto simp: cache_ok_def)
qed

lemma expireValues_now_correct:
  assumes ok: "cache_ok c"
  shows "\<exists>nxt c'. expireValues_now t c = Some (nxt, c') \<and> cache_ok c'"
proof -
  obtain q nxt c' where "expireValues t c = Some ((q, nxt), c')" "entries_ok (vc_values c')"
      "cached (vc_values c') = told q (cached (vc_values c))" "vc_calls c' = vc_calls c" "vc_callback c'"
    using expireValues_told [of c t] ok by (auto simp: cache_ok_def)
  then show ?thesis using ok heard_run_queue [of c' q Map.empty]
    by (auto simp: expireValues_now_def cache_ok_def run_queue_def)
qed

lemma call_sync_ok: "cache_ok c \<Longrightarrow> cache_ok (call_sync st c)"
  by (simp add: cache_ok_def call_sync_def heard_append)

lemma onSynced_ok: "cache_ok c \<Longrightarrow> cache_ok (onSynced b c)"
  by (auto simp: onSynced_def Let_def intro!: call_sync_ok) (auto simp: cache_ok_def)

lemma new_cache_ok: "cache_ok (new_cache True scb)"
  by (auto simp: new_cache_def intro!: call_sync_ok) (simp add: cache_ok_def entries_ok_def map_sorted_def cached_def fun_eq_iff)

section \<open>Runs of the cache\<close>

datatype cache_op = C_values "dht_value list" "value_id list" "value_id list" time_point | C_expire time_point | C_synced bool

inductive cache_step :: "type_store \<Rightarrow> value_cache \<Rightarrow> cache_op \<Rightarrow> value_cache \<Rightarrow> bool" for types where
  "onValues vs refreshed expired types t c = Some (nxt, c') \<Longrightarrow> t < time_max \<Longrightarrow> cache_step types c (C_values vs refreshed expired t) c'"
| "expireValues_now t c = Some (nxt, c') \<Longrightarrow> cache_step types c (C_expire t) c'"
| "cache_step types c (C_synced b) (onSynced b c)"

lemma cache_step_ok: "cache_step types c op c' \<Longrightarrow> cache_ok c \<Longrightarrow> cache_ok c'"
proof (induction rule: cache_step.induct)
  case (1 vs refreshed expired t c nxt c')
  then show ?case using onValues_correct [of c t vs refreshed expired types] by auto
next
  case (2 t c nxt c')
  then show ?case using expireValues_now_correct [of c t] by auto
qed (rule onSynced_ok)

lemma cache_calls_grow: "cache_step types c op c' \<Longrightarrow> cache_ok c \<Longrightarrow> prefix (vc_calls c) (vc_calls c')"
proof (induction rule: cache_step.induct)
  case (1 vs refreshed expired t c nxt c')
  obtain q1 c1 where a: "(if vs \<noteq> [] then addValues vs types t c else ([], c)) = (q1, c1)" by fastforce
  then have "vc_calls c1 = vc_calls c" by (auto simp: addValues_def split: if_splits prod.splits)
  moreover obtain q2 c3 where e: "expireValue_all expired (fold (\<lambda>vid. refreshValue vid types t) refreshed c1) = (q2, c3)" by fastforce
  moreover from expireValue_all_frame [OF e] have "vc_calls c3 = vc_calls c1" by (simp add: refresh_all_frame)
  ultimately show ?case using 1 unfolding onValues_def Let_def a
    by (auto simp: expireValues_def Let_def run_queue_def split: option.splits)
next
  case (2 t c nxt c')
  then show ?case by (auto simp: expireValues_now_def expireValues_def Let_def run_queue_def split: option.splits)
next
  case (3 c b)
  then show ?case by (simp add: onSynced_def call_sync_def Let_def)
qed

interpretation cache_machine: event_machine "cache_step types" cache_ok "\<lambda>c c'. prefix (vc_calls c) (vc_calls c')" for types
  by unfold_locales (auto intro: cache_step_ok cache_calls_grow)

lemma destroy_heard: "cache_ok c \<Longrightarrow> heard (vc_calls (destroy_cache c)) Map.empty = Map.empty"
proof -
  assume ok: "cache_ok c"
  obtain q c1 where cl: "cache_clear c = (q, c1)" by fastforce
  have ids: "k \<in> v_id ` set (map (\<lambda>e. ce_data (snd e)) (vc_values c))" if "cached (vc_values c) k \<noteq> None" for k
    using that ok entries_ok_of by (force simp: cached_def cache_ok_def image_iff dest: map_of_SomeD)
  let ?ex = "map (\<lambda>e. ce_data (snd e)) (vc_values c)"
  have "told q m = forget ?ex m" for m using cl ok by (auto simp: cache_clear_def Let_def cache_ok_def forget_def)
  moreover have "forget ?ex (cached (vc_values c)) k = None" for k
    unfolding forget_apply using ids [of k] by (cases "cached (vc_values c) k") auto
  ultimately have "told q (cached (vc_values c)) = Map.empty" by (simp add: fun_eq_iff)
  then have h: "heard (vc_calls (run_queue q c1)) Map.empty = Map.empty"
    using cl ok heard_run_queue [of c1 q Map.empty] by (auto simp: cache_clear_def Let_def cache_ok_def)
  have sync: "heard (vc_calls (call_sync st x)) m = heard (vc_calls x) m" for st x m
    by (simp add: call_sync_def heard_append)
  show ?thesis using h by (simp add: destroy_cache_def cl Let_def sync)
qed

text \<open>
  A synchronised cache that is moved before it is destroyed ends without the call that takes back \<open>SYNCED\<close>;
  destroyed in place, it makes that call.
\<close>

lemma moved_sync_lost:
  assumes "vc_syncCallback c" and "vc_status c = SYNCED" and "vc_values c = []"
  shows "vc_calls (destroy_cache c) = vc_calls c @ [SyncCall UNSYNCED, SyncCall REMOVED]"
    and "vc_calls (destroy_cache (fst (move_cache c))) = vc_calls c @ [SyncCall REMOVED]"
  using assms by (simp_all add: destroy_cache_def move_cache_def cache_clear_def run_queue_def call_sync_def)

section \<open>Properties\<close>

text \<open>
  C19: the listener and its cache never disagree. After every sequence of answers, expiry passes and status
  changes, the values that the callback was told and not yet told to be gone are exactly the cached values.
  The next answer is always processed to the end (the trimming loop ends), leaves at most 4096 values and none
  that is expired, and returns a time no later than the next expiration; the destructor tells the end of every value.
\<close>

theorem listener_sees_cache:
  assumes "run (cache_step types) (new_cache True scb) ops c" and "t < time_max"
  shows "heard (vc_calls c) Map.empty = cached (vc_values c)
    \<and> (\<exists>nxt c'. onValues vs refreshed expired types t c = Some (nxt, c') \<and> length (vc_values c') \<le> 4096
        \<and> heard (vc_calls c') Map.empty = cached (vc_values c')
        \<and> list_all (\<lambda>(k, e). t < ce_expiration e \<and> nxt \<le> ce_expiration e) (vc_values c'))
    \<and> heard (vc_calls (destroy_cache c)) Map.empty = Map.empty"
proof -
  have ok: "cache_ok c" using cache_machine.run_keeps [OF assms(1) new_cache_ok] by simp
  then show ?thesis
    using onValues_correct [OF ok assms(2), of vs refreshed expired types] destroy_heard [OF ok]
    by (auto simp: cache_ok_def CACHE_MAX_VALUES_def)
qed

theorem listener_sees_cache_witness:
  "heard (vc_calls (onSynced True (new_cache True True))) Map.empty = cached (vc_values (onSynced True (new_cache True True)))
    \<and> (\<exists>nxt c'. onValues [sample_value 0 7 [5]] [] [9] [] 100 (onSynced True (new_cache True True)) = Some (nxt, c')
        \<and> length (vc_values c') \<le> 4096 \<and> heard (vc_calls c') Map.empty = cached (vc_values c')
        \<and> list_all (\<lambda>(k, e). 100 < ce_expiration e \<and> nxt \<le> ce_expiration e) (vc_values c'))
    \<and> heard (vc_calls (destroy_cache (onSynced True (new_cache True True)))) Map.empty = Map.empty"
proof (rule listener_sees_cache)
  show "run (cache_step []) (new_cache True True) [C_synced True] (onSynced True (new_cache True True))"
    by (auto simp: run_Cons_iff run_Nil_iff intro: cache_step.intros)
qed (simp add: time_max_def)

end
