(* ===== verification/Op_Cache.thy ===== *)
theory Op_Cache
  imports Value_Cache Storage
begin

text \<open>
  The caches of listen operations (\<open>op_cache.h\<close>, \<open>op_cache.cpp\<close>). \<open>OpValueCache\<close> counts for each value how many
  sources hold it and reports it once when it appears and once when the last source lets it go; \<open>OpCache\<close>
  passes this on to the listeners of one query; \<open>SearchCache\<close> shares one operation between the listeners of
  queries that it satisfies. Calls to callbacks are results or entries of a log.
\<close>

section \<open>OpValueCache\<close>

record op_value =
  ov_data :: dht_value
  refCount :: uint32
  ov_updated :: time_point

record op_value_cache =
  oc_nodes :: uint64
  oc_syncedNodes :: uint64
  oc_values :: "(value_id \<times> op_value) list"

definition new_op_value :: "dht_value \<Rightarrow> op_value" where
  "new_op_value v = \<lparr>ov_data = v, refCount = 1, ov_updated = time_min\<rparr>"

definition new_op_value_cache :: op_value_cache where
  "new_op_value_cache = \<lparr>oc_nodes = 0, oc_syncedNodes = 0, oc_values = []\<rparr>"

text \<open>The loops; what is collected for the callback is the result.\<close>

fun op_add :: "dht_value list \<Rightarrow> time_point \<Rightarrow> (value_id \<times> op_value) list \<Rightarrow> dht_value list \<times> (value_id \<times> op_value) list" where
  "op_add [] t m = ([], m)"
| "op_add (v # vs) t m =
     (case map_of m (v_id v) of
        None \<Rightarrow> let (n, m') = op_add vs t (map_put (v_id v) ((new_op_value v)\<lparr>ov_updated := t\<rparr>) m) in (v # n, m')
      | Some e \<Rightarrow> op_add vs t (map_put (v_id v) (e\<lparr>refCount := refCount e + 1, ov_updated := t\<rparr>) m))"

fun op_expire :: "value_id list \<Rightarrow> time_point \<Rightarrow> (value_id \<times> op_value) list \<Rightarrow> dht_value list \<times> (value_id \<times> op_value) list" where
  "op_expire [] t m = ([], m)"
| "op_expire (i # is) t m =
     (case map_of m i of
        None \<Rightarrow> op_expire is t m
      | Some e \<Rightarrow>
        if ov_updated e > t then op_expire is t m
        else if refCount e - 1 = 0 then
          let (x, m') = op_expire is t (map_erase i m) in (ov_data e # x, m')
        else op_expire is t (map_put i (e\<lparr>refCount := refCount e - 1, ov_updated := t\<rparr>) m))"

text \<open>The callback is called, with \<open>(values, expired)\<close>, only if something was collected.\<close>

definition op_call :: "dht_value list \<Rightarrow> bool \<Rightarrow> (dht_value list \<times> bool) option" where
  "op_call vs ex = (if vs = [] then None else Some (vs, ex))"

definition onValuesAdded :: "dht_value list \<Rightarrow> time_point \<Rightarrow> op_value_cache \<Rightarrow> (dht_value list \<times> bool) option \<times> op_value_cache" where
  "onValuesAdded vs t c = (let (n, m) = op_add vs t (oc_values c) in (op_call n False, c\<lparr>oc_values := m\<rparr>))"

definition onValuesExpired :: "dht_value list \<Rightarrow> time_point \<Rightarrow> op_value_cache \<Rightarrow> (dht_value list \<times> bool) option \<times> op_value_cache" where
  "onValuesExpired vs t c = (let (x, m) = op_expire (map v_id vs) t (oc_values c) in (op_call x True, c\<lparr>oc_values := m\<rparr>))"

definition onValueIdsExpired :: "value_id list \<Rightarrow> time_point \<Rightarrow> op_value_cache \<Rightarrow> (dht_value list \<times> bool) option \<times> op_value_cache" where
  "onValueIdsExpired vids t c = (let (x, m) = op_expire vids t (oc_values c) in (op_call x True, c\<lparr>oc_values := m\<rparr>))"

definition op_onValue :: "dht_value list \<Rightarrow> bool \<Rightarrow> time_point \<Rightarrow> op_value_cache \<Rightarrow> (dht_value list \<times> bool) option \<times> op_value_cache" where
  "op_onValue vs expired t c = (if expired then onValuesExpired vs t c else onValuesAdded vs t c)"

text \<open>
  The wrapper of \<open>cacheCallback\<close>: \<open>keep\<close> is the answer of the callback; the results tell what is returned and whether
  \<open>onCancel\<close> is called. The move constructor does not move the two counters.
\<close>

definition cacheCallback :: "(dht_value list \<Rightarrow> bool \<Rightarrow> bool) \<Rightarrow> dht_value list \<Rightarrow> bool \<Rightarrow> op_value_cache \<Rightarrow> (bool \<times> bool) \<times> op_value_cache" where
  "cacheCallback keep vs expired c =
     (let (call, c) = op_onValue vs expired time_min c;
          ret = (case call of None \<Rightarrow> True | Some (w, ex) \<Rightarrow> keep w ex)
      in ((ret, \<not> ret), c))"

definition op_move :: "op_value_cache \<Rightarrow> op_value_cache" where
  "op_move c = c\<lparr>oc_nodes := 0, oc_syncedNodes := 0\<rparr>"

fun onNodeChanged :: "listen_sync_status \<Rightarrow> op_value_cache \<Rightarrow> op_value_cache" where
  "onNodeChanged ADDED c = c\<lparr>oc_nodes := oc_nodes c + 1\<rparr>"
| "onNodeChanged REMOVED c = c\<lparr>oc_nodes := oc_nodes c - 1\<rparr>"
| "onNodeChanged SYNCED c = c\<lparr>oc_syncedNodes := oc_syncedNodes c + 1\<rparr>"
| "onNodeChanged UNSYNCED c = c\<lparr>oc_syncedNodes := oc_syncedNodes c - 1\<rparr>"

definition isSynced :: "op_value_cache \<Rightarrow> bool" where
  "isSynced c \<longleftrightarrow> oc_nodes c > 0 \<and> oc_syncedNodes c = oc_nodes c"

definition op_get :: "value_filter \<Rightarrow> op_value_cache \<Rightarrow> dht_value list" where
  "op_get f c = filter (\<lambda>v. f = None \<or> passes f v) (map (\<lambda>e. ov_data (snd e)) (oc_values c))"

definition op_getById :: "value_id \<Rightarrow> op_value_cache \<Rightarrow> dht_value option" where
  "op_getById i c = map_option ov_data (map_of (oc_values c) i)"

definition op_getValues :: "op_value_cache \<Rightarrow> dht_value list" where
  "op_getValues c = map (\<lambda>e. ov_data (snd e)) (oc_values c)"

section \<open>OpCache\<close>

text \<open>
  \<open>Filter::filter\<close> calls the predicate on the shared pointer, not on the value: the pointer converts to a new
  \<open>Value\<close> that has no identifier, the type of user data, and the serialised value as its data. \<open>pk\<close> is the
  serialisation.
\<close>

definition wrapped :: "(dht_value \<Rightarrow> bytes) \<Rightarrow> dht_value \<Rightarrow> dht_value" where
  "wrapped pk v = \<lparr>v_ref = v_ref v, v_id = INVALID_ID, v_owner = None, v_recipient = hash_zero HASH_LEN, v_type = vt_id USER_DATA,
     v_data = pk v, v_user_type = [], v_seq = 0, v_signature = [], v_cypher = [], v_priority = 0\<rparr>"

definition filter_values :: "(dht_value \<Rightarrow> bytes) \<Rightarrow> value_filter \<Rightarrow> dht_value list \<Rightarrow> dht_value list" where
  "filter_values pk f vs = (case f of None \<Rightarrow> vs | Some p \<Rightarrow> filter (\<lambda>v. p (wrapped pk v)) vs)"

record op_cache =
  op_values :: op_value_cache
  op_listeners :: "(uint64 \<times> local_listener) list"
  lastRemoved :: time_point
  searchToken :: uint64

definition OP_EXPIRATION :: int where
  "OP_EXPIRATION = seconds 60"

definition new_op_cache :: "time_point \<Rightarrow> op_cache" where
  "new_op_cache t = \<lparr>op_values = new_op_value_cache, op_listeners = [], lastRemoved = t, searchToken = 0\<rparr>"

text \<open>The calls to the listeners: callback, values, expired.\<close>

definition notify :: "(dht_value \<Rightarrow> bytes) \<Rightarrow> dht_value list \<Rightarrow> bool \<Rightarrow> op_cache \<Rightarrow> (nat \<times> dht_value list \<times> bool) list" where
  "notify pk vs ex c = map (\<lambda>(t, l). (ll_cb l, filter_values pk (ll_filter l) vs, ex)) (op_listeners c)"

definition opcache_onValue :: "(dht_value \<Rightarrow> bytes) \<Rightarrow> dht_value list \<Rightarrow> bool \<Rightarrow> op_cache
    \<Rightarrow> (bool \<times> (nat \<times> dht_value list \<times> bool) list) \<times> op_cache" where
  "opcache_onValue pk vs expired c =
     (let (call, oc) = op_onValue vs expired time_min (op_values c);
          c' = c\<lparr>op_values := oc\<rparr>
      in ((op_listeners c \<noteq> [], case call of None \<Rightarrow> [] | Some (w, ex) \<Rightarrow> notify pk w ex c), c'))"

definition opcache_onNodeChanged :: "listen_sync_status \<Rightarrow> op_cache \<Rightarrow> op_cache" where
  "opcache_onNodeChanged st c = c\<lparr>op_values := onNodeChanged st (op_values c)\<rparr>"

text \<open>\<open>keep\<close> is what the callback answers to the cached values.\<close>

definition addListener :: "uint64 \<Rightarrow> nat \<Rightarrow> (dht_value list \<Rightarrow> bool) \<Rightarrow> query option \<Rightarrow> value_filter \<Rightarrow> op_cache \<Rightarrow> bool \<times> op_cache" where
  "addListener token cb keep q f c =
     (let vals = op_get f (op_values c) in
      if vals \<noteq> [] \<and> \<not> keep vals then (False, c)
      else (True, c\<lparr>op_listeners := snd (map_emplace token \<lparr>ll_query = q, ll_filter = f, ll_cb = cb\<rparr> (op_listeners c))\<rparr>))"

definition removeListener :: "uint64 \<Rightarrow> time_point \<Rightarrow> op_cache \<Rightarrow> bool \<times> op_cache" where
  "removeListener token t c =
     (map_of (op_listeners c) token \<noteq> None, c\<lparr>lastRemoved := t, op_listeners := map_erase token (op_listeners c)\<rparr>)"

definition removeAll :: "op_cache \<Rightarrow> op_cache" where
  "removeAll c = c\<lparr>op_listeners := []\<rparr>"

definition op_isDone :: "op_cache \<Rightarrow> bool" where
  "op_isDone c \<longleftrightarrow> op_listeners c = []"

definition op_isExpired :: "time_point \<Rightarrow> op_cache \<Rightarrow> bool" where
  "op_isExpired t c \<longleftrightarrow> op_listeners c = [] \<and> lastRemoved c + OP_EXPIRATION < t"

definition getExpiration :: "op_cache \<Rightarrow> time_point" where
  "getExpiration c = (if op_listeners c \<noteq> [] then time_max else lastRemoved c + OP_EXPIRATION)"

section \<open>SearchCache\<close>

text \<open>The operations by query object; the query itself is kept beside the operation.\<close>

record search_cache =
  sc_ops :: "(nat \<times> query \<times> op_cache) list"
  nextToken :: uint64
  nextExpiration :: time_point

definition new_search_cache :: search_cache where
  "new_search_cache = \<lparr>sc_ops = [], nextToken = 1, nextExpiration = time_max\<rparr>"

definition getOp :: "nat \<Rightarrow> query \<Rightarrow> search_cache \<Rightarrow> (nat \<times> query \<times> op_cache) option" where
  "getOp qr q sc = (case map_of (sc_ops sc) qr of
        Some e \<Rightarrow> Some (qr, e)
      | None \<Rightarrow> find (\<lambda>(r, q', c). query_isSatisfiedBy q q') (sc_ops sc))"

text \<open>\<open>tok\<close> is the token that \<open>onListen\<close> returns for a new operation, \<open>t\<close> the time of its creation.\<close>

definition search_listen :: "nat \<Rightarrow> (dht_value list \<Rightarrow> bool) \<Rightarrow> nat \<Rightarrow> query \<Rightarrow> value_filter \<Rightarrow> uint64 \<Rightarrow> time_point \<Rightarrow> search_cache
    \<Rightarrow> uint64 \<times> search_cache" where
  "search_listen cb keep qr q f tok t sc =
     (let (r, q', c, ops) = (case getOp qr q sc of
            Some (r, q', c) \<Rightarrow> (r, q', c, sc_ops sc)
          | None \<Rightarrow> let c = (new_op_cache t)\<lparr>searchToken := tok\<rparr> in (qr, q, c, map_put qr (q, c) (sc_ops sc)));
          token = nextToken sc;
          nt = (if token + 1 = 0 then token + 2 else token + 1);
          (ok, c') = addListener token cb keep (Some q) f c
      in (if ok then token else 0, sc\<lparr>sc_ops := map_put r (q', c') ops, nextToken := nt\<rparr>))"

fun cancel_in :: "uint64 \<Rightarrow> time_point \<Rightarrow> (nat \<times> query \<times> op_cache) list \<Rightarrow> time_point option \<times> (nat \<times> query \<times> op_cache) list" where
  "cancel_in token t [] = (None, [])"
| "cancel_in token t ((r, q, c) # ops) =
     (let (ok, c') = removeListener token t c in
      if ok then (Some (getExpiration c'), (r, q, c') # ops)
      else let (x, ops') = cancel_in token t ops in (x, (r, q, c') # ops'))"

definition search_cancelListen :: "uint64 \<Rightarrow> time_point \<Rightarrow> search_cache \<Rightarrow> bool \<times> search_cache" where
  "search_cancelListen token t sc =
     (case cancel_in token t (sc_ops sc) of
        (None, ops) \<Rightarrow> (False, sc\<lparr>sc_ops := ops\<rparr>)
      | (Some ex, ops) \<Rightarrow> (True, sc\<lparr>sc_ops := ops, nextExpiration := min (nextExpiration sc) ex\<rparr>))"

text \<open>The tokens handed to \<open>onCancel\<close>, in order.\<close>

definition cancelAll :: "search_cache \<Rightarrow> uint64 list \<times> search_cache" where
  "cancelAll sc = (map (\<lambda>(r, q, c). searchToken c) (sc_ops sc), sc\<lparr>sc_ops := []\<rparr>)"

definition search_expire :: "time_point \<Rightarrow> search_cache \<Rightarrow> (time_point \<times> uint64 list) \<times> search_cache" where
  "search_expire t sc =
     (let gone = filter (\<lambda>(r, q, c). getExpiration c < t) (sc_ops sc);
          kept = filter (\<lambda>(r, q, c). \<not> getExpiration c < t) (sc_ops sc);
          nxt = foldl min time_max (map (\<lambda>(r, q, c). getExpiration c) kept)
      in ((nxt, map (\<lambda>(r, q, c). searchToken c) gone), sc\<lparr>sc_ops := kept, nextExpiration := nxt\<rparr>))"

text \<open>\<open>keep\<close> is the answer of the get callback; the result tells whether the get is done, with the values shown.\<close>

definition search_get :: "value_filter \<Rightarrow> nat \<Rightarrow> query \<Rightarrow> (dht_value list \<Rightarrow> bool) \<Rightarrow> search_cache \<Rightarrow> bool \<times> dht_value list" where
  "search_get f qr q keep sc = (case getOp qr q sc of
        None \<Rightarrow> (False, [])
      | Some (r, q', c) \<Rightarrow>
        let vals = op_get f (op_values c)
        in (vals \<noteq> [] \<and> \<not> keep vals \<or> isSynced (op_values c), vals))"

definition search_getValues :: "value_filter \<Rightarrow> search_cache \<Rightarrow> dht_value list" where
  "search_getValues f sc = (case sc_ops sc of
        [(r, q, c)] \<Rightarrow> op_get f (op_values c)
      | ops \<Rightarrow> map snd (fold (\<lambda>(r, q, c) m. fold (\<lambda>v m. snd (map_emplace (v_id v) v m)) (op_get f (op_values c)) m) ops []))"

fun search_getById :: "value_id \<Rightarrow> (nat \<times> query \<times> op_cache) list \<Rightarrow> dht_value option" where
  "search_getById i [] = None"
| "search_getById i ((r, q, c) # ops) = (case op_getById i (op_values c) of Some v \<Rightarrow> Some v | None \<Rightarrow> search_getById i ops)"

section \<open>Reference counts\<close>

text \<open>The abstract state of \<open>OpValueCache\<close>: how many sources hold each identifier.\<close>

definition refs :: "(value_id \<times> op_value) list \<Rightarrow> value_id \<Rightarrow> nat" where
  "refs m i = (case map_of m i of None \<Rightarrow> 0 | Some e \<Rightarrow> unat (refCount e))"

definition op_ok :: "time_point \<Rightarrow> (value_id \<times> op_value) list \<Rightarrow> bool" where
  "op_ok t m \<longleftrightarrow> map_sorted m \<and> list_all (\<lambda>(k, e). v_id (ov_data e) = k \<and> refCount e \<noteq> 0 \<and> ov_updated e \<le> t) m"

lemma op_ok_put:
  assumes "op_ok t m" and "v_id (ov_data e) = k" and "refCount e \<noteq> 0" and "ov_updated e \<le> t"
  shows "op_ok t (map_put k e m)"
proof -
  have "list_all P (map_put k e m)" if "list_all P m" "P (k, e)" for P using that
    by (induction k e m rule: map_put.induct) auto
  then show ?thesis using assms by (auto simp: op_ok_def)
qed

lemma op_ok_erase: "op_ok t m \<Longrightarrow> op_ok t (map_erase k m)"
  by (auto simp: op_ok_def list_all_iff map_erase_def dest: map_erase_sorted [of _ k, unfolded map_erase_def])

lemma op_ok_of: "op_ok t m \<Longrightarrow> map_of m k = Some e \<Longrightarrow> v_id (ov_data e) = k \<and> refCount e \<noteq> 0 \<and> ov_updated e \<le> t"
  by (auto simp: op_ok_def list_all_iff dest: map_of_SomeD)

lemma refs_put: "map_sorted m \<Longrightarrow> refs (map_put k e m) = (refs m)(k := unat (refCount e))"
  by (auto simp: refs_def fun_eq_iff)

lemma refs_erase: "refs (map_erase k m) = (refs m)(k := 0)"
  by (auto simp: refs_def fun_eq_iff)

lemma refs_pos: "op_ok t m \<Longrightarrow> refs m i = 0 \<longleftrightarrow> map_of m i = None"
  by (auto simp: refs_def unat_eq_zero dest: op_ok_of split: option.splits)

lemma unat_succ: "unat w + 1 < 2 ^ 32 \<Longrightarrow> unat (w + 1 :: uint32) = unat w + 1"
  by (simp add: unat_word_ariths)

lemma op_add_refs:
  "op_add vs t m = (n, m') \<Longrightarrow> op_ok t m \<Longrightarrow> (\<And>i. refs m i + count_list (map v_id vs) i < 2 ^ 32) \<Longrightarrow>
    op_ok t m' \<and> refs m' = (\<lambda>i. refs m i + count_list (map v_id vs) i)
    \<and> v_id ` set n = {i \<in> v_id ` set vs. refs m i = 0} \<and> distinct (map v_id n)"
proof (induction vs t m arbitrary: n m' rule: op_add.induct)
  case (1 t m)
  then show ?case by simp
next
  case (2 v vs t m)
  have sorted: "map_sorted m" using "2.prems" by (simp add: op_ok_def)
  show ?case
  proof (cases "map_of m (v_id v)")
    case None
    let ?m = "map_put (v_id v) ((new_op_value v)\<lparr>ov_updated := t\<rparr>) m"
    obtain n' where r: "op_add vs t ?m = (n', m')" "n = v # n'" using "2.prems" None by (auto split: prod.splits)
    have ok: "op_ok t ?m" using "2.prems" by (intro op_ok_put) (auto simp: new_op_value_def)
    have z: "refs m (v_id v) = 0" using None by (simp add: refs_def)
    have rf: "refs ?m = (refs m)(v_id v := 1)" using sorted by (simp add: refs_put new_op_value_def)
    have bound: "refs ?m i + count_list (map v_id vs) i < 2 ^ 32" for i
      using "2.prems"(3) [of i] z by (auto simp: rf split: if_splits)
    note IH = "2.IH"(1) [OF None r(1) ok bound]
    have new: "v_id ` set n' = {i \<in> v_id ` set vs. refs m i = 0} - {v_id v}" using IH by (auto simp: rf split: if_splits)
    have "refs m' = (\<lambda>i. refs m i + count_list (map v_id (v # vs)) i)" using IH z by (auto simp: rf fun_eq_iff)
    moreover have "v_id ` set n = {i \<in> v_id ` set (v # vs). refs m i = 0}" using new z by (auto simp: r(2))
    moreover have "distinct (map v_id n)" using IH new by (auto simp: r(2))
    ultimately show ?thesis using IH by simp
  next
    case (Some e)
    let ?m = "map_put (v_id v) (e\<lparr>refCount := refCount e + 1, ov_updated := t\<rparr>) m"
    have r: "op_add vs t ?m = (n, m')" using "2.prems" Some by simp
    have p: "refs m (v_id v) = unat (refCount e)" using Some by (simp add: refs_def)
    have nz: "refs m (v_id v) \<noteq> 0" using Some refs_pos [OF "2.prems"(2)] by simp
    have succ: "unat (refCount e + 1) = refs m (v_id v) + 1"
      using "2.prems"(3) [of "v_id v"] p by (intro trans [OF unat_succ]) auto
    have ok: "op_ok t ?m" using "2.prems" op_ok_of [OF _ Some] succ by (intro op_ok_put) auto
    have rf: "refs ?m = (refs m)(v_id v := refs m (v_id v) + 1)" using sorted succ by (simp add: refs_put)
    have bound: "refs ?m i + count_list (map v_id vs) i < 2 ^ 32" for i
      using "2.prems"(3) [of i] by (auto simp: rf split: if_splits)
    note IH = "2.IH"(2) [OF Some r ok bound]
    have "v_id ` set n = {i \<in> v_id ` set (v # vs). refs m i = 0}" using IH nz by (auto simp: rf)
    moreover have "refs m' = (\<lambda>i. refs m i + count_list (map v_id (v # vs)) i)" using IH by (auto simp: rf fun_eq_iff)
    ultimately show ?thesis using IH by simp
  qed
qed

lemma op_expire_refs:
  "op_expire vids t m = (x, m') \<Longrightarrow> op_ok t m \<Longrightarrow>
    op_ok t m' \<and> refs m' = (\<lambda>i. refs m i - count_list vids i)
    \<and> v_id ` set x = {i. 0 < refs m i \<and> refs m' i = 0} \<and> distinct (map v_id x)"
proof (induction vids t m arbitrary: x m' rule: op_expire.induct)
  case (1 t m)
  then show ?case by auto
next
  case (2 i vids t m)
  have sorted: "map_sorted m" using "2.prems" by (simp add: op_ok_def)
  show ?case
  proof (cases "map_of m i")
    case None
    then have "refs m i = 0" by (simp add: refs_def)
    then show ?thesis using 2 None by (auto simp: fun_eq_iff)
  next
    case (Some e)
    have e: "v_id (ov_data e) = i" "refCount e \<noteq> 0" "\<not> ov_updated e > t" using op_ok_of [OF "2.prems"(2) Some] by auto
    have p: "refs m i = unat (refCount e)" "refs m i > 0" using Some e(2) by (auto simp: refs_def unat_eq_zero intro: gr0I)
    have pred: "unat (refCount e - 1) = refs m i - 1" using e(2) p(1) by (simp add: unat_minus_one)
    show ?thesis
    proof (cases "refCount e - 1 = 0")
      case True
      then have one: "refs m i = 1" using pred p(2) by simp
      obtain x' where r: "op_expire vids t (map_erase i m) = (x', m')" "x = ov_data e # x'"
        using "2.prems" Some e True by (auto split: prod.splits)
      note IH = "2.IH"(3) [OF Some e(3) True r(1) op_ok_erase [OF "2.prems"(2)]]
      have rf: "refs m' = (\<lambda>j. refs m j - count_list (i # vids) j)" using IH one by (auto simp: refs_erase fun_eq_iff)
      moreover have "v_id ` set x = {j. 0 < refs m j \<and> refs m' j = 0}" using IH one e(1) by (auto simp: r(2) rf refs_erase split: if_splits)
      moreover have "distinct (map v_id x)" using IH e(1) by (auto simp: r(2) refs_erase)
      ultimately show ?thesis using IH by simp
    next
      case False
      let ?m = "map_put i (e\<lparr>refCount := refCount e - 1, ov_updated := t\<rparr>) m"
      have r: "op_expire vids t ?m = (x, m')" using "2.prems" Some e False by simp
      have ok: "op_ok t ?m" using "2.prems" e False by (intro op_ok_put) auto
      have more: "refs m i > 1" using False pred p(2) by (metis One_nat_def Suc_lessI diff_self_eq_0 unat_eq_zero)
      have rf: "refs ?m = (refs m)(i := refs m i - 1)" using sorted pred by (simp add: refs_put)
      note IH = "2.IH"(4) [OF Some e(3) False r ok]
      have "refs m' = (\<lambda>j. refs m j - count_list (i # vids) j)" using IH by (auto simp: rf fun_eq_iff)
      moreover have "{j. 0 < refs ?m j \<and> refs m' j = 0} = {j. 0 < refs m j \<and> refs m' j = 0}" using more by (auto simp: rf)
      ultimately show ?thesis using IH by simp
    qed
  qed
qed

section \<open>Properties\<close>

text \<open>
  C22: \<open>OpValueCache\<close> refines a bag of the identifiers held by its sources. Adding values counts one more source for
  each, expiring values one less (never below zero), and only the first and the last source are reported: the
  callback gets, each once, exactly the identifiers that no source held before, respectively that no source
  holds any more. A value is in the cache exactly while it has a source.
\<close>

theorem op_cache_refines_bag:
  assumes "op_ok t (oc_values c)" and "\<And>i. refs (oc_values c) i + count_list (map v_id vs) i < 2 ^ 32"
    and "onValuesAdded vs t c = (added, c1)" and "onValuesExpired ws t c1 = (expired, c2)"
  shows "refs (oc_values c1) = (\<lambda>i. refs (oc_values c) i + count_list (map v_id vs) i)
    \<and> refs (oc_values c2) = (\<lambda>i. refs (oc_values c1) i - count_list (map v_id ws) i)
    \<and> (case added of
         None \<Rightarrow> {i \<in> v_id ` set vs. refs (oc_values c) i = 0} = {}
       | Some (n, ex) \<Rightarrow> \<not> ex \<and> distinct (map v_id n) \<and> v_id ` set n = {i \<in> v_id ` set vs. refs (oc_values c) i = 0})
    \<and> (case expired of
         None \<Rightarrow> {i. 0 < refs (oc_values c1) i \<and> refs (oc_values c2) i = 0} = {}
       | Some (x, ex) \<Rightarrow> ex \<and> distinct (map v_id x) \<and> v_id ` set x = {i. 0 < refs (oc_values c1) i \<and> refs (oc_values c2) i = 0})
    \<and> (op_getById i c2 = None \<longleftrightarrow> refs (oc_values c2) i = 0)"
proof -
  obtain n where a: "op_add vs t (oc_values c) = (n, oc_values c1)" "added = op_call n False"
    using assms(3) by (auto simp: onValuesAdded_def split: prod.splits)
  obtain x where e: "op_expire (map v_id ws) t (oc_values c1) = (x, oc_values c2)" "expired = op_call x True"
    using assms(4) by (auto simp: onValuesExpired_def split: prod.splits)
  note A = op_add_refs [OF a(1) assms(1,2)]
  note E = op_expire_refs [OF e(1) A [THEN conjunct1]]
  have "op_getById i c2 = None \<longleftrightarrow> refs (oc_values c2) i = 0"
    using refs_pos [OF E [THEN conjunct1]] by (simp add: op_getById_def)
  moreover have "case added of None \<Rightarrow> {i \<in> v_id ` set vs. refs (oc_values c) i = 0} = {}
      | Some (n, ex) \<Rightarrow> \<not> ex \<and> distinct (map v_id n) \<and> v_id ` set n = {i \<in> v_id ` set vs. refs (oc_values c) i = 0}"
    using A [THEN conjunct2, THEN conjunct2] unfolding a(2) op_call_def by (cases "n = []") simp_all
  moreover have "case expired of None \<Rightarrow> {i. 0 < refs (oc_values c1) i \<and> refs (oc_values c2) i = 0} = {}
      | Some (x, ex) \<Rightarrow> ex \<and> distinct (map v_id x) \<and> v_id ` set x = {i. 0 < refs (oc_values c1) i \<and> refs (oc_values c2) i = 0}"
    using E [THEN conjunct2, THEN conjunct2] unfolding e(2) op_call_def by (cases "x = []") simp_all
  ultimately show ?thesis using A E by blast
qed

definition two_sources :: op_value_cache where
  "two_sources = new_op_value_cache\<lparr>oc_values := [(7, (new_op_value (sample_value 0 7 [5]))\<lparr>refCount := 2\<rparr>)]\<rparr>"

theorem op_cache_refines_bag_witness:
  "refs (oc_values two_sources) = (\<lambda>i. refs (oc_values new_op_value_cache) i + count_list [7, 7] i) \<and> op_getById 7 two_sources \<noteq> None"
proof -
  have a: "onValuesAdded [sample_value 0 7 [5], sample_value 1 7 [5]] time_min new_op_value_cache =
      (Some ([sample_value 0 7 [5]], False), two_sources)"
    by (simp add: onValuesAdded_def new_op_value_cache_def new_op_value_def two_sources_def op_call_def sample_value_def)
  have e: "onValuesExpired [] time_min two_sources = (None, two_sources)" by (simp add: onValuesExpired_def op_call_def)
  have "op_ok time_min (oc_values new_op_value_cache)" by (simp add: op_ok_def new_op_value_cache_def map_sorted_def)
  moreover have "refs (oc_values new_op_value_cache) i + count_list (map v_id [sample_value 0 7 [5], sample_value 1 7 [5]]) i < 2 ^ 32" for i
    by (simp add: refs_def new_op_value_cache_def)
  ultimately have "refs (oc_values two_sources) = (\<lambda>i. refs (oc_values new_op_value_cache) i + count_list (map v_id [sample_value 0 7 [5], sample_value 1 7 [5]]) i)"
    "op_getById 7 two_sources = None \<longleftrightarrow> refs (oc_values two_sources) 7 = 0"
    using op_cache_refines_bag [OF _ _ a e] by blast+
  moreover have "map v_id [sample_value 0 7 [5], sample_value 1 7 [5]] = [7, 7]" by (simp add: sample_value_def)
  ultimately show ?thesis by (simp only:) simp
qed

text \<open>What an expiry pass of the shared operations keeps: operations in use are never cancelled.\<close>

lemma search_expire_exact:
  assumes "search_expire t sc = ((nxt, cancelled), sc')" and "t \<le> time_max"
  shows "list_all (\<lambda>(r, q, c). op_listeners c \<noteq> [] \<or> t \<le> lastRemoved c + OP_EXPIRATION) (sc_ops sc')"
    and "\<And>r q c. (r, q, c) \<in> set (sc_ops sc) \<Longrightarrow> op_listeners c \<noteq> [] \<Longrightarrow> (r, q, c) \<in> set (sc_ops sc')"
  using assms by (auto simp: search_expire_def Let_def getExpiration_def list_all_iff not_less split: if_splits)

text \<open>A cancelled listener also restarts the idle time of the operations visited before it is found.\<close>

lemma cancel_touches_others:
  "map_of (op_listeners c) token = None \<Longrightarrow> cancel_in token t ((r, q, c) # ops) =
    (fst (cancel_in token t ops), (r, q, c\<lparr>lastRemoved := t, op_listeners := map_erase token (op_listeners c)\<rparr>) # snd (cancel_in token t ops))"
  by (simp add: removeListener_def split: prod.splits)

text \<open>A listener with a filter on the identifier is told about no value, whatever arrives.\<close>

lemma id_filter_never_matches: "i \<noteq> INVALID_ID \<Longrightarrow> filter_values pk (IdFilter i) vs = []"
  by (simp add: filter_values_def IdFilter_def wrapped_def)

end
