(* ===== verification/Rate_Limiter.thy ===== *)
theory Rate_Limiter
  imports VN_Prelude
begin

text \<open>
  The rate limiter (\<open>rate_limiter.h\<close>): a queue of the times at which something was let through within the last
  period, and the proof that no window of one period ever sees more than the quota.
\<close>

record rate_limiter =
  rl_quota :: uint64
  rl_period :: int
  rl_records :: "time_point list"

definition new_limiter :: "uint64 \<Rightarrow> int \<Rightarrow> rate_limiter" where
  "new_limiter q p = \<lparr>rl_quota = q, rl_period = p, rl_records = []\<rparr>"

definition rl_maintain :: "time_point \<Rightarrow> rate_limiter \<Rightarrow> nat \<times> rate_limiter" where
  "rl_maintain t r =
     (let limit = t - rl_period r;
          rs = dropWhile (\<lambda>x. x < limit) (rl_records r)
      in (length rs, r\<lparr>rl_records := rs\<rparr>))"

definition rl_limit :: "time_point \<Rightarrow> rate_limiter \<Rightarrow> bool \<times> rate_limiter" where
  "rl_limit t r =
     (if rl_quota r = - 1 then (True, r)
      else let (n, r) = rl_maintain t r
           in if n \<ge> unat (rl_quota r) then (False, r) else (True, r\<lparr>rl_records := rl_records r @ [t]\<rparr>))"

definition rl_empty :: "rate_limiter \<Rightarrow> bool" where
  "rl_empty r \<longleftrightarrow> rl_records r = []"

text \<open>The times that are let through when \<open>limit\<close> is called at each of the given times.\<close>

fun let_through :: "time_point list \<Rightarrow> rate_limiter \<Rightarrow> time_point list" where
  "let_through [] r = []"
| "let_through (t # ts) r = (let (ok, r') = rl_limit t r in (if ok then [t] else []) @ let_through ts r')"

text \<open>No \<open>n + 1\<close> entries of a list lie within one period.\<close>

definition spaced :: "nat \<Rightarrow> int \<Rightarrow> int list \<Rightarrow> bool" where
  "spaced n p xs \<longleftrightarrow> (\<forall>k. k + n < length xs \<longrightarrow> xs ! k + p < xs ! (k + n))"

lemma spaced_snoc:
  assumes "spaced n p (old @ recs)" and "length recs < n" and "\<forall>x\<in>set old. x + p < t"
  shows "spaced n p ((old @ recs) @ [t])"
  unfolding spaced_def
proof (intro allI impI)
  fix k assume k: "k + n < length ((old @ recs) @ [t])"
  show "((old @ recs) @ [t]) ! k + p < ((old @ recs) @ [t]) ! (k + n)"
  proof (cases "k + n < length (old @ recs)")
    case True
    with assms(1) have "(old @ recs) ! k + p < (old @ recs) ! (k + n)" by (simp only: spaced_def)
    then show ?thesis using True by (simp only: nth_append [of "old @ recs" "[t]"] if_True) simp
  next
    case False
    with k assms(2) have "k + n = length (old @ recs)" "k < length old" by auto
    then have "((old @ recs) @ [t]) ! (k + n) = t" "((old @ recs) @ [t]) ! k = old ! k"
      by (auto simp: nth_append)
    with assms(3) \<open>k < length old\<close> show ?thesis by simp
  qed
qed

lemma let_through_spaced:
  assumes "sorted ts" and "spaced (unat (rl_quota r)) (rl_period r) (old @ rl_records r)"
    and "\<forall>x\<in>set old. \<forall>t\<in>set ts. x + rl_period r < t" and "rl_quota r \<noteq> - 1"
  shows "spaced (unat (rl_quota r)) (rl_period r) (old @ rl_records r @ let_through ts r)"
  using assms
proof (induction ts arbitrary: r old)
  case Nil
  then show ?case by simp
next
  case (Cons t ts)
  let ?p = "rl_period r" and ?q = "unat (rl_quota r)"
  define gone where "gone = takeWhile (\<lambda>x. x < t - ?p) (rl_records r)"
  define recs where "recs = dropWhile (\<lambda>x. x < t - ?p) (rl_records r)"
  have split: "rl_records r = gone @ recs" by (simp add: gone_def recs_def)
  have old: "\<forall>x\<in>set (old @ gone). \<forall>t'\<in>set (t # ts). x + ?p < t'"
    using Cons.prems(1,3) by (fastforce simp: gone_def dest: set_takeWhileD)
  have sp: "spaced ?q ?p ((old @ gone) @ recs)" using Cons.prems(2) by (simp add: split)
  show ?case
  proof (cases "length recs \<ge> ?q")
    case True
    then have l: "rl_limit t r = (False, r\<lparr>rl_records := recs\<rparr>)"
      using Cons.prems(4) by (simp add: rl_limit_def rl_maintain_def recs_def Let_def)
    show ?thesis
      using Cons.IH [of "r\<lparr>rl_records := recs\<rparr>" "old @ gone"] Cons.prems sp old by (simp add: l split)
  next
    case False
    then have l: "rl_limit t r = (True, r\<lparr>rl_records := recs @ [t]\<rparr>)"
      using Cons.prems(4) by (simp add: rl_limit_def rl_maintain_def recs_def Let_def)
    have "spaced ?q ?p (((old @ gone) @ recs) @ [t])"
      using False old by (intro spaced_snoc [OF sp]) auto
    then show ?thesis
      using Cons.IH [of "r\<lparr>rl_records := recs @ [t]\<rparr>" "old @ gone"] Cons.prems old by (simp add: l split)
  qed
qed

section \<open>Properties\<close>

text \<open>
  C33: when \<open>limit\<close> is called at times that do not go back, any two accepted calls that are \<open>quota\<close> accepted calls
  apart are more than one period apart: no window of one period contains more accepted calls than the quota.
\<close>

theorem rate_bounded:
  assumes "sorted ts" and "q \<noteq> - 1" and "k + unat q < length (let_through ts (new_limiter q p))"
  shows "let_through ts (new_limiter q p) ! k + p < let_through ts (new_limiter q p) ! (k + unat q)"
proof -
  have "spaced (unat q) p (let_through ts (new_limiter q p))"
    using let_through_spaced [OF assms(1), of "new_limiter q p" "[]"] assms(2) by (simp add: new_limiter_def spaced_def)
  with assms(3) show ?thesis by (simp add: spaced_def)
qed

theorem rate_bounded_witness:
  "let_through [1, 2, 3, 12, 13, 14] (new_limiter 2 10) ! 1 + 10 < let_through [1, 2, 3, 12, 13, 14] (new_limiter 2 10) ! (1 + unat (2 :: uint64))"
  by (rule rate_bounded) (simp_all add: new_limiter_def rl_limit_def rl_maintain_def Let_def)

end
