(* ===== verification/Scheduler.thy ===== *)
theory Scheduler
  imports Std_Map
begin

text \<open>
  The job scheduler (\<open>scheduler.h\<close>): jobs are shared objects, a pointer to one is a number; a job holds its
  function, or none after it was cancelled or moved. A function is known by a name, and what a named function
  does to the scheduler and to the rest of the program is a parameter. The loop of \<open>run\<close> may not end.
\<close>

record scheduler =
  sch_now :: time_point
  timers :: "(time_point \<times> nat) list"
  job_do :: "nat \<Rightarrow> nat option"
  next_job :: nat

definition new_scheduler :: "time_point \<Rightarrow> scheduler" where
  "new_scheduler t = \<lparr>sch_now = t, timers = [], job_do = (\<lambda>j. None), next_job = 0\<rparr>"

definition job_cancel :: "nat \<Rightarrow> scheduler \<Rightarrow> scheduler" where
  "job_cancel j sc = sc\<lparr>job_do := (job_do sc)(j := None)\<rparr>"

definition sch_add_job :: "nat \<Rightarrow> time_point \<Rightarrow> scheduler \<Rightarrow> scheduler" where
  "sch_add_job j t sc = (if t \<noteq> time_max then sc\<lparr>timers := multimap_emplace t j (timers sc)\<rparr> else sc)"

definition sch_add :: "time_point \<Rightarrow> nat option \<Rightarrow> scheduler \<Rightarrow> nat \<times> scheduler" where
  "sch_add t f sc =
     (let j = next_job sc
      in (j, sch_add_job j t (sc\<lparr>job_do := (job_do sc)(j := f), next_job := j + 1\<rparr>)))"

text \<open>\<open>edit\<close> takes a reference to the job pointer, which may be null, and points it to the new job.\<close>

definition sch_edit :: "nat option \<Rightarrow> time_point \<Rightarrow> scheduler \<Rightarrow> nat option \<times> scheduler" where
  "sch_edit jo t sc = (case jo of
        None \<Rightarrow> (None, sc)
      | Some j \<Rightarrow>
        let (j', sc) = sch_add t (job_do sc j) (sc\<lparr>job_do := (job_do sc)(j := None)\<rparr>) in (Some j', sc))"

definition getNextJobTime :: "scheduler \<Rightarrow> time_point" where
  "getNextJobTime sc = (case timers sc of [] \<Rightarrow> time_max | (t, _) # _ \<Rightarrow> t)"

definition syncTime :: "time_point \<Rightarrow> scheduler \<Rightarrow> scheduler" where
  "syncTime t sc = sc\<lparr>sch_now := t\<rparr>"

partial_function (option) run_jobs :: "(nat \<Rightarrow> scheduler \<times> 's \<Rightarrow> scheduler \<times> 's) \<Rightarrow> scheduler \<times> 's \<Rightarrow> (scheduler \<times> 's) option" where
  "run_jobs sem x =
     (case timers (fst x) of
        [] \<Rightarrow> Some x
      | e # rest \<Rightarrow>
        if fst e > sch_now (fst x) then Some x
        else
          let x' = ((fst x)\<lparr>timers := rest\<rparr>, snd x)
          in run_jobs sem (case job_do (fst x') (snd e) of None \<Rightarrow> x' | Some f \<Rightarrow> sem f x'))"

definition sch_run :: "(nat \<Rightarrow> scheduler \<times> 's \<Rightarrow> scheduler \<times> 's) \<Rightarrow> scheduler \<times> 's \<Rightarrow> (time_point \<times> scheduler \<times> 's) option" where
  "sch_run sem x = map_option (\<lambda>x. (getNextJobTime (fst x), x)) (run_jobs sem x)"

section \<open>Lemmas\<close>

definition due :: "scheduler \<Rightarrow> (time_point \<times> nat) list" where
  "due sc = filter (\<lambda>e. fst e \<le> sch_now sc) (timers sc)"

definition sch_ok :: "scheduler \<Rightarrow> bool" where
  "sch_ok sc \<longleftrightarrow> sorted (map fst (timers sc))"

lemma sch_add_job_ok: "sch_ok sc \<Longrightarrow> sch_ok (sch_add_job j t sc)"
  by (simp add: sch_ok_def sch_add_job_def)

lemma sch_add_ok: "sch_ok sc \<Longrightarrow> sch_ok (snd (sch_add t f sc))"
  by (simp add: sch_add_def Let_def sch_ok_def sch_add_job_def)

lemma run_jobs_next:
  "timers (fst x) = e # rest \<Longrightarrow> fst e \<le> sch_now (fst x) \<Longrightarrow>
    run_jobs sem x = run_jobs sem (case job_do (fst x) (snd e) of None \<Rightarrow> ((fst x)\<lparr>timers := rest\<rparr>, snd x)
      | Some f \<Rightarrow> sem f ((fst x)\<lparr>timers := rest\<rparr>, snd x))"
  by (subst run_jobs.simps) (simp add: Let_def not_less [symmetric])

lemma run_jobs_stop: "due (fst x) = [] \<Longrightarrow> run_jobs sem x = Some x"
  by (subst run_jobs.simps) (auto simp: due_def split: list.splits if_splits)

text \<open>What a job may do so that the loop ends: keep the time and the order, and add nothing that is due.\<close>

definition looks_ahead :: "(nat \<Rightarrow> scheduler \<times> 's \<Rightarrow> scheduler \<times> 's) \<Rightarrow> bool" where
  "looks_ahead sem \<longleftrightarrow> (\<forall>f x. sch_ok (fst x) \<longrightarrow>
     sch_ok (fst (sem f x)) \<and> sch_now (fst (sem f x)) = sch_now (fst x) \<and> length (due (fst (sem f x))) \<le> length (due (fst x)))"

text \<open>The functions of the jobs that are due, in the order of their times and of their insertion; a cancelled job has none.\<close>

definition due_functions :: "scheduler \<Rightarrow> nat list" where
  "due_functions sc = concat (map (\<lambda>e. case job_do sc (snd e) of None \<Rightarrow> [] | Some f \<Rightarrow> [f]) (due sc))"

text \<open>The numbers of the jobs are old ones.\<close>

definition sch_fresh :: "scheduler \<Rightarrow> bool" where
  "sch_fresh sc \<longleftrightarrow> list_all (\<lambda>e. snd e < next_job sc) (timers sc)"

text \<open>A job that may schedule work for later, and leaves the jobs that are due as they are.\<close>

definition plans_later :: "(nat \<Rightarrow> scheduler \<times> 's \<Rightarrow> scheduler \<times> 's) \<Rightarrow> bool" where
  "plans_later sem \<longleftrightarrow> (\<forall>f x. sch_ok (fst x) \<and> sch_fresh (fst x) \<longrightarrow>
     sch_fresh (fst (sem f x)) \<and> due (fst (sem f x)) = due (fst x) \<and> list_all (\<lambda>e. job_do (fst (sem f x)) (snd e) = job_do (fst x) (snd e)) (due (fst x)))"

text \<open>The same jobs with a log of what is executed.\<close>

definition with_log :: "(nat \<Rightarrow> scheduler \<times> 's \<Rightarrow> scheduler \<times> 's) \<Rightarrow> nat \<Rightarrow> scheduler \<times> 's \<times> nat list \<Rightarrow> scheduler \<times> 's \<times> nat list" where
  "with_log sem f x = (let y = sem f (fst x, fst (snd x)) in (fst y, snd y, snd (snd x) @ [f]))"

lemma due_functions_cong: "due sc' = due sc \<Longrightarrow> list_all (\<lambda>e. job_do sc' (snd e) = job_do sc (snd e)) (due sc) \<Longrightarrow> due_functions sc' = due_functions sc"
  by (auto simp: due_functions_def list_all_iff intro: arg_cong [where f = concat])

text \<open>The next job that is due, taken off the timers.\<close>

lemma due_first:
  assumes "sch_ok sc" and "due sc = d # ds"
  obtains e rest where "timers sc = e # rest" "fst e \<le> sch_now sc" "sch_ok (sc\<lparr>timers := rest\<rparr>)" "due (sc\<lparr>timers := rest\<rparr>) = ds" "d = e"
proof -
  obtain e rest where tm: "timers sc = e # rest" using assms(2) by (cases "timers sc") (auto simp: due_def)
  have "fst e \<le> sch_now sc"
  proof (rule ccontr)
    assume "\<not> fst e \<le> sch_now sc"
    then have "due sc = []" using assms(1) tm by (force simp: due_def sch_ok_def filter_empty_conv)
    with assms(2) show False by simp
  qed
  with that [OF tm] show ?thesis using assms tm by (auto simp: sch_ok_def due_def)
qed

lemma run_jobs_ends:
  assumes ahead: "looks_ahead sem"
  shows "sch_ok sc \<Longrightarrow> \<exists>sc' s' l'. run_jobs sem (sc, s) = Some (sc', s') \<and> run_jobs (with_log sem) (sc, s, l) = Some (sc', s', l')
     \<and> due sc' = [] \<and> sch_now sc' = sch_now sc \<and> (sch_fresh sc \<and> plans_later sem \<longrightarrow> l' = l @ due_functions sc)"
proof (induction "length (due sc)" arbitrary: sc s l rule: less_induct)
  case less
  show ?case
  proof (cases "due sc")
    case Nil
    then show ?thesis using run_jobs_stop [of "(sc, s)" sem] run_jobs_stop [of "(sc, s, l)" "with_log sem"] by (simp add: due_functions_def)
  next
    case (Cons d ds)
    from due_first [OF less.prems Cons] obtain rest where tm: "timers sc = d # rest" and d: "fst d \<le> sch_now sc"
      and ok: "sch_ok (sc\<lparr>timers := rest\<rparr>)" and ds: "due (sc\<lparr>timers := rest\<rparr>) = ds" by metis
    let ?sc = "sc\<lparr>timers := rest\<rparr>"
    have same: "list_all (\<lambda>e. job_do ?sc (snd e) = job_do sc (snd e)) ds" by (simp add: list_all_iff)
    define y where "y = (case job_do sc (snd d) of None \<Rightarrow> (?sc, s) | Some f \<Rightarrow> sem f (?sc, s))"
    define l1 where "l1 = l @ (case job_do sc (snd d) of None \<Rightarrow> [] | Some f \<Rightarrow> [f])"
    have step: "run_jobs sem (sc, s) = run_jobs sem (fst y, snd y)" "run_jobs (with_log sem) (sc, s, l) = run_jobs (with_log sem) (fst y, snd y, l1)"
      using run_jobs_next [of "(sc, s)" d rest sem] run_jobs_next [of "(sc, s, l)" d rest "with_log sem"] tm d
      by (simp_all add: y_def l1_def with_log_def Let_def split: option.splits)
    have y: "sch_ok (fst y)" "sch_now (fst y) = sch_now sc" "length (due (fst y)) \<le> length ds"
      using ahead ok ds by (auto simp: y_def looks_ahead_def split: option.split)
    then have "length (due (fst y)) < length (due sc)" using Cons by simp
    from less.hyps [OF this y(1), of "snd y" l1] obtain sc' s' l' where
      rest: "run_jobs sem (fst y, snd y) = Some (sc', s')" "run_jobs (with_log sem) (fst y, snd y, l1) = Some (sc', s', l')" "due sc' = []"
        "sch_now sc' = sch_now (fst y)" "sch_fresh (fst y) \<and> plans_later sem \<longrightarrow> l' = l1 @ due_functions (fst y)" by blast
    have "l' = l @ due_functions sc" if "sch_fresh sc" "plans_later sem"
    proof -
      have fresh: "sch_fresh ?sc" using that(1) tm by (simp add: sch_fresh_def)
      then have "sch_fresh (fst y) \<and> due (fst y) = ds \<and> list_all (\<lambda>e. job_do (fst y) (snd e) = job_do ?sc (snd e)) ds"
        using that(2) ok ds unfolding y_def plans_later_def by (auto simp: list_all_iff split: option.split)
      moreover from this have "due_functions (fst y) = due_functions ?sc" using due_functions_cong [of "fst y" ?sc] ds by simp
      moreover have "due_functions sc = (case job_do sc (snd d) of None \<Rightarrow> [] | Some f \<Rightarrow> [f]) @ due_functions ?sc"
        using Cons ds by (simp add: due_functions_def)
      ultimately show ?thesis using rest(5) that(2) by (simp add: l1_def)
    qed
    then show ?thesis using step rest y(2) by auto
  qed
qed

text \<open>A job that schedules itself for the current time keeps the loop running for ever.\<close>

definition again :: "nat \<Rightarrow> scheduler \<times> 's \<Rightarrow> scheduler \<times> 's" where
  "again f x = (sch_add_job 0 (sch_now (fst x)) (fst x), snd x)"

lemma run_jobs_loops:
  assumes "timers sc = [(sch_now sc, 0)]" and "job_do sc 0 = Some f" and "sch_now sc \<noteq> time_max"
  shows "run_jobs again (sc, s :: 'a) = None"
proof -
  define P :: "scheduler \<times> 'a \<Rightarrow> bool" where
    "P = (\<lambda>x. timers (fst x) = [(sch_now (fst x), 0)] \<and> job_do (fst x) 0 = Some f \<and> sch_now (fst x) \<noteq> time_max)"
  have "sem = again \<longrightarrow> \<not> P x" if "run_jobs sem x = Some y" for sem x y
    using that
  proof (rule run_jobs.raw_induct [of "\<lambda>sem x y. sem = again \<longrightarrow> \<not> P x" "(sem, x)" y, unfolded prod.case, rotated], intro impI notI)
    fix rec sem x y
    assume IH: "\<And>sem x y. rec sem x = Some y \<Longrightarrow> sem = again \<longrightarrow> \<not> P x"
      and body: "(case timers (fst x) of [] \<Rightarrow> Some x | e # rest \<Rightarrow> if sch_now (fst x) < fst e then Some x
        else let x' = ((fst x)\<lparr>timers := rest\<rparr>, snd x) in rec sem (case job_do (fst x') (snd e) of None \<Rightarrow> x' | Some f \<Rightarrow> sem f x')) = Some y"
      and sem: "sem = again" and x: "P x"
    have "rec again (again f ((fst x)\<lparr>timers := []\<rparr>, snd x)) = Some y" using body sem x by (auto simp: P_def)
    with IH have "\<not> P (again f ((fst x)\<lparr>timers := []\<rparr>, snd x))" by blast
    with x show False by (simp add: P_def again_def sch_add_job_def)
  qed
  moreover have "P (sc, s)" using assms by (simp add: P_def)
  ultimately show ?thesis by (metis not_None_eq)
qed

section \<open>Properties\<close>

text \<open>
  C32: one call of \<open>run\<close> ends whenever the jobs keep the order of the timers and the time and leave no more jobs due than there were: afterwards no job that
  is due is left and the returned time, that of the next job, lies in the future. If the jobs schedule work only for later and leave the others that are due as they are, the functions
  executed are exactly those of the jobs that were due, once each, in the order of their times and of their insertion; cancelled jobs are skipped.
\<close>

theorem scheduler_run:
  assumes ok: "sch_ok sc" and ahead: "looks_ahead sem" and now: "sch_now sc < time_max"
  shows "\<exists>t sc' s' log. sch_run sem (sc, s) = Some (t, sc', s') \<and> sch_run (with_log sem) (sc, s, []) = Some (t, sc', s', log)
    \<and> due sc' = [] \<and> sch_now sc < t \<and> (sch_fresh sc \<and> plans_later sem \<longrightarrow> log = due_functions sc)"
proof -
  obtain sc' s' l where r: "run_jobs sem (sc, s) = Some (sc', s')" "run_jobs (with_log sem) (sc, s, []) = Some (sc', s', l)" "due sc' = []"
      "sch_now sc' = sch_now sc" "sch_fresh sc \<and> plans_later sem \<longrightarrow> l = due_functions sc"
    using run_jobs_ends [OF ahead ok, of s "[]"] by auto
  have "sch_now sc < getNextJobTime sc'"
    using r(3,4) now by (cases "timers sc'") (auto simp: getNextJobTime_def due_def split: if_splits prod.splits)
  then show ?thesis using r by (auto simp: sch_run_def)
qed

text \<open>Jobs that add themselves again for ten time units later.\<close>

definition periodic :: "nat \<Rightarrow> scheduler \<times> unit \<Rightarrow> scheduler \<times> unit" where
  "periodic f x = (snd (sch_add (sch_now (fst x) + 10) (Some f) (fst x)), ())"

lemma multimap_emplace_due: "\<not> k \<le> t \<Longrightarrow> filter (\<lambda>e. fst e \<le> t) (multimap_emplace k v m) = filter (\<lambda>e. fst e \<le> t) m"
  by (induction k v m rule: multimap_emplace.induct) auto

lemma periodic_plans: "looks_ahead periodic" "plans_later periodic"
proof -
  have ok: "sch_ok (fst (periodic f x))" if "sch_ok (fst x)" for f x using that by (simp add: periodic_def sch_add_ok)
  have due: "due (fst (periodic f x)) = due (fst x)" for f x
    by (simp add: periodic_def sch_add_def sch_add_job_def due_def Let_def multimap_emplace_due)
  have now: "sch_now (fst (periodic f x)) = sch_now (fst x)" for f x by (simp add: periodic_def sch_add_def sch_add_job_def Let_def)
  show "looks_ahead periodic" using ok due now by (simp add: looks_ahead_def)
  have "job_do (fst (periodic f x)) (snd e) = job_do (fst x) (snd e)" if "sch_fresh (fst x)" "e \<in> set (due (fst x))" for f x e
    using that by (auto simp: periodic_def sch_add_def sch_add_job_def sch_fresh_def due_def list_all_iff Let_def)
  moreover have "sch_fresh (fst (periodic f x))" if "sch_fresh (fst x)" for f x
    using that by (auto simp: periodic_def sch_add_def sch_add_job_def sch_fresh_def list_all_iff Let_def)
  ultimately show "plans_later periodic" using due by (simp add: plans_later_def list_all_iff)
qed

definition three_jobs :: scheduler where
  "three_jobs = snd (sch_add 3 (Some 8) (snd (sch_add 7 (Some 9) (snd (sch_add 3 (Some 5) (new_scheduler 4))))))"

theorem scheduler_run_witness:
  "\<exists>t sc' s' log. sch_run periodic (three_jobs, ()) = Some (t, sc', s') \<and> sch_run (with_log periodic) (three_jobs, (), []) = Some (t, sc', s', log)
    \<and> due sc' = [] \<and> 4 < t \<and> log = [5, 8]"
proof -
  have "sch_ok three_jobs" "sch_now three_jobs < time_max" "sch_now three_jobs = 4" "sch_fresh three_jobs" "due_functions three_jobs = [5, 8]"
    by (simp_all add: three_jobs_def sch_ok_def sch_add_def sch_add_job_def new_scheduler_def time_max_def sch_fresh_def due_functions_def due_def)
  then show ?thesis using scheduler_run [of three_jobs periodic "()"] periodic_plans by auto
qed

end
