(* ===== verification/Node_Cache.thy ===== *)
theory Node_Cache
  imports Node_Requests Sock_Addr "HOL-Library.Multiset"
begin

text \<open>
  The cache of nodes (\<open>node_cache.h\<close>, \<open>node_cache.cpp\<close>): one ordered map of weak pointers per address
  family. A weak pointer is the reference of the node; which nodes are still owned by somebody at the time of
  a call is the argument \<open>alive\<close>. Random numbers are arguments. The abstract view of a map is the partial
  function from identifiers to live nodes.
\<close>

section \<open>Data\<close>

record node_map =
  nm_nodes :: "(hash \<times> nref) list"
  cleanup_counter :: uint64

record node_cache =
  cache_4 :: node_map
  cache_6 :: node_map

record node_heap = dht_heap +
  next_nd :: nref

definition CLEANUP_MAX_NODES :: nat where
  "CLEANUP_MAX_NODES = 1024"

definition CLEANUP_FREQ :: uint64 where
  "CLEANUP_FREQ = 1024"

definition new_node_map :: node_map where
  "new_node_map = \<lparr>nm_nodes = [], cleanup_counter = 0\<rparr>"

definition make_node :: "hash \<Rightarrow> bytes \<Rightarrow> tid \<Rightarrow> bool \<Rightarrow> node_heap \<Rightarrow> nref \<times> node_heap" where
  "make_node nid addr rnd client h =
     (next_nd h, h\<lparr>nd := (nd h)(next_nd h := new_node_obj nid addr rnd client), next_nd := next_nd h + 1\<rparr>)"

section \<open>One family\<close>

definition nm_count :: "node_map \<Rightarrow> nat" where
  "nm_count m = length (nm_nodes m)"

definition nm_find :: "(nref \<Rightarrow> bool) \<Rightarrow> hash \<Rightarrow> node_map \<Rightarrow> nref option \<times> node_map" where
  "nm_find alive nid m =
     (case map_of (nm_nodes m) nid of
        None \<Rightarrow> (None, m)
      | Some n \<Rightarrow> if alive n then (Some n, m) else (None, m\<lparr>nm_nodes := map_erase nid (nm_nodes m)\<rparr>))"

text \<open>
  \<open>cleanup\<close> walks over at most 1024 entries from a random place and wraps around. The iterator is the position
  in key order; reading through the end iterator would be undefined.
\<close>

fun cleanup_loop :: "(nref \<Rightarrow> bool) \<Rightarrow> nat \<Rightarrow> nat \<Rightarrow> (hash \<times> nref) list \<Rightarrow> (hash \<times> nref) list outcome" where
  "cleanup_loop alive 0 it m = Ret m"
| "cleanup_loop alive (Suc n) it m =
     (let it = if it = length m then 0 else it in
      if it < length m then
        if \<not> alive (snd (m ! it)) then cleanup_loop alive n it (take it m @ drop (Suc it) m)
        else cleanup_loop alive n (it + 1) m
      else Undef)"

definition nm_cleanup :: "(nref \<Rightarrow> bool) \<Rightarrow> hash \<Rightarrow> node_map \<Rightarrow> node_map outcome" where
  "nm_cleanup alive r m =
     bind_outcome
       (cleanup_loop alive (min (length (nm_nodes m)) CLEANUP_MAX_NODES)
          (length (takeWhile (\<lambda>e. fst e < r) (nm_nodes m))) (nm_nodes m))
       (\<lambda>ns. Ret (m\<lparr>nm_nodes := ns\<rparr>))"

text \<open>What \<open>lock\<close> gives for the weak pointer under a key.\<close>

definition locked :: "(nref \<Rightarrow> bool) \<Rightarrow> (hash \<times> nref) list \<Rightarrow> hash \<Rightarrow> nref option" where
  "locked alive m k = (case map_of m k of None \<Rightarrow> None | Some n \<Rightarrow> if alive n then Some n else None)"

text \<open>The new node is owned by the caller while the map is cleaned up.\<close>

definition nm_getNode :: "(nref \<Rightarrow> bool) \<Rightarrow> tid \<Rightarrow> hash \<Rightarrow> hash \<Rightarrow> bytes \<Rightarrow> time_point \<Rightarrow> bool \<Rightarrow> bool
    \<Rightarrow> node_map \<Rightarrow> node_heap \<Rightarrow> (nref \<times> node_map \<times> node_heap) outcome" where
  "nm_getNode alive rnd r nid addr now confirm client m h =
     (case locked alive (nm_nodes m) nid of
        None \<Rightarrow>
          let (n, h) = make_node nid addr rnd client h;
              m = m\<lparr>nm_nodes := map_put nid n (nm_nodes m)\<rparr>;
              c = cleanup_counter m;
              m = m\<lparr>cleanup_counter := c + 1\<rparr>
          in if c = CLEANUP_FREQ
             then bind_outcome (nm_cleanup (alive(n := True)) r m) (\<lambda>m. Ret (n, m\<lparr>cleanup_counter := 0\<rparr>, h))
             else Ret (n, m, h)
      | Some n \<Rightarrow> Ret (n, m, if confirm \<or> isOld now (nd h n) then node_update n addr h else h))"

definition nm_clearBadNodes :: "(nref \<Rightarrow> bool) \<Rightarrow> node_map \<Rightarrow> node_heap \<Rightarrow> node_map \<times> node_heap" where
  "nm_clearBadNodes alive m h =
     (m\<lparr>nm_nodes := filter (\<lambda>e. alive (snd e)) (nm_nodes m), cleanup_counter := 0\<rparr>,
      fold (\<lambda>e h. if alive (snd e) then node_reset (snd e) h else h) (nm_nodes m) h)"

definition nm_setExpired :: "(nref \<Rightarrow> bool) \<Rightarrow> node_map \<Rightarrow> node_heap \<Rightarrow> node_map \<times> node_heap" where
  "nm_setExpired alive m h =
     (m\<lparr>nm_nodes := [], cleanup_counter := 0\<rparr>,
      fold (\<lambda>e h. if alive (snd e) then node_setExpired (snd e) h else h) (nm_nodes m) h)"

text \<open>
  The two iterators of \<open>getCachedNodes\<close>: \<open>it_p\<close> runs downwards over the entries below the identifier, \<open>it_n\<close>
  upwards over the others, and \<open>cend()\<close> ends both.
\<close>

definition node_usable :: "(nref \<Rightarrow> bool) \<Rightarrow> node_heap \<Rightarrow> nref \<Rightarrow> bool" where
  "node_usable alive h n \<longleftrightarrow> alive n \<and> \<not> n_expired (nd h n) \<and> \<not> is_client (nd h n)"

fun walk :: "(nref \<Rightarrow> bool) \<Rightarrow> hash \<Rightarrow> nat \<Rightarrow> (hash \<times> nref) list \<Rightarrow> (hash \<times> nref) list \<Rightarrow> nref list" where
  "walk ok nid 0 ps ns = []"
| "walk ok nid (Suc c) [] [] = []"
| "walk ok nid (Suc c) [] (e # ns) = (if ok (snd e) then snd e # walk ok nid c [] ns else walk ok nid (Suc c) [] ns)"
| "walk ok nid (Suc c) (e # ps) [] = (if ok (snd e) then snd e # walk ok nid c ps [] else walk ok nid (Suc c) ps [])"
| "walk ok nid (Suc c) (p # ps) (e # ns) =
     (if xorCmp nid (fst p) (fst e) < 0
      then if ok (snd p) then snd p # walk ok nid c ps (e # ns) else walk ok nid (Suc c) ps (e # ns)
      else if ok (snd e) then snd e # walk ok nid c (p # ps) ns else walk ok nid (Suc c) (p # ps) ns)"

definition nm_getCachedNodes :: "(nref \<Rightarrow> bool) \<Rightarrow> node_heap \<Rightarrow> hash \<Rightarrow> nat \<Rightarrow> node_map \<Rightarrow> nref list" where
  "nm_getCachedNodes alive h nid cnt m =
     walk (node_usable alive h) nid cnt
       (rev (takeWhile (\<lambda>e. fst e < nid) (nm_nodes m))) (dropWhile (\<lambda>e. fst e < nid) (nm_nodes m))"

section \<open>Both families\<close>

definition nc_cache :: "nat \<Rightarrow> node_cache \<Rightarrow> node_map" where
  "nc_cache af c = (if af = AF_INET then cache_4 c else cache_6 c)"

definition nc_put :: "nat \<Rightarrow> node_map \<Rightarrow> node_cache \<Rightarrow> node_cache" where
  "nc_put af m c = (if af = AF_INET then c\<lparr>cache_4 := m\<rparr> else c\<lparr>cache_6 := m\<rparr>)"

definition new_node_cache :: node_cache where
  "new_node_cache = \<lparr>cache_4 = new_node_map, cache_6 = new_node_map\<rparr>"

definition nc_size :: "nat \<Rightarrow> node_cache \<Rightarrow> nat" where
  "nc_size af c = nm_count (nc_cache af c)"

definition nc_total :: "node_cache \<Rightarrow> nat" where
  "nc_total c = nc_size AF_INET c + nc_size AF_INET6 c"

definition nc_find :: "(nref \<Rightarrow> bool) \<Rightarrow> hash \<Rightarrow> nat \<Rightarrow> node_cache \<Rightarrow> nref option \<times> node_cache" where
  "nc_find alive nid af c = (let (r, m) = nm_find alive nid (nc_cache af c) in (r, nc_put af m c))"

definition nc_getNode :: "(nref \<Rightarrow> bool) \<Rightarrow> tid \<Rightarrow> hash \<Rightarrow> hash \<Rightarrow> bytes \<Rightarrow> time_point \<Rightarrow> bool \<Rightarrow> bool
    \<Rightarrow> node_cache \<Rightarrow> node_heap \<Rightarrow> (nref \<times> node_cache \<times> node_heap) outcome" where
  "nc_getNode alive rnd r nid addr now confirm client c h =
     (if \<not> hash_bool nid then let (n, h) = make_node nid addr rnd client h in Ret (n, c, h)
      else bind_outcome (nm_getNode alive rnd r nid addr now confirm client (nc_cache (getFamily addr) c) h)
        (\<lambda>(n, m, h). Ret (n, nc_put (getFamily addr) m c, h)))"

definition nc_getCachedNodes :: "(nref \<Rightarrow> bool) \<Rightarrow> node_heap \<Rightarrow> hash \<Rightarrow> nat \<Rightarrow> nat \<Rightarrow> node_cache \<Rightarrow> nref list" where
  "nc_getCachedNodes alive h nid af cnt c = nm_getCachedNodes alive h nid cnt (nc_cache af c)"

definition nc_clear_family :: "(nref \<Rightarrow> bool) \<Rightarrow> nat \<Rightarrow> node_cache \<times> node_heap \<Rightarrow> node_cache \<times> node_heap" where
  "nc_clear_family alive af x =
     (let (m, h) = nm_clearBadNodes alive (nc_cache af (fst x)) (snd x) in (nc_put af m (fst x), h))"

definition nc_clearBadNodes :: "(nref \<Rightarrow> bool) \<Rightarrow> nat \<Rightarrow> node_cache \<times> node_heap \<Rightarrow> node_cache \<times> node_heap" where
  "nc_clearBadNodes alive af x =
     (if af = 0 then nc_clear_family alive AF_INET6 (nc_clear_family alive AF_INET x)
      else nc_clear_family alive af x)"

definition nc_destroy :: "(nref \<Rightarrow> bool) \<Rightarrow> node_cache \<Rightarrow> node_heap \<Rightarrow> node_cache \<times> node_heap" where
  "nc_destroy alive c h =
     (let (m4, h) = nm_setExpired alive (cache_4 c) h; (m6, h) = nm_setExpired alive (cache_6 c) h
      in (c\<lparr>cache_4 := m4, cache_6 := m6\<rparr>, h))"

section \<open>Lemmas\<close>

definition nm_ok :: "node_heap \<Rightarrow> node_map \<Rightarrow> bool" where
  "nm_ok h m \<longleftrightarrow> map_sorted (nm_nodes m) \<and> (\<forall>(k, n)\<in>set (nm_nodes m). n_id (nd h n) = k \<and> n < next_nd h)"

lemma locked_cong:
  assumes "map_sorted m" and "map_sorted m'" and "set m' \<subseteq> set m" and "\<forall>e\<in>set m. alive (snd e) \<longrightarrow> e \<in> set m'"
  shows "locked alive m' = locked alive m"
proof
  fix k
  have some: "locked alive xs k = Some n \<longleftrightarrow> (k, n) \<in> set xs \<and> alive n" if "map_sorted xs" for xs n
    using map_of_in_set [OF that, of k n] by (auto simp: locked_def split: option.splits if_splits)
  have "locked alive m' k = Some n \<longleftrightarrow> locked alive m k = Some n" for n
    using assms by (auto simp: some)
  then show "locked alive m' k = locked alive m k" by (metis not_None_eq)
qed

lemma drop_one:
  assumes "i < length m"
  shows "map_sorted m \<Longrightarrow> map_sorted (take i m @ drop (Suc i) m)"
    and "set (take i m @ drop (Suc i) m) \<subseteq> set m"
    and "e \<in> set m \<Longrightarrow> e \<noteq> m ! i \<Longrightarrow> e \<in> set (take i m @ drop (Suc i) m)"
proof -
  have m: "m = take i m @ m ! i # drop (Suc i) m" using assms by (rule id_take_nth_drop)
  show "map_sorted (take i m @ drop (Suc i) m)" if "map_sorted m"
    using that by (subst (asm) m) (simp add: map_sorted_def sorted_wrt_append)
  show "set (take i m @ drop (Suc i) m) \<subseteq> set m" by (auto dest: in_set_takeD in_set_dropD)
  show "e \<in> set (take i m @ drop (Suc i) m)" if "e \<in> set m" "e \<noteq> m ! i"
    using that by (subst (asm) m) auto
qed

text \<open>The walk of \<open>cleanup\<close> never reads through the end iterator and drops dead entries only.\<close>

lemma cleanup_loop_keeps:
  "map_sorted m \<Longrightarrow> n \<le> length m \<Longrightarrow> it \<le> length m \<Longrightarrow>
    \<exists>m'. cleanup_loop alive n it m = Ret m' \<and> map_sorted m' \<and> set m' \<subseteq> set m \<and> (\<forall>e\<in>set m. alive (snd e) \<longrightarrow> e \<in> set m')"
proof (induction n arbitrary: it m)
  case (Suc n)
  define i where "i = (if it = length m then 0 else it)"
  have i: "i < length m" using Suc.prems by (auto simp: i_def)
  show ?case
  proof (cases "alive (snd (m ! i))")
    case True
    have loop: "cleanup_loop alive (Suc n) it m = cleanup_loop alive n (i + 1) m"
      using i True by (simp add: i_def Let_def)
    show ?thesis using Suc.IH [of m "i + 1"] Suc.prems i by (subst loop) simp
  next
    case False
    let ?m = "take i m @ drop (Suc i) m"
    have loop: "cleanup_loop alive (Suc n) it m = cleanup_loop alive n i ?m"
      using i False by (simp add: i_def Let_def)
    obtain m' where m': "cleanup_loop alive n i ?m = Ret m'" "map_sorted m'" "set m' \<subseteq> set ?m"
        "\<forall>e\<in>set ?m. alive (snd e) \<longrightarrow> e \<in> set m'"
      using Suc.IH [OF drop_one(1) [OF i Suc.prems(1)], of i] Suc.prems(2) i by force
    have "e \<in> set m'" if "e \<in> set m" "alive (snd e)" for e
      using m'(4) drop_one(3) [OF i that(1)] that(2) False by auto
    then show ?thesis using loop m' drop_one(2) [OF i] by auto
  qed
qed simp

lemma nm_cleanup_keeps:
  assumes "map_sorted (nm_nodes m)"
  shows "\<exists>m'. nm_cleanup alive r m = Ret m' \<and> map_sorted (nm_nodes m') \<and> set (nm_nodes m') \<subseteq> set (nm_nodes m)
    \<and> locked alive (nm_nodes m') = locked alive (nm_nodes m)"
proof -
  obtain ns where "cleanup_loop alive (min (length (nm_nodes m)) CLEANUP_MAX_NODES)
      (length (takeWhile (\<lambda>e. fst e < r) (nm_nodes m))) (nm_nodes m) = Ret ns"
    "map_sorted ns" "set ns \<subseteq> set (nm_nodes m)" "\<forall>e\<in>set (nm_nodes m). alive (snd e) \<longrightarrow> e \<in> set ns"
    using cleanup_loop_keeps [OF assms, of "min (length (nm_nodes m)) CLEANUP_MAX_NODES"
        "length (takeWhile (\<lambda>e. fst e < r) (nm_nodes m))" alive] by (auto simp: length_takeWhile_le)
  then show ?thesis using locked_cong [OF assms, of ns alive] by (simp add: nm_cleanup_def)
qed

lemma set_map_put: "map_sorted m \<Longrightarrow> set (map_put k v m) = insert (k, v) {e \<in> set m. fst e \<noteq> k}"
proof (rule set_eqI)
  fix e :: "'a \<times> 'b"
  assume m: "map_sorted m"
  obtain a b where e: "e = (a, b)" by (cases e)
  have "e \<in> set (map_put k v m) \<longleftrightarrow> ((map_of m)(k \<mapsto> v)) a = Some b"
    using map_of_in_set [OF map_put_sorted [OF m], of k v a b] m by (simp add: e)
  then show "e \<in> set (map_put k v m) \<longleftrightarrow> e \<in> insert (k, v) {e \<in> set m. fst e \<noteq> k}"
    using map_of_in_set [OF m, of a b] by (auto simp: e)
qed

lemma locked_put: "map_sorted m \<Longrightarrow> locked (alive(n := True)) (map_put k n m) k = Some n"
  by (simp add: locked_def)

lemma locked_put_other:
  assumes "map_sorted m" and "\<forall>e\<in>set m. snd e \<noteq> n"
  shows "locked (alive(n := True)) (map_put k n m) = (locked alive m)(k \<mapsto> n)"
proof
  fix j
  have "map_of m j \<noteq> Some n" using assms map_of_in_set [of m j n] by auto
  then show "locked (alive(n := True)) (map_put k n m) j = ((locked alive m)(k \<mapsto> n)) j"
    using assms(1) by (auto simp: locked_def split: option.splits)
qed

text \<open>A new node is filed under its identifier; the cleanup that may follow is not seen through \<open>locked\<close>.\<close>

lemma nm_getNode_new:
  fixes nid :: hash and addr :: bytes and rnd :: tid and client :: bool
  assumes "nm_ok h m" and "locked alive (nm_nodes m) nid = None"
  defines "n \<equiv> next_nd h" and "h' \<equiv> snd (make_node nid addr rnd client h)"
  shows "\<exists>m'. nm_getNode alive rnd r nid addr now confirm client m h = Ret (n, m', h') \<and> nm_ok h' m'
    \<and> locked (alive(n := True)) (nm_nodes m') = (locked alive (nm_nodes m))(nid \<mapsto> n)"
proof -
  let ?ns = "map_put nid n (nm_nodes m)"
  have s: "map_sorted (nm_nodes m)" and old: "\<forall>e\<in>set (nm_nodes m). snd e \<noteq> n"
    using assms(1) by (auto simp: nm_ok_def n_def)
  have ok: "nm_ok h' m'" if "map_sorted (nm_nodes m')" "set (nm_nodes m') \<subseteq> set ?ns" for m'
    using assms(1) that set_map_put [OF s, of nid n]
    by (fastforce simp: nm_ok_def h'_def n_def make_node_def new_node_obj_def)
  show ?thesis
  proof (cases "cleanup_counter m = CLEANUP_FREQ")
    case False
    then show ?thesis
      using assms(2) ok [of "m\<lparr>nm_nodes := ?ns, cleanup_counter := cleanup_counter m + 1\<rparr>"] s
      by (auto simp: nm_getNode_def make_node_def Let_def n_def h'_def locked_put_other [OF s old, unfolded n_def])
  next
    case True
    let ?m = "m\<lparr>nm_nodes := ?ns, cleanup_counter := cleanup_counter m + 1\<rparr>"
    obtain m1 where m1: "nm_cleanup (alive(n := True)) r ?m = Ret m1" "map_sorted (nm_nodes m1)"
        "set (nm_nodes m1) \<subseteq> set ?ns" "locked (alive(n := True)) (nm_nodes m1) = locked (alive(n := True)) ?ns"
      using nm_cleanup_keeps [of ?m "alive(n := True)" r] s by auto
    have "nm_getNode alive rnd r nid addr now confirm client m h = Ret (n, m1\<lparr>cleanup_counter := 0\<rparr>, h')"
      using assms(2) True m1(1) by (simp add: nm_getNode_def make_node_def Let_def n_def h'_def)
    then show ?thesis
      using ok [of "m1\<lparr>cleanup_counter := 0\<rparr>"] m1 locked_put_other [OF s old] by simp
  qed
qed

lemma nm_getNode_old:
  fixes addr :: bytes and now :: time_point and confirm :: bool
  assumes "nm_ok h m" and "locked alive (nm_nodes m) nid = Some n"
  defines "h' \<equiv> if confirm \<or> isOld now (nd h n) then node_update n addr h else h"
  shows "nm_getNode alive rnd r nid addr now confirm client m h = Ret (n, m, h') \<and> nm_ok h' m"
  using assms by (auto simp: nm_getNode_def nm_ok_def node_update_def upd_nd_def)

section \<open>The contract of an object cache\<close>

text \<open>
  What the network engine relies on: asking for a key returns the object known under it while that object
  exists, and makes one otherwise; nothing else becomes unknown.
\<close>

locale object_cache =
  fixes view :: "'s \<Rightarrow> 'k \<Rightarrow> 'o option" and get :: "'k \<Rightarrow> 's \<Rightarrow> ('o \<times> 's) outcome" and ok :: "'s \<Rightarrow> bool"
  assumes get_ret: "ok s \<Longrightarrow> \<exists>n s'. get k s = Ret (n, s') \<and> ok s' \<and> view s' = (view s)(k \<mapsto> n)"
    and get_known: "ok s \<Longrightarrow> view s k = Some m \<Longrightarrow> get k s = Ret (n, s') \<Longrightarrow> n = m"
begin

fun gets :: "'k list \<Rightarrow> 's \<Rightarrow> ('o list \<times> 's) outcome" where
  "gets [] s = Ret ([], s)"
| "gets (k # ks) s = bind_outcome (get k s) (\<lambda>(n, s). bind_outcome (gets ks s) (\<lambda>(ns, s). Ret (n # ns, s)))"

lemma gets_known: "ok s \<Longrightarrow> \<exists>ns s'. gets ks s = Ret (ns, s') \<and> ok s' \<and> length ns = length ks
    \<and> (\<forall>k m. view s k = Some m \<longrightarrow> view s' k = Some m) \<and> (\<forall>i<length ks. view s' (ks ! i) = Some (ns ! i))"
proof (induction ks arbitrary: s)
  case (Cons k ks)
  obtain n s1 where s1: "get k s = Ret (n, s1)" "ok s1" "view s1 = (view s)(k \<mapsto> n)" using get_ret [OF Cons.prems] by blast
  obtain ns s' where s': "gets ks s1 = Ret (ns, s')" "ok s'" "length ns = length ks"
      "\<forall>k m. view s1 k = Some m \<longrightarrow> view s' k = Some m" "\<forall>i<length ks. view s' (ks ! i) = Some (ns ! i)"
    using Cons.IH [OF s1(2)] by blast
  have "view s1 j = Some m" if "view s j = Some m" for j m
    using that s1(1,3) get_known [OF Cons.prems] by auto
  then show ?case using s1 s' by (auto simp: nth_Cons split: nat.split)
qed simp

text \<open>Requests for one key, however many are made in between, return one object.\<close>

lemma gets_same:
  assumes "ok s" and "gets ks s = Ret (ns, s')" and "i < length ks" and "j < length ks" and "ks ! i = ks ! j"
  shows "ns ! i = ns ! j"
  using gets_known [OF assms(1), of ks] assms(2-) by (metis Pair_inject option.inject outcome.inject)

end

text \<open>The state of the interpretation: the owned nodes, the map and the heap. The caller keeps what it gets.\<close>

type_synonym cache_state = "(nref \<Rightarrow> bool) \<times> node_map \<times> node_heap"

fun cache_view :: "cache_state \<Rightarrow> hash \<Rightarrow> nref option" where
  "cache_view (alive, m, h) = locked alive (nm_nodes m)"

fun cache_get :: "tid \<Rightarrow> hash \<Rightarrow> bytes \<Rightarrow> time_point \<Rightarrow> bool \<Rightarrow> bool \<Rightarrow> hash \<Rightarrow> cache_state \<Rightarrow> (nref \<times> cache_state) outcome" where
  "cache_get rnd r addr now confirm client nid (alive, m, h) =
     bind_outcome (nm_getNode alive rnd r nid addr now confirm client m h) (\<lambda>(n, m, h). Ret (n, alive(n := True), m, h))"

fun cache_ok :: "cache_state \<Rightarrow> bool" where
  "cache_ok (alive, m, h) = nm_ok h m"

lemma locked_alive: "locked alive m k = Some n \<Longrightarrow> alive(n := True) = alive"
  by (auto simp: locked_def fun_eq_iff split: option.splits if_splits)

lemma cache_get_cases:
  assumes "cache_ok s"
  shows "\<exists>n s'. cache_get rnd r addr now confirm client k s = Ret (n, s') \<and> cache_ok s'
    \<and> cache_view s' = (cache_view s)(k \<mapsto> n) \<and> (\<forall>m. cache_view s k = Some m \<longrightarrow> n = m)"
proof -
  obtain alive m h where s: "s = (alive, m, h)" by (cases s)
  have ok: "nm_ok h m" using assms s by simp
  show ?thesis
  proof (cases "locked alive (nm_nodes m) k")
    case None
    then show ?thesis using nm_getNode_new [OF ok None, of rnd r addr now confirm client] s by auto
  next
    case (Some n)
    then show ?thesis
      using nm_getNode_old [OF ok Some, of rnd r addr now confirm client] s locked_alive [OF Some] by auto
  qed
qed

interpretation nodes: object_cache cache_view "cache_get rnd r addr now confirm client" cache_ok
  for rnd r addr now confirm client
proof
  show "\<exists>n s'. cache_get rnd r addr now confirm client k s = Ret (n, s') \<and> cache_ok s' \<and> cache_view s' = (cache_view s)(k \<mapsto> n)"
    if "cache_ok s" for s k using cache_get_cases [OF that] by blast
  show "n = m" if "cache_ok s" "cache_view s k = Some m" "cache_get rnd r addr now confirm client k s = Ret (n, s')"
    for s k m n s' using cache_get_cases [OF that(1), of rnd r addr now confirm client k] that(2,3) by auto
qed

section \<open>Nodes around an identifier\<close>

text \<open>The order in which the two iterators visit the entries.\<close>

fun outward :: "hash \<Rightarrow> (hash \<times> nref) list \<Rightarrow> (hash \<times> nref) list \<Rightarrow> (hash \<times> nref) list" where
  "outward nid [] ns = ns"
| "outward nid ps [] = ps"
| "outward nid (p # ps) (e # ns) =
     (if xorCmp nid (fst p) (fst e) < 0 then p # outward nid ps (e # ns) else e # outward nid (p # ps) ns)"

lemma outward_Nil [simp]: "outward nid ps [] = ps"
  by (cases ps) simp_all

lemma walk_outward: "walk ok nid c ps ns = take c (filter ok (map snd (outward nid ps ns)))"
  by (induction ok nid c ps ns rule: walk.induct) simp_all

lemma outward_mset: "mset (outward nid ps ns) = mset ps + mset ns"
  by (induction nid ps ns rule: outward.induct) simp_all

lemma nm_ok_refs: "nm_ok h m \<Longrightarrow> distinct (map snd (nm_nodes m))"
proof -
  assume ok: "nm_ok h m"
  then have "map fst (nm_nodes m) = map (\<lambda>n. n_id (nd h n)) (map snd (nm_nodes m))" by (auto simp: nm_ok_def)
  moreover have "distinct (map fst (nm_nodes m))" using ok by (simp add: nm_ok_def map_sorted_distinct)
  ultimately show ?thesis by (metis distinct_map)
qed

lemma cached_take:
  obtains xs where "nm_getCachedNodes alive h nid cnt m = take cnt (filter (node_usable alive h) xs)"
    and "mset xs = mset (map snd (nm_nodes m))"
proof
  let ?xs = "outward nid (rev (takeWhile (\<lambda>e. fst e < nid) (nm_nodes m))) (dropWhile (\<lambda>e. fst e < nid) (nm_nodes m))"
  show "nm_getCachedNodes alive h nid cnt m = take cnt (filter (node_usable alive h) (map snd ?xs))"
    by (simp add: nm_getCachedNodes_def walk_outward)
  have "mset ?xs = mset (takeWhile (\<lambda>e. fst e < nid) (nm_nodes m) @ dropWhile (\<lambda>e. fst e < nid) (nm_nodes m))"
    by (simp only: outward_mset mset_rev mset_append)
  then show "mset (map snd ?xs) = mset (map snd (nm_nodes m))" by simp
qed

text \<open>
  The entries next to an identifier in key order need not be the closest ones in the XOR metric: one node is asked
  for and the farther of two is returned.
\<close>

lemma cached_not_closest:
  assumes "nm_nodes m = [([8], 0), ([15], 1)]" and "\<forall>n. node_usable alive h n"
  shows "nm_getCachedNodes alive h [7] 1 m = [0]" and "xorCmp [7] [15] [8] < 0"
  using assms by (simp_all add: nm_getCachedNodes_def)

section \<open>The whole cache\<close>

definition nc_ok :: "node_heap \<Rightarrow> node_cache \<Rightarrow> bool" where
  "nc_ok h c \<longleftrightarrow> nm_ok h (cache_4 c) \<and> nm_ok h (cache_6 c)"

definition nc_view :: "(nref \<Rightarrow> bool) \<Rightarrow> node_cache \<Rightarrow> nat \<Rightarrow> hash \<Rightarrow> nref option" where
  "nc_view alive c af = locked alive (nm_nodes (nc_cache af c))"

lemma nc_ok_cache: "nc_ok h c \<Longrightarrow> nm_ok h (nc_cache af c)"
  by (simp add: nc_ok_def nc_cache_def)

lemma nm_ok_heap: "nm_ok h m \<Longrightarrow> next_nd h \<le> next_nd h' \<Longrightarrow> \<forall>n<next_nd h. n_id (nd h' n) = n_id (nd h n) \<Longrightarrow> nm_ok h' m"
  by (fastforce simp: nm_ok_def)

lemma nc_ok_put:
  assumes "nc_ok h c" and "nm_ok h' m" and "next_nd h \<le> next_nd h'" and "\<forall>n<next_nd h. n_id (nd h' n) = n_id (nd h n)"
  shows "nc_ok h' (nc_put af m c)"
  using assms nm_ok_heap by (auto simp: nc_ok_def nc_put_def)

lemma nc_view_put: "nc_view alive (nc_put af m c) af' =
    (if (af' = AF_INET) = (af = AF_INET) then locked alive (nm_nodes m) else nc_view alive c af')"
  by (auto simp: nc_view_def nc_put_def nc_cache_def)

lemma locked_fresh: "nm_ok h m \<Longrightarrow> locked (alive(next_nd h := True)) (nm_nodes m) = locked alive (nm_nodes m)"
  using map_of_SomeD by (fastforce simp: nm_ok_def locked_def fun_eq_iff split: option.splits)

text \<open>The effect of \<open>clearBadNodes\<close>: every live node of the map gets a new chance and dead entries go.\<close>

lemma reset_fold:
  "nd (fold (\<lambda>e h. if alive (snd e) then node_reset (snd e) h else h) xs h) n =
     (if alive n \<and> n \<in> snd ` set xs then (nd h n)\<lparr>n_expired := False, reply_time := time_min\<rparr> else nd h n)"
  by (induction xs arbitrary: h) (auto simp: node_reset_def upd_nd_def)

lemma nm_clearBadNodes_effect:
  assumes "nm_ok h m" and "nm_clearBadNodes alive m h = (m', h')"
  shows "locked alive (nm_nodes m') = locked alive (nm_nodes m)" and "\<forall>e\<in>set (nm_nodes m'). alive (snd e) \<and> \<not> n_expired (nd h' (snd e))"
proof -
  have m: "nm_nodes m' = filter (\<lambda>e. alive (snd e)) (nm_nodes m)" using assms(2) by (auto simp: nm_clearBadNodes_def)
  have s: "map_sorted (nm_nodes m)" using assms(1) by (simp add: nm_ok_def)
  then have "map_sorted (nm_nodes m')" by (simp add: m map_sorted_def sorted_wrt_map sorted_wrt_filter)
  then show "locked alive (nm_nodes m') = locked alive (nm_nodes m)" by (intro locked_cong [OF s]) (auto simp: m)
  have h: "h' = fold (\<lambda>e h. if alive (snd e) then node_reset (snd e) h else h) (nm_nodes m) h"
    using assms(2) by (simp add: nm_clearBadNodes_def)
  show "\<forall>e\<in>set (nm_nodes m'). alive (snd e) \<and> \<not> n_expired (nd h' (snd e))"
    by (auto simp: m h reset_fold)
qed

lemma nc_getNode_effect:
  assumes ok: "nc_ok h c" and "hash_bool nid"
  shows "\<exists>n c' h'. nc_getNode alive rnd r nid addr now confirm client c h = Ret (n, c', h') \<and> nc_ok h' c'
    \<and> (n, h') = (case nc_view alive c (getFamily addr) nid of
          Some n \<Rightarrow> (n, if confirm \<or> isOld now (nd h n) then node_update n addr h else h)
        | None \<Rightarrow> make_node nid addr rnd client h)
    \<and> (\<forall>af. nc_view (alive(n := True)) c' af =
        (if (af = AF_INET) = (getFamily addr = AF_INET) then (nc_view alive c af)(nid \<mapsto> n) else nc_view alive c af))"
proof -
  let ?af = "getFamily addr"
  have m: "nm_ok h (nc_cache ?af c)" by (rule nc_ok_cache [OF ok])
  have same: "nc_view alive c af = locked alive (nm_nodes (nc_cache ?af c))" if "(af = AF_INET) = (?af = AF_INET)" for af
    using that by (auto simp: nc_view_def nc_cache_def)
  show ?thesis
  proof (cases "locked alive (nm_nodes (nc_cache ?af c)) nid")
    case None
    let ?n = "next_nd h" and ?h = "snd (make_node nid addr rnd client h)"
    obtain m' where m': "nm_getNode alive rnd r nid addr now confirm client (nc_cache ?af c) h = Ret (?n, m', ?h)" "nm_ok ?h m'"
        "locked (alive(?n := True)) (nm_nodes m') = (locked alive (nm_nodes (nc_cache ?af c)))(nid \<mapsto> ?n)"
      using nm_getNode_new [OF m None] by blast
    have "nc_ok ?h (nc_put ?af m' c)" by (rule nc_ok_put [OF ok m'(2)]) (simp_all add: make_node_def)
    moreover have "nc_view (alive(?n := True)) c af = nc_view alive c af" for af
      unfolding nc_view_def by (rule locked_fresh [OF nc_ok_cache [OF ok]])
    moreover have "(?n, ?h) = make_node nid addr rnd client h" by (simp add: make_node_def)
    ultimately show ?thesis
      using assms(2) m'(1,3) None same by (simp add: nc_getNode_def nc_view_put nc_view_def [of alive c ?af])
  next
    case (Some n)
    let ?h = "if confirm \<or> isOld now (nd h n) then node_update n addr h else h"
    have r: "nm_getNode alive rnd r nid addr now confirm client (nc_cache ?af c) h = Ret (n, nc_cache ?af c, ?h)"
        "nm_ok ?h (nc_cache ?af c)"
      using nm_getNode_old [OF m Some] by blast+
    have "nc_ok ?h (nc_put ?af (nc_cache ?af c) c)"
      by (rule nc_ok_put [OF ok r(2)]) (simp_all add: node_update_def upd_nd_def)
    then show ?thesis
      using assms(2) r(1) Some same
      by (simp add: nc_getNode_def nc_view_put locked_alive [OF Some] fun_upd_idem nc_view_def [of alive c ?af])
  qed
qed

section \<open>Properties\<close>

text \<open>
  C20: the cache is, for each address family, a partial function from identifiers to live nodes. Asking for a
  node with a valid identifier always returns: the live node of that identifier if there is one, with its address
  updated exactly when the caller confirms it or the node is old, and otherwise a fresh node that is then
  known under the identifier. No other identifier is affected, not even by the clean-up that runs once in a while.
\<close>

theorem node_cache_refines:
  assumes ok: "nc_ok h c" and "hash_bool nid"
  shows "\<exists>n c' h'. nc_getNode alive rnd r nid addr now confirm client c h = Ret (n, c', h') \<and> nc_ok h' c'
    \<and> (n, h') = (case nc_view alive c (getFamily addr) nid of
          Some n \<Rightarrow> (n, if confirm \<or> isOld now (nd h n) then node_update n addr h else h)
        | None \<Rightarrow> make_node nid addr rnd client h)
    \<and> (\<forall>af. nc_view (alive(n := True)) c' af =
        (if (af = AF_INET) = (getFamily addr = AF_INET) then (nc_view alive c af)(nid \<mapsto> n) else nc_view alive c af))"
  using nc_getNode_effect [OF assms] .

definition empty_node_heap :: node_heap where
  "empty_node_heap = dht_heap.extend init_heap \<lparr>next_nd = 0\<rparr>"

theorem node_cache_refines_witness:
  "\<exists>n c' h'. nc_getNode (\<lambda>n. False) 5 [9] [1, 2, 3, 4] (setFamily AF_INET []) 0 True False new_node_cache empty_node_heap = Ret (n, c', h') \<and> nc_ok h' c'
    \<and> (n, h') = (case nc_view (\<lambda>n. False) new_node_cache (getFamily (setFamily AF_INET [])) [1, 2, 3, 4] of
          Some n \<Rightarrow> (n, if True \<or> isOld 0 (nd empty_node_heap n) then node_update n (setFamily AF_INET []) empty_node_heap else empty_node_heap)
        | None \<Rightarrow> make_node [1, 2, 3, 4] (setFamily AF_INET []) 5 False empty_node_heap)
    \<and> (\<forall>af. nc_view ((\<lambda>n. False)(n := True)) c' af =
        (if (af = AF_INET) = (getFamily (setFamily AF_INET []) = AF_INET) then (nc_view (\<lambda>n. False) new_node_cache af)([1, 2, 3, 4] \<mapsto> n)
         else nc_view (\<lambda>n. False) new_node_cache af))"
  by (rule node_cache_refines) (simp_all add: nc_ok_def nm_ok_def new_node_cache_def new_node_map_def map_sorted_def hash_bool_def chunks.simps eval_nat_numeral)

text \<open>
  \<open>getCachedNodes\<close> returns at most the requested number of nodes, each once, and only live nodes of the
  cache that are neither expired nor clients; it returns fewer than requested only when these are all there are.
\<close>

theorem cached_nodes_complete:
  fixes alive :: "nref \<Rightarrow> bool" and nid :: hash and af cnt :: nat
  assumes ok: "nc_ok h c"
  defines "good \<equiv> {n \<in> snd ` set (nm_nodes (nc_cache af c)). alive n \<and> \<not> n_expired (nd h n) \<and> \<not> is_client (nd h n)}"
    and "res \<equiv> nc_getCachedNodes alive h nid af cnt c"
  shows "distinct res \<and> set res \<subseteq> good \<and> length res = min cnt (card good)"
proof -
  let ?m = "nc_cache af c"
  obtain xs where xs: "nm_getCachedNodes alive h nid cnt ?m = take cnt (filter (node_usable alive h) xs)"
      "mset xs = mset (map snd (nm_nodes ?m))"
    by (rule cached_take)
  have d: "distinct xs" using nm_ok_refs [OF nc_ok_cache [OF ok, of af]] xs(2) by (metis mset_eq_imp_distinct_iff)
  have "set (filter (node_usable alive h) xs) = good"
    using mset_eq_setD [OF xs(2)] by (auto simp: good_def node_usable_def)
  moreover have "card (set (filter (node_usable alive h) xs)) = length (filter (node_usable alive h) xs)"
    using distinct_card [OF distinct_filter [OF d]] .
  moreover have "distinct (take cnt (filter (node_usable alive h) xs))" using d by simp
  ultimately show ?thesis
    by (auto simp: res_def nc_getCachedNodes_def xs(1) dest: in_set_takeD)
qed

end
