(* ===== verification/Search_Node.thy ===== *)
theory Search_Node
  imports Op_Cache Scheduler Dht_Store Routing "HOL-Library.Option_ord"
begin

text \<open>
  A node within a search (\<open>struct SearchNode\<close> of \<open>search.h\<close>): what was asked from it, what it was told and
  what it is listened to for. Queries are shared objects: a pointer is \<open>None\<close> when null, \<open>qry\<close> gives the
  query behind it. Requests are references into the heap; the maps of get requests never hold a null pointer,
  as all entries come from the sending functions of the network engine. The calls a destroyed listen status
  made to its callbacks are moved to the log of the world.
\<close>

type_synonym qref = "nat option"

section \<open>Data\<close>

record listen_status =
  ls_cache :: value_cache
  ls_job :: "nat option"
  ls_req :: "rref option"
  ls_socket :: tid

record search_node =
  sn_node :: nref
  probe_query :: qref
  pagination_queries :: "(qref \<times> qref list) list"
  getStatus :: "(qref \<times> rref) list"
  listenStatus :: "(qref \<times> listen_status) list"
  acked :: "(value_id \<times> rref option \<times> time_point) list"
  sn_token :: bytes
  last_get_reply :: time_point
  candidate :: bool

datatype search_call = DoneCall nat bool "nref list" | ListenCall qref cache_call

record search_world = dht_heap +
  w_sched :: scheduler
  w_log :: "search_call list"

definition REANNOUNCE_MARGIN :: int where
  "REANNOUNCE_MARGIN = seconds 10"

definition LISTEN_NODES :: nat where
  "LISTEN_NODES = 4"

definition new_search_node :: "nref \<Rightarrow> search_node" where
  "new_search_node n = \<lparr>sn_node = n, probe_query = None, pagination_queries = [], getStatus = [], listenStatus = [],
     acked = [], sn_token = [], last_get_reply = time_min, candidate = False\<rparr>"

definition req_completed :: "dht_request \<Rightarrow> bool" where
  "req_completed r = (rq_state r = COMPLETED)"

section \<open>Get requests\<close>

definition sn_isSynced :: "'a dht_heap_scheme \<Rightarrow> time_point \<Rightarrow> search_node \<Rightarrow> bool" where
  "sn_isSynced h now n \<longleftrightarrow> \<not> n_expired (nd h (sn_node n)) \<and> sn_token n \<noteq> [] \<and> last_get_reply n \<ge> now - NODE_EXPIRE_TIME"

definition getSyncTime :: "'a dht_heap_scheme \<Rightarrow> time_point \<Rightarrow> search_node \<Rightarrow> time_point" where
  "getSyncTime h now n =
     (if n_expired (nd h (sn_node n)) \<or> sn_token n = [] then now else last_get_reply n + NODE_EXPIRE_TIME)"

definition hasStartedPagination :: "qref \<Rightarrow> search_node \<Rightarrow> bool" where
  "hasStartedPagination q n =
     (case map_of (pagination_queries n) q of
        None \<Rightarrow> False
      | Some qs \<Rightarrow> list_ex (\<lambda>q. map_of (getStatus n) q \<noteq> None) qs)"

text \<open>The loop of \<open>canGet\<close> over the flags pending, completed and pending for this query, with its break.\<close>

fun get_flags :: "(nat \<Rightarrow> query) \<Rightarrow> 'a dht_heap_scheme \<Rightarrow> time_point \<Rightarrow> qref \<Rightarrow> bool \<times> bool \<times> bool \<Rightarrow> (qref \<times> rref) list \<Rightarrow> bool \<times> bool \<times> bool" where
  "get_flags qry h upd q f [] = f"
| "get_flags qry h upd q (p, c, ps) ((k, r) # rest) =
     (let p = p \<or> pending (rq h r) in
      if k \<noteq> None \<and> q \<noteq> None \<and> query_isSatisfiedBy (qry (the q)) (qry (the k)) then
        let (c, ps) = (if pending (rq h r) then (c, True)
              else if req_completed (rq h r) \<and> \<not> upd > rq_reply_time (rq h r) then (True, ps) else (c, ps))
        in if c \<and> ps then (p, c, ps) else get_flags qry h upd q (p, c, ps) rest
      else get_flags qry h upd q (p, c, ps) rest)"

definition canGet :: "(nat \<Rightarrow> query) \<Rightarrow> 'a dht_heap_scheme \<Rightarrow> time_point \<Rightarrow> time_point \<Rightarrow> qref \<Rightarrow> search_node \<Rightarrow> bool" where
  "canGet qry h now upd q n =
     (if n_expired (nd h (sn_node n)) then False
      else let (p, c, ps) = get_flags qry h upd q (False, False, False) (getStatus n)
           in \<not> p \<and> now > last_get_reply n + NODE_EXPIRE_TIME \<or> \<not> (c \<or> ps \<or> hasStartedPagination q n))"

definition sn_isDone :: "'a dht_heap_scheme \<Rightarrow> qref \<Rightarrow> search_node \<Rightarrow> bool" where
  "sn_isDone h q n =
     (if hasStartedPagination q n then
        \<not> list_ex (\<lambda>q. case map_of (getStatus n) q of None \<Rightarrow> False | Some r \<Rightarrow> pending (rq h r))
            (the (map_of (pagination_queries n) q))
      else case (if q = None then None else map_of (getStatus n) q) of
             None \<Rightarrow> False
           | Some r \<Rightarrow> \<not> pending (rq h r))"

definition cancelGet :: "search_node \<Rightarrow> 'a dht_heap_scheme \<Rightarrow> search_node \<times> 'a dht_heap_scheme" where
  "cancelGet n h =
     (n\<lparr>getStatus := []\<rparr>,
      fold (\<lambda>(q, r) h. if pending (rq h r) then node_cancelRequest (sn_node n) (Some r) h else h) (getStatus n) h)"

definition pendingGet :: "'a dht_heap_scheme \<Rightarrow> search_node \<Rightarrow> bool" where
  "pendingGet h n = list_ex (\<lambda>(q, r). pending (rq h r)) (getStatus n)"

section \<open>Listening\<close>

definition pendingListen :: "'a dht_heap_scheme \<Rightarrow> search_node \<Rightarrow> bool" where
  "pendingListen h n = list_ex (\<lambda>(q, l). case ls_req l of None \<Rightarrow> False | Some r \<Rightarrow> pending (rq h r)) (listenStatus n)"

definition edit_job :: "qref \<Rightarrow> listen_status \<Rightarrow> time_point \<Rightarrow> search_node \<Rightarrow> search_world \<Rightarrow> search_node \<times> search_world" where
  "edit_job q l nxt n w =
     (let (j, sc) = sch_edit (ls_job l) nxt (w_sched w)
      in (n\<lparr>listenStatus := map_put q (l\<lparr>ls_job := j\<rparr>) (listenStatus n)\<rparr>, w\<lparr>w_sched := sc\<rparr>))"

text \<open>An answer is given by its values and the identifiers of refreshed and expired ones.\<close>

definition sn_onValues :: "type_store \<Rightarrow> qref \<Rightarrow> dht_value list \<Rightarrow> value_id list \<Rightarrow> value_id list \<Rightarrow> search_node \<Rightarrow> search_world
    \<Rightarrow> (search_node \<times> search_world) option" where
  "sn_onValues types q vs refreshed expired n w =
     (case map_of (listenStatus n) q of
        None \<Rightarrow> Some (n, w)
      | Some l \<Rightarrow>
        (case onValues vs refreshed expired types (sch_now (w_sched w)) (ls_cache l) of
           None \<Rightarrow> None
         | Some (nxt, c) \<Rightarrow> Some (edit_job q (l\<lparr>ls_cache := c\<rparr>) nxt n w)))"

definition sn_expireValues :: "qref \<Rightarrow> search_node \<Rightarrow> search_world \<Rightarrow> (search_node \<times> search_world) option" where
  "sn_expireValues q n w =
     (case map_of (listenStatus n) q of
        None \<Rightarrow> Some (n, w)
      | Some l \<Rightarrow>
        (case expireValues_now (sch_now (w_sched w)) (ls_cache l) of
           None \<Rightarrow> None
         | Some (nxt, c) \<Rightarrow> Some (edit_job q (l\<lparr>ls_cache := c\<rparr>) nxt n w)))"

definition onListenSynced :: "qref \<Rightarrow> bool \<Rightarrow> search_node \<Rightarrow> search_node" where
  "onListenSynced q synced n =
     (case map_of (listenStatus n) q of
        None \<Rightarrow> n
      | Some l \<Rightarrow> n\<lparr>listenStatus := map_put q (l\<lparr>ls_cache := onSynced synced (ls_cache l)\<rparr>) (listenStatus n)\<rparr>)"

definition listening_entry :: "'a dht_heap_scheme \<Rightarrow> time_point \<Rightarrow> int \<Rightarrow> listen_status \<Rightarrow> bool" where
  "listening_entry h now listen_expire l =
     (case ls_req l of None \<Rightarrow> False | Some r \<Rightarrow> rq_reply_time (rq h r) + listen_expire > now)"

definition sn_isListening :: "'a dht_heap_scheme \<Rightarrow> time_point \<Rightarrow> int \<Rightarrow> search_node \<Rightarrow> bool" where
  "sn_isListening h now listen_expire n = list_ex (\<lambda>(q, l). listening_entry h now listen_expire l) (listenStatus n)"

definition isListening_query :: "'a dht_heap_scheme \<Rightarrow> time_point \<Rightarrow> qref \<Rightarrow> int \<Rightarrow> search_node \<Rightarrow> bool" where
  "isListening_query h now q listen_expire n =
     (case map_of (listenStatus n) q of None \<Rightarrow> False | Some l \<Rightarrow> listening_entry h now listen_expire l)"

definition getListenTime :: "'a dht_heap_scheme \<Rightarrow> qref \<Rightarrow> int \<Rightarrow> search_node \<Rightarrow> time_point" where
  "getListenTime h q listen_expire n =
     (case map_of (listenStatus n) q of
        None \<Rightarrow> time_min
      | Some l \<Rightarrow> (case ls_req l of
          None \<Rightarrow> time_min
        | Some r \<Rightarrow> if pending (rq h r) then time_max else rq_reply_time (rq h r) + listen_expire - REANNOUNCE_MARGIN))"

text \<open>The destructor of a listen status: its socket is closed, then its cache reports what it held.\<close>

definition destroy_listen :: "qref \<times> listen_status \<Rightarrow> search_world \<Rightarrow> search_world" where
  "destroy_listen e w =
     (let l = snd e;
          w = (case ls_req l of
                 Some r \<Rightarrow> if ls_socket l \<noteq> 0 then closeSocket (rq_node (rq w r)) (ls_socket l) w else w
               | None \<Rightarrow> w)
      in w\<lparr>w_log := w_log w @ map (ListenCall (fst e)) (vc_calls (destroy_cache (ls_cache l)))\<rparr>)"

definition cancelListen_all :: "search_node \<Rightarrow> search_world \<Rightarrow> search_node \<times> search_world" where
  "cancelListen_all n w =
     (let w = fold (\<lambda>(q, l) w. node_cancelRequest (sn_node n) (ls_req l) w) (listenStatus n) w
      in (n\<lparr>listenStatus := []\<rparr>, fold destroy_listen (listenStatus n) w))"

definition cancelListen_query :: "qref \<Rightarrow> search_node \<Rightarrow> search_world \<Rightarrow> search_node \<times> search_world" where
  "cancelListen_query q n w =
     (case map_of (listenStatus n) q of
        None \<Rightarrow> (n, w)
      | Some l \<Rightarrow> (n\<lparr>listenStatus := map_erase q (listenStatus n)\<rparr>,
          destroy_listen (q, l) (node_cancelRequest (sn_node n) (ls_req l) w)))"

section \<open>Announcing\<close>

definition sn_isAnnounced :: "'a dht_heap_scheme \<Rightarrow> value_id \<Rightarrow> search_node \<Rightarrow> bool" where
  "sn_isAnnounced h vid n =
     (case map_of (acked n) vid of Some (Some r, t) \<Rightarrow> req_completed (rq h r) | _ \<Rightarrow> False)"

definition cancelAnnounce :: "search_node \<Rightarrow> 'a dht_heap_scheme \<Rightarrow> search_node \<times> 'a dht_heap_scheme" where
  "cancelAnnounce n h =
     (n\<lparr>acked := []\<rparr>,
      fold (\<lambda>(v, ro, t) h. case ro of None \<Rightarrow> h
        | Some r \<Rightarrow> if pending (rq h r) then node_cancelRequest (sn_node n) (Some r) h else h) (acked n) h)"

definition getAnnounceTime :: "'a dht_heap_scheme \<Rightarrow> value_id \<Rightarrow> search_node \<Rightarrow> time_point" where
  "getAnnounceTime h vid n =
     (case map_of (acked n) vid of
        Some (Some r, t) \<Rightarrow>
          if req_completed (rq h r) then t - REANNOUNCE_MARGIN
          else if pending (rq h r) then time_max else time_min
      | _ \<Rightarrow> time_min)"

definition isBad :: "'a dht_heap_scheme \<Rightarrow> search_node \<Rightarrow> bool" where
  "isBad h n \<longleftrightarrow> n_expired (nd h (sn_node n)) \<or> candidate n"

definition destroy_search_node :: "search_node \<Rightarrow> search_world \<Rightarrow> search_world" where
  "destroy_search_node n w =
     (let (n, w) = cancelGet n w; (n, w) = cancelListen_all n w; (n, w) = cancelAnnounce n w in w)"

section \<open>When a get may be sent\<close>

text \<open>The flags of the loop are what they stand for: leaving it early does not change them.\<close>

definition satisfies :: "(nat \<Rightarrow> query) \<Rightarrow> qref \<Rightarrow> qref \<Rightarrow> bool" where
  "satisfies qry q k \<longleftrightarrow> k \<noteq> None \<and> q \<noteq> None \<and> query_isSatisfiedBy (qry (the q)) (qry (the k))"

definition answered :: "'a dht_heap_scheme \<Rightarrow> time_point \<Rightarrow> rref \<Rightarrow> bool" where
  "answered h upd r \<longleftrightarrow> \<not> pending (rq h r) \<and> req_completed (rq h r) \<and> upd \<le> rq_reply_time (rq h r)"

lemma get_flags_spec:
  "(ps \<longrightarrow> p) \<Longrightarrow> get_flags qry h upd q (p, c, ps) gs =
    (p \<or> list_ex (\<lambda>(k, r). pending (rq h r)) gs,
     c \<or> list_ex (\<lambda>(k, r). satisfies qry q k \<and> answered h upd r) gs,
     ps \<or> list_ex (\<lambda>(k, r). satisfies qry q k \<and> pending (rq h r)) gs)"
proof (induction gs arbitrary: p c ps)
  case (Cons e gs)
  obtain k r where e: "e = (k, r)" by (cases e)
  show ?case
  proof (cases "satisfies qry q k")
    case True
    then have s: "k \<noteq> None \<and> q \<noteq> None \<and> query_isSatisfiedBy (qry (the q)) (qry (the k))" by (simp add: satisfies_def)
    show ?thesis using Cons True s by (auto simp: e Let_def answered_def not_less)
  next
    case False
    then have s: "\<not> (k \<noteq> None \<and> q \<noteq> None \<and> query_isSatisfiedBy (qry (the q)) (qry (the k)))" by (simp add: satisfies_def)
    have "get_flags qry h upd q (p, c, ps) ((k, r) # gs) = get_flags qry h upd q (p \<or> pending (rq h r), c, ps) gs"
      by (simp only: get_flags.simps Let_def s if_False)
    then show ?thesis using Cons False by (auto simp: e)
  qed
qed simp

text \<open>
  A get may go out to a live node when no request that satisfies it is pending or was answered since and no
  pagination has begun; and also, whatever was answered or begun, when nothing is pending and the last answer is old.
\<close>

lemma canGet_iff:
  "canGet qry h now upd q n \<longleftrightarrow> \<not> n_expired (nd h (sn_node n))
    \<and> (\<not> pendingGet h n \<and> now > last_get_reply n + NODE_EXPIRE_TIME
       \<or> \<not> list_ex (\<lambda>(k, r). satisfies qry q k \<and> (answered h upd r \<or> pending (rq h r))) (getStatus n) \<and> \<not> hasStartedPagination q n)"
proof -
  have "list_ex (\<lambda>(k, r). satisfies qry q k \<and> (answered h upd r \<or> pending (rq h r))) gs \<longleftrightarrow>
      list_ex (\<lambda>(k, r). satisfies qry q k \<and> answered h upd r) gs \<or> list_ex (\<lambda>(k, r). satisfies qry q k \<and> pending (rq h r)) gs" for gs
    by (induction gs) auto
  then show ?thesis
    using get_flags_spec [of False False qry h upd q False "getStatus n"] by (auto simp: canGet_def pendingGet_def Let_def)
qed

end
