(* ===== verification/Search.thy ===== *)
theory Search
  imports Search_Node
begin

text \<open>
  A search (\<open>struct Search\<close> of \<open>search.h\<close>): the nodes closest to an identifier with the operations pending on
  them, the put, get and listen operations of the user, and the cache of its listeners. Done callbacks are
  known by a number; \<open>None\<close> is an empty function, and calling one throws. A call is an entry of the log of the
  world. The destructors of search nodes run where nodes are dropped.
\<close>

section \<open>Data\<close>

record dht_get =
  g_start :: time_point
  g_filter :: value_filter
  g_query :: qref
  g_query_cb :: "nat option"
  g_get_cb :: "nat option"
  g_done_cb :: "nat option"

record dht_announce =
  a_permanent :: bool
  a_value :: dht_value
  a_created :: time_point
  a_callback :: "nat option"

record dht_search =
  s_id :: hash
  s_af :: nat
  s_tid :: "16 word"
  refill_time :: time_point
  step_time :: time_point
  nextSearchStep :: "nat option"
  s_expired :: bool
  s_done :: bool
  s_nodes :: "search_node list"
  s_announce :: "dht_announce list"
  s_callbacks :: "(time_point \<times> dht_get) list"
  s_listeners :: "(uint64 \<times> qref) list"
  listener_token :: uint64
  s_cache :: search_cache
  opExpirationJob :: "nat option"

definition new_search :: dht_search where
  "new_search = \<lparr>s_id = hash_zero HASH_LEN, s_af = 0, s_tid = 0, refill_time = time_min, step_time = time_min, nextSearchStep = None,
     s_expired = False, s_done = False, s_nodes = [], s_announce = [], s_callbacks = [], s_listeners = [], listener_token = 1,
     s_cache = new_search_cache, opExpirationJob = None\<rparr>"

definition call_done :: "nat option \<Rightarrow> bool \<Rightarrow> nref list \<Rightarrow> search_world \<Rightarrow> search_world" where
  "call_done cb ok ns w = (case cb of None \<Rightarrow> w | Some c \<Rightarrow> w\<lparr>w_log := w_log w @ [DoneCall c ok ns]\<rparr>)"

definition edit_step :: "time_point \<Rightarrow> dht_search \<Rightarrow> search_world \<Rightarrow> dht_search \<times> search_world" where
  "edit_step t s w =
     (let (j, sc) = sch_edit (nextSearchStep s) t (w_sched w) in (s\<lparr>nextSearchStep := j\<rparr>, w\<lparr>w_sched := sc\<rparr>))"

section \<open>Nodes\<close>

definition getNodes :: "dht_search \<Rightarrow> nref list" where
  "getNodes s = map sn_node (s_nodes s)"

definition getNode :: "nref \<Rightarrow> dht_search \<Rightarrow> search_node option" where
  "getNode n s = find (\<lambda>sn. n = sn_node sn) (s_nodes s)"

definition currentlySolicitedNodeCount :: "search_world \<Rightarrow> dht_search \<Rightarrow> nat" where
  "currentlySolicitedNodeCount w s = length (filter (\<lambda>n. \<not> isBad w n \<and> pendingGet w n) (s_nodes s))"

definition getNumberOfBadNodes :: "search_world \<Rightarrow> search_node list \<Rightarrow> nat" where
  "getNumberOfBadNodes w ns = length (filter (isBad w) ns)"

definition getNumberOfConsecutiveBadNodes :: "search_world \<Rightarrow> search_node list \<Rightarrow> nat" where
  "getNumberOfConsecutiveBadNodes w ns = length (takeWhile (\<lambda>n. n_expired (nd w (sn_node n))) ns)"

definition destroy_nodes :: "search_node list \<Rightarrow> search_world \<Rightarrow> search_world" where
  "destroy_nodes ns w = fold destroy_search_node ns w"

fun last_pos :: "('a \<Rightarrow> bool) \<Rightarrow> 'a list \<Rightarrow> nat \<Rightarrow> nat option" where
  "last_pos p xs 0 = None"
| "last_pos p xs (Suc i) = (if p (xs ! i) then Some i else last_pos p xs i)"

definition removeExpiredNode :: "time_point \<Rightarrow> dht_search \<Rightarrow> search_world \<Rightarrow> bool \<times> dht_search \<times> search_world" where
  "removeExpiredNode now s w =
     (case last_pos (\<lambda>n. isRemovable now (nd w (sn_node n))) (s_nodes s) (length (s_nodes s)) of
        None \<Rightarrow> (False, s, w)
      | Some i \<Rightarrow> (True, s\<lparr>s_nodes := take i (s_nodes s) @ drop (Suc i) (s_nodes s)\<rparr>, destroy_search_node (s_nodes s ! i) w))"

text \<open>
  \<open>insertNode\<close> looks from the end for the node or for the place behind the last closer one; \<open>i\<close> is one more than
  the position that is looked at.
\<close>

fun find_place :: "('a \<Rightarrow> bool) \<Rightarrow> ('a \<Rightarrow> bool) \<Rightarrow> 'a list \<Rightarrow> nat \<Rightarrow> bool \<times> nat" where
  "find_place same closer ns 0 = (False, 0)"
| "find_place same closer ns (Suc i) =
     (if same (ns ! i) then (True, i) else if closer (ns ! i) then (False, Suc i) else find_place same closer ns i)"

text \<open>Where to cut so that no more than \<open>SEARCH_NODES\<close> nodes are left, bad ones not counted, and the bad ones before.\<close>

fun trim_pos :: "('a \<Rightarrow> bool) \<Rightarrow> 'a list \<Rightarrow> nat \<Rightarrow> nat \<Rightarrow> nat \<times> nat" where
  "trim_pos isbad ns bad 0 = (0, bad)"
| "trim_pos isbad ns bad (Suc t) =
     (if Suc t - bad > SEARCH_NODES then trim_pos isbad ns (if isbad (ns ! t) then bad - 1 else bad) t else (Suc t, bad))"

function trim_back :: "bool \<Rightarrow> nat \<Rightarrow> search_node list \<Rightarrow> search_world \<Rightarrow> search_node list \<times> search_world" where
  "trim_back ex bad ns w =
     (if length ns - bad > SEARCH_NODES then
        trim_back ex (if \<not> ex \<and> isBad w (last ns) then bad - 1 else bad) (butlast ns) (destroy_search_node (last ns) w)
      else (ns, w))"
  by pat_completeness auto
termination
  by (relation "measure (\<lambda>(ex, bad, ns, w). length ns)") auto

declare trim_back.simps [simp del]

text \<open>The position at which an expired or a live search is full, with the number of bad nodes before it.\<close>

definition full_at :: "dht_search \<Rightarrow> search_world \<Rightarrow> bool \<times> nat \<times> nat" where
  "full_at s w =
     (let len = length (s_nodes s) in
      if s_expired s then if len \<ge> SEARCH_NODES then (True, SEARCH_NODES, 0) else (False, len, 0)
      else
        let bad = getNumberOfBadNodes w (s_nodes s);
            (t, bad') = trim_pos (isBad w) (s_nodes s) bad len
        in (len - bad \<ge> SEARCH_NODES, t, bad'))"

text \<open>The new node goes to position \<open>i\<close>; what is then too much is dropped from the end.\<close>

definition add_node :: "nref \<Rightarrow> time_point \<Rightarrow> nat \<Rightarrow> nat \<Rightarrow> dht_search \<Rightarrow> search_world \<Rightarrow> dht_search \<times> search_world" where
  "add_node node now i bad s w =
     (let s = (if s_nodes s = [] then s\<lparr>step_time := time_min\<rparr> else s);
          ns = take i (s_nodes s) @ new_search_node node # drop i (s_nodes s);
          w = upd_nd node (\<lambda>x. x\<lparr>n_time := now\<rparr>) w;
          (bad, ex) = (if n_expired (nd w node) then (if \<not> s_expired s then bad + 1 else bad, s_expired s)
            else if s_expired s then (length ns - 1, False) else (bad, False));
          (ns, w) = trim_back ex bad ns w
      in (s\<lparr>s_nodes := ns, s_expired := ex\<rparr>, w))"

text \<open>A token marks the node as answering; the iterator must still point into the vector.\<close>

definition take_token :: "bytes \<Rightarrow> time_point \<Rightarrow> nat \<Rightarrow> dht_search \<Rightarrow> dht_search outcome" where
  "take_token token now i s =
     (if token = [] then Ret s
      else if i < length (s_nodes s) then
        Ret (s\<lparr>s_nodes := (s_nodes s)[i := (s_nodes s ! i)\<lparr>candidate := False, last_get_reply := now,
                 sn_token := (if length token \<le> 64 then token else sn_token (s_nodes s ! i))\<rparr>], s_expired := False\<rparr>)
      else Undef)"

definition insertNode :: "nref \<Rightarrow> time_point \<Rightarrow> bytes \<Rightarrow> dht_search \<Rightarrow> search_world \<Rightarrow> (bool \<times> dht_search \<times> search_world) outcome" where
  "insertNode node now token s w =
     (if getFamily (n_addr (nd w node)) \<noteq> s_af s then Ret (False, s, w)
      else
        let (found, i) = find_place (\<lambda>n. sn_node n = node)
              (\<lambda>n. xorCmp (s_id s) (n_id (nd w node)) (n_id (nd w (sn_node n))) > 0) (s_nodes s) (length (s_nodes s))
        in if found then bind_outcome (take_token token now i s) (\<lambda>s. Ret (False, s, w))
           else
             let (full, t, bad) = full_at s w;
                 w1 = (if full then destroy_nodes (drop t (s_nodes s)) w else w);
                 s1 = (if full then s\<lparr>s_nodes := take t (s_nodes s)\<rparr> else s)
             in if full \<and> i \<ge> t then Ret (False, s1, w1)
                else
                  let (s2, w2) = add_node node now i bad s1 w1
                  in bind_outcome (take_token token now i s2) (\<lambda>s3.
                       let (_, s4, w4) = removeExpiredNode now s3 w2 in Ret (True, s4, w4)))"

section \<open>State of the operations\<close>

text \<open>
  The loops over the nodes that are not bad: each has to pass a test, and the first \<open>lim\<close> of them decide. The
  result tells whether no test failed and how many nodes passed.
\<close>

fun scan :: "('a \<Rightarrow> bool) \<Rightarrow> ('a \<Rightarrow> bool) \<Rightarrow> nat \<Rightarrow> nat \<Rightarrow> 'a list \<Rightarrow> bool \<times> nat" where
  "scan isbad test lim i [] = (True, i)"
| "scan isbad test lim i (n # ns) =
     (if isbad n then scan isbad test lim i ns
      else if \<not> test n then (False, i)
      else if i + 1 = lim then (True, i + 1) else scan isbad test lim (i + 1) ns)"

definition search_isSynced :: "search_world \<Rightarrow> time_point \<Rightarrow> dht_search \<Rightarrow> bool" where
  "search_isSynced w now s = (let (ok, i) = scan (isBad w) (sn_isSynced w now) TARGET_NODES 0 (s_nodes s) in ok \<and> i > 0)"

definition search_isDone :: "search_world \<Rightarrow> dht_get \<Rightarrow> dht_search \<Rightarrow> bool" where
  "search_isDone w g s = fst (scan (isBad w) (sn_isDone w (g_query g)) TARGET_NODES 0 (s_nodes s))"

definition search_isAnnounced :: "search_world \<Rightarrow> value_id \<Rightarrow> dht_search \<Rightarrow> bool" where
  "search_isAnnounced w vid s =
     (if s_nodes s = [] then False
      else let (ok, i) = scan (isBad w) (sn_isAnnounced w vid) TARGET_NODES 0 (s_nodes s) in ok \<and> i > 0)"

definition search_isListening :: "search_world \<Rightarrow> time_point \<Rightarrow> int \<Rightarrow> dht_search \<Rightarrow> bool" where
  "search_isListening w now listen_expire s =
     (if s_nodes s = [] \<or> s_listeners s = [] then False
      else let (ok, i) = scan (isBad w) (sn_isListening w now listen_expire) LISTEN_NODES 0 (s_nodes s) in ok \<and> i > 0)"

definition getLastGetTime_query :: "(nat \<Rightarrow> query) \<Rightarrow> query \<Rightarrow> dht_search \<Rightarrow> time_point" where
  "getLastGetTime_query qry q s =
     fold (\<lambda>(t, g) m. max m (if query_isSatisfiedBy q (qry (the (g_query g))) then g_start g else time_min)) (s_callbacks s) time_min"

definition getLastGetTime :: "dht_search \<Rightarrow> time_point" where
  "getLastGetTime s = fold (\<lambda>(t, g) m. max m (g_start g)) (s_callbacks s) time_min"

definition setDone_get :: "dht_get \<Rightarrow> dht_search \<Rightarrow> search_world \<Rightarrow> dht_search \<times> search_world" where
  "setDone_get g s w =
     (s\<lparr>s_nodes := map (\<lambda>n. n\<lparr>getStatus := map_erase (g_query g)
          (case map_of (pagination_queries n) (g_query g) of None \<Rightarrow> getStatus n
           | Some qs \<Rightarrow> fold map_erase qs (getStatus n))\<rparr>) (s_nodes s)\<rparr>,
      call_done (g_done_cb g) True (getNodes s) w)"

definition setDone :: "dht_search \<Rightarrow> search_world \<Rightarrow> dht_search \<times> search_world" where
  "setDone s w =
     (s\<lparr>s_nodes := map (\<lambda>n. n\<lparr>getStatus := [], listenStatus := [], acked := []\<rparr>) (s_nodes s), s_done := True\<rparr>,
      fold (\<lambda>n. fold destroy_listen (listenStatus n)) (s_nodes s) w)"

section \<open>What dropping nodes leaves alone\<close>

text \<open>Identifier, address, time and expiry of the nodes: what the order and the badness of search nodes depend on.\<close>

definition same_nodes :: "'a dht_heap_scheme \<Rightarrow> 'a dht_heap_scheme \<Rightarrow> bool" where
  "same_nodes w w' \<longleftrightarrow> (\<forall>n. n_id (nd w' n) = n_id (nd w n) \<and> n_addr (nd w' n) = n_addr (nd w n)
     \<and> n_expired (nd w' n) = n_expired (nd w n) \<and> n_time (nd w' n) = n_time (nd w n))"

lemma same_nodes_refl [simp, intro]: "same_nodes w w"
  by (simp add: same_nodes_def)

lemma same_nodes_trans: "same_nodes w w1 \<Longrightarrow> same_nodes w1 w2 \<Longrightarrow> same_nodes w w2"
  by (simp add: same_nodes_def)

lemma same_nodes_fold: "(\<And>x w. same_nodes w (f x w)) \<Longrightarrow> same_nodes w (fold f xs w)"
  by (induction xs arbitrary: w) (auto intro: same_nodes_trans)

lemma same_nodes_cancelRequest: "same_nodes w (node_cancelRequest n r w)"
  by (auto simp: same_nodes_def node_cancelRequest_def req_cancel_def heap_defs split: option.split)

lemma same_nodes_closeSocket: "same_nodes w (closeSocket n t w)"
  by (auto simp: same_nodes_def closeSocket_def heap_defs)

lemma same_nodes_log [simp]: "same_nodes w (w'\<lparr>w_log := l\<rparr>) = same_nodes w w'"
  by (simp add: same_nodes_def)

lemma same_nodes_destroy_listen: "same_nodes w (destroy_listen e w)"
  by (auto simp: destroy_listen_def Let_def same_nodes_closeSocket split: option.split)

lemma same_nodes_destroy: "same_nodes w (destroy_search_node n w)"
proof -
  have get: "same_nodes w (snd (cancelGet n w))" for n w
    by (auto simp: cancelGet_def intro!: same_nodes_fold same_nodes_cancelRequest)
  have lis: "same_nodes w (snd (cancelListen_all n w))" for n w
    unfolding cancelListen_all_def Let_def snd_conv
    by (rule same_nodes_trans; rule same_nodes_fold) (auto intro: same_nodes_cancelRequest same_nodes_destroy_listen)
  have ann: "same_nodes w (snd (cancelAnnounce n w))" for n w
    by (auto simp: cancelAnnounce_def intro!: same_nodes_fold same_nodes_cancelRequest split: option.split)
  show ?thesis
    unfolding destroy_search_node_def by (auto simp: Let_def split: prod.split) (metis get lis ann same_nodes_trans snd_conv)
qed

lemma same_nodes_destroy_nodes: "same_nodes w (destroy_nodes ns w)"
  unfolding destroy_nodes_def by (rule same_nodes_fold) (rule same_nodes_destroy)

lemma isBad_same: "same_nodes w w' \<Longrightarrow> isBad w' n = isBad w n"
  by (simp add: same_nodes_def isBad_def)

lemma isRemovable_same: "same_nodes w w' \<Longrightarrow> isRemovable now (nd w' n) = isRemovable now (nd w n)"
  by (simp add: same_nodes_def isRemovable_def isOld_def)

section \<open>Trimming\<close>

text \<open>The number of nodes that are not bad, and what trimming does: it keeps the longest prefix with at most \<open>SEARCH_NODES\<close> of them.\<close>

definition goods :: "('a \<Rightarrow> bool) \<Rightarrow> 'a list \<Rightarrow> nat" where
  "goods isbad ns = length (filter (\<lambda>n. \<not> isbad n) ns)"

lemma goods_simps [simp]:
  "goods b [] = 0" "goods b (xs @ ys) = goods b xs + goods b ys" "goods b (x # xs) = (if b x then 0 else 1) + goods b xs"
  by (simp_all add: goods_def)

lemma goods_length: "length xs - length (filter b xs) = goods b xs"
proof -
  have "length (filter b xs) + goods b xs = length xs" unfolding goods_def by (rule sum_length_filter_compl)
  then show ?thesis by simp
qed

lemma goods_zero: "\<forall>x\<in>set xs. b x \<Longrightarrow> goods b xs = 0"
  by (simp add: goods_def filter_empty_conv)

lemma goods_take: "goods b (take k xs) \<le> goods b xs"
proof -
  have "goods b xs = goods b (take k xs) + goods b (drop k xs)" by (metis append_take_drop_id goods_simps(2))
  then show ?thesis by simp
qed

definition trimmed :: "('a \<Rightarrow> bool) \<Rightarrow> 'a list \<Rightarrow> nat \<Rightarrow> bool" where
  "trimmed isbad ns k \<longleftrightarrow> k \<le> length ns \<and> goods isbad (take k ns) \<le> SEARCH_NODES
     \<and> (k < length ns \<longrightarrow> goods isbad (take k ns) = SEARCH_NODES)"

lemma trim_pos_trimmed:
  "t \<le> length ns \<Longrightarrow> trim_pos b ns (length (filter b (take t ns))) t = (t', bad')
    \<Longrightarrow> trimmed b (take t ns) t' \<and> bad' = length (filter b (take t' ns))"
proof (induction t arbitrary: t' bad')
  case 0
  then show ?case by (simp add: trimmed_def)
next
  case (Suc t)
  have tk: "take (Suc t) ns = take t ns @ [ns ! t]" using Suc.prems(1) by (simp add: take_Suc_conv_app_nth)
  have g: "Suc t - length (filter b (take (Suc t) ns)) = goods b (take (Suc t) ns)"
    using goods_length [of "take (Suc t) ns" b] Suc.prems(1) by simp
  show ?case
  proof (cases "goods b (take (Suc t) ns) > SEARCH_NODES")
    case True
    then have "trim_pos b ns (length (filter b (take t ns))) t = (t', bad')"
      using Suc.prems(2) g tk by (auto split: if_splits)
    then have IH: "trimmed b (take t ns) t'" "bad' = length (filter b (take t' ns))" using Suc by simp_all
    moreover have "trimmed b (take (Suc t) ns) t'"
      using IH(1) True tk Suc.prems(1) by (auto simp: trimmed_def min_def split: if_splits)
    ultimately show ?thesis by simp
  next
    case False
    then show ?thesis using Suc.prems g by (auto simp: trimmed_def)
  qed
qed

lemma trim_back_stop: "length ns - bad \<le> SEARCH_NODES \<Longrightarrow> trim_back ex bad ns w = (ns, w)"
  by (subst trim_back.simps) simp

lemma trim_back_step: "length ns - bad > SEARCH_NODES \<Longrightarrow>
    trim_back ex bad ns w = trim_back ex (if \<not> ex \<and> isBad w (last ns) then bad - 1 else bad) (butlast ns) (destroy_search_node (last ns) w)"
  by (subst trim_back.simps) simp

lemma trim_back_trimmed:
  "trim_back False (length (filter (isBad w) ns)) ns w = (ns', w') \<Longrightarrow>
    same_nodes w w' \<and> (\<exists>k. ns' = take k ns \<and> trimmed (isBad w) ns k)"
proof (induction ns arbitrary: w rule: rev_induct)
  case Nil
  then show ?case by (simp add: trim_back_stop trimmed_def)
next
  case (snoc n ns)
  let ?b = "isBad w"
  show ?case
  proof (cases "goods ?b (ns @ [n]) > SEARCH_NODES")
    case False
    then show ?thesis
      using snoc.prems goods_length [of "ns @ [n]" ?b]
      by (auto simp: trim_back_stop trimmed_def intro!: exI [of _ "Suc (length ns)"])
  next
    case True
    let ?w = "destroy_search_node n w"
    have b: "isBad ?w = ?b" using isBad_same [OF same_nodes_destroy] by (simp add: fun_eq_iff)
    have tb: "trim_back False (length (filter (isBad ?w) ns)) ns ?w = (ns', w')"
      using snoc.prems True goods_length [of "ns @ [n]" ?b] by (simp add: trim_back_step b split: if_splits)
    obtain k where k: "same_nodes ?w w'" "ns' = take k ns" "trimmed ?b ns k" using snoc.IH [OF tb] unfolding b by blast
    have "trimmed ?b (ns @ [n]) k" using k(3) True by (auto simp: trimmed_def split: if_splits)
    moreover have "ns' = take k (ns @ [n])" using k(2,3) by (simp add: trimmed_def)
    ultimately show ?thesis using same_nodes_trans [OF same_nodes_destroy k(1)] by blast
  qed
qed

lemma trim_back_plain:
  "trim_back True 0 ns w = (ns', w') \<Longrightarrow> same_nodes w w' \<and> ns' = take SEARCH_NODES ns"
proof (induction ns arbitrary: w rule: rev_induct)
  case Nil
  then show ?case by (simp add: trim_back_stop)
next
  case (snoc n ns)
  show ?case
  proof (cases "length (ns @ [n]) > SEARCH_NODES")
    case False
    then show ?thesis using snoc.prems by (auto simp: trim_back_stop)
  next
    case True
    then have tb: "trim_back True 0 ns (destroy_search_node n w) = (ns', w')" using snoc.prems by (simp add: trim_back_step)
    show ?thesis using snoc.IH [OF tb] True same_nodes_trans [OF same_nodes_destroy, of n w w'] by simp
  qed
qed

section \<open>The order of the nodes\<close>

text \<open>The references of the nodes are sorted by distance to the identifier, nearest first and not strictly, different, and of one family.\<close>

definition nearer :: "'a dht_heap_scheme \<Rightarrow> hash \<Rightarrow> nref \<Rightarrow> nref \<Rightarrow> bool" where
  "nearer w sid a b \<longleftrightarrow> xorCmp sid (n_id (nd w a)) (n_id (nd w b)) \<le> 0"

definition ranked :: "'a dht_heap_scheme \<Rightarrow> hash \<Rightarrow> nat \<Rightarrow> nref list \<Rightarrow> bool" where
  "ranked w sid af ns \<longleftrightarrow> sorted_wrt (nearer w sid) ns \<and> distinct ns \<and> (\<forall>n\<in>set ns. getFamily (n_addr (nd w n)) = af)"

definition ids_ok :: "'a dht_heap_scheme \<Rightarrow> hash \<Rightarrow> bool" where
  "ids_ok w sid \<longleftrightarrow> (\<forall>n. length (n_id (nd w n)) = length sid)"

lemma nearer_trans: "ids_ok w sid \<Longrightarrow> nearer w sid a b \<Longrightarrow> nearer w sid b c \<Longrightarrow> nearer w sid a c"
  unfolding nearer_def ids_ok_def by (rule xor.cmp3_trans) auto

lemma not_nearer: "ids_ok w sid \<Longrightarrow> xorCmp sid (n_id (nd w a)) (n_id (nd w b)) > 0 \<longleftrightarrow> \<not> nearer w sid a b"
  by (auto simp: nearer_def)

lemma nearer_total: "ids_ok w sid \<Longrightarrow> \<not> nearer w sid a b \<Longrightarrow> nearer w sid b a"
  using xor.cmp3_anti [of "n_id (nd w a)" sid "n_id (nd w b)"] by (simp add: nearer_def ids_ok_def)

lemma nearer_refl: "ids_ok w sid \<Longrightarrow> nearer w sid a a"
  using nearer_total by blast

lemma ranked_take: "ranked w sid af ns \<Longrightarrow> ranked w sid af (take k ns)"
  by (auto simp: ranked_def dest: in_set_takeD)

lemma ranked_remove:
  assumes "ranked w sid af ns" and "i < length ns"
  shows "ranked w sid af (take i ns @ drop (Suc i) ns)"
proof -
  have "ranked w sid af (take i ns @ ns ! i # drop (Suc i) ns)" using assms by (simp add: id_take_nth_drop [symmetric])
  then show ?thesis by (auto simp: ranked_def sorted_wrt_append)
qed

lemma find_place_spec:
  assumes "find_place same closer ns k = (found, i)" and "k \<le> length ns"
  shows "i \<le> k" and "found \<Longrightarrow> i < k \<and> same (ns ! i)"
    and "\<not> found \<Longrightarrow> j < k \<Longrightarrow> i \<le> j \<Longrightarrow> \<not> same (ns ! j) \<and> \<not> closer (ns ! j)"
    and "\<not> found \<Longrightarrow> 0 < i \<Longrightarrow> closer (ns ! (i - 1))"
proof -
  have "i \<le> k \<and> (found \<longrightarrow> i < k \<and> same (ns ! i)) \<and> (\<not> found \<longrightarrow> (\<forall>j<k. i \<le> j \<longrightarrow> \<not> same (ns ! j) \<and> \<not> closer (ns ! j))
      \<and> (0 < i \<longrightarrow> closer (ns ! (i - 1))))"
    using assms
  proof (induction k)
    case (Suc k)
    then show ?case by (auto split: if_splits elim: less_SucE)
  qed simp
  then show "i \<le> k" and "found \<Longrightarrow> i < k \<and> same (ns ! i)"
    and "\<not> found \<Longrightarrow> j < k \<Longrightarrow> i \<le> j \<Longrightarrow> \<not> same (ns ! j) \<and> \<not> closer (ns ! j)"
    and "\<not> found \<Longrightarrow> 0 < i \<Longrightarrow> closer (ns ! (i - 1))" by auto
qed

text \<open>The place found: everything before is nearer, everything behind is not, and the node is not there yet.\<close>

lemma place_between:
  assumes ids: "ids_ok w sid" and r: "ranked w sid af ns"
    and p: "find_place (\<lambda>n. n = node) (\<lambda>n. xorCmp sid (n_id (nd w node)) (n_id (nd w n)) > 0) ns (length ns) = (False, i)"
  shows "\<forall>n\<in>set (take i ns). nearer w sid n node" and "\<forall>n\<in>set (drop i ns). nearer w sid node n" and "node \<notin> set ns"
proof -
  have le: "i \<le> length ns" using find_place_spec(1) [OF p] by simp
  have behind: "ns ! j \<noteq> node \<and> nearer w sid node (ns ! j)" if "j < length ns" "i \<le> j" for j
    using find_place_spec(3) [OF p order_refl _ that] not_nearer [OF ids] by simp
  then show "\<forall>n\<in>set (drop i ns). nearer w sid node n" by (auto simp: in_set_conv_nth)
  have front: "nearer w sid (ns ! j) node \<and> \<not> nearer w sid node (ns ! j)" if "j < i" for j
  proof -
    have "\<not> nearer w sid node (ns ! (i - 1))" using find_place_spec(4) [OF p] that not_nearer [OF ids] by simp
    moreover have "nearer w sid (ns ! j) (ns ! (i - 1))"
      using r that le nearer_refl [OF ids] by (cases "j = i - 1") (auto simp: ranked_def sorted_wrt_iff_nth_less)
    ultimately show ?thesis using nearer_trans [OF ids] nearer_total [OF ids] by blast
  qed
  then show "\<forall>n\<in>set (take i ns). nearer w sid n node" using le by (auto simp: in_set_conv_nth)
  show "node \<notin> set ns" using behind front nearer_refl [OF ids] by (metis in_set_conv_nth not_le)
qed

lemma ranked_insert:
  assumes "ranked w sid af ns" and "\<forall>n\<in>set (take i ns). nearer w sid n node" and "\<forall>n\<in>set (drop i ns). nearer w sid node n"
    and "node \<notin> set ns" and "getFamily (n_addr (nd w node)) = af"
  shows "ranked w sid af (take i ns @ node # drop i ns)"
proof -
  have s: "sorted_wrt (nearer w sid) (take i ns @ drop i ns)" and d: "distinct (take i ns @ drop i ns)"
    using assms(1) by (simp_all add: ranked_def)
  from s have "sorted_wrt (nearer w sid) (take i ns @ node # drop i ns)"
    unfolding sorted_wrt_append using assms(2,3) by simp
  moreover from d have "distinct (take i ns @ node # drop i ns)"
    unfolding distinct_append using assms(4) by (auto dest: in_set_takeD in_set_dropD)
  moreover have "\<forall>n\<in>set (take i ns @ node # drop i ns). getFamily (n_addr (nd w n)) = af"
    using assms(1,5) by (auto simp: ranked_def dest: in_set_takeD in_set_dropD)
  ultimately show ?thesis by (simp add: ranked_def)
qed

lemma ranked_cong: "same_nodes w w' \<Longrightarrow> ranked w' sid af ns = ranked w sid af ns"
proof -
  assume same: "same_nodes w w'"
  then have "nearer w' sid = nearer w sid" by (simp add: fun_eq_iff nearer_def same_nodes_def)
  with same show ?thesis by (simp add: ranked_def same_nodes_def)
qed

section \<open>Inserting a node\<close>

lemma find_place_map:
  "k \<le> length xs \<Longrightarrow> find_place (\<lambda>x. p (f x)) (\<lambda>x. q (f x)) xs k = find_place p q (map f xs) k"
  by (induction k) auto

lemma goods_map: "goods b xs = goods (\<lambda>x. x) (map b xs)"
  by (induction xs) simp_all

lemma goods_cong: "map b xs = map b' ys \<Longrightarrow> goods b xs = goods b' ys"
  by (simp add: goods_map [of b xs] goods_map [of b' ys])

lemma add_node_spec:
  fixes i :: nat and node :: nref
  assumes r: "add_node node now i bad s w = (s', w')"
    and ex: "s_expired s \<Longrightarrow> bad = 0 \<and> (\<forall>n\<in>set (s_nodes s). isBad w n)"
    and live: "\<not> s_expired s \<Longrightarrow> bad = length (filter (isBad w) (s_nodes s))"
  defines "l \<equiv> take i (s_nodes s) @ new_search_node node # drop i (s_nodes s)"
  shows "same_nodes (upd_nd node (\<lambda>x. x\<lparr>n_time := now\<rparr>) w) w' \<and> s_id s' = s_id s \<and> s_af s' = s_af s
    \<and> (\<exists>k\<le>length l. s_nodes s' = take k l \<and> goods (isBad w) (take k l) \<le> SEARCH_NODES \<and> (\<not> s_expired s \<longrightarrow> trimmed (isBad w) l k))"
proof -
  let ?w = "upd_nd node (\<lambda>x. x\<lparr>n_time := now\<rparr>) w"
  define bx where "bx = (if n_expired (nd w node) then (if \<not> s_expired s then bad + 1 else bad, s_expired s)
    else if s_expired s then (length l - 1, False) else (bad, False))"
  obtain ns2 w2 where tb: "trim_back (snd bx) (fst bx) l ?w = (ns2, w2)" by fastforce
  have res: "s_nodes s' = ns2" "w' = w2" "s_id s' = s_id s" "s_af s' = s_af s"
    using r tb by (auto simp: add_node_def Let_def bx_def l_def upd_nd_def split: if_splits prod.splits)
  have b: "isBad ?w = isBad w" by (auto simp: isBad_def upd_nd_def fun_eq_iff)
  have nb: "isBad w (new_search_node node) = n_expired (nd w node)" by (simp add: isBad_def new_search_node_def)
  have split: "filter P (s_nodes s) = filter P (take i (s_nodes s)) @ filter P (drop i (s_nodes s))" for P
    by (metis append_take_drop_id filter_append)
  show ?thesis
  proof (cases "s_expired s")
    case False
    then have "snd bx = False" "fst bx = length (filter (isBad ?w) l)"
      using live split [of "isBad w"] by (auto simp: bx_def b l_def nb)
    with tb show ?thesis using trim_back_trimmed [of ?w l ns2 w2] res by (auto simp: b trimmed_def)
  next
    case True
    have all: "goods (isBad w) (take k l) \<le> 1" "n_expired (nd w node) \<Longrightarrow> goods (isBad w) (take k l) = 0" for k
    proof -
      have "goods (isBad w) (take i (s_nodes s)) = 0" "goods (isBad w) (drop i (s_nodes s)) = 0"
        using ex [OF True] by (auto intro!: goods_zero dest: in_set_takeD in_set_dropD)
      then have g: "goods (isBad w) l = (if n_expired (nd w node) then 0 else 1)" by (simp add: l_def nb)
      from goods_take [of "isBad w" k l] show "goods (isBad w) (take k l) \<le> 1"
        and "n_expired (nd w node) \<Longrightarrow> goods (isBad w) (take k l) = 0" by (simp_all add: g split: if_splits)
    qed
    show ?thesis
    proof (cases "n_expired (nd w node)")
      case e: True
      then have "trim_back True 0 l ?w = (ns2, w2)" using tb ex [OF True] True by (simp add: bx_def)
      then show ?thesis
        using trim_back_plain [of l ?w ns2 w2] res all True
        by (auto intro!: exI [of _ "min SEARCH_NODES (length l)"] intro: order_trans [OF all(1)] simp: SEARCH_NODES_def min_def)
    next
      case e: False
      then have "ns2 = l" "w2 = ?w" using tb True trim_back_stop [of l "length l - 1" False ?w] by (auto simp: bx_def SEARCH_NODES_def)
      then show ?thesis using res all(1) [of "length l"] True by (auto intro!: exI [of _ "length l"] simp: SEARCH_NODES_def)
    qed
  qed
qed

lemma take_token_spec:
  assumes "take_token token now i s = Ret s'"
  shows "getNodes s' = getNodes s" and "s_id s' = s_id s" and "s_af s' = s_af s"
    and "i < length (s_nodes s) \<Longrightarrow> \<not> candidate (s_nodes s ! i) \<Longrightarrow> map (isBad w) (s_nodes s') = map (isBad w) (s_nodes s)"
proof -
  show "getNodes s' = getNodes s" "s_id s' = s_id s" "s_af s' = s_af s"
    using assms by (auto simp: take_token_def getNodes_def map_update list_update_same_conv split: if_splits)
  show "map (isBad w) (s_nodes s') = map (isBad w) (s_nodes s)" if "i < length (s_nodes s)" "\<not> candidate (s_nodes s ! i)"
    using assms that by (auto simp: take_token_def isBad_def map_update list_update_same_conv split: if_splits)
qed

text \<open>
  Why a node may be missing after an insertion: it has been expired for long, or the search is full of good
  nodes and none of its nodes is farther.
\<close>

definition crowded :: "search_world \<Rightarrow> hash \<Rightarrow> search_node list \<Rightarrow> nref \<Rightarrow> bool" where
  "crowded w sid ns x \<longleftrightarrow> goods (isBad w) ns = SEARCH_NODES \<and> (\<forall>y\<in>sn_node ` set ns. nearer w sid y x)"

definition lost_ok :: "search_world \<Rightarrow> time_point \<Rightarrow> hash \<Rightarrow> search_node list \<Rightarrow> nref \<Rightarrow> bool" where
  "lost_ok w now sid ns x \<longleftrightarrow> isRemovable now (nd w x) \<or> crowded w sid ns x"

text \<open>Worlds with the same identifiers, addresses and expired nodes.\<close>

definition alike :: "'a dht_heap_scheme \<Rightarrow> 'a dht_heap_scheme \<Rightarrow> bool" where
  "alike w w' \<longleftrightarrow> (\<forall>n. n_id (nd w' n) = n_id (nd w n) \<and> n_addr (nd w' n) = n_addr (nd w n) \<and> n_expired (nd w' n) = n_expired (nd w n))"

lemma alike_refl [simp]: "alike w w"
  by (simp add: alike_def)

lemma alike_trans: "alike w w1 \<Longrightarrow> alike w1 w2 \<Longrightarrow> alike w w2"
  by (simp add: alike_def)

lemma same_nodes_alike: "same_nodes w w' \<Longrightarrow> alike w w'"
  by (simp add: same_nodes_def alike_def)

lemma alike_simps:
  assumes "alike w w'"
  shows "isBad w' = isBad w" and "nearer w' = nearer w" and "ranked w' = ranked w" and "ids_ok w' = ids_ok w"
proof -
  show n: "nearer w' = nearer w" using assms by (simp add: alike_def fun_eq_iff nearer_def)
  show "isBad w' = isBad w" "ranked w' = ranked w" "ids_ok w' = ids_ok w"
    using assms by (simp_all add: n alike_def fun_eq_iff isBad_def ranked_def ids_ok_def)
qed

lemma crowded_alike: "alike w w' \<Longrightarrow> crowded w' sid ns x = crowded w sid ns x"
  by (simp add: crowded_def alike_simps)

lemma last_pos_Some: "last_pos p xs k = Some i \<Longrightarrow> i < k \<and> p (xs ! i)"
  by (induction k) (auto split: if_splits intro: less_SucI)

lemma removeExpiredNode_spec:
  assumes "removeExpiredNode now s w = (r, s', w')" and "ranked w sid af (getNodes s)"
  shows "same_nodes w w'" and "ranked w' sid af (getNodes s')" and "goods (isBad w') (s_nodes s') = goods (isBad w) (s_nodes s)"
    and "s_id s' = s_id s" and "s_af s' = s_af s" and "set (getNodes s') \<subseteq> set (getNodes s)"
    and "x \<in> set (getNodes s) \<Longrightarrow> x \<notin> set (getNodes s') \<Longrightarrow> lost_ok w' now sid (s_nodes s') x"
    and "lost_ok w now sid (s_nodes s) x \<Longrightarrow> lost_ok w' now sid (s_nodes s') x"
proof -
  let ?p = "\<lambda>n. isRemovable now (nd w (sn_node n))" and ?ns = "s_nodes s"
  have "same_nodes w w' \<and> ranked w' sid af (getNodes s') \<and> goods (isBad w') (s_nodes s') = goods (isBad w) ?ns
    \<and> s_id s' = s_id s \<and> s_af s' = s_af s \<and> set (s_nodes s') \<subseteq> set ?ns
    \<and> (\<forall>n\<in>set ?ns. n \<notin> set (s_nodes s') \<longrightarrow> isRemovable now (nd w' (sn_node n)))"
  proof (cases "last_pos ?p ?ns (length ?ns)")
    case None
    then show ?thesis using assms by (auto simp: removeExpiredNode_def)
  next
    case (Some i)
    then have i: "i < length ?ns" "?p (?ns ! i)" using last_pos_Some [OF Some] by auto
    have res: "s_nodes s' = take i ?ns @ drop (Suc i) ?ns" "w' = destroy_search_node (?ns ! i) w" "s_id s' = s_id s" "s_af s' = s_af s"
      using assms(1) Some by (auto simp: removeExpiredNode_def)
    have same: "same_nodes w w'" using res(2) by (simp add: same_nodes_destroy)
    have mid: "?ns = take i ?ns @ ?ns ! i # drop (Suc i) ?ns" using i(1) by (rule id_take_nth_drop)
    have bad: "isBad w' = isBad w" using isBad_same [OF same] by (simp add: fun_eq_iff)
    have "goods (isBad w) ?ns = goods (isBad w) (take i ?ns @ drop (Suc i) ?ns)"
      using i(2) by (subst mid) (simp add: isBad_def isRemovable_def)
    moreover have "ranked w sid af (getNodes s')"
      using ranked_remove [OF assms(2), of i] i(1) by (simp add: getNodes_def res(1) take_map drop_map)
    moreover have "isRemovable now (nd w' (sn_node n))" if "n \<in> set ?ns" "n \<notin> set (s_nodes s')" for n
      using that(1) by (subst (asm) mid) (use that(2) i(2) res(1) isRemovable_same [OF same] in auto)
    ultimately show ?thesis using res same ranked_cong [OF same] bad by (auto dest: in_set_takeD in_set_dropD)
  qed
  note * = this
  show "same_nodes w w'" "ranked w' sid af (getNodes s')" "goods (isBad w') (s_nodes s') = goods (isBad w) ?ns"
    "s_id s' = s_id s" "s_af s' = s_af s" "set (getNodes s') \<subseteq> set (getNodes s)"
    using * by (auto simp: getNodes_def)
  show "x \<in> set (getNodes s) \<Longrightarrow> x \<notin> set (getNodes s') \<Longrightarrow> lost_ok w' now sid (s_nodes s') x"
    using * by (auto simp: getNodes_def lost_ok_def)
  have near: "nearer w' sid = nearer w sid" using * by (simp add: fun_eq_iff nearer_def same_nodes_def)
  show "lost_ok w' now sid (s_nodes s') x" if "lost_ok w now sid (s_nodes s) x"
    using that * isRemovable_same [of w w' now x] by (auto simp: lost_ok_def crowded_def near)
qed

lemma lost_trimmed:
  assumes "ranked w sid af (map sn_node l)" and "trimmed (isBad w) l k" and "x \<in> sn_node ` set (drop k l)"
  shows "crowded w sid (take k l) x"
proof -
  have "sorted_wrt (nearer w sid) (map sn_node (take k l) @ map sn_node (drop k l))"
    using assms(1) by (simp add: ranked_def map_append [symmetric])
  then have "\<forall>y\<in>sn_node ` set (take k l). nearer w sid y x" using assms(3) by (auto simp: sorted_wrt_append)
  moreover have "goods (isBad w) (take k l) = SEARCH_NODES"
    using assms(2,3) by (auto simp: trimmed_def)
  ultimately show ?thesis by (simp add: crowded_def)
qed

lemma full_at_spec:
  assumes "full_at s w = (full, t, bad)"
  shows "t \<le> length (s_nodes s)" and "\<not> full \<Longrightarrow> t = length (s_nodes s)"
    and "s_expired s \<Longrightarrow> bad = 0"
    and "\<not> s_expired s \<Longrightarrow> trimmed (isBad w) (s_nodes s) t \<and> bad = length (filter (isBad w) (take t (s_nodes s)))"
    and "\<not> s_expired s \<Longrightarrow> full \<Longrightarrow> goods (isBad w) (take t (s_nodes s)) = SEARCH_NODES"
proof -
  let ?ns = "s_nodes s"
  have live: "trimmed (isBad w) ?ns t \<and> bad = length (filter (isBad w) (take t ?ns)) \<and> full = (goods (isBad w) ?ns \<ge> SEARCH_NODES)"
    if "\<not> s_expired s"
    using assms that trim_pos_trimmed [of "length ?ns" ?ns "isBad w"] goods_length [of ?ns "isBad w"]
    by (auto simp: full_at_def Let_def getNumberOfBadNodes_def split: prod.splits)
  then show "\<not> s_expired s \<Longrightarrow> trimmed (isBad w) ?ns t \<and> bad = length (filter (isBad w) (take t ?ns))" by simp
  show "t \<le> length ?ns" "s_expired s \<Longrightarrow> bad = 0"
    using assms live by (auto simp: full_at_def trimmed_def Let_def split: if_splits)
  show "\<not> full \<Longrightarrow> t = length ?ns"
    using assms live goods_take [of "isBad w" t ?ns] by (cases "s_expired s") (force simp: full_at_def trimmed_def Let_def split: if_splits)+
  show "\<not> s_expired s \<Longrightarrow> full \<Longrightarrow> goods (isBad w) (take t ?ns) = SEARCH_NODES"
    using live by (cases "t < length ?ns") (auto simp: trimmed_def)
qed

text \<open>The first cut loses only nodes behind a full search; so does the one after the insertion.\<close>

lemma crowded_cut:
  assumes r: "ranked w sid af (map sn_node ns)" and t: "t \<le> length ns" and g: "goods (isBad w) (take t ns) = SEARCH_NODES"
    and x: "x \<in> sn_node ` set (drop t ns)"
    and k: "trimmed (isBad w) l k" "l = take i (take t ns) @ n # drop i (take t ns)" "nearer w sid (sn_node n) x"
  shows "crowded w sid (take k l) x"
proof -
  have "sorted_wrt (nearer w sid) (map sn_node (take t ns) @ map sn_node (drop t ns))"
    using r by (simp add: ranked_def map_append [symmetric])
  then have near: "\<forall>y\<in>sn_node ` set (take t ns). nearer w sid y x" using x by (auto simp: sorted_wrt_append)
  have "goods (isBad w) (take i (take t ns)) + goods (isBad w) (drop i (take t ns)) = SEARCH_NODES"
    by (metis g append_take_drop_id goods_simps(2))
  then have "goods (isBad w) l \<ge> SEARCH_NODES" by (simp add: k(2))
  then have "goods (isBad w) (take k l) = SEARCH_NODES" using k(1) by (cases "k < length l") (auto simp: trimmed_def)
  moreover have "set l \<subseteq> insert n (set (take t ns))" 
    unfolding k(2) using set_take_subset [of i "take t ns"] set_drop_subset [of i "take t ns"] by (auto simp del: take_take)
  ultimately show ?thesis using near k(3) by (fastforce simp: crowded_def dest: in_set_takeD)
qed

lemma insertNode_new:
  assumes ids: "ids_ok w (s_id s)" and r: "ranked w (s_id s) (s_af s) (getNodes s)"
    and ex: "s_expired s \<longrightarrow> (\<forall>n\<in>set (s_nodes s). isBad w n)" and fam: "getFamily (n_addr (nd w node)) = s_af s"
    and p: "find_place (\<lambda>n. n = node) (\<lambda>n. xorCmp (s_id s) (n_id (nd w node)) (n_id (nd w n)) > 0) (getNodes s) (length (s_nodes s)) = (False, i)"
    and f: "full_at s w = (full, t, bad)" and i: "\<not> (full \<and> i \<ge> t)"
    and w1: "same_nodes w w1" and a: "add_node node now i bad (s\<lparr>s_nodes := take t (s_nodes s)\<rparr>) w1 = (s2, w2)"
  shows "alike w w2" and "s_id s2 = s_id s" and "s_af s2 = s_af s" and "ranked w2 (s_id s) (s_af s) (getNodes s2)"
    and "set (getNodes s2) \<subseteq> insert node (set (getNodes s))" and "goods (isBad w2) (s_nodes s2) \<le> SEARCH_NODES"
    and "\<not> s_expired s \<Longrightarrow> x \<in> insert node (set (getNodes s)) \<Longrightarrow> x \<notin> set (getNodes s2) \<Longrightarrow> crowded w2 (s_id s) (s_nodes s2) x"
    and "i < length (s_nodes s2) \<Longrightarrow> s_nodes s2 ! i = new_search_node node"
proof -
  let ?ns = "s_nodes s" and ?m = "take t (s_nodes s)" and ?n = "new_search_node node"
  define l where "l = take i ?m @ ?n # drop i ?m"
  note place = place_between [OF ids r, of node i, unfolded getNodes_def, simplified, OF p [unfolded getNodes_def]]
  have it: "i \<le> t" using full_at_spec(2) [OF f] i find_place_spec(1) [OF p] by (cases full) (auto simp: getNodes_def)
  have tl: "t \<le> length ?ns" by (rule full_at_spec(1) [OF f])
  have bad: "isBad w1 = isBad w" using alike_simps(1) [OF same_nodes_alike [OF w1]] .
  have A: "same_nodes (upd_nd node (\<lambda>x. x\<lparr>n_time := now\<rparr>) w1) w2 \<and> s_id s2 = s_id s \<and> s_af s2 = s_af s
    \<and> (\<exists>k\<le>length l. s_nodes s2 = take k l \<and> goods (isBad w) (take k l) \<le> SEARCH_NODES \<and> (\<not> s_expired s \<longrightarrow> trimmed (isBad w) l k))"
  proof -
    let ?s = "s\<lparr>s_nodes := ?m\<rparr>"
    have "s_expired ?s \<Longrightarrow> bad = 0 \<and> (\<forall>n\<in>set (s_nodes ?s). isBad w1 n)"
      using full_at_spec(3) [OF f] ex by (auto simp: bad dest: in_set_takeD)
    moreover have "\<not> s_expired ?s \<Longrightarrow> bad = length (filter (isBad w1) (s_nodes ?s))"
      using full_at_spec(4) [OF f] by (simp add: bad)
    ultimately show ?thesis using add_node_spec [OF a] by (simp add: bad l_def)
  qed
  have "alike w1 (upd_nd node (\<lambda>x. x\<lparr>n_time := now\<rparr>) w1)" by (simp add: alike_def upd_nd_def)
  then show al: "alike w w2" using A w1 same_nodes_alike alike_trans by blast
  show "s_id s2 = s_id s" "s_af s2 = s_af s" using A by simp_all
  obtain k where k: "k \<le> length l" "s_nodes s2 = take k l" "goods (isBad w) (take k l) \<le> SEARCH_NODES" "\<not> s_expired s \<Longrightarrow> trimmed (isBad w) l k"
    using A by blast
  have mn: "ranked w (s_id s) (s_af s) (map sn_node ?m)" using ranked_take [OF r, of t] by (simp add: getNodes_def take_map)
  have near: "\<forall>n\<in>set (take i (map sn_node ?m)). nearer w (s_id s) n node" "\<forall>n\<in>set (drop i (map sn_node ?m)). nearer w (s_id s) node n"
      "\<forall>n\<in>set (drop i (map sn_node ?ns)). nearer w (s_id s) node n" "node \<notin> set (map sn_node ?m)"
    using place it by (auto simp: take_map drop_map min_def drop_take dest: in_set_takeD)
  have rl: "ranked w (s_id s) (s_af s) (map sn_node l)"
    using ranked_insert [OF mn near(1,2,4) fam] by (simp add: l_def take_map drop_map new_search_node_def)
  show "ranked w2 (s_id s) (s_af s) (getNodes s2)"
    using ranked_take [OF rl, of k] alike_simps(3) [OF al] by (simp add: getNodes_def k(2) take_map)
  have "set l \<subseteq> insert ?n (set ?ns)"
    unfolding l_def using set_take_subset [of i ?m] set_drop_subset [of i ?m] set_take_subset [of t ?ns] by (auto simp del: take_take)
  then show "set (getNodes s2) \<subseteq> insert node (set (getNodes s))"
    using k(2) by (fastforce simp: getNodes_def new_search_node_def dest: in_set_takeD)
  show "goods (isBad w2) (s_nodes s2) \<le> SEARCH_NODES" using k alike_simps(1) [OF al] by simp
  show "s_nodes s2 ! i = ?n" if "i < length (s_nodes s2)"
  proof -
    have "length (take i ?m) = i" using it tl by simp
    then have "l ! i = ?n" unfolding l_def by (metis nth_append_length)
    then show ?thesis using that k(1,2) by simp
  qed
  show "crowded w2 (s_id s) (s_nodes s2) x" if live: "\<not> s_expired s" and x: "x \<in> insert node (set (getNodes s))" "x \<notin> set (getNodes s2)"
  proof -
    have "crowded w (s_id s) (take k l) x"
    proof (cases "x \<in> sn_node ` set l")
      case True
      moreover have "set l = set (take k l) \<union> set (drop k l)" by (metis append_take_drop_id set_append)
      ultimately have "x \<in> sn_node ` set (drop k l)" using x(2) k(2) by (auto simp: getNodes_def)
      then show ?thesis by (rule lost_trimmed [OF rl k(4) [OF live]])
    next
      case False
      have "set ?m \<subseteq> set l" unfolding l_def by (metis append_take_drop_id set_append Un_mono set_subset_Cons subset_refl)
      moreover have "set ?ns = set ?m \<union> set (drop t ?ns)" by (metis append_take_drop_id set_append)
      moreover have "node \<in> sn_node ` set l" by (simp add: l_def new_search_node_def)
      ultimately have xd: "x \<in> sn_node ` set (drop t ?ns)" using False x(1) by (auto simp: getNodes_def)
      then have full using full_at_spec(2) [OF f] by (cases full) auto
      have "nearer w (s_id s) node x"
        using near(3) xd it by (auto simp: drop_map) (metis drop_drop image_eqI in_set_dropD le_add_diff_inverse2 nearer_def)
      then show ?thesis
        using crowded_cut [OF r [unfolded getNodes_def] tl full_at_spec(5) [OF f live \<open>full\<close>] xd k(4) [OF live] l_def]
        by (simp add: new_search_node_def)
    qed
    then show ?thesis using crowded_alike [OF al] k(2) by simp
  qed
qed

text \<open>What a returning insertion guarantees.\<close>

definition insert_ok :: "nref \<Rightarrow> time_point \<Rightarrow> dht_search \<Rightarrow> search_world \<Rightarrow> bool \<Rightarrow> dht_search \<Rightarrow> search_world \<Rightarrow> bool" where
  "insert_ok node now s w new s' w' \<longleftrightarrow>
     s_id s' = s_id s \<and> s_af s' = s_af s \<and> ids_ok w' (s_id s) \<and> ranked w' (s_id s) (s_af s) (getNodes s')
     \<and> set (getNodes s') \<subseteq> insert node (set (getNodes s))
     \<and> (new \<longrightarrow> node \<notin> set (getNodes s) \<and> goods (isBad w') (s_nodes s') \<le> SEARCH_NODES)
     \<and> (\<not> s_expired s \<longrightarrow> (\<forall>x. x \<in> set (getNodes s) \<or> x = node \<and> getFamily (n_addr (nd w node)) = s_af s \<longrightarrow>
          x \<notin> set (getNodes s') \<longrightarrow> lost_ok w' now (s_id s) (s_nodes s') x))"

lemma insertNode_refused:
  assumes ids: "ids_ok w (s_id s)" and r: "ranked w (s_id s) (s_af s) (getNodes s)" and fam: "getFamily (n_addr (nd w node)) = s_af s"
    and p: "find_place (\<lambda>n. n = node) (\<lambda>n. xorCmp (s_id s) (n_id (nd w node)) (n_id (nd w n)) > 0) (getNodes s) (length (s_nodes s)) = (False, i)"
    and f: "full_at s w = (True, t, bad)" and i: "i \<ge> t" and w1: "same_nodes w w1"
  shows "insert_ok node now s w False (s\<lparr>s_nodes := take t (s_nodes s)\<rparr>) w1"
proof -
  let ?ns = "s_nodes s" and ?m = "take t (s_nodes s)"
  note place = place_between [OF ids r, of node i, unfolded getNodes_def, simplified, OF p [unfolded getNodes_def]]
  note al = same_nodes_alike [OF w1]
  have "crowded w1 (s_id s) ?m x" if live: "\<not> s_expired s" and x: "x \<in> sn_node ` set ?ns \<or> x = node" "x \<notin> sn_node ` set ?m" for x
  proof -
    have g: "goods (isBad w) ?m = SEARCH_NODES" by (rule full_at_spec(5) [OF f live]) simp
    have "\<forall>y\<in>sn_node ` set ?m. nearer w (s_id s) y x"
    proof (cases "x = node")
      case True
      then show ?thesis using place(1) i by (auto simp: take_map) (metis image_eqI in_set_takeD min_def take_take)
    next
      case False
      moreover have "set ?ns = set ?m \<union> set (drop t ?ns)" by (metis append_take_drop_id set_append)
      ultimately have "x \<in> sn_node ` set (drop t ?ns)" using x by auto
      moreover have "sorted_wrt (nearer w (s_id s)) (map sn_node ?m @ map sn_node (drop t ?ns))"
        using r by (simp add: ranked_def getNodes_def map_append [symmetric])
      ultimately show ?thesis by (auto simp: sorted_wrt_append)
    qed
    then show ?thesis using g crowded_alike [OF al] by (simp add: crowded_def)
  qed
  moreover have "ranked w1 (s_id s) (s_af s) (map sn_node ?m)"
    using ranked_take [OF r, of t] alike_simps(3) [OF al] by (simp add: getNodes_def take_map)
  ultimately show ?thesis
    using ids alike_simps(4) [OF al] fam by (auto simp: insert_ok_def getNodes_def lost_ok_def dest: in_set_takeD)
qed

lemma insertNode_absent:
  assumes ids: "ids_ok w (s_id s)" and r: "ranked w (s_id s) (s_af s) (getNodes s)"
    and ex: "s_expired s \<longrightarrow> (\<forall>n\<in>set (s_nodes s). isBad w n)" and fam: "getFamily (n_addr (nd w node)) = s_af s"
    and p: "find_place (\<lambda>n. n = node) (\<lambda>n. xorCmp (s_id s) (n_id (nd w node)) (n_id (nd w n)) > 0) (getNodes s) (length (s_nodes s)) = (False, i)"
    and f: "full_at s w = (full, t, bad)" and i: "\<not> (full \<and> i \<ge> t)"
    and w1: "same_nodes w w1" and a: "add_node node now i bad (s\<lparr>s_nodes := take t (s_nodes s)\<rparr>) w1 = (s2, w2)"
    and t: "take_token token now i s2 = Ret s3" and e: "removeExpiredNode now s3 w2 = (rm, s4, w4)"
  shows "insert_ok node now s w True s4 w4"
proof -
  note A = insertNode_new [OF ids r ex fam p f i w1 a]
  note T = take_token_spec [OF t]
  have r3: "ranked w2 (s_id s) (s_af s) (getNodes s3)" using A(4) T(1) by simp
  note E = removeExpiredNode_spec [OF e r3]
  have bads: "map (isBad w2) (s_nodes s3) = map (isBad w2) (s_nodes s2)"
  proof (cases "i < length (s_nodes s2)")
    case True
    then show ?thesis using T(4) A(8) by (simp add: new_search_node_def)
  next
    case False
    then show ?thesis using t by (simp add: take_token_def split: if_splits)
  qed
  have g: "goods (isBad w2) (s_nodes s3) = goods (isBad w2) (s_nodes s2)" by (rule goods_cong) (rule bads)
  have nodes: "sn_node ` set (s_nodes s3) = sn_node ` set (s_nodes s2)" using T(1) by (metis getNodes_def set_map)
  have "lost_ok w4 now (s_id s) (s_nodes s4) x"
    if live: "\<not> s_expired s" and x: "x \<in> insert node (set (getNodes s))" "x \<notin> set (getNodes s4)" for x
  proof (cases "x \<in> set (getNodes s3)")
    case True
    then show ?thesis using E(7) x(2) by blast
  next
    case False
    then have "crowded w2 (s_id s) (s_nodes s2) x" using A(7) [OF live x(1)] T(1) by simp
    then have "lost_ok w2 now (s_id s) (s_nodes s3) x" using g nodes by (simp add: lost_ok_def crowded_def)
    then show ?thesis by (rule E(8))
  qed
  moreover have "ids_ok w4 (s_id s)" using ids alike_simps(4) [OF alike_trans [OF A(1) same_nodes_alike [OF E(1)]]] by simp
  moreover have "node \<notin> set (getNodes s)"
    using place_between(3) [OF ids r, of node i] p by (simp add: getNodes_def)
  ultimately show ?thesis
    using A(2,3,5,6) T E(2-6) g by (auto simp: insert_ok_def)
qed

text \<open>
  The loops over the nodes look at the first \<open>lim\<close> nodes that are not bad.
\<close>

lemma scan_spec:
  "i < lim \<Longrightarrow> scan b test lim i ns =
    (let g = take (lim - i) (filter (\<lambda>n. \<not> b n) ns) in (list_all test g, i + length (takeWhile test g)))"
proof (induction ns arbitrary: i)
  case (Cons n ns)
  show ?case
  proof (cases "i + 1 = lim")
    case True
    then have "lim - i = 1" by simp
    then show ?thesis using Cons True by (auto simp: Let_def)
  next
    case False
    then obtain d where "lim - i = Suc d" "lim - Suc i = d" using Cons.prems by (metis Suc_diff_Suc)
    then show ?thesis using Cons.IH [of i] Cons.IH [of "i + 1"] Cons.prems False by (auto simp: Let_def)
  qed
qed simp

definition first_goods :: "search_world \<Rightarrow> nat \<Rightarrow> dht_search \<Rightarrow> search_node list" where
  "first_goods w lim s = take lim (filter (\<lambda>n. \<not> isBad w n) (s_nodes s))"

lemma scan_goods:
  "0 < lim \<Longrightarrow> (case scan (isBad w) test lim 0 (s_nodes s) of (ok, i) \<Rightarrow> ok \<and> i > 0) \<longleftrightarrow>
    first_goods w lim s \<noteq> [] \<and> list_all test (first_goods w lim s)"
proof -
  let ?g = "first_goods w lim s"
  assume "0 < lim"
  then have "scan (isBad w) test lim 0 (s_nodes s) = (list_all test ?g, length (takeWhile test ?g))"
    by (simp add: scan_spec first_goods_def Let_def)
  moreover have "takeWhile test ?g = ?g" if "list_all test ?g" using that by (simp add: takeWhile_eq_all_conv list_all_iff)
  ultimately show ?thesis by (cases ?g) (auto simp: list_all_iff)
qed

text \<open>
  A new good node with a token that lands between the last of fourteen good nodes and a bad one is destroyed by the
  trimming before its token is written.
\<close>

definition crowded_world :: search_world where
  "crowded_world = dht_heap.extend (init_heap\<lparr>nd := (\<lambda>n. (new_node_obj [of_nat n] [] 1 False)\<lparr>n_expired := (n = 16)\<rparr>)\<rparr>)
     \<lparr>w_sched = new_scheduler 0, w_log = []\<rparr>"

definition crowded_search :: dht_search where
  "crowded_search = new_search\<lparr>s_id := [0], s_nodes := map new_search_node ([1..<15] @ [16])\<rparr>"

lemma trim_destroys_new: "insertNode 15 7 [1] crowded_search crowded_world = Undef"
proof -
  have "case insertNode 15 7 [1] crowded_search crowded_world of Undef \<Rightarrow> True | _ \<Rightarrow> False" by code_simp
  then show ?thesis by (simp split: outcome.splits)
qed

section \<open>Properties\<close>

text \<open>
  C9: a search keeps the nodes closest to its identifier. From a list of nodes of one address family, sorted by XOR distance, nearest first (nodes with equal identifiers may follow each other),
  and without repetition, \<open>insertNode\<close> makes such a list again, at most with the new node added; after an insertion it holds at
  most \<open>SEARCH_NODES\<close> nodes that are not bad; and in a live search a node is dropped or refused only if it has been expired
  for long, or if there are \<open>SEARCH_NODES\<close> good nodes and no node of the search is farther. The call always returns,
  unless it writes the token into a new node that the trimming has just destroyed.
\<close>

theorem insertNode_closest:
  assumes ids: "ids_ok w (s_id s)" and r: "ranked w (s_id s) (s_af s) (getNodes s)"
    and ex: "s_expired s \<longrightarrow> (\<forall>n\<in>set (s_nodes s). isBad w n)"
  shows "case insertNode node now token s w of
      Ret (new, s', w') \<Rightarrow> s_id s' = s_id s \<and> s_af s' = s_af s \<and> ids_ok w' (s_id s) \<and> ranked w' (s_id s) (s_af s) (getNodes s')
        \<and> set (getNodes s') \<subseteq> insert node (set (getNodes s))
        \<and> (new \<longrightarrow> node \<notin> set (getNodes s) \<and> goods (isBad w') (s_nodes s') \<le> SEARCH_NODES)
        \<and> (\<not> s_expired s \<longrightarrow> (\<forall>x. x \<in> set (getNodes s) \<or> x = node \<and> getFamily (n_addr (nd w node)) = s_af s \<longrightarrow>
             x \<notin> set (getNodes s') \<longrightarrow> lost_ok w' now (s_id s) (s_nodes s') x))
    | Undef \<Rightarrow> token \<noteq> [] \<and> node \<notin> set (getNodes s)
    | _ \<Rightarrow> False"
proof (cases "getFamily (n_addr (nd w node)) = s_af s")
  case False
  then show ?thesis using ids r by (auto simp: insertNode_def)
next
  case fam: True
  obtain found i where fp: "find_place (\<lambda>n. sn_node n = node)
      (\<lambda>n. xorCmp (s_id s) (n_id (nd w node)) (n_id (nd w (sn_node n))) > 0) (s_nodes s) (length (s_nodes s)) = (found, i)"
    by fastforce
  have p: "find_place (\<lambda>n. n = node) (\<lambda>n. xorCmp (s_id s) (n_id (nd w node)) (n_id (nd w n)) > 0) (getNodes s) (length (s_nodes s)) = (found, i)"
    using fp find_place_map [of "length (s_nodes s)" "s_nodes s" "\<lambda>n. n = node" sn_node
        "\<lambda>n. xorCmp (s_id s) (n_id (nd w node)) (n_id (nd w n)) > 0"] by (simp add: getNodes_def)
  show ?thesis
  proof (cases found)
    case True
    then have i: "i < length (s_nodes s)" "sn_node (s_nodes s ! i) = node" using find_place_spec(2) [OF fp] by auto
    obtain s' where s': "take_token token now i s = Ret s'"
      using i(1) by (cases "take_token token now i s") (auto simp: take_token_def split: if_splits)
    then have "insertNode node now token s w = Ret (False, s', w)" using fp True fam by (simp add: insertNode_def)
    moreover have "node \<in> set (getNodes s)" using i by (auto simp: getNodes_def)
    ultimately show ?thesis using take_token_spec(1-3) [OF s'] ids r by auto
  next
    case False
    obtain full t bad where f: "full_at s w = (full, t, bad)" by (cases "full_at s w") auto
    define w1 where "w1 = (if full then destroy_nodes (drop t (s_nodes s)) w else w)"
    have w1: "same_nodes w w1" by (simp add: w1_def same_nodes_destroy_nodes)
    have s1: "(if full then s\<lparr>s_nodes := take t (s_nodes s)\<rparr> else s) = s\<lparr>s_nodes := take t (s_nodes s)\<rparr>"
      using full_at_spec(2) [OF f] by simp
    note p' = p [unfolded eq_False [THEN iffD2, OF False]]
    show ?thesis
    proof (cases "full \<and> i \<ge> t")
      case True
      then have "insertNode node now token s w = Ret (False, s\<lparr>s_nodes := take t (s_nodes s)\<rparr>, w1)"
        using fp False fam f by (simp add: insertNode_def Let_def w1_def)
      moreover have "insert_ok node now s w False (s\<lparr>s_nodes := take t (s_nodes s)\<rparr>) w1"
        using insertNode_refused [OF ids r fam p' _ _ w1] f True by simp
      ultimately show ?thesis by (simp add: insert_ok_def)
    next
      case go: False
      obtain s2 w2 where a: "add_node node now i bad (s\<lparr>s_nodes := take t (s_nodes s)\<rparr>) w1 = (s2, w2)" by fastforce
      have run: "insertNode node now token s w =
          bind_outcome (take_token token now i s2) (\<lambda>s3. let (_, s4, w4) = removeExpiredNode now s3 w2 in Ret (True, s4, w4))"
        using fp False fam f go a s1 by (auto simp: insertNode_def Let_def w1_def)
      show ?thesis
      proof (cases "take_token token now i s2")
        case (Ret s3)
        obtain rm s4 w4 where e: "removeExpiredNode now s3 w2 = (rm, s4, w4)" by (cases "removeExpiredNode now s3 w2") auto
        from insertNode_absent [OF ids r ex fam p' f go w1 a Ret e] show ?thesis
          by (simp add: run Ret e insert_ok_def)
      next
        case Undef
        moreover have "node \<notin> set (getNodes s)" using place_between(3) [OF ids r, of node i] p' by (simp add: getNodes_def)
        ultimately show ?thesis by (auto simp: run take_token_def)
      qed (auto simp: take_token_def split: if_splits)
    qed
  qed
qed

theorem insertNode_closest_witness:
  "case insertNode 9 7 [1] (new_search\<lparr>s_id := [0], s_nodes := map new_search_node [3, 12]\<rparr>) crowded_world of
      Ret (new, s', w') \<Rightarrow> new \<and> getNodes s' = [3, 9, 12]
    | _ \<Rightarrow> False"
proof -
  let ?s = "new_search\<lparr>s_id := [0], s_nodes := map new_search_node [3, 12]\<rparr>"
  have "ids_ok crowded_world (s_id ?s)" by (simp add: ids_ok_def crowded_world_def dht_heap.extend_def init_heap_def new_node_obj_def)
  moreover have "ranked crowded_world (s_id ?s) (s_af ?s) (getNodes ?s)" by code_simp
  ultimately have "case insertNode 9 7 [1] ?s crowded_world of Undef \<Rightarrow> 9 \<notin> set (getNodes ?s) | Ret _ \<Rightarrow> True | _ \<Rightarrow> False"
    using insertNode_closest [of crowded_world ?s 9 7 "[1]"] by (simp add: new_search_def split: outcome.splits)
  moreover have "case insertNode 9 7 [1] ?s crowded_world of Ret (new, s', w') \<Rightarrow> new \<and> getNodes s' = [3, 9, 12] | _ \<Rightarrow> False"
    by code_simp
  ultimately show ?thesis by simp
qed

text \<open>
  C24: the state of an operation is decided by the closest nodes. A search counts as synchronised, a value as announced and
  a listener as listening exactly when there is a node that is not bad and the first \<open>TARGET_NODES\<close> (\<open>LISTEN_NODES\<close> for
  listening) nodes that are not bad all are; a get is done exactly when these nodes are done with it.
\<close>

theorem search_state_closest:
  "(search_isSynced w now s \<longleftrightarrow> first_goods w TARGET_NODES s \<noteq> [] \<and> list_all (sn_isSynced w now) (first_goods w TARGET_NODES s))
   \<and> (search_isDone w g s \<longleftrightarrow> list_all (sn_isDone w (g_query g)) (first_goods w TARGET_NODES s))
   \<and> (search_isAnnounced w vid s \<longleftrightarrow> first_goods w TARGET_NODES s \<noteq> [] \<and> list_all (sn_isAnnounced w vid) (first_goods w TARGET_NODES s))
   \<and> (search_isListening w now lx s \<longleftrightarrow> s_listeners s \<noteq> [] \<and> first_goods w LISTEN_NODES s \<noteq> []
        \<and> list_all (sn_isListening w now lx) (first_goods w LISTEN_NODES s))"
proof -
  have t: "0 < TARGET_NODES" "0 < LISTEN_NODES" by (simp_all add: TARGET_NODES_def LISTEN_NODES_def)
  have e: "s_nodes s = [] \<Longrightarrow> first_goods w lim s = []" for lim by (simp add: first_goods_def)
  have "search_isDone w g s \<longleftrightarrow> list_all (sn_isDone w (g_query g)) (first_goods w TARGET_NODES s)"
    using t(1) by (simp add: search_isDone_def scan_spec first_goods_def Let_def)
  then show ?thesis
    unfolding search_isSynced_def search_isAnnounced_def search_isListening_def Let_def scan_goods [OF t(1)] scan_goods [OF t(2)]
    using e by auto
qed

end
