(* ===== verification/Search_Ops.thy ===== *)
theory Search_Ops
  imports Search
begin

text \<open>
  The user's operations on a search (\<open>search.h\<close>) and their callers in \<open>dht.cpp\<close>: gets, puts and listeners with their
  callbacks, expiry and destruction of a search, the table of searches and refilling from the node cache.
\<close>

section \<open>Gets\<close>

text \<open>
  \<open>keep\<close> is the answer of the get callback to cached values. Cached values are given to the get callback, and a
  finished get to the done callback, without a test that they are set: an empty function throws.
\<close>

definition search_get_op :: "value_filter \<Rightarrow> nat \<Rightarrow> query \<Rightarrow> nat option \<Rightarrow> nat option \<Rightarrow> (dht_value list \<Rightarrow> bool) \<Rightarrow> nat option
    \<Rightarrow> dht_search \<Rightarrow> search_world \<Rightarrow> (dht_search \<times> search_world) outcome" where
  "search_get_op f qr q qcb gcb keep dcb s w =
     (if gcb = None \<and> qcb = None then Ret (s, w)
      else
        let (fin, vals) = search_get f qr q keep (s_cache s)
        in if vals \<noteq> [] \<and> gcb = None then Throw
           else if fin then if dcb = None then Throw else Ret (s, call_done dcb True [] w)
           else
             let now = sch_now (w_sched w);
                 g = \<lparr>g_start = now, g_filter = f, g_query = Some qr, g_query_cb = qcb, g_get_cb = gcb, g_done_cb = dcb\<rparr>
             in Ret (edit_step now (s\<lparr>s_callbacks := multimap_emplace now g (s_callbacks s)\<rparr>) w))"

section \<open>Listeners\<close>

text \<open>\<open>clk\<close> is the reading of the clock at the creation of an operation.\<close>

definition search_listen_op :: "nat \<Rightarrow> (dht_value list \<Rightarrow> bool) \<Rightarrow> value_filter \<Rightarrow> nat \<Rightarrow> query \<Rightarrow> time_point \<Rightarrow> dht_search \<Rightarrow> search_world
    \<Rightarrow> uint64 \<times> dht_search \<times> search_world" where
  "search_listen_op cb keep f qr q clk s w =
     (let tok = listener_token s + 1;
          (s1, w1) = (if getOp qr q (s_cache s) = None then
              edit_step (sch_now (w_sched w)) (s\<lparr>s_done := False, listener_token := tok,
                s_listeners := snd (map_emplace tok (Some qr) (s_listeners s))\<rparr>) w
            else (s, w));
          (token, c) = search_listen cb keep qr q f tok clk (s_cache s)
      in (token, s1\<lparr>s_cache := c\<rparr>, w1))"

text \<open>The job is known to the scheduler under the name \<open>fn\<close>; its function is \<open>expire_ops\<close> below.\<close>

definition search_cancelListen_op :: "uint64 \<Rightarrow> nat \<Rightarrow> dht_search \<Rightarrow> search_world \<Rightarrow> dht_search \<times> search_world" where
  "search_cancelListen_op token fn s w =
     (let c = snd (search_cancelListen token (sch_now (w_sched w)) (s_cache s));
          (j, sc) = (case opExpirationJob s of
              None \<Rightarrow> (let (j, sc) = sch_add time_max (Some fn) (w_sched w) in (Some j, sc))
            | Some j \<Rightarrow> (Some j, w_sched w));
          (j, sc) = sch_edit j (nextExpiration c) sc
      in (s\<lparr>s_cache := c, opExpirationJob := j\<rparr>, w\<lparr>w_sched := sc\<rparr>))"

fun on_nodes :: "(search_node \<Rightarrow> search_world \<Rightarrow> search_node \<times> search_world) \<Rightarrow> search_node list \<Rightarrow> search_world \<Rightarrow> search_node list \<times> search_world" where
  "on_nodes f [] w = ([], w)"
| "on_nodes f (n # ns) w = (let (n, w) = f n w; (ns, w) = on_nodes f ns w in (n # ns, w))"

definition cancel_op :: "uint64 \<Rightarrow> dht_search \<Rightarrow> search_world \<Rightarrow> dht_search \<times> search_world" where
  "cancel_op tok s w =
     (let q = (case map_of (s_listeners s) tok of None \<Rightarrow> None | Some q \<Rightarrow> q);
          ls = map_erase tok (s_listeners s);
          (ns, w) = on_nodes (\<lambda>n w. if ls = [] then cancelListen_all n w
                                    else if q \<noteq> None then cancelListen_query q n w else (n, w)) (s_nodes s) w
      in (s\<lparr>s_listeners := ls, s_nodes := ns\<rparr>, w))"

definition expire_ops :: "dht_search \<Rightarrow> search_world \<Rightarrow> dht_search \<times> search_world" where
  "expire_ops s w =
     (let ((nxt, toks), c) = search_expire (sch_now (w_sched w)) (s_cache s);
          (s, w) = fold (\<lambda>t (s, w). cancel_op t s w) toks (s\<lparr>s_cache := c\<rparr>, w);
          (j, sc) = sch_edit (opExpirationJob s) nxt (w_sched w)
      in (s\<lparr>opExpirationJob := j\<rparr>, w\<lparr>w_sched := sc\<rparr>))"

section \<open>Puts\<close>

definition getPut :: "dht_search \<Rightarrow> dht_value list" where
  "getPut s = map a_value (s_announce s)"

definition getPut_id :: "value_id \<Rightarrow> dht_search \<Rightarrow> dht_value option" where
  "getPut_id vid s = find (\<lambda>v. v_id v = vid) (map a_value (s_announce s))"

text \<open>The acknowledgement of a value is dropped with its request.\<close>

definition drop_ack :: "value_id \<Rightarrow> search_node \<Rightarrow> search_world \<Rightarrow> search_node \<times> search_world" where
  "drop_ack vid n w =
     (case map_of (acked n) vid of
        None \<Rightarrow> (n, w)
      | Some (ro, t) \<Rightarrow> (n\<lparr>acked := map_erase vid (acked n)\<rparr>, case ro of None \<Rightarrow> w | Some r \<Rightarrow> req_cancel r w))"

definition cancelPut :: "value_id \<Rightarrow> dht_search \<Rightarrow> search_world \<Rightarrow> bool \<times> dht_search \<times> search_world" where
  "cancelPut vid s w =
     (let (ns, w) = on_nodes (drop_ack vid) (s_nodes s) w
      in (list_ex (\<lambda>a. v_id (a_value a) = vid) (s_announce s),
          s\<lparr>s_announce := filter (\<lambda>a. v_id (a_value a) \<noteq> vid) (s_announce s), s_nodes := ns\<rparr>, w))"

text \<open>\<open>acked[id].first.reset()\<close> makes an entry without request and with the time zero where there is none.\<close>

definition reset_ack :: "value_id \<Rightarrow> search_node \<Rightarrow> search_node" where
  "reset_ack vid n =
     n\<lparr>probe_query := None,
       acked := map_put vid (None, case map_of (acked n) vid of None \<Rightarrow> 0 | Some (_, t) \<Rightarrow> t) (acked n)\<rparr>"

definition search_put :: "dht_value \<Rightarrow> nat option \<Rightarrow> time_point \<Rightarrow> bool \<Rightarrow> dht_search \<Rightarrow> search_world \<Rightarrow> dht_search \<times> search_world" where
  "search_put v cb created permanent s w =
     (let s = s\<lparr>s_done := False, s_expired := False\<rparr> in
      case find_pos (\<lambda>a. v_id (a_value a) = v_id v) (s_announce s) of
        None \<Rightarrow>
          (s\<lparr>s_announce := s_announce s @ [\<lparr>a_permanent = permanent, a_value = v, a_created = created, a_callback = cb\<rparr>],
             s_nodes := map (reset_ack (v_id v)) (s_nodes s)\<rparr>, w)
      | Some k \<Rightarrow>
          let a = s_announce s ! k;
              fresh = v_ref (a_value a) \<noteq> v_ref v;
              s = (if fresh then s\<lparr>s_nodes := map (reset_ack (v_id v)) (s_nodes s)\<rparr> else s);
              a' = a\<lparr>a_permanent := permanent, a_created := created, a_value := v\<rparr>
          in if search_isAnnounced w (v_id v) s then
               (s\<lparr>s_announce := (s_announce s)[k := a'\<lparr>a_callback := None\<rparr>]\<rparr>, call_done cb True [] (call_done (a_callback a) True [] w))
             else
               (s\<lparr>s_announce := (s_announce s)[k := a'\<lparr>a_callback := cb\<rparr>]\<rparr>, call_done (a_callback a) False [] w))"

text \<open>
  \<open>checkAnnounced\<close> partitions the puts; the test of the partition calls the callback of an announced put. The second
  function lists the puts in the order in which the partition of \<open>Storage\<close> tests them.
\<close>

function partition_visits :: "('a \<Rightarrow> bool) \<Rightarrow> 'a list \<Rightarrow> 'a list" where
  "partition_visits p [] = []"
| "partition_visits p (x # xs) =
     (if p x then x # partition_visits p xs
      else case dropWhile (\<lambda>y. \<not> p y) (rev xs) of
        [] \<Rightarrow> x # rev xs
      | y # ys \<Rightarrow> x # takeWhile (\<lambda>y. \<not> p y) (rev xs) @ y # partition_visits p (rev ys))"
  by pat_completeness auto
termination
proof (relation "measure (\<lambda>(p, xs). length xs)", goal_cases)
  case (3 p x xs y ys)
  have "length (dropWhile (\<lambda>y. \<not> p y) (rev xs)) \<le> length (rev xs)" by (rule length_dropWhile_le)
  with 3 show ?case by simp
qed auto

definition put_concerned :: "value_id \<Rightarrow> dht_announce \<Rightarrow> bool" where
  "put_concerned vid a \<longleftrightarrow> vid = INVALID_ID \<or> v_id (a_value a) = vid"

definition put_kept :: "search_world \<Rightarrow> value_id \<Rightarrow> dht_search \<Rightarrow> dht_announce \<Rightarrow> bool" where
  "put_kept w vid s a \<longleftrightarrow> \<not> put_concerned vid a \<or> \<not> search_isAnnounced w (v_id (a_value a)) s \<or> a_permanent a"

definition put_told :: "search_world \<Rightarrow> value_id \<Rightarrow> dht_search \<Rightarrow> dht_announce \<Rightarrow> bool" where
  "put_told w vid s a \<longleftrightarrow> put_concerned vid a \<and> search_isAnnounced w (v_id (a_value a)) s"

definition checkAnnounced :: "value_id \<Rightarrow> dht_search \<Rightarrow> search_world \<Rightarrow> dht_search \<times> search_world" where
  "checkAnnounced vid s w =
     (let (kept, gone) = partition_swap (put_kept w vid s) (s_announce s);
          w' = fold (\<lambda>a w'. if put_told w vid s a then call_done (a_callback a) True (getNodes s) w' else w')
                 (partition_visits (put_kept w vid s) (s_announce s)) w;
          (ns, w') = fold (\<lambda>a (ns, w'). on_nodes (drop_ack (v_id (a_value a))) ns w') gone (s_nodes s, w')
      in (s\<lparr>s_announce := map (\<lambda>a. if put_told w vid s a then a\<lparr>a_callback := None\<rparr> else a) kept, s_nodes := ns\<rparr>, w'))"

section \<open>Ends of a search\<close>

definition search_expire_all :: "dht_search \<Rightarrow> search_world \<Rightarrow> dht_search \<times> search_world" where
  "search_expire_all s w =
     (let w = destroy_nodes (s_nodes s) w;
          s = s\<lparr>s_expired := True, s_nodes := []\<rparr>;
          s = (if s_announce s = [] \<and> s_listeners s = [] then s\<lparr>s_done := True\<rparr> else s);
          w = fold (\<lambda>(t, g). call_done (g_done_cb g) False []) (s_callbacks s) w;
          w' = fold (\<lambda>a. call_done (a_callback a) False []) (s_announce s) w
      in (s\<lparr>s_callbacks := [], s_announce := map (\<lambda>a. a\<lparr>a_callback := None\<rparr>) (filter a_permanent (s_announce s))\<rparr>, w'))"

definition search_clear :: "dht_search \<Rightarrow> search_world \<Rightarrow> dht_search \<times> search_world" where
  "search_clear s w =
     (s\<lparr>s_announce := [], s_callbacks := [], s_listeners := [], s_nodes := [], nextSearchStep := None\<rparr>, destroy_nodes (s_nodes s) w)"

text \<open>The destructor calls the done callbacks without a test; the exception of an empty one ends the process.\<close>

definition destroy_search :: "dht_search \<Rightarrow> search_world \<Rightarrow> search_world outcome" where
  "destroy_search s w =
     (if list_ex (\<lambda>(t, g). g_done_cb g = None) (s_callbacks s) \<or> list_ex (\<lambda>a. a_callback a = None) (s_announce s) then Terminate
      else
        let w = (case opExpirationJob s of None \<Rightarrow> w | Some j \<Rightarrow> w\<lparr>w_sched := job_cancel j (w_sched w)\<rparr>);
            w = fold (\<lambda>(t, g). call_done (g_done_cb g) False []) (s_callbacks s) w;
            w = fold (\<lambda>a. call_done (a_callback a) False []) (s_announce s) w
        in Ret (destroy_nodes (s_nodes s) w))"

section \<open>Completed operations\<close>

text \<open>The part of \<open>searchStep\<close> that ends what a synchronised search has completed.\<close>

fun finish_gets :: "(time_point \<times> dht_get) list \<Rightarrow> dht_search \<Rightarrow> search_world
    \<Rightarrow> (time_point \<times> dht_get) list \<times> dht_get list \<times> dht_search \<times> search_world" where
  "finish_gets [] s w = ([], [], s, w)"
| "finish_gets ((t, g) # gs) s w =
     (if search_isDone w g s then
        let (s, w) = setDone_get g s w; (kept, fin, s, w) = finish_gets gs s w in (kept, g # fin, s, w)
      else let (kept, fin, s, w) = finish_gets gs s w in ((t, g) # kept, fin, s, w))"

definition forget_query :: "qref \<Rightarrow> search_node \<Rightarrow> search_node" where
  "forget_query q n = n\<lparr>getStatus := map_erase q (getStatus n), pagination_queries := map_erase q (pagination_queries n)\<rparr>"

definition idle :: "dht_search \<Rightarrow> bool" where
  "idle s \<longleftrightarrow> s_callbacks s = [] \<and> s_announce s = [] \<and> s_listeners s = []"

definition finish_step :: "dht_search \<Rightarrow> search_world \<Rightarrow> dht_search \<times> search_world" where
  "finish_step s w =
     (if s_callbacks s = [] \<and> s_announce s = [] then (s, w)
      else
        let (kept, fin, s, w) = finish_gets (s_callbacks s) s w;
            s = s\<lparr>s_callbacks := kept, s_nodes := map (\<lambda>n. fold (\<lambda>g. forget_query (g_query g)) fin n) (s_nodes s)\<rparr>;
            (s, w) = checkAnnounced INVALID_ID s w
        in if idle s then setDone s w else (s, w))"

section \<open>The table of searches\<close>

text \<open>\<open>near\<close> are the nodes the node cache returns for the identifier of the search.\<close>

fun refill_from :: "nref list \<Rightarrow> time_point \<Rightarrow> dht_search \<Rightarrow> search_world \<Rightarrow> (nat \<times> dht_search \<times> search_world) outcome" where
  "refill_from [] now s w = Ret (0, s, w)"
| "refill_from (n # ns) now s w =
     bind_outcome (insertNode n now [] s w) (\<lambda>(new, s, w).
     bind_outcome (refill_from ns now s w) (\<lambda>(k, s, w). Ret (if new then k + 1 else k, s, w)))"

definition refill :: "nref list \<Rightarrow> dht_search \<Rightarrow> search_world \<Rightarrow> (nat \<times> dht_search \<times> search_world) outcome" where
  "refill near s w = (let now = sch_now (w_sched w) in refill_from near now (s\<lparr>refill_time := now\<rparr>) w)"

text \<open>The loop that looks for a search to reuse does not advance its iterator.\<close>

definition reusable :: "dht_search \<Rightarrow> bool" where
  "reusable s \<longleftrightarrow> (s_done s \<or> s_expired s) \<and> s_announce s = [] \<and> s_listeners s = []"

partial_function (option) reuse_search :: "(hash \<times> dht_search) list \<Rightarrow> hash option option" where
  "reuse_search srs =
     (case srs of [] \<Rightarrow> Some None | e # es \<Rightarrow> if reusable (snd e) then Some (Some (fst e)) else reuse_search srs)"

record search_table =
  st_searches :: "(hash \<times> dht_search) list"
  max_searches :: nat
  search_id :: uint64

text \<open>\<open>fn\<close> is the name of the job that calls \<open>searchStep\<close>.\<close>

definition init_search :: "nat \<Rightarrow> hash \<Rightarrow> nat \<Rightarrow> uint64 \<Rightarrow> dht_search \<Rightarrow> search_world \<Rightarrow> dht_search \<times> search_world" where
  "init_search fn i af sid s w =
     (let w = destroy_nodes (s_nodes s) w;
          (j, sc) = sch_add time_max (Some fn) (w_sched w)
      in (s\<lparr>s_af := af, s_tid := ucast sid, step_time := time_min, s_id := i, s_done := False, s_expired := False, s_nodes := [],
            nextSearchStep := Some j\<rparr>, w\<lparr>w_sched := sc\<rparr>))"

definition next_search_id :: "uint64 \<Rightarrow> uint64" where
  "next_search_id sid = (if sid + 1 = 0 then sid + 2 else sid + 1)"

text \<open>
  \<open>Dht::search\<close>: the result names the key of the search in the table. \<open>get\<close> is the get operation that is started.
\<close>

definition dht_search_op :: "bool \<Rightarrow> nat \<Rightarrow> nref list \<Rightarrow> (dht_search \<Rightarrow> search_world \<Rightarrow> (dht_search \<times> search_world) outcome) \<Rightarrow> nat option
    \<Rightarrow> hash \<Rightarrow> nat \<Rightarrow> search_table \<Rightarrow> search_world \<Rightarrow> (hash option \<times> search_table \<times> search_world) outcome option" where
  "dht_search_op running fn near get dcb i af T w =
     (if \<not> running then Some (Ret (None, T, call_done dcb False [] w))
      else
        let start = (\<lambda>k T s w. bind_outcome (get s w) (\<lambda>(s, w). bind_outcome (refill near s w) (\<lambda>(_, s, w).
              Ret (Some k, T\<lparr>st_searches := map_put k s (st_searches T)\<rparr>, w))));
            begin_at = (\<lambda>k s. let (s, w) = init_search fn i af (search_id T) s w
              in start k (T\<lparr>search_id := next_search_id (search_id T)\<rparr>) s w)
        in case map_of (st_searches T) i of
             Some s \<Rightarrow> Some (start i T (s\<lparr>s_done := False, s_expired := False\<rparr>) w)
           | None \<Rightarrow>
             if length (st_searches T) < max_searches T then Some (begin_at i new_search)
             else case reuse_search (st_searches T) of
                    None \<Rightarrow> None
                  | Some None \<Rightarrow> Some (Ret (None, T, w))
                  | Some (Some k) \<Rightarrow> Some (begin_at k (the (map_of (st_searches T) k))))"

definition no_get :: "dht_search \<Rightarrow> search_world \<Rightarrow> (dht_search \<times> search_world) outcome" where
  "no_get s w = Ret (s, w)"

definition find_search :: "bool \<Rightarrow> nat \<Rightarrow> nref list \<Rightarrow> hash \<Rightarrow> nat \<Rightarrow> search_table \<Rightarrow> search_world
    \<Rightarrow> (hash option \<times> search_table \<times> search_world) outcome option" where
  "find_search running fn near i af T w =
     (if map_of (st_searches T) i = None then dht_search_op running fn near no_get None i af T w else Some (Ret (Some i, T, w)))"

definition dht_announce_op :: "bool \<Rightarrow> nat \<Rightarrow> nref list \<Rightarrow> hash \<Rightarrow> nat \<Rightarrow> dht_value \<Rightarrow> nat option \<Rightarrow> time_point \<Rightarrow> bool \<Rightarrow> search_table \<Rightarrow> search_world
    \<Rightarrow> (search_table \<times> search_world) outcome option" where
  "dht_announce_op running fn near i af v cb created permanent T w =
     bind_loop (find_search running fn near i af T w) (\<lambda>(ko, T, w).
       case ko of
         None \<Rightarrow> Some (Ret (T, call_done cb False [] w))
       | Some k \<Rightarrow>
         let (s, w) = search_put v cb created permanent (the (map_of (st_searches T) k)) w;
             (s, w) = edit_step (sch_now (w_sched w)) s w
         in Some (Ret (T\<lparr>st_searches := map_put k s (st_searches T)\<rparr>, w)))"

definition dht_listenTo :: "bool \<Rightarrow> nat \<Rightarrow> nref list \<Rightarrow> hash \<Rightarrow> nat \<Rightarrow> nat \<Rightarrow> (dht_value list \<Rightarrow> bool) \<Rightarrow> value_filter \<Rightarrow> nat \<Rightarrow> query \<Rightarrow> time_point
    \<Rightarrow> search_table \<Rightarrow> search_world \<Rightarrow> (uint64 \<times> search_table \<times> search_world) outcome option" where
  "dht_listenTo running fn near i af cb keep f qr q clk T w =
     (if \<not> running then Some (Ret (0, T, w))
      else bind_loop (find_search running fn near i af T w) (\<lambda>(ko, T, w).
        case ko of
          None \<Rightarrow> Some Throw
        | Some k \<Rightarrow>
          let (tok, s, w) = search_listen_op cb keep f qr q clk (the (map_of (st_searches T) k)) w
          in Some (Ret (tok, T\<lparr>st_searches := map_put k s (st_searches T)\<rparr>, w))))"

definition SEARCH_EXPIRE_TIME :: int where
  "SEARCH_EXPIRE_TIME = minutes 62"

definition search_outdated :: "time_point \<Rightarrow> dht_search \<Rightarrow> bool" where
  "search_outdated t s \<longleftrightarrow> idle s \<and> step_time s < t"

definition expireSearches :: "search_table \<Rightarrow> search_world \<Rightarrow> search_table \<times> search_world" where
  "expireSearches T w =
     (let t = sch_now (w_sched w) - SEARCH_EXPIRE_TIME
      in (T\<lparr>st_searches := filter (\<lambda>(k, s). \<not> search_outdated t s) (st_searches T)\<rparr>,
          fold (\<lambda>(k, s) w. if search_outdated t s then snd (search_clear s w) else w) (st_searches T) w))"

section \<open>Done callbacks\<close>

text \<open>The callbacks that have been called and those that are waiting.\<close>

fun opt_list :: "'a option \<Rightarrow> 'a list" where
  "opt_list None = []"
| "opt_list (Some x) = [x]"

fun done_of :: "search_call \<Rightarrow> nat list" where
  "done_of (DoneCall c ok ns) = [c]"
| "done_of (ListenCall q c) = []"

definition called :: "search_world \<Rightarrow> nat multiset" where
  "called w = mset (concat (map done_of (w_log w)))"

definition put_cbs :: "dht_announce list \<Rightarrow> nat multiset" where
  "put_cbs as = mset (concat (map (\<lambda>a. opt_list (a_callback a)) as))"

definition get_cbs :: "(time_point \<times> dht_get) list \<Rightarrow> nat multiset" where
  "get_cbs gs = mset (concat (map (\<lambda>(t, g). opt_list (g_done_cb g)) gs))"

definition waiting :: "dht_search \<Rightarrow> nat multiset" where
  "waiting s = put_cbs (s_announce s) + get_cbs (s_callbacks s)"

lemma put_cbs_simps [simp]:
  "put_cbs [] = {#}" "put_cbs (a # as) = mset (opt_list (a_callback a)) + put_cbs as" "put_cbs (as @ bs) = put_cbs as + put_cbs bs"
  by (simp_all add: put_cbs_def)

lemma get_cbs_simps [simp]:
  "get_cbs [] = {#}" "get_cbs ((t, g) # gs) = mset (opt_list (g_done_cb g)) + get_cbs gs"
  by (simp_all add: get_cbs_def)

lemma get_cbs_emplace: "get_cbs (multimap_emplace t g gs) = mset (opt_list (g_done_cb g)) + get_cbs gs"
  by (induction t g gs rule: multimap_emplace.induct) (auto simp: get_cbs_def)

lemma called_log: "called (w\<lparr>w_log := w_log w @ l\<rparr>) = called w + mset (concat (map done_of l))"
  by (simp add: called_def)

lemma called_done [simp]: "called (call_done cb ok ns w) = called w + mset (opt_list cb)"
  by (cases cb) (simp_all add: call_done_def called_log)

lemma called_sched [simp]: "called (w\<lparr>w_sched := sc\<rparr>) = called w"
  by (simp add: called_def)

lemma called_edit [simp]: "called (snd (edit_step t s w)) = called w"
  by (simp add: edit_step_def split: prod.split)

lemma called_fold_same: "(\<And>x w. called (f x w) = called w) \<Longrightarrow> called (fold f xs w) = called w"
  by (induction xs arbitrary: w) simp_all

text \<open>The log of an operation of the node heap is the log before it.\<close>

lemma w_log_heap [simp]:
  "w_log (node_cancelRequest n ro w) = w_log w" "w_log (closeSocket n t w) = w_log w" "w_log (req_cancel r w) = w_log w"
  "w_log (upd_nd n f w) = w_log w"
  by (auto simp: node_cancelRequest_def closeSocket_def req_cancel_def heap_defs split: option.split)

lemma called_heap [simp]:
  "called (node_cancelRequest n ro w) = called w" "called (req_cancel r w) = called w" "called (upd_nd n f w) = called w"
  by (simp_all add: called_def)

lemma called_destroy_listen [simp]: "called (destroy_listen e w) = called w"
proof -
  have "concat (map (done_of \<circ> ListenCall q) l) = []" for q l by (induction l) simp_all
  then show ?thesis by (auto simp: destroy_listen_def called_def Let_def split: option.split)
qed

lemma called_destroy [simp]: "called (destroy_search_node n w) = called w"
proof -
  have "called (snd (cancelGet n w)) = called w" for n w
    by (auto simp: cancelGet_def intro!: called_fold_same)
  moreover have "called (snd (cancelListen_all n w)) = called w" for n w
  proof -
    have "called (fold (\<lambda>(q, l). node_cancelRequest (sn_node n) (ls_req l)) xs w) = called w" for xs w
      by (rule called_fold_same) auto
    then show ?thesis by (simp add: cancelListen_all_def Let_def called_fold_same)
  qed
  moreover have "called (snd (cancelAnnounce n w)) = called w" for n w
    by (auto simp: cancelAnnounce_def intro!: called_fold_same split: option.split)
  ultimately show ?thesis by (simp add: destroy_search_node_def split: prod.split) (metis snd_conv)
qed

lemma called_destroy_nodes [simp]: "called (destroy_nodes ns w) = called w"
  by (simp add: destroy_nodes_def called_fold_same)

lemma called_on_nodes: "(\<And>n w. called (snd (f n w)) = called w) \<Longrightarrow> called (snd (on_nodes f ns w)) = called w"
  by (induction ns arbitrary: w) (auto split: prod.split, metis snd_conv)

lemma called_drop_ack [simp]: "called (snd (drop_ack vid n w)) = called w"
  by (auto simp: drop_ack_def split: option.split)

text \<open>Callbacks called or waiting, and what each operation adds to them.\<close>

definition balance :: "dht_search \<times> search_world \<Rightarrow> nat multiset" where
  "balance x = called (snd x) + waiting (fst x)"

lemma put_cbs_update:
  "k < length as \<Longrightarrow> put_cbs (as[k := a]) + mset (opt_list (a_callback (as ! k))) = put_cbs as + mset (opt_list (a_callback a))"
  by (induction as arbitrary: k) (auto simp: nth_Cons ac_simps split: nat.split)

lemma waiting_edit [simp]: "waiting (fst (edit_step t s w)) = waiting s"
  by (simp add: edit_step_def waiting_def split: prod.split)

lemma balance_put: "balance (search_put v cb created permanent s w) = balance (s, w) + mset (opt_list cb)"
proof (cases "find_pos (\<lambda>a. v_id (a_value a) = v_id v) (s_announce s)")
  case None
  then show ?thesis by (simp add: search_put_def Let_def balance_def waiting_def)
next
  case (Some k)
  then have k: "k < length (s_announce s)" using find_pos_Some by blast
  have u: "put_cbs ((s_announce s)[k := a]) + mset (opt_list (a_callback (s_announce s ! k))) = put_cbs (s_announce s) + mset (opt_list (a_callback a))"
      "mset (opt_list (a_callback (s_announce s ! k))) + put_cbs ((s_announce s)[k := a]) = put_cbs (s_announce s) + mset (opt_list (a_callback a))" for a
    using put_cbs_update [OF k, of a] by (simp_all add: add.commute)
  show ?thesis
    using Some by (auto simp: search_put_def Let_def balance_def waiting_def u)
qed

lemma balance_get: "search_get_op f qr q qcb gcb keep dcb s w = Ret x \<Longrightarrow>
    balance x = balance (s, w) + (if gcb = None \<and> qcb = None then {#} else mset (opt_list dcb))"
  by (auto simp: search_get_op_def Let_def balance_def waiting_def get_cbs_emplace edit_step_def split: if_splits prod.splits)

lemma partition_visits_mset: "mset (partition_visits p xs) = mset xs"
proof (induction p xs rule: partition_visits.induct)
  case (2 p x xs)
  show ?case
  proof (cases "p x")
    case True
    then show ?thesis using 2(1) by simp
  next
    case False
    show ?thesis
    proof (cases "dropWhile (\<lambda>y. \<not> p y) (rev xs)")
      case Nil
      then show ?thesis by (simp only: partition_visits.simps False if_False list.case) simp
    next
      case (Cons y ys)
      have "mset (takeWhile (\<lambda>y. \<not> p y) (rev xs)) + mset (y # ys) = mset xs"
        by (metis Cons mset_append mset_rev takeWhile_dropWhile_id)
      moreover have "mset (partition_visits p (rev ys)) = mset ys" using 2(2) [OF False Cons] by simp
      ultimately show ?thesis using False Cons by simp
    qed
  qed
qed simp

lemma called_fold_done:
  "called (fold (\<lambda>a w'. if p a then call_done (a_callback a) ok ns w' else w') as w) = called w + put_cbs (filter p as)"
  by (induction as arbitrary: w) (simp_all add: ac_simps)

lemma put_cbs_mset: "mset as = mset bs \<Longrightarrow> put_cbs as = put_cbs bs"
proof -
  have "put_cbs as = \<Sum>\<^sub># (image_mset (\<lambda>a. mset (opt_list (a_callback a))) (mset as))" for as
    by (induction as) simp_all
  then show "mset as = mset bs \<Longrightarrow> put_cbs as = put_cbs bs" by simp
qed

lemma put_cbs_clear: "put_cbs (map (\<lambda>a. if p a then a\<lparr>a_callback := None\<rparr> else a) as) = put_cbs (filter (\<lambda>a. \<not> p a) as)"
  by (induction as) simp_all

lemma balance_check: "balance (checkAnnounced vid s w) = balance (s, w)"
proof -
  let ?k = "put_kept w vid s" and ?t = "put_told w vid s"
  obtain kept gone where p: "partition_swap ?k (s_announce s) = (kept, gone)" by fastforce
  define w1 where "w1 = fold (\<lambda>a w'. if ?t a then call_done (a_callback a) True (getNodes s) w' else w') (partition_visits ?k (s_announce s)) w"
  obtain ns w2 where f: "fold (\<lambda>a (ns, w'). on_nodes (drop_ack (v_id (a_value a))) ns w') gone (s_nodes s, w1) = (ns, w2)" by fastforce
  have "called (snd (fold (\<lambda>a (ns, w'). on_nodes (drop_ack (v_id (a_value a))) ns w') as x)) = called (snd x)" for as x
    by (induction as arbitrary: x) (simp_all add: case_prod_beta called_on_nodes)
  from this [of gone "(s_nodes s, w1)"] have w2: "called w2 = called w1" by (simp add: f)
  have m: "mset kept = filter_mset ?k (mset (s_announce s))" using partition_swap_split [OF p] by simp
  have "filter_mset (\<lambda>a. \<not> ?t a) (mset kept) = filter_mset (\<lambda>a. \<not> ?t a) (mset (s_announce s))"
    unfolding m by (auto simp: put_kept_def put_told_def multiset_eq_iff)
  then have a: "put_cbs (filter (\<lambda>a. \<not> ?t a) kept) = put_cbs (filter (\<lambda>a. \<not> ?t a) (s_announce s))" by (intro put_cbs_mset) simp
  have b: "put_cbs (filter ?t (partition_visits ?k (s_announce s))) = put_cbs (filter ?t (s_announce s))"
    by (intro put_cbs_mset) (simp add: partition_visits_mset)
  have c: "put_cbs (filter ?t as) + put_cbs (filter (\<lambda>a. \<not> ?t a) as) = put_cbs as" for as
    by (induction as) (simp_all add: ac_simps)
  have "checkAnnounced vid s w = (s\<lparr>s_announce := map (\<lambda>a. if ?t a then a\<lparr>a_callback := None\<rparr> else a) kept, s_nodes := ns\<rparr>, w2)"
    using p f by (simp add: checkAnnounced_def Let_def w1_def)
  then show ?thesis
    using c [of "s_announce s"] by (simp add: balance_def waiting_def put_cbs_clear w2 w1_def called_fold_done a b)
qed

lemma called_fold_gets:
  "called (fold (\<lambda>(t, g). call_done (g_done_cb g) False []) gs w) = called w + get_cbs gs"
  by (induction gs arbitrary: w) (auto simp: ac_simps)

lemma called_fold_puts: "called (fold (\<lambda>a. call_done (a_callback a) False []) as w) = called w + put_cbs as"
  by (induction as arbitrary: w) (simp_all add: ac_simps)

lemma balance_expire: "balance (search_expire_all s w) = balance (s, w) \<and> waiting (fst (search_expire_all s w)) = {#}"
proof -
  have "put_cbs (map (\<lambda>a. a\<lparr>a_callback := None\<rparr>) as) = {#}" for as by (induction as) simp_all
  then show ?thesis
    by (auto simp: search_expire_all_def Let_def balance_def waiting_def called_fold_gets called_fold_puts ac_simps)
qed

lemma balance_finish_gets:
  "finish_gets gs s w = (kept, fin, s', w') \<Longrightarrow>
    called w' + get_cbs kept = called w + get_cbs gs \<and> s_announce s' = s_announce s \<and> s_callbacks s' = s_callbacks s"
proof (induction gs s w arbitrary: kept fin s' w' rule: finish_gets.induct)
  case (2 t g gs s w)
  show ?case
  proof (cases "search_isDone w g s")
    case True
    obtain s1 w1 where d: "setDone_get g s w = (s1, w1)" by fastforce
    obtain k f s2 w2 where r: "finish_gets gs s1 w1 = (k, f, s2, w2)" by (cases "finish_gets gs s1 w1") auto
    have "called w2 + get_cbs k = called w1 + get_cbs gs \<and> s_announce s2 = s_announce s1 \<and> s_callbacks s2 = s_callbacks s1"
      by (rule 2(1) [OF True d [symmetric] refl r])
    moreover have "called w1 = called w + mset (opt_list (g_done_cb g)) \<and> s_announce s1 = s_announce s \<and> s_callbacks s1 = s_callbacks s"
      using d by (auto simp: setDone_get_def)
    ultimately show ?thesis using "2.prems" True d r by (auto simp: ac_simps)
  next
    case False
    obtain k f s2 w2 where r: "finish_gets gs s w = (k, f, s2, w2)" by (cases "finish_gets gs s w") auto
    then show ?thesis using "2.prems" 2(2) [OF False r] False by (auto simp: ac_simps)
  qed
qed simp

lemma balance_setDone: "balance (setDone s w) = balance (s, w)"
  by (simp add: setDone_def balance_def waiting_def called_fold_same)

lemma balance_finish: "balance (finish_step s w) = balance (s, w)"
proof (cases "s_callbacks s = [] \<and> s_announce s = []")
  case True
  then show ?thesis by (simp add: finish_step_def)
next
  case False
  obtain kept fin s1 w1 where f: "finish_gets (s_callbacks s) s w = (kept, fin, s1, w1)"
    by (cases "finish_gets (s_callbacks s) s w") auto
  let ?s = "s1\<lparr>s_callbacks := kept, s_nodes := map (\<lambda>n. fold (\<lambda>g. forget_query (g_query g)) fin n) (s_nodes s1)\<rparr>"
  obtain s2 w2 where c: "checkAnnounced INVALID_ID ?s w1 = (s2, w2)" by fastforce
  have "balance (?s, w1) = balance (s, w)" using balance_finish_gets [OF f] by (simp add: balance_def waiting_def ac_simps)
  then have "balance (s2, w2) = balance (s, w)" using balance_check [of INVALID_ID ?s w1] c by simp
  then show ?thesis using False f c balance_setDone [of s2 w2] by (simp add: finish_step_def)
qed

lemma called_trim_back: "called (snd (trim_back ex bad ns w)) = called w"
proof (induction ex bad ns w rule: trim_back.induct)
  case (1 ex bad ns w)
  then show ?case by (subst trim_back.simps) simp
qed

lemma add_node_keeps:
  "add_node node now i bad s w = (s', w') \<Longrightarrow> waiting s' = waiting s \<and> called w' = called w"
proof -
  have "called w2 = called w1" if "trim_back ex bad ns w1 = (ns2, w2)" for ex bad ns w1 ns2 w2
    using called_trim_back [of ex bad ns w1] that by simp
  then show "add_node node now i bad s w = (s', w') \<Longrightarrow> waiting s' = waiting s \<and> called w' = called w"
    by (auto simp: add_node_def Let_def waiting_def split: prod.splits if_splits)
qed

lemma take_token_keeps: "take_token token now i s = Ret s' \<Longrightarrow> waiting s' = waiting s"
  by (auto simp: take_token_def waiting_def split: if_splits)

lemma removeExpiredNode_keeps: "removeExpiredNode now s w = (r, s', w') \<Longrightarrow> waiting s' = waiting s \<and> called w' = called w"
  by (auto simp: removeExpiredNode_def waiting_def split: option.splits)

lemma balance_insert:
  assumes "insertNode node now token s w = Ret (new, s', w')"
  shows "balance (s', w') = balance (s, w)"
proof -
  obtain found i where fp: "find_place (\<lambda>n. sn_node n = node)
      (\<lambda>n. xorCmp (s_id s) (n_id (nd w node)) (n_id (nd w (sn_node n))) > 0) (s_nodes s) (length (s_nodes s)) = (found, i)" by fastforce
  obtain full t bad where f: "full_at s w = (full, t, bad)" by (cases "full_at s w") auto
  define w1 s1 where "w1 = (if full then destroy_nodes (drop t (s_nodes s)) w else w)"
    and "s1 = (if full then s\<lparr>s_nodes := take t (s_nodes s)\<rparr> else s)"
  have 1: "waiting s1 = waiting s" "called w1 = called w" by (simp_all add: s1_def w1_def waiting_def)
  obtain s2 w2 where a: "add_node node now i bad s1 w1 = (s2, w2)" by fastforce
  have run: "insertNode node now token s w = (if getFamily (n_addr (nd w node)) \<noteq> s_af s then Ret (False, s, w)
      else if found then bind_outcome (take_token token now i s) (\<lambda>s. Ret (False, s, w))
      else if full \<and> i \<ge> t then Ret (False, s1, w1)
      else bind_outcome (take_token token now i s2) (\<lambda>s3. let (_, s4, w4) = removeExpiredNode now s3 w2 in Ret (True, s4, w4)))"
    unfolding insertNode_def fp f Let_def prod.case w1_def [symmetric] s1_def [symmetric] a by simp
  consider "s' = s" "w' = w" | "w' = w" "take_token token now i s = Ret s'" | "s' = s1" "w' = w1"
    | s3 rm where "take_token token now i s2 = Ret s3" "removeExpiredNode now s3 w2 = (rm, s', w')"
    using assms unfolding run by (auto simp: bind_outcome_Ret Let_def case_prod_beta split: if_splits) (metis prod.collapse)+
  then show ?thesis
  proof cases
    case 4
    then show ?thesis using add_node_keeps [OF a] take_token_keeps removeExpiredNode_keeps 1 by (fastforce simp: balance_def)
  qed (use 1 take_token_keeps in \<open>auto simp: balance_def\<close>)
qed

section \<open>Runs of a search\<close>

text \<open>
  What happens to a search between its creation and its end. Cancelling a put and clearing the search drop
  callbacks without calling them; the other operations do not.
\<close>

datatype search_op =
  Op_put dht_value "nat option" time_point bool
  | Op_get value_filter nat query "nat option" "nat option" "dht_value list \<Rightarrow> bool" "nat option"
  | Op_insert nref time_point bytes
  | Op_check value_id
  | Op_finish
  | Op_expire
  | Op_cancelPut value_id
  | Op_clear

inductive search_step :: "dht_search \<times> search_world \<Rightarrow> search_op \<Rightarrow> dht_search \<times> search_world \<Rightarrow> bool" where
  step_put: "search_step (s, w) (Op_put v cb created permanent) (search_put v cb created permanent s w)"
| step_get: "search_get_op f qr q qcb gcb keep dcb s w = Ret x \<Longrightarrow> search_step (s, w) (Op_get f qr q qcb gcb keep dcb) x"
| step_insert: "insertNode n now token s w = Ret (new, x) \<Longrightarrow> search_step (s, w) (Op_insert n now token) x"
| step_check: "search_step (s, w) (Op_check vid) (checkAnnounced vid s w)"
| step_finish: "search_step (s, w) Op_finish (finish_step s w)"
| step_expire: "search_step (s, w) Op_expire (search_expire_all s w)"
| step_cancelPut: "search_step (s, w) (Op_cancelPut vid) (snd (cancelPut vid s w))"
| step_clear: "search_step (s, w) Op_clear (search_clear s w)"

text \<open>The callbacks handed over by an operation, and the operations that drop none.\<close>

fun given :: "search_op \<Rightarrow> nat multiset" where
  "given (Op_put v cb created permanent) = mset (opt_list cb)"
| "given (Op_get f qr q qcb gcb keep dcb) = (if gcb = None \<and> qcb = None then {#} else mset (opt_list dcb))"
| "given _ = {#}"

fun keeps_all :: "search_op \<Rightarrow> bool" where
  "keeps_all (Op_cancelPut vid) = False"
| "keeps_all Op_clear = False"
| "keeps_all _ = True"

lemma put_cbs_filter: "put_cbs (filter p as) \<subseteq># put_cbs as"
proof (induction as)
  case (Cons a as)
  then show ?case by (auto intro: subset_mset.add_increasing subset_mset.add_left_mono)
qed simp

lemma balance_cancelPut: "balance (snd (cancelPut vid s w)) \<subseteq># balance (s, w)"
proof -
  have "called (snd (on_nodes (drop_ack vid) (s_nodes s) w)) = called w" by (rule called_on_nodes) simp
  then show ?thesis
    using put_cbs_filter [of "\<lambda>a. v_id (a_value a) \<noteq> vid" "s_announce s"]
    by (auto simp: cancelPut_def balance_def waiting_def split: prod.split)
qed

lemma balance_clear: "balance (search_clear s w) \<subseteq># balance (s, w)"
  by (simp add: search_clear_def balance_def waiting_def)

lemma search_step_balance:
  "search_step x e y \<Longrightarrow> balance y \<subseteq># balance x + given e \<and> (keeps_all e \<longrightarrow> balance y = balance x + given e)"
proof (induction rule: search_step.induct)
  case (step_insert n now token s w new x)
  then show ?case using balance_insert [of n now token s w new "fst x" "snd x"] by simp
next
  case (step_get f qr q qcb gcb keep dcb s w x)
  then show ?case using balance_get [OF step_get] by simp
qed (simp_all add: balance_put balance_check balance_finish balance_expire balance_cancelPut balance_clear)

lemma search_run_balance:
  "run search_step x es y \<Longrightarrow> balance y \<subseteq># balance x + (\<Sum>e\<leftarrow>es. given e)
    \<and> (list_all keeps_all es \<longrightarrow> balance y = balance x + (\<Sum>e\<leftarrow>es. given e))"
proof (induction rule: run.induct)
  case (run_Cons x e x1 es y)
  have "balance y \<subseteq># balance x1 + (\<Sum>e\<leftarrow>es. given e)" using run_Cons by blast
  also have "\<dots> \<subseteq># (balance x + given e) + (\<Sum>e\<leftarrow>es. given e)"
    using search_step_balance [OF run_Cons.hyps(1)] by (intro subset_mset.add_right_mono) blast
  finally show ?case using run_Cons search_step_balance [OF run_Cons.hyps(1)] by (auto simp: ac_simps)
qed simp

section \<open>Where the code falls short\<close>

text \<open>With the table full, looking for a search to reuse does not end unless the first one can be reused.\<close>

lemma reuse_search_loops:
  assumes "srs = e # es" and "\<not> reusable (snd e)"
  shows "reuse_search srs = None"
proof (rule ccontr)
  assume "reuse_search srs \<noteq> None"
  then obtain r where "reuse_search srs = Some r" by blast
  then have "srs = e # es \<longrightarrow> r \<noteq> r"
  proof (rule reuse_search.raw_induct [rotated])
    fix rec srs r
    assume IH: "\<And>srs r. rec srs = Some r \<Longrightarrow> srs = e # es \<longrightarrow> r \<noteq> r"
      and body: "(case srs of [] \<Rightarrow> Some None | e # es \<Rightarrow> if reusable (snd e) then Some (Some (fst e)) else rec srs) = Some r"
    show "srs = e # es \<longrightarrow> r \<noteq> r"
    proof
      assume "srs = e # es"
      then have "rec srs = Some r" using body assms(2) by simp
      with IH \<open>srs = e # es\<close> show "r \<noteq> r" by blast
    qed
  qed
  with assms(1) show False by simp
qed

text \<open>A reused search stays in the table under its old key, where the next operation does not find it.\<close>

lemma reused_not_found:
  assumes "reuse_search (st_searches T) = Some (Some k)" and "map_of (st_searches T) i = None"
    and "length (st_searches T) \<ge> max_searches T" and "map_sorted (st_searches T)" and "k \<noteq> i"
    and "dht_search_op True fn near get dcb i af T w = Some (Ret (ko, T', w'))"
  shows "ko = Some k \<and> map_of (st_searches T') i = None"
proof -
  obtain s1 w1 where a: "init_search fn i af (search_id T) (the (map_of (st_searches T) k)) w = (s1, w1)" by fastforce
  from assms a show ?thesis by (auto simp: dht_search_op_def Let_def bind_outcome_Ret)
qed

text \<open>A search with a permanent put that has been announced ends the process when it is destroyed.\<close>

lemma destroy_permanent:
  assumes "search_isAnnounced w (v_id v) s" and "s_announce s = [\<lparr>a_permanent = True, a_value = v, a_created = t, a_callback = cb\<rparr>]"
  shows "destroy_search (fst (checkAnnounced INVALID_ID s w)) w' = Terminate"
  using assms by (simp add: checkAnnounced_def destroy_search_def put_kept_def put_told_def put_concerned_def Let_def split: prod.split)

text \<open>A query on a key with cached values throws, as it has no get callback.\<close>

lemma query_on_cached_throws:
  assumes "search_get f qr q keep (s_cache s) = (fin, vals)" and "vals \<noteq> []"
  shows "search_get_op f qr q (Some qcb) None keep dcb s w = Throw"
  using assms by (simp add: search_get_op_def)

section \<open>Properties\<close>

text \<open>
  C21: done callbacks are called once. Over every sequence of puts, gets, insertions, checks, completions, expiries, cancellations
  and clearings of a search, the callbacks that were called together with those still waiting are at most those handed
  over (counted with multiplicity), and exactly these when nothing was cancelled or cleared: a callback handed over
  once is never called twice, and none is lost. Expiry leaves none waiting.
\<close>

theorem done_callbacks_once:
  assumes "run search_step (s, w) es (s', w')"
  shows "called w' + waiting s' \<subseteq># called w + waiting s + (\<Sum>e\<leftarrow>es. given e)
    \<and> (list_all keeps_all es \<longrightarrow> called w' + waiting s' = called w + waiting s + (\<Sum>e\<leftarrow>es. given e))
    \<and> waiting (fst (search_expire_all s' w')) = {#}"
  using search_run_balance [OF assms] balance_expire [of s' w'] by (simp add: balance_def)

definition some_value :: dht_value where
  "some_value = \<lparr>v_ref = 0, v_id = 4, v_owner = None, v_recipient = [], v_type = 0, v_data = [1], v_user_type = [], v_seq = 0,
     v_signature = [], v_cypher = [], v_priority = 0\<rparr>"

theorem done_callbacks_once_witness:
  "called (snd (search_expire_all (fst (search_put some_value (Some 7) 0 False crowded_search crowded_world))
      (snd (search_put some_value (Some 7) 0 False crowded_search crowded_world)))) = {#7#}"
proof -
  let ?x = "search_put some_value (Some 7) 0 False crowded_search crowded_world"
  let ?y = "search_expire_all (fst ?x) (snd ?x)"
  have p: "search_step (crowded_search, crowded_world) (Op_put some_value (Some 7) 0 False) (fst ?x, snd ?x)"
    using step_put [of crowded_search crowded_world some_value "Some 7" 0 False] by simp
  have e: "search_step (fst ?x, snd ?x) Op_expire (fst ?y, snd ?y)" using step_expire [of "fst ?x" "snd ?x"] by simp
  have "run search_step (crowded_search, crowded_world) [Op_put some_value (Some 7) 0 False, Op_expire] (fst ?y, snd ?y)"
    by (rule run_Cons [where step = search_step, OF p run_Cons [where step = search_step, OF e run_Nil]])
  from done_callbacks_once [OF this] balance_expire [of "fst ?x" "snd ?x"]
  have "called (snd ?y) = called crowded_world + waiting crowded_search + {#7#}" by simp
  moreover have "called crowded_world = {#}" "waiting crowded_search = {#}"
    by (simp_all add: called_def crowded_world_def dht_heap.extend_def waiting_def crowded_search_def new_search_def)
  ultimately show ?thesis by simp
qed

end
