(* ===== verification/Msgpack_Object.thy ===== *)
theory Msgpack_Object
  imports Info_Hash Msgpack
begin

unbundle bit_operations_syntax

text \<open>
  Objects of the msgpack format, how they are packed (\<open>msgpack/v1/pack.hpp\<close>), and the conversions the program applies
  to received objects (\<open>msgpack/v1/adaptor\<close>, \<open>utils.cpp\<close>, \<open>infohash.h\<close>). The parser of the library is not modelled: the
  contract \<open>msgpack_parser\<close> states that it reads back what was packed, and a decoder of the format fulfils it.
\<close>

section \<open>Objects\<close>

datatype msgpack_object =
    NIL
  | BOOLEAN bool
  | POSITIVE_INTEGER uint64
  | NEGATIVE_INTEGER int
  | FLOAT32 uint32
  | FLOAT64 uint64
  | STRING bytes
  | BIN bytes
  | ARRAY "msgpack_object list"
  | MAP "(msgpack_object \<times> msgpack_object) list"
  | EXT byte bytes

definition pack_neg :: "int \<Rightarrow> bytes" where
  "pack_neg d =
     (if d < - (2 ^ 5) then
        if d < - (2 ^ 15) then
          if d < - (2 ^ 31) then 0xD3 # store64 (nat (d mod 2 ^ 64)) else 0xD2 # store32 (nat (d mod 2 ^ 32))
        else if d < - (2 ^ 7) then 0xD1 # store16 (nat (d mod 2 ^ 16)) else [0xD0, of_int d]
      else [of_int d])"

definition pack_ext_header :: "nat \<Rightarrow> byte \<Rightarrow> bytes" where
  "pack_ext_header l t =
     (if l = 1 then [0xD4, t] else if l = 2 then [0xD5, t] else if l = 4 then [0xD6, t]
      else if l = 8 then [0xD7, t] else if l = 16 then [0xD8, t]
      else if l < 256 then [0xC7, of_nat l, t]
      else if l < 65536 then 0xC8 # store16 l @ [t]
      else 0xC9 # store32 l @ [t])"

fun pack_obj :: "msgpack_object \<Rightarrow> bytes" where
  "pack_obj NIL = [0xC0]"
| "pack_obj (BOOLEAN b) = [if b then 0xC3 else 0xC2]"
| "pack_obj (POSITIVE_INTEGER u) = pack_uint64 u"
| "pack_obj (NEGATIVE_INTEGER i) = pack_neg i"
| "pack_obj (FLOAT32 w) = 0xCA # store32 (unat w)"
| "pack_obj (FLOAT64 w) = 0xCB # store64 (unat w)"
| "pack_obj (STRING s) = pack_str s"
| "pack_obj (BIN s) = pack_bin s"
| "pack_obj (ARRAY os) = pack_array_header (length os) @ concat (map pack_obj os)"
| "pack_obj (MAP ps) = pack_map_header (length ps) @ concat (map (\<lambda>(k, v). pack_obj k @ pack_obj v) ps)"
| "pack_obj (EXT t s) = pack_ext_header (length s) t @ s"

text \<open>What the format can express: sizes and negative numbers within their widths.\<close>

fun obj_ok :: "msgpack_object \<Rightarrow> bool" where
  "obj_ok (NEGATIVE_INTEGER i) \<longleftrightarrow> - (2 ^ 63) \<le> i \<and> i < 0"
| "obj_ok (STRING s) \<longleftrightarrow> length s < 2 ^ 32"
| "obj_ok (BIN s) \<longleftrightarrow> length s < 2 ^ 32"
| "obj_ok (ARRAY os) \<longleftrightarrow> length os < 2 ^ 32 \<and> list_all obj_ok os"
| "obj_ok (MAP ps) \<longleftrightarrow> length ps < 2 ^ 32 \<and> list_all (\<lambda>(k, v). obj_ok k \<and> obj_ok v) ps"
| "obj_ok (EXT t s) \<longleftrightarrow> length s < 2 ^ 32"
| "obj_ok _ \<longleftrightarrow> True"

section \<open>Conversions\<close>

definition convert_unsigned :: "nat \<Rightarrow> msgpack_object \<Rightarrow> nat outcome" where
  "convert_unsigned mx obj = (case obj of POSITIVE_INTEGER u \<Rightarrow> if unat u > mx then Throw else Ret (unat u) | _ \<Rightarrow> Throw)"

definition convert_signed :: "int \<Rightarrow> int \<Rightarrow> msgpack_object \<Rightarrow> int outcome" where
  "convert_signed mn mx obj = (case obj of
     POSITIVE_INTEGER u \<Rightarrow> if uint u > mx then Throw else Ret (uint u)
   | NEGATIVE_INTEGER i \<Rightarrow> if i < mn then Throw else Ret i
   | _ \<Rightarrow> Throw)"

definition as_uint8 :: "msgpack_object \<Rightarrow> byte outcome" where
  "as_uint8 obj = bind_outcome (convert_unsigned 0xFF obj) (\<lambda>n. Ret (of_nat n))"

definition as_uint16 :: "msgpack_object \<Rightarrow> 16 word outcome" where
  "as_uint16 obj = bind_outcome (convert_unsigned 0xFFFF obj) (\<lambda>n. Ret (of_nat n))"

definition as_uint32 :: "msgpack_object \<Rightarrow> uint32 outcome" where
  "as_uint32 obj = bind_outcome (convert_unsigned 0xFFFFFFFF obj) (\<lambda>n. Ret (of_nat n))"

definition as_uint64 :: "msgpack_object \<Rightarrow> uint64 outcome" where
  "as_uint64 obj = bind_outcome (convert_unsigned 0xFFFFFFFFFFFFFFFF obj) (\<lambda>n. Ret (of_nat n))"

definition as_int32 :: "msgpack_object \<Rightarrow> int outcome" where
  "as_int32 = convert_signed (- (2 ^ 31)) (2 ^ 31 - 1)"

definition as_int64 :: "msgpack_object \<Rightarrow> int outcome" where
  "as_int64 = convert_signed (- (2 ^ 63)) (2 ^ 63 - 1)"

definition as_bool :: "msgpack_object \<Rightarrow> bool outcome" where
  "as_bool obj = (case obj of BOOLEAN b \<Rightarrow> Ret b | _ \<Rightarrow> Throw)"

definition as_string :: "msgpack_object \<Rightarrow> bytes outcome" where
  "as_string obj = (case obj of BIN s \<Rightarrow> Ret s | STRING s \<Rightarrow> Ret s | _ \<Rightarrow> Throw)"

definition as_blob :: "msgpack_object \<Rightarrow> bytes outcome" where
  "as_blob obj = (case obj of BIN s \<Rightarrow> Ret s | STRING s \<Rightarrow> Ret s | _ \<Rightarrow> Throw)"

definition as_hash :: "msgpack_object \<Rightarrow> hash outcome" where
  "as_hash obj = (case obj of BIN s \<Rightarrow> if length s = HASH_LEN then Ret s else Throw | _ \<Rightarrow> Throw)"

fun map_outcome :: "('a \<Rightarrow> 'b outcome) \<Rightarrow> 'a list \<Rightarrow> 'b list outcome" where
  "map_outcome f [] = Ret []"
| "map_outcome f (x # xs) = bind_outcome (f x) (\<lambda>y. bind_outcome (map_outcome f xs) (\<lambda>ys. Ret (y # ys)))"

definition as_vector :: "(msgpack_object \<Rightarrow> 'a outcome) \<Rightarrow> msgpack_object \<Rightarrow> 'a list outcome" where
  "as_vector f obj = (case obj of ARRAY os \<Rightarrow> map_outcome f os | _ \<Rightarrow> Throw)"

definition unpackBlob :: "msgpack_object \<Rightarrow> bytes outcome" where
  "unpackBlob obj = (case obj of BIN s \<Rightarrow> Ret s | STRING s \<Rightarrow> Ret s | ARRAY os \<Rightarrow> map_outcome as_uint8 os | _ \<Rightarrow> Throw)"

text \<open>
  The key is compared with \<open>strncmp\<close> over its length, which is the equality of the two strings as no key of the program
  has a zero byte: a received key with a zero byte differs from it at the latest there.
\<close>

definition findMapValue :: "msgpack_object \<Rightarrow> bytes \<Rightarrow> msgpack_object option outcome" where
  "findMapValue obj key = (case obj of
     MAP ps \<Rightarrow> Ret (map_option snd (find (\<lambda>(k, v). k = STRING key) ps)) | _ \<Rightarrow> Throw)"

text \<open>A field that has to be there.\<close>

definition requireValue :: "msgpack_object \<Rightarrow> bytes \<Rightarrow> (msgpack_object \<Rightarrow> 'a outcome) \<Rightarrow> 'a outcome" where
  "requireValue obj key f = bind_outcome (findMapValue obj key) (\<lambda>r. case r of None \<Rightarrow> Throw | Some v \<Rightarrow> f v)"

section \<open>A decoder\<close>

definition get_be :: "nat \<Rightarrow> bytes \<Rightarrow> (nat \<times> bytes) option" where
  "get_be n bs = (if length bs < n then None else Some (fold (\<lambda>b a. a * 256 + unat b) (take n bs) 0, drop n bs))"

definition get_raw :: "nat \<Rightarrow> bytes \<Rightarrow> (bytes \<times> bytes) option" where
  "get_raw n bs = (if length bs < n then None else Some (take n bs, drop n bs))"

fun get_n :: "(bytes \<Rightarrow> ('a \<times> bytes) option) \<Rightarrow> nat \<Rightarrow> bytes \<Rightarrow> ('a list \<times> bytes) option" where
  "get_n g 0 bs = Some ([], bs)"
| "get_n g (Suc n) bs = (case g bs of None \<Rightarrow> None
     | Some (x, bs) \<Rightarrow> map_option (\<lambda>(xs, bs). (x # xs, bs)) (get_n g n bs))"

definition get_pair :: "(bytes \<Rightarrow> ('a \<times> bytes) option) \<Rightarrow> bytes \<Rightarrow> (('a \<times> 'a) \<times> bytes) option" where
  "get_pair g bs = (case g bs of None \<Rightarrow> None | Some (k, bs) \<Rightarrow> map_option (\<lambda>(v, bs). ((k, v), bs)) (g bs))"

definition sized :: "nat \<Rightarrow> (nat \<Rightarrow> bytes \<Rightarrow> 'a option) \<Rightarrow> bytes \<Rightarrow> 'a option" where
  "sized w k bs = (case get_be w bs of None \<Rightarrow> None | Some (n, bs) \<Rightarrow> k n bs)"

definition signed_of :: "nat \<Rightarrow> nat \<Rightarrow> int" where
  "signed_of w n = (if n < 2 ^ (w - 1) then int n else int n - 2 ^ w)"

definition int_obj :: "int \<Rightarrow> msgpack_object" where
  "int_obj i = (if i < 0 then NEGATIVE_INTEGER i else POSITIVE_INTEGER (of_int i))"

definition get_ext :: "nat \<Rightarrow> bytes \<Rightarrow> (msgpack_object \<times> bytes) option" where
  "get_ext n bs = (case bs of [] \<Rightarrow> None | t # bs \<Rightarrow> map_option (\<lambda>(s, bs). (EXT t s, bs)) (get_raw n bs))"

fun get_obj :: "nat \<Rightarrow> bytes \<Rightarrow> (msgpack_object \<times> bytes) option" where
  "get_obj 0 bs = None"
| "get_obj (Suc f) [] = None"
| "get_obj (Suc f) (b # bs) =
     (let str = (\<lambda>n bs. map_option (\<lambda>(s, bs). (STRING s, bs)) (get_raw n bs));
          bin = (\<lambda>n bs. map_option (\<lambda>(s, bs). (BIN s, bs)) (get_raw n bs));
          arr = (\<lambda>n bs. map_option (\<lambda>(xs, bs). (ARRAY xs, bs)) (get_n (get_obj f) n bs));
          mp = (\<lambda>n bs. map_option (\<lambda>(xs, bs). (MAP xs, bs)) (get_n (get_pair (get_obj f)) n bs));
          pos = (\<lambda>n bs. Some (POSITIVE_INTEGER (of_nat n), bs));
          sgn = (\<lambda>w n bs. Some (int_obj (signed_of w n), bs))
      in if b < 0x80 then Some (POSITIVE_INTEGER (ucast b), bs)
         else if b < 0x90 then mp (unat (b AND 15)) bs
         else if b < 0xA0 then arr (unat (b AND 15)) bs
         else if b < 0xC0 then str (unat (b AND 31)) bs
         else if b = 0xC0 then Some (NIL, bs)
         else if b = 0xC2 then Some (BOOLEAN False, bs)
         else if b = 0xC3 then Some (BOOLEAN True, bs)
         else if b = 0xC4 then sized 1 bin bs
         else if b = 0xC5 then sized 2 bin bs
         else if b = 0xC6 then sized 4 bin bs
         else if b = 0xC7 then sized 1 get_ext bs
         else if b = 0xC8 then sized 2 get_ext bs
         else if b = 0xC9 then sized 4 get_ext bs
         else if b = 0xCA then sized 4 (\<lambda>n bs. Some (FLOAT32 (of_nat n), bs)) bs
         else if b = 0xCB then sized 8 (\<lambda>n bs. Some (FLOAT64 (of_nat n), bs)) bs
         else if b = 0xCC then sized 1 pos bs
         else if b = 0xCD then sized 2 pos bs
         else if b = 0xCE then sized 4 pos bs
         else if b = 0xCF then sized 8 pos bs
         else if b = 0xD0 then sized 1 (sgn 8) bs
         else if b = 0xD1 then sized 2 (sgn 16) bs
         else if b = 0xD2 then sized 4 (sgn 32) bs
         else if b = 0xD3 then sized 8 (sgn 64) bs
         else if b = 0xD4 then get_ext 1 bs
         else if b = 0xD5 then get_ext 2 bs
         else if b = 0xD6 then get_ext 4 bs
         else if b = 0xD7 then get_ext 8 bs
         else if b = 0xD8 then get_ext 16 bs
         else if b = 0xD9 then sized 1 str bs
         else if b = 0xDA then sized 2 str bs
         else if b = 0xDB then sized 4 str bs
         else if b = 0xDC then sized 2 arr bs
         else if b = 0xDD then sized 4 arr bs
         else if b = 0xDE then sized 2 mp bs
         else if b = 0xDF then sized 4 mp bs
         else if b = 0xC1 then None
         else Some (NEGATIVE_INTEGER (sint b), bs))"

text \<open>\<open>msgpack::unpack\<close> reads one object from the start of a buffer.\<close>

definition unpack_obj :: "bytes \<Rightarrow> msgpack_object option" where
  "unpack_obj bs = map_option fst (get_obj (length bs) bs)"

declare get_obj.simps(3) [simp del]

section \<open>The decoder reads what was packed\<close>

lemma get_be_byte [simp]: "get_be (Suc 0) (b # bs) = Some (unat b, bs)"
  by (simp add: get_be_def)

lemma get_be_16 [simp]: "get_be 2 (store16 l @ bs) = Some (l mod 65536, bs)"
  using div_mod_256 [of l] by (simp add: get_be_def store16_def)

lemma length_store [simp]: "length (store32 l) = 4" "length (store64 l) = 8"
  by (simp_all add: store32_def store64_def)

lemma fold_be: "fold (\<lambda>b a. a * 256 + unat b) (store32 l) n = n * 4294967296 + l mod 4294967296"
  using div_mod_65536 [of l] by (simp add: store32_def)

lemma get_be_32 [simp]: "get_be 4 (store32 l @ bs) = Some (l mod 4294967296, bs)"
  by (simp add: get_be_def fold_be)

lemma get_be_64 [simp]: "get_be 8 (store64 l @ bs) = Some (l mod 18446744073709551616, bs)"
proof -
  have "l mod (4294967296 * 4294967296) = 4294967296 * (l div 4294967296 mod 4294967296) + l mod 4294967296"
    by (rule mod_mult2_eq)
  then have "fold (\<lambda>b a. a * 256 + unat b) (store64 l) 0 = l mod 18446744073709551616"
    by (simp add: store64_def fold_be)
  then show ?thesis by (simp add: get_be_def)
qed

lemma fix_headers:
  "list_all (\<lambda>l. \<not> (0x80 OR of_nat l :: byte) < 0x80 \<and> (0x80 OR of_nat l :: byte) < 0x90
     \<and> unat ((0x80 OR of_nat l :: byte) AND 15) = l) [0..<16]"
  "list_all (\<lambda>l. \<not> (0x90 OR of_nat l :: byte) < 0x90 \<and> (0x90 OR of_nat l :: byte) < 0xA0
     \<and> unat ((0x90 OR of_nat l :: byte) AND 15) = l) [0..<16]"
  "list_all (\<lambda>l. \<not> (0xA0 OR of_nat l :: byte) < 0xA0 \<and> (0xA0 OR of_nat l :: byte) < 0xC0
     \<and> unat ((0xA0 OR of_nat l :: byte) AND 31) = l) [0..<32]"
  by code_simp+

lemma byte_less_trans: "\<not> b < (0x90::byte) \<Longrightarrow> \<not> b < 0x80" "\<not> b < (0xA0::byte) \<Longrightarrow> \<not> b < 0x90"
  by (auto simp: word_less_nat_alt)

lemma get_obj_str:
  assumes "l < 2 ^ 32"
  shows "get_obj (Suc f) (pack_str_header l @ bs) = map_option (\<lambda>(s, bs). (STRING s, bs)) (get_raw l bs)"
proof -
  consider "l < 32" | "32 \<le> l" "l < 256" | "256 \<le> l" "l < 65536" | "65536 \<le> l" by linarith
  then show ?thesis
  proof cases
    case 1
    with fix_headers(3) show ?thesis
      by (simp add: list_all_iff pack_str_header_def get_obj.simps(3) byte_less_trans)
  qed (use assms in \<open>simp_all add: pack_str_header_def get_obj.simps(3) sized_def\<close>)
qed

lemma get_obj_bin:
  assumes "l < 2 ^ 32"
  shows "get_obj (Suc f) (pack_bin_header l @ bs) = map_option (\<lambda>(s, bs). (BIN s, bs)) (get_raw l bs)"
  using assms by (simp add: pack_bin_header_def get_obj.simps(3) sized_def)

lemma get_obj_array:
  assumes "l < 2 ^ 32"
  shows "get_obj (Suc f) (pack_array_header l @ bs) = map_option (\<lambda>(xs, bs). (ARRAY xs, bs)) (get_n (get_obj f) l bs)"
proof (cases "l < 16")
  case True
  with fix_headers(2) show ?thesis
    by (simp add: list_all_iff pack_array_header_def get_obj.simps(3) byte_less_trans)
qed (use assms in \<open>simp add: pack_array_header_def get_obj.simps(3) sized_def\<close>)

lemma get_obj_map:
  assumes "l < 2 ^ 32"
  shows "get_obj (Suc f) (pack_map_header l @ bs) = map_option (\<lambda>(xs, bs). (MAP xs, bs)) (get_n (get_pair (get_obj f)) l bs)"
proof (cases "l < 16")
  case True
  with fix_headers(1) show ?thesis
    by (simp add: list_all_iff pack_map_header_def get_obj.simps(3))
qed (use assms in \<open>simp add: pack_map_header_def get_obj.simps(3) sized_def\<close>)

lemma get_obj_ext:
  assumes "l < 2 ^ 32"
  shows "get_obj (Suc f) (pack_ext_header l t @ bs) = map_option (\<lambda>(s, bs). (EXT t s, bs)) (get_raw l bs)"
  using assms by (simp add: pack_ext_header_def get_obj.simps(3) sized_def get_ext_def)

lemma unat_low_byte: "unat (ucast u :: byte) = unat (u :: uint64) mod 256"
  by (simp add: unsigned_ucast_eq take_bit_eq_mod)

lemma unat_wide: "unat (ucast b :: uint64) = unat (b :: byte)"
proof -
  have "unat b < 256" using unsigned_less [of b, where 'a = nat] by simp
  then show ?thesis by (simp add: unsigned_ucast_eq take_bit_nat_eq_self)
qed

lemma get_obj_uint:
  "get_obj (Suc f) (pack_uint64 u @ bs) = Some (POSITIVE_INTEGER u, bs)"
proof -
  have u: "unat u < 2 ^ 64" using unsigned_less [of u] by simp
  consider "unat u < 128" | "128 \<le> unat u" "unat u < 256" | "256 \<le> unat u" "unat u < 65536"
    | "65536 \<le> unat u" "unat u < 4294967296" | "4294967296 \<le> unat u" by linarith
  then show ?thesis
  proof cases
    case 1
    then have "(ucast u :: byte) < 0x80" and "u < 0x80" and "u < 0x100"
      by (simp_all add: word_less_nat_alt unat_low_byte)
    moreover have "ucast (ucast u :: byte) = u"
      using 1 by (simp add: word_unat_eq_iff unat_wide unat_low_byte)
    ultimately show ?thesis by (simp add: pack_uint64_def get_obj.simps(3))
  next
    case 2
    then have "unat (ucast u :: byte) = unat u" and "\<not> u < 0x80" and "u < 0x100"
      by (simp_all add: word_less_nat_alt unat_low_byte)
    with 2 show ?thesis by (simp add: pack_uint64_def get_obj.simps(3) sized_def)
  qed (use u in \<open>simp_all add: pack_uint64_def get_obj.simps(3) sized_def word_less_nat_alt\<close>)
qed

lemma signed_wrap:
  assumes "- (2 ^ (w - 1)) \<le> d" and "d < 0" and "0 < w"
  shows "signed_of w (nat (d mod 2 ^ w)) = d"
proof -
  obtain k where w: "w = Suc k" using assms(3) by (cases w) auto
  have "(2::int) ^ k \<le> 2 ^ w" using w by simp
  then have "(d + 2 ^ w) mod 2 ^ w = d + 2 ^ w"
    using assms w by (intro mod_pos_pos_trivial) auto
  then have "d mod 2 ^ w = d + 2 ^ w" by simp
  then show ?thesis using assms w by (simp add: signed_of_def nat_less_iff)
qed

lemma neg_bytes:
  "list_all (\<lambda>d. \<not> (of_int d :: byte) < 0xE0 \<and> sint (of_int d :: byte) = d) [-32..-1]"
  by code_simp

lemma get_obj_neg_byte: "\<not> b < 0xE0 \<Longrightarrow> get_obj (Suc f) (b # bs) = Some (NEGATIVE_INTEGER (sint b), bs)"
  by (auto simp: get_obj.simps(3) Let_def word_less_nat_alt)

lemma unat_neg_byte: "unat (of_int d :: byte) = nat (d mod 256)"
  by (simp add: unsigned_of_int take_bit_eq_mod)

lemma get_obj_neg:
  assumes "- (2 ^ 63) \<le> d" and "d < 0"
  shows "get_obj (Suc f) (pack_neg d @ bs) = Some (NEGATIVE_INTEGER d, bs)"
proof -
  consider "-32 \<le> d" | "d < -32" "-128 \<le> d" | "d < -128" "-32768 \<le> d" | "d < -32768" "-2147483648 \<le> d" | "d < -2147483648"
    by linarith
  then show ?thesis
  proof cases
    case 1
    then have "\<not> (of_int d :: byte) < 0xE0 \<and> sint (of_int d :: byte) = d"
      using neg_bytes assms(2) by (simp add: list_all_iff)
    with 1 show ?thesis by (simp add: pack_neg_def get_obj_neg_byte)
  next
    case 2
    then show ?thesis using signed_wrap [of 8 d] assms
      by (simp add: pack_neg_def get_obj.simps(3) sized_def unat_neg_byte int_obj_def)
  next
    case 3
    then show ?thesis using signed_wrap [of 16 d] assms
      by (simp add: pack_neg_def get_obj.simps(3) sized_def int_obj_def nat_mod_as_int)
  next
    case 4
    then show ?thesis using signed_wrap [of 32 d] assms
      by (simp add: pack_neg_def get_obj.simps(3) sized_def int_obj_def nat_mod_as_int)
  next
    case 5
    then show ?thesis using signed_wrap [of 64 d] assms
      by (simp add: pack_neg_def get_obj.simps(3) sized_def int_obj_def nat_mod_as_int)
  qed
qed

lemma get_n_concat:
  "(\<And>x r. x \<in> set xs \<Longrightarrow> g (p x @ r) = Some (x, r)) \<Longrightarrow> get_n g (length xs) (concat (map p xs) @ r) = Some (xs, r)"
  by (induction xs) auto

lemma length_member_concat: "x \<in> set xs \<Longrightarrow> length (p x) \<le> length (concat (map p xs))"
  by (induction xs) auto

lemma header_ne [simp]:
  "pack_str_header l \<noteq> []" "pack_bin_header l \<noteq> []" "pack_array_header l \<noteq> []" "pack_map_header l \<noteq> []"
  "pack_ext_header l t \<noteq> []"
  by (simp_all add: pack_str_header_def pack_bin_header_def pack_array_header_def pack_map_header_def pack_ext_header_def)

lemma pack_obj_ne: "pack_obj x \<noteq> []"
  by (cases x) (simp_all add: pack_str_def pack_bin_def pack_uint64_def pack_neg_def)

lemma fuel_Suc: "length (pack_obj x) \<le> f \<Longrightarrow> \<exists>f'. f = Suc f'"
  using pack_obj_ne [of x] by (cases f) auto

lemma child_fits: "h \<noteq> [] \<Longrightarrow> length (h @ c) \<le> Suc f \<Longrightarrow> length p \<le> length c \<Longrightarrow> length p \<le> f"
  by (cases h) auto

lemma get_raw_append [simp]: "get_raw (length s) (s @ r) = Some (s, r)"
  by (simp add: get_raw_def)

lemma get_obj_pack:
  "obj_ok x \<Longrightarrow> length (pack_obj x) \<le> f \<Longrightarrow> get_obj f (pack_obj x @ r) = Some (x, r)"
proof (induction x arbitrary: f r)
  case (ARRAY xs)
  from fuel_Suc [OF ARRAY.prems(2)] obtain f' where f: "f = Suc f'" ..
  have "get_obj f' (pack_obj x @ r) = Some (x, r)" if "x \<in> set xs" for x r
  proof (rule ARRAY.IH [OF that])
    show "obj_ok x" using ARRAY.prems that by (auto simp: list_all_iff)
    show "length (pack_obj x) \<le> f'"
      using ARRAY.prems(2) f by (intro child_fits [OF _ _ length_member_concat [OF that, of pack_obj]]) auto
  qed
  then have "get_n (get_obj f') (length xs) (concat (map pack_obj xs) @ r) = Some (xs, r)" by (rule get_n_concat)
  then show ?case using ARRAY.prems f get_obj_array [of "length xs" f'] by simp
next
  case (MAP ps)
  let ?p = "\<lambda>(k, v). pack_obj k @ pack_obj v"
  from fuel_Suc [OF MAP.prems(2)] obtain f' where f: "f = Suc f'" ..
  have "get_pair (get_obj f') (?p x @ r) = Some (x, r)" if x: "x \<in> set ps" for x r
  proof -
    obtain k v where kv: "x = (k, v)" by (cases x)
    have len: "length (?p x) \<le> f'"
      using MAP.prems(2) f by (intro child_fits [OF _ _ length_member_concat [OF x, of ?p]]) auto
    have "obj_ok k" "obj_ok v" using MAP.prems x kv by (auto simp: list_all_iff)
    then have "get_obj f' (pack_obj k @ r) = Some (k, r)" and "get_obj f' (pack_obj v @ r) = Some (v, r)" for r
      using MAP.IH [OF x] len kv by auto
    then show ?thesis by (simp add: get_pair_def kv)
  qed
  then have "get_n (get_pair (get_obj f')) (length ps) (concat (map ?p ps) @ r) = Some (ps, r)" by (rule get_n_concat)
  then show ?case using MAP.prems f get_obj_map [of "length ps" f'] by simp
next
  case (NEGATIVE_INTEGER i)
  with fuel_Suc [OF NEGATIVE_INTEGER.prems(2)] show ?case using get_obj_neg [of i] by auto
next
  case (POSITIVE_INTEGER u)
  with fuel_Suc [OF POSITIVE_INTEGER.prems(2)] show ?case using get_obj_uint [of _ u] by auto
next
  case (STRING s)
  with fuel_Suc [OF STRING.prems(2)] show ?case using get_obj_str [of "length s"] by (auto simp: pack_str_def)
next
  case (BIN s)
  with fuel_Suc [OF BIN.prems(2)] show ?case using get_obj_bin [of "length s"] by (auto simp: pack_bin_def)
next
  case (EXT t s)
  with fuel_Suc [OF EXT.prems(2)] show ?case using get_obj_ext [of "length s"] by auto
next
  case (FLOAT32 w)
  with fuel_Suc [OF FLOAT32.prems(2)] show ?case
    using unsigned_less [of w, where 'a = nat] by (auto simp: get_obj.simps(3) sized_def)
next
  case (FLOAT64 w)
  with fuel_Suc [OF FLOAT64.prems(2)] show ?case
    using unsigned_less [of w, where 'a = nat] by (auto simp: get_obj.simps(3) sized_def)
next
  case NIL
  with fuel_Suc [OF NIL.prems(2)] show ?case by (auto simp: get_obj.simps(3))
next
  case (BOOLEAN b)
  with fuel_Suc [OF BOOLEAN.prems(2)] show ?case by (auto simp: get_obj.simps(3))
qed

section \<open>The contract of a parser\<close>

locale msgpack_parser =
  fixes unpack :: "bytes \<Rightarrow> msgpack_object option"
  assumes unpack_pack: "obj_ok x \<Longrightarrow> unpack (pack_obj x @ rest) = Some x"
begin

lemma unpack_exact: "obj_ok x \<Longrightarrow> unpack (pack_obj x) = Some x"
  using unpack_pack [of x "[]"] by simp

lemma pack_obj_inject: "obj_ok x \<Longrightarrow> obj_ok y \<Longrightarrow> pack_obj x = pack_obj y \<Longrightarrow> x = y"
  using unpack_exact [of x] unpack_exact [of y] by (metis option.inject)

lemma pack_obj_prefix_free: "obj_ok x \<Longrightarrow> obj_ok y \<Longrightarrow> pack_obj x @ r = pack_obj y @ r' \<Longrightarrow> x = y \<and> r = r'"
  using unpack_pack [of x r] unpack_pack [of y r'] by (metis option.inject same_append_eq)

end

interpretation decoder: msgpack_parser unpack_obj
  by unfold_locales (simp add: unpack_obj_def get_obj_pack)

end
