(* ===== verification/Value_Codec.thy ===== *)
theory Value_Codec
  imports Msgpack_Object Dht_Value
begin

text \<open>
  The msgpack form of values, field restrictions, selections and queries (\<open>value.h\<close>, \<open>value.cpp\<close>). Packing writes
  bytes as the code does; \<open>value_obj\<close> and \<open>query_obj\<close> are the objects these bytes encode. Unpacking works on the object
  the parser returns. A public key is exported and imported by the cryptographic library: the import is the argument
  \<open>imp\<close>, which is \<open>None\<close> where the library throws.
\<close>

section \<open>Packing values\<close>

definition pack_number :: "'a::len word \<Rightarrow> bytes" where
  "pack_number n = pack_uint64 (ucast n)"

definition has_owner :: "dht_value \<Rightarrow> bool" where
  "has_owner v = (case v_owner v of None \<Rightarrow> False | Some k \<Rightarrow> pk_set k)"

definition owner_export :: "dht_value \<Rightarrow> bytes" where
  "owner_export v = (case v_owner v of None \<Rightarrow> [] | Some k \<Rightarrow> pk_export k)"

definition msgpack_pack_to_sign :: "dht_value \<Rightarrow> bytes" where
  "msgpack_pack_to_sign v =
     pack_map_header ((if v_user_type v = [] then 0 else 1)
       + (if has_owner v then if hash_bool (v_recipient v) then 5 else 4 else 2))
     @ (if has_owner v then
          pack_str (lit ''seq'') @ pack_number (v_seq v) @ pack_str (lit ''owner'') @ pack_bin (owner_export v)
          @ (if hash_bool (v_recipient v) then pack_str (lit ''to'') @ pack_bin (v_recipient v) else [])
        else [])
     @ pack_str (lit ''type'') @ pack_number (v_type v) @ pack_str (lit ''data'') @ pack_bin (v_data v)
     @ (if v_user_type v \<noteq> [] then pack_str (lit ''utype'') @ pack_str (v_user_type v) else [])"

definition msgpack_pack_to_encrypt :: "dht_value \<Rightarrow> bytes" where
  "msgpack_pack_to_encrypt v =
     (if isEncrypted v then pack_bin (v_cypher v)
      else pack_map_header (if isSigned v then 2 else 1) @ pack_str (lit ''body'') @ msgpack_pack_to_sign v
        @ (if isSigned v then pack_str (lit ''sig'') @ pack_bin (v_signature v) else []))"

definition msgpack_pack :: "dht_value \<Rightarrow> bytes" where
  "msgpack_pack v = pack_map_header (2 + (if v_priority v \<noteq> 0 then 1 else 0))
     @ pack_str (lit ''id'') @ pack_number (v_id v) @ pack_str (lit ''dat'') @ msgpack_pack_to_encrypt v
     @ (if v_priority v \<noteq> 0 then pack_str (lit ''p'') @ pack_number (v_priority v) else [])"

definition getToSign :: "dht_value \<Rightarrow> bytes" where
  "getToSign v = msgpack_pack_to_sign v"

definition getToEncrypt :: "dht_value \<Rightarrow> bytes" where
  "getToEncrypt v = msgpack_pack_to_encrypt v"

definition getPacked :: "dht_value \<Rightarrow> bytes" where
  "getPacked v = msgpack_pack v"

text \<open>An owner that holds no key makes the export throw.\<close>

definition pack_field :: "dht_value \<Rightarrow> field \<Rightarrow> bytes outcome" where
  "pack_field v f = (case f of
        FId \<Rightarrow> Ret (pack_number (v_id v))
      | FValueType \<Rightarrow> Ret (pack_number (v_type v))
      | FOwnerPk \<Rightarrow> (case v_owner v of None \<Rightarrow> Ret (pack_bin (hash_zero HASH_LEN))
          | Some k \<Rightarrow> if pk_set k then Ret (pack_bin (pk_export k)) else Throw)
      | FSeqNum \<Rightarrow> Ret (pack_number (v_seq v))
      | FUserType \<Rightarrow> Ret (pack_str (v_user_type v))
      | _ \<Rightarrow> Ret [])"

definition msgpack_pack_fields :: "field list \<Rightarrow> dht_value \<Rightarrow> bytes outcome" where
  "msgpack_pack_fields fs v = bind_outcome (map_outcome (pack_field v) fs) (\<lambda>bs. Ret (concat bs))"

section \<open>Unpacking values\<close>

definition optValue :: "msgpack_object \<Rightarrow> bytes \<Rightarrow> 'a \<Rightarrow> (msgpack_object \<Rightarrow> 'a outcome) \<Rightarrow> 'a outcome" where
  "optValue obj key d f = bind_outcome (findMapValue obj key) (\<lambda>r. case r of None \<Rightarrow> Ret d | Some v \<Rightarrow> f v)"

definition pk_unpack :: "(bytes \<Rightarrow> public_key option) \<Rightarrow> msgpack_object \<Rightarrow> public_key outcome" where
  "pk_unpack imp obj = bind_outcome (unpackBlob obj) (\<lambda>b. case imp b of None \<Rightarrow> Throw | Some k \<Rightarrow> Ret k)"

definition msgpack_unpack_owner :: "(bytes \<Rightarrow> public_key option) \<Rightarrow> msgpack_object \<Rightarrow> msgpack_object \<Rightarrow> dht_value \<Rightarrow> dht_value outcome" where
  "msgpack_unpack_owner imp obj body v =
     optValue body (lit ''owner'') v (\<lambda>rowner.
       bind_outcome (requireValue body (lit ''seq'') as_uint16) (\<lambda>seq.
       bind_outcome (pk_unpack imp rowner) (\<lambda>k.
       bind_outcome (optValue body (lit ''to'') (v_recipient v) as_hash) (\<lambda>to.
       bind_outcome (requireValue obj (lit ''sig'') unpackBlob) (\<lambda>sig.
         Ret (v\<lparr>v_seq := seq, v_owner := Some k, v_recipient := to, v_signature := sig\<rparr>))))))"

definition msgpack_unpack_body :: "(bytes \<Rightarrow> public_key option) \<Rightarrow> msgpack_object \<Rightarrow> dht_value \<Rightarrow> dht_value outcome" where
  "msgpack_unpack_body imp obj v =
     (let v = v\<lparr>v_owner := None, v_recipient := hash_zero HASH_LEN, v_cypher := [], v_signature := [], v_data := [], v_type := 0\<rparr>
      in case obj of
           BIN s \<Rightarrow> Ret (v\<lparr>v_cypher := s\<rparr>)
         | MAP _ \<Rightarrow> requireValue obj (lit ''body'') (\<lambda>body.
             bind_outcome (requireValue body (lit ''data'') unpackBlob) (\<lambda>d.
             bind_outcome (requireValue body (lit ''type'') as_uint16) (\<lambda>t.
             bind_outcome (optValue body (lit ''utype'') (v_user_type v) as_string) (\<lambda>u.
               msgpack_unpack_owner imp obj body (v\<lparr>v_data := d, v_type := t, v_user_type := u\<rparr>)))))
         | _ \<Rightarrow> Throw)"

definition new_value :: "nat \<Rightarrow> dht_value" where
  "new_value r = \<lparr>v_ref = r, v_id = 0, v_owner = None, v_recipient = hash_zero HASH_LEN, v_type = 0, v_data = [],
     v_user_type = [], v_seq = 0, v_signature = [], v_cypher = [], v_priority = 0\<rparr>"

text \<open>The constructor from an object: \<open>r\<close> is the reference of the new value.\<close>

definition msgpack_unpack :: "(bytes \<Rightarrow> public_key option) \<Rightarrow> nat \<Rightarrow> msgpack_object \<Rightarrow> dht_value outcome" where
  "msgpack_unpack imp r obj = (case obj of
     MAP ps \<Rightarrow> if length ps < 2 then Throw
       else bind_outcome (requireValue obj (lit ''id'') as_uint64) (\<lambda>i.
            bind_outcome (requireValue obj (lit ''dat'') (\<lambda>d. msgpack_unpack_body imp d ((new_value r)\<lparr>v_id := i\<rparr>))) (\<lambda>v.
            bind_outcome (optValue obj (lit ''p'') (v_priority v) as_uint32) (\<lambda>p.
              Ret (v\<lparr>v_priority := p\<rparr>))))
   | _ \<Rightarrow> Throw)"

section \<open>Fields and queries\<close>

definition field_of_int :: "int \<Rightarrow> field" where
  "field_of_int i = (if i < 0 then FNegative (nat (- 1 - i)) else if i = 0 then FNone else if i = 1 then FId
     else if i = 2 then FValueType else if i = 3 then FOwnerPk else if i = 4 then FSeqNum
     else if i = 5 then FUserType else FOther (nat (i - 6)))"

definition as_field :: "msgpack_object \<Rightarrow> field outcome" where
  "as_field obj = bind_outcome (as_int32 obj) (\<lambda>i. Ret (field_of_int i))"

definition pack_int :: "int \<Rightarrow> bytes" where
  "pack_int i = (if i < 0 then pack_neg i else pack_uint64 (of_int i))"

definition fv_pack :: "field_value \<Rightarrow> bytes outcome" where
  "fv_pack fv =
     (let h = pack_map_header 2 @ pack_str (lit ''f'') @ pack_number (of_int (field_code (fv_field fv)) :: byte) @ pack_str (lit ''v'')
      in case fv_field fv of
           FId \<Rightarrow> Ret (h @ pack_number (intValue fv))
         | FValueType \<Rightarrow> Ret (h @ pack_number (intValue fv))
         | FOwnerPk \<Rightarrow> Ret (h @ pack_bin (hashValue fv))
         | FUserType \<Rightarrow> Ret (h @ pack_bin (blobValue fv))
         | _ \<Rightarrow> Throw)"

text \<open>The number of the field is read as an unsigned one and cast.\<close>

definition fv_unpack :: "msgpack_object \<Rightarrow> field_value outcome" where
  "fv_unpack obj =
     bind_outcome (requireValue obj (lit ''f'') as_uint32) (\<lambda>n.
       let f = field_of_int (sint n); fv = no_field_value\<lparr>fv_field := f\<rparr>
       in requireValue obj (lit ''v'') (\<lambda>v. case f of
            FId \<Rightarrow> bind_outcome (as_uint64 v) (\<lambda>x. Ret (fv\<lparr>intValue := x\<rparr>))
          | FValueType \<Rightarrow> bind_outcome (as_uint64 v) (\<lambda>x. Ret (fv\<lparr>intValue := x\<rparr>))
          | FOwnerPk \<Rightarrow> bind_outcome (as_hash v) (\<lambda>x. Ret (fv\<lparr>hashValue := x\<rparr>))
          | FUserType \<Rightarrow> bind_outcome (unpackBlob v) (\<lambda>x. Ret (fv\<lparr>blobValue := x\<rparr>))
          | _ \<Rightarrow> Throw))"

definition select_pack :: "field list \<Rightarrow> bytes" where
  "select_pack s = pack_array_header (length s) @ concat (map (\<lambda>f. pack_int (field_code f)) s)"

definition select_unpack :: "msgpack_object \<Rightarrow> field list outcome" where
  "select_unpack = as_vector as_field"

definition where_pack :: "field_value list \<Rightarrow> bytes outcome" where
  "where_pack w = bind_outcome (map_outcome fv_pack w) (\<lambda>bs. Ret (pack_array_header (length w) @ concat bs))"

definition where_unpack :: "msgpack_object \<Rightarrow> field_value list outcome" where
  "where_unpack = as_vector fv_unpack"

definition query_pack :: "query \<Rightarrow> bytes outcome" where
  "query_pack q = bind_outcome (where_pack (q_where q)) (\<lambda>w.
     Ret (pack_map_header 2 @ pack_str (lit ''s'') @ select_pack (q_select q) @ pack_str (lit ''w'') @ w))"

definition query_unpack :: "msgpack_object \<Rightarrow> query \<Rightarrow> query outcome" where
  "query_unpack obj q =
     bind_outcome (requireValue obj (lit ''w'') where_unpack) (\<lambda>w.
     bind_outcome (requireValue obj (lit ''s'') select_unpack) (\<lambda>s. Ret (q\<lparr>q_select := s, q_where := w\<rparr>)))"

text \<open>
  The fields of one value out of the array of all of them, from \<open>offset\<close> on; an index beyond the array is out of
  bounds.
\<close>

definition unpack_field :: "msgpack_object \<Rightarrow> field \<Rightarrow> field_value outcome" where
  "unpack_field obj f = (case f of
        FId \<Rightarrow> bind_outcome (as_uint64 obj) (\<lambda>x. Ret (fv_int f x))
      | FValueType \<Rightarrow> bind_outcome (as_uint64 obj) (\<lambda>x. Ret (fv_int f x))
      | FSeqNum \<Rightarrow> bind_outcome (as_uint64 obj) (\<lambda>x. Ret (fv_int f x))
      | FOwnerPk \<Rightarrow> bind_outcome (as_hash obj) (\<lambda>x. Ret (fv_hash f x))
      | FUserType \<Rightarrow> bind_outcome (as_blob obj) (\<lambda>x. Ret (fv_blob f x))
      | _ \<Rightarrow> Throw)"

fun msgpack_unpack_fields :: "field list \<Rightarrow> msgpack_object list \<Rightarrow> nat \<Rightarrow> field_index outcome" where
  "msgpack_unpack_fields [] os offset = Ret []"
| "msgpack_unpack_fields (f # fs) os offset =
     (if offset < length os then
        bind_outcome (unpack_field (os ! offset) f) (\<lambda>fv.
        bind_outcome (msgpack_unpack_fields fs os (Suc offset)) (\<lambda>ix. Ret ((f, fv) # ix)))
      else Undef)"

section \<open>The objects that are packed\<close>

definition num_obj :: "'a::len word \<Rightarrow> msgpack_object" where
  "num_obj n = POSITIVE_INTEGER (ucast n)"

definition key_obj :: "string \<Rightarrow> msgpack_object" where
  "key_obj k = STRING (lit k)"

definition body_obj :: "dht_value \<Rightarrow> msgpack_object" where
  "body_obj v = MAP
     ((if has_owner v then
         [(key_obj ''seq'', num_obj (v_seq v)), (key_obj ''owner'', BIN (owner_export v))]
         @ (if hash_bool (v_recipient v) then [(key_obj ''to'', BIN (v_recipient v))] else [])
       else [])
      @ [(key_obj ''type'', num_obj (v_type v)), (key_obj ''data'', BIN (v_data v))]
      @ (if v_user_type v \<noteq> [] then [(key_obj ''utype'', STRING (v_user_type v))] else []))"

definition dat_obj :: "dht_value \<Rightarrow> msgpack_object" where
  "dat_obj v = (if isEncrypted v then BIN (v_cypher v)
     else MAP ((key_obj ''body'', body_obj v) # (if isSigned v then [(key_obj ''sig'', BIN (v_signature v))] else [])))"

definition value_obj :: "dht_value \<Rightarrow> msgpack_object" where
  "value_obj v = MAP ([(key_obj ''id'', num_obj (v_id v)), (key_obj ''dat'', dat_obj v)]
     @ (if v_priority v \<noteq> 0 then [(key_obj ''p'', num_obj (v_priority v))] else []))"

lemma pack_num_obj [simp]: "pack_obj (num_obj n) = pack_number n"
  by (simp add: num_obj_def pack_number_def)

lemma pack_key_obj [simp]: "pack_obj (key_obj k) = pack_str (lit k)"
  by (simp add: key_obj_def)

lemma pack_body_obj: "pack_obj (body_obj v) = msgpack_pack_to_sign v"
  by (simp add: body_obj_def msgpack_pack_to_sign_def eval_nat_numeral)

lemma pack_dat_obj: "pack_obj (dat_obj v) = msgpack_pack_to_encrypt v"
  by (simp add: dat_obj_def msgpack_pack_to_encrypt_def pack_body_obj eval_nat_numeral)

lemma pack_value_obj: "pack_obj (value_obj v) = msgpack_pack v"
  by (simp add: value_obj_def msgpack_pack_def pack_dat_obj eval_nat_numeral)

section \<open>Reading back\<close>

lemma lit_inject [simp]: "lit s = lit t \<longleftrightarrow> s = t"
proof -
  have "inj (\<lambda>c :: char. of_nat (of_char c) :: byte)"
  proof (rule injI)
    fix c d :: char
    assume "(of_nat (of_char c) :: byte) = of_nat (of_char d)"
    then have "unat (of_nat (of_char c) :: byte) = unat (of_nat (of_char d) :: byte)" by simp
    then show "c = d" by simp
  qed
  then show ?thesis by (simp add: lit_def inj_map_eq_map)
qed

lemma key_obj_lit [simp]: "key_obj j = STRING (lit k) \<longleftrightarrow> j = k"
  by (simp add: key_obj_def)

lemma unat_widen [simp]: "LENGTH('a::len) \<le> 64 \<Longrightarrow> unat (ucast (n :: 'a word) :: uint64) = unat n"
proof -
  assume "LENGTH('a) \<le> 64"
  then have "(2::nat) ^ LENGTH('a) \<le> 2 ^ 64" by (intro power_increasing) simp_all
  with unsigned_less [of n, where 'a = nat] have "unat n < 2 ^ 64" by linarith
  then show ?thesis by (simp add: unsigned_ucast_eq take_bit_nat_eq_self)
qed

lemma as_num_obj [simp]:
  "as_uint16 (num_obj (a :: 16 word)) = Ret a" "as_uint32 (num_obj (b :: uint32)) = Ret b"
  "as_uint64 (num_obj (c :: uint64)) = Ret c" "as_uint32 (num_obj (d :: byte)) = Ret (ucast d)"
  "as_uint64 (num_obj a) = Ret (ucast a)"
  using unsigned_less [of a, where 'a = nat] unsigned_less [of b, where 'a = nat]
    unsigned_less [of c, where 'a = nat] unsigned_less [of d, where 'a = nat]
  by (simp_all add: as_uint16_def as_uint32_def as_uint64_def convert_unsigned_def num_obj_def)

lemma concat_chunks: "0 < n \<Longrightarrow> n dvd length xs \<Longrightarrow> concat (chunks n xs) = xs"
proof (induction n xs rule: chunks.induct)
  case (1 n xs)
  show ?case
  proof (cases "length xs < n")
    case True
    then have "xs = []" using "1.prems" by (auto dest: dvd_imp_le)
    then show ?thesis using "1.prems" by (simp add: chunks_short)
  next
    case False
    then have "concat (chunks n (drop n xs)) = drop n xs" using 1 by (auto simp: dvd_diff_nat)
    then show ?thesis using False "1.prems" by (simp add: chunks.simps [of n xs])
  qed
qed

lemma hash_bool_zero:
  assumes "length h = HASH_LEN" and "\<not> hash_bool h"
  shows "h = hash_zero HASH_LEN"
proof -
  have "set (concat (chunks 4 h)) \<subseteq> {0}" using assms(2) by (fastforce simp: hash_bool_def)
  then have "set h \<subseteq> {0}" using assms(1) concat_chunks [of 4 h] by (simp add: HASH_LEN_def)
  then have "h = replicate (length h) 0" by (intro replicate_eqI) auto
  then show ?thesis using assms(1) by (simp add: hash_zero_def)
qed

lemmas field_simps' = findMapValue_def requireValue_def optValue_def

text \<open>
  What survives: an encrypted value keeps its identifier, its priority and the encrypted data; owner, recipient,
  sequence number and signature go together: the signature of a value without an owner is on the wire, but the reader looks for it only after an owner.
\<close>

definition wire_form :: "nat \<Rightarrow> dht_value \<Rightarrow> dht_value" where
  "wire_form r v =
     (if isEncrypted v then (new_value r)\<lparr>v_id := v_id v, v_cypher := v_cypher v, v_priority := v_priority v\<rparr>
      else if has_owner v then v\<lparr>v_ref := r\<rparr>
      else (new_value r)\<lparr>v_id := v_id v, v_type := v_type v, v_data := v_data v, v_user_type := v_user_type v,
             v_priority := v_priority v\<rparr>)"

definition key_ok :: "(bytes \<Rightarrow> public_key option) \<Rightarrow> dht_value \<Rightarrow> bool" where
  "key_ok imp v = (case v_owner v of None \<Rightarrow> True | Some k \<Rightarrow> imp (pk_export k) = Some k)"

lemma unpack_body_obj:
  assumes "key_ok imp v" and "length (v_recipient v) = HASH_LEN" and "\<not> isEncrypted v"
    and w: "v_user_type w = []" "v_seq w = 0"
  shows "msgpack_unpack_body imp (dat_obj v) w =
    (if has_owner v \<and> v_signature v = [] then Throw
     else Ret (w\<lparr>v_owner := (if has_owner v then v_owner v else None),
                 v_recipient := (if has_owner v then v_recipient v else hash_zero HASH_LEN),
                 v_cypher := [], v_signature := (if has_owner v then v_signature v else []),
                 v_data := v_data v, v_type := v_type v, v_user_type := v_user_type v,
                 v_seq := (if has_owner v then v_seq v else 0)\<rparr>))"
proof (cases "has_owner v")
  case False
  then show ?thesis using assms(3) w
    by (simp add: dat_obj_def body_obj_def msgpack_unpack_body_def msgpack_unpack_owner_def field_simps' unpackBlob_def
        as_string_def)
next
  case True
  then obtain k where k: "v_owner v = Some k" by (auto simp: has_owner_def split: option.splits)
  have "v_recipient v = hash_zero HASH_LEN" if "\<not> hash_bool (v_recipient v)"
    using that assms(2) by (rule hash_bool_zero [rotated])
  then show ?thesis using True k assms
    by (auto simp: dat_obj_def body_obj_def msgpack_unpack_body_def msgpack_unpack_owner_def field_simps' unpackBlob_def
        as_string_def pk_unpack_def key_ok_def owner_export_def as_hash_def isSigned_def)
qed

definition value_sized :: "dht_value \<Rightarrow> bool" where
  "value_sized v \<longleftrightarrow> length (v_cypher v) < 2 ^ 32 \<and> length (v_data v) < 2 ^ 32 \<and> length (v_signature v) < 2 ^ 32
     \<and> length (v_user_type v) < 2 ^ 32 \<and> length (owner_export v) < 2 ^ 32 \<and> length (v_recipient v) = HASH_LEN"

lemma obj_ok_simps [simp]: "obj_ok (num_obj n)" "obj_ok (key_obj k) \<longleftrightarrow> length k < 2 ^ 32"
  by (simp_all add: num_obj_def key_obj_def lit_def)

lemma value_obj_ok: "value_sized v \<Longrightarrow> obj_ok (value_obj v)"
  by (simp add: value_sized_def value_obj_def dat_obj_def body_obj_def HASH_LEN_def)

lemma unpack_value_obj:
  assumes "key_ok imp v" and "length (v_recipient v) = HASH_LEN"
  shows "msgpack_unpack imp r (value_obj v) =
    (if \<not> isEncrypted v \<and> has_owner v \<and> v_signature v = [] then Throw else Ret (wire_form r v))"
proof (cases "isEncrypted v")
  case True
  then show ?thesis
    by (simp add: value_obj_def dat_obj_def msgpack_unpack_def msgpack_unpack_body_def field_simps' wire_form_def new_value_def)
next
  case False
  have "v_cypher v = []" using False by (simp add: isEncrypted_def)
  with False show ?thesis using assms
    by (auto simp: value_obj_def msgpack_unpack_def field_simps' wire_form_def unpack_body_obj new_value_def)
qed

text \<open>
  C14: A value that is packed and sent is read back as its wire form: with the same identifier, priority and data, with
  its owner, recipient, sequence number and signature if it is signed, and with the encrypted data alone if it is
  encrypted. A value with an owner and without a signature is packed, but no reader accepts it. The property
  assumes of the msgpack parser that it reads what was packed, and of the cryptographic library that it imports the key it exported.
\<close>

theorem value_roundtrip:
  assumes "msgpack_parser unpack" and "value_sized v" and "key_ok imp v"
  shows "\<exists>obj. unpack (getPacked v @ rest) = Some obj
     \<and> msgpack_unpack imp r obj
         = (if \<not> isEncrypted v \<and> has_owner v \<and> v_signature v = [] then Throw else Ret (wire_form r v))"
proof -
  have "unpack (pack_obj (value_obj v) @ rest) = Some (value_obj v)"
    using assms(1,2) by (simp add: msgpack_parser.unpack_pack value_obj_ok)
  then show ?thesis
    using assms(2,3) unpack_value_obj [of imp v r] by (simp add: getPacked_def pack_value_obj value_sized_def)
qed

definition signed_value :: dht_value where
  "signed_value = (new_value 3)\<lparr>v_id := 7, v_owner := Some \<lparr>pk_set = True, pk_getId = replicate 20 9, pk_export = [1, 2]\<rparr>,
     v_data := [5, 6], v_seq := 4, v_signature := [8]\<rparr>"

definition import_one :: "bytes \<Rightarrow> public_key option" where
  "import_one b = Some \<lparr>pk_set = True, pk_getId = replicate 20 9, pk_export = b\<rparr>"

theorem value_roundtrip_witness:
  "\<exists>obj. unpack_obj (getPacked signed_value @ [1]) = Some obj
     \<and> msgpack_unpack import_one 3 obj
         = (if \<not> isEncrypted signed_value \<and> has_owner signed_value \<and> v_signature signed_value = [] then Throw
            else Ret (wire_form 3 signed_value))"
  by (rule value_roundtrip [OF decoder.msgpack_parser_axioms])
    (simp_all add: value_sized_def signed_value_def new_value_def owner_export_def hash_zero_def key_ok_def import_one_def)

lemma signed_wire: "wire_form 3 signed_value = signed_value"
  by (simp add: wire_form_def isEncrypted_def has_owner_def signed_value_def new_value_def)

lemma wire_form_equal:
  assumes "isEncrypted v \<or> has_owner v \<or> v_owner v = None \<and> v_signature v = []"
  shows "value_eq v (wire_form r v)"
  using assms by (auto simp: wire_form_def value_eq_def contentEquals_def owner_eq_def new_value_def has_owner_def split: option.splits)

section \<open>Queries\<close>

definition fv_obj :: "field_value \<Rightarrow> msgpack_object" where
  "fv_obj fv = MAP [(key_obj ''f'', num_obj (of_int (field_code (fv_field fv)) :: byte)),
     (key_obj ''v'', case fv_field fv of FOwnerPk \<Rightarrow> BIN (hashValue fv) | FUserType \<Rightarrow> BIN (blobValue fv)
        | _ \<Rightarrow> num_obj (intValue fv))]"

text \<open>Restrictions as the methods of \<open>Where\<close> build them, other than on the sequence number.\<close>

definition fv_sendable :: "field_value \<Rightarrow> bool" where
  "fv_sendable fv = (case fv_field fv of
        FId \<Rightarrow> hashValue fv = hash_zero HASH_LEN \<and> blobValue fv = []
      | FValueType \<Rightarrow> hashValue fv = hash_zero HASH_LEN \<and> blobValue fv = []
      | FOwnerPk \<Rightarrow> length (hashValue fv) = HASH_LEN \<and> intValue fv = 0 \<and> blobValue fv = []
      | FUserType \<Rightarrow> length (blobValue fv) < 2 ^ 32 \<and> intValue fv = 0 \<and> hashValue fv = hash_zero HASH_LEN
      | _ \<Rightarrow> False)"

definition query_obj :: "query \<Rightarrow> msgpack_object" where
  "query_obj q = MAP [(key_obj ''s'', ARRAY (map (\<lambda>f. int_obj (field_code f)) (q_select q))),
     (key_obj ''w'', ARRAY (map fv_obj (q_where q)))]"

lemma fv_pack_obj: "fv_sendable fv \<Longrightarrow> fv_pack fv = Ret (pack_obj (fv_obj fv))"
  by (auto simp: fv_sendable_def fv_pack_def fv_obj_def Let_def numeral_2_eq_2 [symmetric] split: field.splits)

lemma map_outcome_Ret: "(\<And>x. x \<in> set xs \<Longrightarrow> f x = Ret (g x)) \<Longrightarrow> map_outcome f xs = Ret (map g xs)"
  by (induction xs) auto

lemma query_pack_obj:
  assumes "list_all fv_sendable (q_where q)"
  shows "query_pack q = Ret (pack_obj (query_obj q))"
proof -
  have "map_outcome fv_pack (q_where q) = Ret (map (\<lambda>fv. pack_obj (fv_obj fv)) (q_where q))"
    using assms by (intro map_outcome_Ret) (auto simp: list_all_iff fv_pack_obj)
  moreover have "pack_int i = pack_obj (int_obj i)" for i by (simp add: pack_int_def int_obj_def)
  ultimately show ?thesis
    by (simp add: query_pack_def where_pack_def query_obj_def select_pack_def numeral_2_eq_2 [symmetric] comp_def)
qed

lemma fv_unpack_obj: "fv_sendable fv \<Longrightarrow> fv_unpack (fv_obj fv) = Ret fv"
  by (auto simp: fv_sendable_def fv_unpack_def fv_obj_def Let_def field_simps' field_of_int_def as_hash_def unpackBlob_def
      fv_int_def fv_hash_def fv_blob_def no_field_value_def split: field.splits)

definition query_sendable :: "query \<Rightarrow> bool" where
  "query_sendable q \<longleftrightarrow> list_all fv_sendable (q_where q) \<and> length (q_where q) < 2 ^ 32
     \<and> list_all (\<lambda>f. - (2 ^ 31) \<le> field_code f \<and> field_code f < 2 ^ 31) (q_select q) \<and> length (q_select q) < 2 ^ 32"

lemma obj_ok_int_obj: "- (2 ^ 31) \<le> i \<Longrightarrow> obj_ok (int_obj i)"
  by (simp add: int_obj_def)

lemma obj_ok_fv_obj: "fv_sendable fv \<Longrightarrow> obj_ok (fv_obj fv)"
  by (auto simp: fv_sendable_def fv_obj_def HASH_LEN_def split: field.splits)

lemma query_obj_ok: "query_sendable q \<Longrightarrow> obj_ok (query_obj q)"
  by (auto simp: query_sendable_def query_obj_def list_all_iff obj_ok_fv_obj obj_ok_int_obj)

lemma field_of_code [simp]: "field_of_int (field_code f) = f"
  by (cases f) (simp_all add: field_of_int_def)

lemma uint_of_int_small: "0 \<le> i \<Longrightarrow> i < 2 ^ 31 \<Longrightarrow> uint (of_int i :: uint64) = i"
  by (simp add: unsigned_of_int take_bit_int_eq_self)

lemma as_field_code: "- (2 ^ 31) \<le> field_code f \<Longrightarrow> field_code f < 2 ^ 31 \<Longrightarrow> as_field (int_obj (field_code f)) = Ret f"
  by (auto simp: as_field_def as_int32_def convert_signed_def int_obj_def uint_of_int_small)

lemma query_unpack_obj:
  assumes "query_sendable q"
  shows "query_unpack (query_obj q) q0 = Ret (q0\<lparr>q_select := q_select q, q_where := q_where q\<rparr>)"
proof -
  have "map_outcome fv_unpack (map fv_obj ws) = Ret ws" if "list_all fv_sendable ws" for ws
    using that by (induction ws) (auto simp: fv_unpack_obj)
  moreover have "map_outcome as_field (map (\<lambda>f. int_obj (field_code f)) fs) = Ret fs"
    if "list_all (\<lambda>f. - (2 ^ 31) \<le> field_code f \<and> field_code f < 2 ^ 31) fs" for fs
    using that by (induction fs) (auto simp: as_field_code)
  ultimately show ?thesis
    using assms by (simp add: query_unpack_def query_obj_def field_simps' where_unpack_def select_unpack_def as_vector_def
        query_sendable_def)
qed

text \<open>
  C26: A query without restrictions on the sequence number is packed, and the peer reads the same selection and the same
  restrictions.
\<close>

theorem query_roundtrip:
  assumes "msgpack_parser unpack" and "query_sendable q"
  shows "\<exists>bs obj. query_pack q = Ret bs \<and> unpack (bs @ rest) = Some obj
     \<and> query_unpack obj q0 = Ret (q0\<lparr>q_select := q_select q, q_where := q_where q\<rparr>)"
proof -
  have "query_pack q = Ret (pack_obj (query_obj q))"
    using assms(2) by (simp add: query_sendable_def query_pack_obj)
  moreover have "unpack (pack_obj (query_obj q) @ rest) = Some (query_obj q)"
    using assms by (simp add: msgpack_parser.unpack_pack query_obj_ok)
  ultimately show ?thesis using query_unpack_obj [OF assms(2)] by blast
qed

definition some_query :: query where
  "some_query = \<lparr>q_select = [FSeqNum, FId], q_where = [fv_int FId 7, fv_blob FUserType [65]], q_none = False\<rparr>"

theorem query_roundtrip_witness:
  "\<exists>bs obj. query_pack some_query = Ret bs \<and> unpack_obj (bs @ []) = Some obj
     \<and> query_unpack obj some_query = Ret some_query"
  using query_roundtrip [OF decoder.msgpack_parser_axioms, of some_query "[]" some_query]
  by (simp add: query_sendable_def some_query_def fv_sendable_def fv_int_def fv_blob_def no_field_value_def)

text \<open>A restriction on the sequence number, which \<open>Where::seq\<close> offers, makes packing throw.\<close>

lemma seq_restriction_throws: "query_pack (q\<lparr>q_where := where_seq n []\<rparr>) = Throw"
  by (simp add: query_pack_def where_pack_def where_seq_def add_filter_def fv_pack_def fv_int_def no_field_value_def Let_def)

text \<open>
  Fields are packed in the order of the selection and read in the same order. The owner is packed as its exported key
  and read as an identifier: the fields of a value with an owner are rejected, unless the key happens to be as long as an identifier.
\<close>

definition field_obj :: "dht_value \<Rightarrow> field \<Rightarrow> msgpack_object" where
  "field_obj v f = (case f of
        FId \<Rightarrow> num_obj (v_id v)
      | FValueType \<Rightarrow> num_obj (v_type v)
      | FOwnerPk \<Rightarrow> BIN (case v_owner v of None \<Rightarrow> hash_zero HASH_LEN | Some k \<Rightarrow> pk_export k)
      | FSeqNum \<Rightarrow> num_obj (v_seq v)
      | _ \<Rightarrow> STRING (v_user_type v))"

lemma pack_field_obj:
  "f \<in> set all_fields \<Longrightarrow> v_owner v = None \<or> has_owner v \<Longrightarrow> pack_field v f = Ret (pack_obj (field_obj v f))"
  by (auto simp: all_fields_def pack_field_def field_obj_def has_owner_def split: option.splits)

lemma unpack_field_obj: "f \<in> set all_fields \<Longrightarrow> v_owner v = None \<Longrightarrow> unpack_field (field_obj v f) f = Ret (index_field v f)"
  by (auto simp: all_fields_def unpack_field_def field_obj_def index_field_def as_hash_def as_blob_def hash_zero_def)

lemma unpack_fields_at:
  assumes "\<And>f. f \<in> set fs \<Longrightarrow> unpack_field (g f) f = Ret (h f)"
  shows "msgpack_unpack_fields fs (pre @ map g fs @ post) (length pre) = Ret (map (\<lambda>f. (f, h f)) fs)"
  using assms
proof (induction fs arbitrary: pre)
  case (Cons f fs)
  from Cons.IH [of "pre @ [g f]"] Cons.prems show ?case by simp
qed simp

lemma fields_roundtrip:
  assumes "list_all (\<lambda>f. f \<in> set all_fields) fs" and "v_owner v = None"
  shows "msgpack_pack_fields fs v = Ret (concat (map pack_obj (map (field_obj v) fs)))"
    and "msgpack_unpack_fields fs (pre @ map (field_obj v) fs @ post) (length pre) = Ret (map (\<lambda>f. (f, index_field v f)) fs)"
proof -
  have "map_outcome (pack_field v) fs = Ret (map (\<lambda>f. pack_obj (field_obj v f)) fs)"
    using assms by (intro map_outcome_Ret) (auto simp: list_all_iff pack_field_obj)
  then show "msgpack_pack_fields fs v = Ret (concat (map pack_obj (map (field_obj v) fs)))"
    by (simp add: msgpack_pack_fields_def comp_def)
  show "msgpack_unpack_fields fs (pre @ map (field_obj v) fs @ post) (length pre) = Ret (map (\<lambda>f. (f, index_field v f)) fs)"
    using assms by (intro unpack_fields_at) (auto simp: list_all_iff unpack_field_obj)
qed

lemma owner_field_rejected:
  assumes "v_owner v = Some k" and "length (pk_export k) \<noteq> HASH_LEN"
  shows "unpack_field (field_obj v FOwnerPk) FOwnerPk = Throw"
  using assms by (simp add: unpack_field_def field_obj_def as_hash_def)

end
