(* ===== verification/Parsed_Message.thy ===== *)
theory Parsed_Message
  imports Value_Codec Node_Requests Sock_Addr
begin

unbundle bit_operations_syntax

text \<open>
  Received messages (\<open>parsed_message.h\<close>): reading a message from the object the msgpack parser returns, and collecting
  the parts of values that were sent in pieces. The environment holds what comes from outside: the parser, the import
  of public keys, the readings of the two clocks and the first unused reference for value objects.

  The code reads the content of a message without testing that it is a map, and the first element of an error without
  testing that there is one; there the outcome is \<open>Undef\<close>.
\<close>

record parse_env =
  pe_unpack :: "bytes \<Rightarrow> msgpack_object option"
  pe_import :: "bytes \<Rightarrow> public_key option"
  pe_clock :: time_point
  pe_system :: int
  pe_ref :: nat

section \<open>Data\<close>

type_synonym value_parts = "(uint32 \<times> uint32 \<times> bytes) list"

record parsed_message =
  pm_type :: message_type
  pm_id :: hash
  pm_network :: uint32
  pm_is_client :: bool
  pm_info_hash :: hash
  pm_target :: hash
  pm_tid :: tid
  pm_socket_id :: tid
  pm_token :: bytes
  pm_value_id :: value_id
  pm_created :: time_point
  pm_nodes4_raw :: bytes
  pm_nodes6_raw :: bytes
  pm_nodes4 :: "nref list"
  pm_nodes6 :: "nref list"
  pm_values :: "dht_value list"
  pm_refreshed :: "value_id list"
  pm_expired :: "value_id list"
  pm_fields :: "field_index list"
  pm_value_parts :: value_parts
  pm_query :: query
  pm_want :: int
  pm_error_code :: "16 word"
  pm_ua :: bytes
  pm_version :: int
  pm_addr :: sock_addr

text \<open>The members without an initialiser (type, want, error code) are set before they are read.\<close>

definition new_message :: parsed_message where
  "new_message = \<lparr>pm_type = Error, pm_id = hash_zero HASH_LEN, pm_network = 0, pm_is_client = False,
     pm_info_hash = hash_zero HASH_LEN, pm_target = hash_zero HASH_LEN, pm_tid = 0, pm_socket_id = 0, pm_token = [],
     pm_value_id = 0, pm_created = time_max, pm_nodes4_raw = [], pm_nodes6_raw = [], pm_nodes4 = [], pm_nodes6 = [],
     pm_values = [], pm_refreshed = [], pm_expired = [], pm_fields = [], pm_value_parts = [],
     pm_query = \<lparr>q_select = [], q_where = [], q_none = False\<rparr>, pm_want = 0, pm_error_code = 0, pm_ua = [],
     pm_version = 0, pm_addr = []\<rparr>"

definition unpackTid :: "msgpack_object \<Rightarrow> tid outcome" where
  "unpackTid obj = (case obj of
     POSITIVE_INTEGER _ \<Rightarrow> as_uint32 obj
   | BIN s \<Rightarrow> if length s > 4 then Throw else if length s < 4 then Undef else Ret (of_nat (fold (\<lambda>b a. a * 256 + unat b) s 0))
   | STRING s \<Rightarrow> if length s > 4 then Throw else if length s < 4 then Undef else Ret (of_nat (fold (\<lambda>b a. a * 256 + unat b) s 0))
   | _ \<Rightarrow> Throw)"

text \<open>The conversions between the two clocks saturate, but the seconds are first scaled to nanoseconds.\<close>

definition in_range :: "int \<Rightarrow> bool" where
  "in_range t \<longleftrightarrow> time_min \<le> t \<and> t \<le> time_max"

definition from_time_t :: "time_point \<Rightarrow> int \<Rightarrow> int \<Rightarrow> time_point outcome" where
  "from_time_t now sys t =
     (let dt = seconds t - sys in
      if \<not> in_range (seconds t) \<or> \<not> in_range dt then Undef
      else if dt > 0 \<and> now > time_max - dt then Ret time_max
      else if dt < 0 \<and> now < time_min - dt then Ret time_min
      else Ret (now + dt))"

fun fold_outcome :: "('a \<Rightarrow> 's \<Rightarrow> 's outcome) \<Rightarrow> 'a list \<Rightarrow> 's \<Rightarrow> 's outcome" where
  "fold_outcome f [] s = Ret s"
| "fold_outcome f (x # xs) s = bind_outcome (f x s) (fold_outcome f xs)"

section \<open>Reading a message\<close>

record parsed_msg =
  p_y :: "msgpack_object option"
  p_r :: "msgpack_object option"
  p_u :: "msgpack_object option"
  p_e :: "msgpack_object option"
  p_v :: "msgpack_object option"
  p_a :: "msgpack_object option"
  p_q :: bytes

definition no_parsed :: parsed_msg where
  "no_parsed = \<lparr>p_y = None, p_r = None, p_u = None, p_e = None, p_v = None, p_a = None, p_q = []\<rparr>"

definition top_field :: "bytes \<Rightarrow> msgpack_object \<Rightarrow> parsed_msg \<times> parsed_message \<Rightarrow> (parsed_msg \<times> parsed_message) outcome" where
  "top_field key v pm = (case pm of (p, m) \<Rightarrow>
     if key = lit ''y'' then Ret (p\<lparr>p_y := Some v\<rparr>, m)
     else if key = lit ''r'' then Ret (p\<lparr>p_r := Some v\<rparr>, m)
     else if key = lit ''u'' then Ret (p\<lparr>p_u := Some v\<rparr>, m)
     else if key = lit ''e'' then Ret (p\<lparr>p_e := Some v\<rparr>, m)
     else if key = lit ''p'' then Ret (p\<lparr>p_v := Some v\<rparr>, m)
     else if key = lit ''t'' then bind_outcome (unpackTid v) (\<lambda>t. Ret (p, m\<lparr>pm_tid := t\<rparr>))
     else if key = lit ''v'' then bind_outcome (as_string v) (\<lambda>s. Ret (p, m\<lparr>pm_ua := s\<rparr>))
     else if key = lit ''n'' then bind_outcome (as_uint32 v) (\<lambda>n. Ret (p, m\<lparr>pm_network := n\<rparr>))
     else if key = lit ''s'' then bind_outcome (as_bool v) (\<lambda>b. Ret (p, m\<lparr>pm_is_client := b\<rparr>))
     else if key = lit ''q'' then bind_outcome (as_string v) (\<lambda>s. Ret (p\<lparr>p_q := s\<rparr>, m))
     else if key = lit ''a'' then Ret (p\<lparr>p_a := Some v\<rparr>, m)
     else Ret (p, m))"

definition on_key :: "(bytes \<Rightarrow> msgpack_object \<Rightarrow> 's \<Rightarrow> 's outcome) \<Rightarrow> msgpack_object \<times> msgpack_object \<Rightarrow> 's \<Rightarrow> 's outcome" where
  "on_key f kv s = (case fst kv of STRING key \<Rightarrow> f key (snd kv) s | _ \<Rightarrow> Ret s)"

definition query_type :: "bytes \<Rightarrow> message_type outcome" where
  "query_type q =
     (if q = lit ''ping'' then Ret Ping
      else if q = lit ''find'' then Ret FindNode
      else if q = lit ''get'' then Ret GetValues
      else if q = lit ''listen'' then Ret Listen
      else if q = lit ''put'' then Ret AnnounceValue
      else if q = lit ''refresh'' then Ret Refresh
      else if q = lit ''update'' then Ret UpdateValue
      else Throw)"

definition message_kind :: "parsed_msg \<Rightarrow> message_type outcome" where
  "message_kind p =
     (if p_e p \<noteq> None then Ret Error
      else if p_r p \<noteq> None then Ret Reply
      else if p_v p \<noteq> None then Ret ValueData
      else if p_u p \<noteq> None then Ret ValueUpdate
      else case p_y p of
             None \<Rightarrow> query_type (p_q p)
           | Some y \<Rightarrow> bind_outcome (as_string y) (\<lambda>s. if s \<noteq> lit ''q'' then Throw else query_type (p_q p)))"

definition value_part :: "msgpack_object \<times> msgpack_object \<Rightarrow> parsed_message \<Rightarrow> parsed_message outcome" where
  "value_part kv m =
     bind_outcome (findMapValue (snd kv) (lit ''o'')) (\<lambda>off.
     bind_outcome (findMapValue (snd kv) (lit ''d'')) (\<lambda>d.
       case (off, d) of
         (Some off, Some d) \<Rightarrow>
           bind_outcome (as_uint32 (fst kv)) (\<lambda>i.
           bind_outcome (as_uint64 off) (\<lambda>off.
           bind_outcome (unpackBlob d) (\<lambda>d.
             Ret (m\<lparr>pm_value_parts := snd (map_emplace i (ucast off, d) (pm_value_parts m))\<rparr>))))
       | _ \<Rightarrow> Ret m))"

record parsed_req =
  pr_values :: "msgpack_object option"
  pr_fields :: "msgpack_object option"
  pr_sa :: "msgpack_object option"
  pr_want :: "msgpack_object option"

definition no_req :: parsed_req where
  "no_req = \<lparr>pr_values = None, pr_fields = None, pr_sa = None, pr_want = None\<rparr>"

definition req_field :: "parse_env \<Rightarrow> bytes \<Rightarrow> msgpack_object \<Rightarrow> parsed_req \<times> parsed_message \<Rightarrow> (parsed_req \<times> parsed_message) outcome" where
  "req_field P key v pm = (case pm of (p, m) \<Rightarrow>
     if key = lit ''sid'' then bind_outcome (unpackTid v) (\<lambda>x. Ret (p, m\<lparr>pm_socket_id := x\<rparr>))
     else if key = lit ''id'' then bind_outcome (as_hash v) (\<lambda>x. Ret (p, m\<lparr>pm_id := x\<rparr>))
     else if key = lit ''h'' then bind_outcome (as_hash v) (\<lambda>x. Ret (p, m\<lparr>pm_info_hash := x\<rparr>))
     else if key = lit ''target'' then bind_outcome (as_hash v) (\<lambda>x. Ret (p, m\<lparr>pm_target := x\<rparr>))
     else if key = lit ''q'' then bind_outcome (query_unpack v (pm_query m)) (\<lambda>x. Ret (p, m\<lparr>pm_query := x\<rparr>))
     else if key = lit ''token'' then bind_outcome (unpackBlob v) (\<lambda>x. Ret (p, m\<lparr>pm_token := x\<rparr>))
     else if key = lit ''vid'' then bind_outcome (as_uint64 v) (\<lambda>x. Ret (p, m\<lparr>pm_value_id := x\<rparr>))
     else if key = lit ''n4'' then bind_outcome (unpackBlob v) (\<lambda>x. Ret (p, m\<lparr>pm_nodes4_raw := x\<rparr>))
     else if key = lit ''n6'' then bind_outcome (unpackBlob v) (\<lambda>x. Ret (p, m\<lparr>pm_nodes6_raw := x\<rparr>))
     else if key = lit ''sa'' then Ret (p\<lparr>pr_sa := Some v\<rparr>, m)
     else if key = lit ''c'' then bind_outcome (as_int64 v) (\<lambda>t.
       bind_outcome (from_time_t (pe_clock P) (pe_system P) t) (\<lambda>x. Ret (p, m\<lparr>pm_created := x\<rparr>)))
     else if key = lit ''values'' then Ret (p\<lparr>pr_values := Some v\<rparr>, m)
     else if key = lit ''exp'' then bind_outcome (as_vector as_uint64 v) (\<lambda>x. Ret (p, m\<lparr>pm_expired := x\<rparr>))
     else if key = lit ''re'' then bind_outcome (as_vector as_uint64 v) (\<lambda>x. Ret (p, m\<lparr>pm_refreshed := x\<rparr>))
     else if key = lit ''fileds'' then Ret (p\<lparr>pr_fields := Some v\<rparr>, m)
     else if key = lit ''w'' then Ret (p\<lparr>pr_want := Some v\<rparr>, m)
     else if key = lit ''ve'' then bind_outcome (as_int32 v) (\<lambda>x. Ret (p, m\<lparr>pm_version := x\<rparr>))
     else Ret (p, m))"

definition read_addr :: "msgpack_object option \<Rightarrow> parsed_message \<Rightarrow> parsed_message outcome" where
  "read_addr sa m = (case sa of
     None \<Rightarrow> Ret (m\<lparr>pm_addr := []\<rparr>)
   | Some (BIN s) \<Rightarrow>
       if length s = 4 then Ret (m\<lparr>pm_addr := blit (blit (setFamily AF_INET (pm_addr m)) 2 [0, 0]) 4 s\<rparr>)
       else if length s = 16 then Ret (m\<lparr>pm_addr := blit (blit (setFamily AF_INET6 (pm_addr m)) 2 [0, 0]) 8 s\<rparr>)
       else Ret m
   | Some _ \<Rightarrow> Throw)"

text \<open>A number in the list of values announces a value of that size in parts; a value that cannot be read is skipped.\<close>

definition read_value :: "parse_env \<Rightarrow> nat \<times> msgpack_object \<Rightarrow> parsed_message \<Rightarrow> parsed_message outcome" where
  "read_value P io m = (case snd io of
     POSITIVE_INTEGER u \<Rightarrow>
       if unat u > MAX_VALUE_SIZE + 32 then Ret m
       else Ret (m\<lparr>pm_value_parts := snd (map_emplace (of_nat (fst io)) (ucast u, []) (pm_value_parts m))\<rparr>)
   | obj \<Rightarrow> (case msgpack_unpack (pe_import P) (pe_ref P + length (pm_values m)) obj of
       Ret v \<Rightarrow> Ret (m\<lparr>pm_values := pm_values m @ [v]\<rparr>)
     | Throw \<Rightarrow> Ret m
     | Terminate \<Rightarrow> Terminate
     | Undef \<Rightarrow> Undef))"

definition read_index :: "field list \<Rightarrow> msgpack_object list \<Rightarrow> nat \<Rightarrow> parsed_message \<Rightarrow> parsed_message outcome" where
  "read_index fs os i m = (case msgpack_unpack_fields fs os (i * length fs) of
     Ret ix \<Rightarrow> Ret (m\<lparr>pm_fields := pm_fields m @ [ix]\<rparr>)
   | Throw \<Rightarrow> Ret m
   | Terminate \<Rightarrow> Terminate
   | Undef \<Rightarrow> Undef)"

definition read_fields :: "msgpack_object \<Rightarrow> parsed_message \<Rightarrow> parsed_message outcome" where
  "read_fields obj m = requireValue obj (lit ''f'') (\<lambda>rf.
     bind_outcome (as_vector as_field rf) (\<lambda>fs.
       let fs = getSelection fs in
       bind_outcome (findMapValue obj (lit ''v'')) (\<lambda>rv. case rv of
         None \<Rightarrow> Ret m
       | Some (ARRAY os) \<Rightarrow> if fs = [] then Undef else fold_outcome (read_index fs os) [0..<length os div length fs] m
       | Some _ \<Rightarrow> Throw)))"

definition read_values :: "parse_env \<Rightarrow> parsed_req \<Rightarrow> parsed_message \<Rightarrow> parsed_message outcome" where
  "read_values P p m = (case pr_values p of
     Some (ARRAY os) \<Rightarrow> fold_outcome (read_value P) (enumerate 0 os) m
   | Some _ \<Rightarrow> Throw
   | None \<Rightarrow> (case pr_fields p of None \<Rightarrow> Ret m | Some fs \<Rightarrow> read_fields fs m))"

definition want_flag :: "msgpack_object \<Rightarrow> int \<Rightarrow> int" where
  "want_flag obj w = (case as_uint16 obj of
     Ret f \<Rightarrow> if unat f = AF_INET then w OR 1 else if unat f = AF_INET6 then w OR 2 else w
   | _ \<Rightarrow> w)"

definition read_want :: "parsed_req \<Rightarrow> parsed_message \<Rightarrow> parsed_message outcome" where
  "read_want p m = (case pr_want p of
     None \<Rightarrow> Ret (m\<lparr>pm_want := -1\<rparr>)
   | Some (ARRAY os) \<Rightarrow> Ret (m\<lparr>pm_want := fold want_flag os 0\<rparr>)
   | Some _ \<Rightarrow> Throw)"

definition read_error :: "parsed_msg \<Rightarrow> parsed_message \<Rightarrow> parsed_message outcome" where
  "read_error p m = (case p_e p of
     None \<Rightarrow> Ret m
   | Some (ARRAY []) \<Rightarrow> Undef
   | Some (ARRAY (x # _)) \<Rightarrow> bind_outcome (as_uint16 x) (\<lambda>c. Ret (m\<lparr>pm_error_code := c\<rparr>))
   | Some _ \<Rightarrow> Throw)"

definition request_obj :: "parsed_msg \<Rightarrow> msgpack_object option" where
  "request_obj p = (if p_a p \<noteq> None then p_a p else if p_r p \<noteq> None then p_r p else if p_u p \<noteq> None then p_u p else p_e p)"

definition read_rest :: "parse_env \<Rightarrow> parsed_req \<times> parsed_message \<Rightarrow> parsed_message outcome" where
  "read_rest P pm = (case pm of (p, m) \<Rightarrow>
     bind_outcome (read_addr (pr_sa p) m) (\<lambda>m. bind_outcome (read_values P p m) (\<lambda>m. read_want p m)))"

definition read_request :: "parse_env \<Rightarrow> parsed_msg \<Rightarrow> parsed_message \<Rightarrow> parsed_message outcome" where
  "read_request P p m = (case request_obj p of
     None \<Rightarrow> Throw
   | Some req \<Rightarrow>
       bind_outcome (read_error p m) (\<lambda>m. case req of
         MAP kvs \<Rightarrow> bind_outcome (fold_outcome (on_key (req_field P)) kvs (no_req, m)) (read_rest P)
       | _ \<Rightarrow> Undef))"

definition message_unpack :: "parse_env \<Rightarrow> msgpack_object \<Rightarrow> parsed_message outcome" where
  "message_unpack P obj = (case obj of
     MAP kvs \<Rightarrow>
       bind_outcome (fold_outcome (on_key top_field) kvs (no_parsed, new_message)) (\<lambda>(p, m).
       bind_outcome (message_kind p) (\<lambda>ty.
         let m = m\<lparr>pm_type := ty\<rparr> in
         if ty = ValueData then (case p_v p of Some (MAP parts) \<Rightarrow> fold_outcome value_part parts m | _ \<Rightarrow> Throw)
         else read_request P p m))
   | _ \<Rightarrow> Throw)"

section \<open>Values in parts\<close>

definition append_part :: "uint32 \<times> uint32 \<times> bytes \<Rightarrow> bool \<times> value_parts \<Rightarrow> bool \<times> value_parts" where
  "append_part ve rp = (case (ve, rp) of ((i, off, d), (ret, parts)) \<Rightarrow>
     (case map_of parts i of
        None \<Rightarrow> (ret, parts)
      | Some (tot, buf) \<Rightarrow>
          if length buf \<ge> unat tot \<or> unat off \<noteq> length buf then (ret, parts)
          else (True, map_put i (tot, buf @ d) parts)))"

definition message_append :: "parsed_message \<Rightarrow> parsed_message \<Rightarrow> bool \<times> parsed_message" where
  "message_append block m =
     (let (ret, parts) = fold append_part (pm_value_parts block) (False, pm_value_parts m)
      in (ret, m\<lparr>pm_value_parts := parts\<rparr>))"

fun complete_values :: "parse_env \<Rightarrow> value_parts \<Rightarrow> parsed_message \<Rightarrow> unit outcome \<times> parsed_message" where
  "complete_values P [] m = (Ret (), m)"
| "complete_values P ((i, tot, buf) # ps) m = (case pe_unpack P buf of
     None \<Rightarrow> (Throw, m)
   | Some obj \<Rightarrow> (case msgpack_unpack (pe_import P) (pe_ref P + length (pm_values m)) obj of
       Ret v \<Rightarrow> complete_values P ps (m\<lparr>pm_values := pm_values m @ [v]\<rparr>)
     | Throw \<Rightarrow> (Throw, m)
     | Terminate \<Rightarrow> (Terminate, m)
     | Undef \<Rightarrow> (Undef, m)))"

definition parts_here :: "value_parts \<Rightarrow> bool" where
  "parts_here ps = list_all (\<lambda>(i, tot, buf). unat tot \<le> length buf) ps"

definition message_complete :: "parse_env \<Rightarrow> parsed_message \<Rightarrow> bool outcome \<times> parsed_message" where
  "message_complete P m =
     (if parts_here (pm_value_parts m) then and_then (complete_values P (pm_value_parts m) m) (\<lambda>_ m. (Ret True, m))
      else (Ret False, m))"

end
