(* ===== verification/Engine_Messages.thy ===== *)
theory Engine_Messages
  imports Network_Engine Parsed_Message
begin

unbundle bit_operations_syntax

text \<open>
  The messages the network engine sends (\<open>network_engine.cpp\<close>): requests to get, put, refresh, listen and update, the
  answers to them, and the lists of nodes they carry. What the receiving peer reads from them is proved by the same
  theory of received messages that models the parser of the code.
\<close>

definition SEND_NODES :: nat where
  "SEND_NODES = 8"

definition MAX_PACKET_VALUE_SIZE :: nat where
  "MAX_PACKET_VALUE_SIZE = 600"

section \<open>Parts of messages\<close>

definition request_msg :: "net_env \<Rightarrow> tid \<Rightarrow> nat \<Rightarrow> bytes \<Rightarrow> string \<Rightarrow> bytes" where
  "request_msg E t k args q = pack_map_header (5 + net_count E)
     @ pack_str (lit ''a'') @ pack_map_header k @ pack_str (lit ''id'') @ pack_bin (myid E) @ args
     @ pack_str (lit ''q'') @ pack_str (lit q) @ pack_tail E t (lit ''q'')"

definition reply_msg :: "net_env \<Rightarrow> tid \<Rightarrow> nat \<Rightarrow> bytes \<Rightarrow> bytes" where
  "reply_msg E t k args = pack_map_header (4 + net_count E)
     @ pack_str (lit ''r'') @ pack_map_header k @ pack_str (lit ''id'') @ pack_bin (myid E) @ args @ pack_tail E t (lit ''r'')"

definition addr_bytes :: "sock_addr \<Rightarrow> bytes" where
  "addr_bytes a = (if getFamily a = AF_INET then take (min (length a) 4) (drop 4 a) else take (min (length a) 16) (drop 8 a))"

definition insertAddr :: "sock_addr \<Rightarrow> bytes" where
  "insertAddr a = pack_str (lit ''sa'') @ pack_bin (addr_bytes a)"

definition packToken :: "bytes \<Rightarrow> bytes" where
  "packToken token = pack_bin token"

definition serializeValues :: "dht_value list \<Rightarrow> bytes list" where
  "serializeValues st = map getPacked st"

text \<open>Values go into the message if they are few and small; otherwise their sizes do, and the values are left to be sent in parts.\<close>

definition packValueHeader :: "dht_value list \<Rightarrow> bytes \<times> bytes list" where
  "packValueHeader st =
     (let svals = serializeValues st;
          head = pack_str (lit ''values'') @ pack_array_header (length svals)
      in if length svals < 50 \<and> sum_list (map length svals) < MAX_PACKET_VALUE_SIZE then (head @ concat svals, [])
         else (head @ concat (map (\<lambda>b. pack_uint64 (of_nat (length b))) svals), svals))"

section \<open>Nodes in messages\<close>

definition node_blob :: "engine \<Rightarrow> nat \<Rightarrow> nref \<Rightarrow> bytes" where
  "node_blob e af n = n_id (nd e n) @ (if af = AF_INET then ip4 (n_addr (nd e n)) else ip6 (n_addr (nd e n))) @ take 2 (drop 2 (n_addr (nd e n)))"

definition sort_nodes :: "engine \<Rightarrow> hash \<Rightarrow> nref list \<Rightarrow> nref list" where
  "sort_nodes e h ns = fold (\<lambda>n acc. insert_before (\<lambda>m. xorCmp h (n_id (nd e n)) (n_id (nd e m)) < 0) n acc) ns []"

definition bufferNodes_af :: "engine \<Rightarrow> nat \<Rightarrow> hash \<Rightarrow> nref list \<Rightarrow> bytes" where
  "bufferNodes_af e af h ns =
     (if af = AF_INET \<or> af = AF_INET6 then concat (map (node_blob e af) (take SEND_NODES (sort_nodes e h ns))) else [])"

definition bufferNodes :: "engine \<Rightarrow> nat \<Rightarrow> hash \<Rightarrow> int \<Rightarrow> nref list \<Rightarrow> nref list \<Rightarrow> bytes \<times> bytes" where
  "bufferNodes e af h want nodes4 nodes6 =
     (let want = (if want < 0 then if af = AF_INET then 1 else 2 else want)
      in (if bit want 0 then bufferNodes_af e AF_INET h nodes4 else [],
          if bit want 1 then bufferNodes_af e AF_INET6 h nodes6 else []))"

section \<open>Answers\<close>

definition sendPong :: "net_env \<Rightarrow> sock_addr \<Rightarrow> tid \<Rightarrow> engine \<Rightarrow> engine" where
  "sendPong E addr t e = snd (send E addr (reply_msg E t 2 (insertAddr addr)) False e)"

definition sendListenConfirmation :: "net_env \<Rightarrow> sock_addr \<Rightarrow> tid \<Rightarrow> engine \<Rightarrow> engine" where
  "sendListenConfirmation E addr t e = snd (send E addr (reply_msg E t 2 (insertAddr addr)) False e)"

definition sendValueAnnounced :: "net_env \<Rightarrow> sock_addr \<Rightarrow> tid \<Rightarrow> value_id \<Rightarrow> engine \<Rightarrow> engine" where
  "sendValueAnnounced E addr t vid e =
     snd (send E addr (reply_msg E t 3 (pack_str (lit ''vid'') @ pack_number vid @ insertAddr addr)) False e)"

definition error_msg :: "net_env \<Rightarrow> tid \<Rightarrow> 16 word \<Rightarrow> bytes \<Rightarrow> bool \<Rightarrow> bytes" where
  "error_msg E t code message include_id = pack_map_header (4 + (if include_id then 1 else 0) + net_count E)
     @ pack_str (lit ''e'') @ pack_array_header 2 @ pack_number code @ pack_str message
     @ (if include_id then pack_str (lit ''r'') @ pack_map_header 1 @ pack_str (lit ''id'') @ pack_bin (myid E) else [])
     @ pack_tail E t (lit ''e'')"

definition sendError :: "net_env \<Rightarrow> sock_addr \<Rightarrow> tid \<Rightarrow> 16 word \<Rightarrow> bytes \<Rightarrow> bool \<Rightarrow> engine \<Rightarrow> engine" where
  "sendError E addr t code message include_id e = snd (send E addr (error_msg E t code message include_id) False e)"

definition pack_selection :: "field list \<Rightarrow> dht_value list \<Rightarrow> bytes outcome" where
  "pack_selection fs st = bind_outcome (map_outcome (msgpack_pack_fields fs) st) (\<lambda>bs.
     Ret (pack_str (lit ''fileds'') @ pack_map_header 2 @ pack_str (lit ''f'') @ select_pack fs
       @ pack_str (lit ''v'') @ pack_array_header (length st * length fs) @ concat bs))"

definition nodes_args :: "sock_addr \<Rightarrow> bytes \<Rightarrow> bytes \<Rightarrow> bytes \<Rightarrow> bytes" where
  "nodes_args addr nodes nodes6 token = insertAddr addr
     @ (if nodes \<noteq> [] then pack_str (lit ''n4'') @ pack_bin nodes else [])
     @ (if nodes6 \<noteq> [] then pack_str (lit ''n6'') @ pack_bin nodes6 else [])
     @ (if token \<noteq> [] then pack_str (lit ''token'') @ packToken token else [])"

definition nodes_count :: "bytes \<Rightarrow> bytes \<Rightarrow> bytes \<Rightarrow> dht_value list \<Rightarrow> nat" where
  "nodes_count nodes nodes6 token st = 2 + (if st \<noteq> [] then 1 else 0) + (if nodes \<noteq> [] then 1 else 0)
     + (if nodes6 \<noteq> [] then 1 else 0) + (if token \<noteq> [] then 1 else 0)"

definition sendNodesValues :: "net_env \<Rightarrow> sock_addr \<Rightarrow> tid \<Rightarrow> bytes \<Rightarrow> bytes \<Rightarrow> dht_value list \<Rightarrow> query \<Rightarrow> bytes \<Rightarrow> engine \<Rightarrow> unit outcome \<times> engine" where
  "sendNodesValues E addr t nodes nodes6 st q token e =
     (case (if st = [] then Ret ([], [])
            else if q_select q = [] then Ret (packValueHeader st)
            else bind_outcome (pack_selection (getSelection (q_select q)) st) (\<lambda>b. Ret (b, []))) of
        Ret (vals, svals) \<Rightarrow>
          let e = snd (send E addr (reply_msg E t (nodes_count nodes nodes6 token st) (nodes_args addr nodes nodes6 token @ vals)) False e)
          in (Ret (), if svals \<noteq> [] then sendValueParts E t svals addr e else e)
      | Throw \<Rightarrow> (Throw, e)
      | Terminate \<Rightarrow> (Terminate, e)
      | Undef \<Rightarrow> (Undef, e))"

section \<open>Requests\<close>

definition launch :: "net_env \<Rightarrow> message_type \<Rightarrow> tid \<Rightarrow> nref \<Rightarrow> bytes \<Rightarrow> bytes list \<Rightarrow> bool \<Rightarrow> engine \<Rightarrow> rref \<times> engine" where
  "launch E ty t n m parts err e =
     (let (r, e) = alloc_request ((new_request_obj ty t n m err)\<lparr>rq_parts := parts\<rparr>) e in (r, sendRequest E r e))"

definition has_query :: "query \<Rightarrow> bool" where
  "has_query q \<longleftrightarrow> q_where q \<noteq> [] \<or> q_select q \<noteq> []"

definition pack_query :: "query \<Rightarrow> bytes outcome" where
  "pack_query q = (if has_query q then bind_outcome (query_pack q) (\<lambda>b. Ret (pack_str (lit ''q'') @ b)) else Ret [])"

definition get_count :: "query \<Rightarrow> int \<Rightarrow> nat" where
  "get_count q w = 2 + (if has_query q then 1 else 0) + (if w > 0 then 1 else 0)"

definition hash_arg :: "hash \<Rightarrow> bytes" where
  "hash_arg h = pack_str (lit ''h'') @ pack_bin h"

definition get_msg :: "net_env \<Rightarrow> tid \<Rightarrow> hash \<Rightarrow> query \<Rightarrow> int \<Rightarrow> bytes outcome" where
  "get_msg E t h q w = bind_outcome (pack_query q) (\<lambda>pq.
     Ret (request_msg E t (get_count q w) (hash_arg h @ pq @ pack_want w) ''get''))"

definition sendGetValues :: "net_env \<Rightarrow> nref \<Rightarrow> hash \<Rightarrow> query \<Rightarrow> int \<Rightarrow> engine \<Rightarrow> rref outcome \<times> engine" where
  "sendGetValues E n h q w e =
     (let (t, e) = getNewTid n e in
      and_then (get_msg E t h q w, e) (\<lambda>m e.
        let (r, e) = launch E GetValues t n m [] False e
        in (Ret r, count_out (\<lambda>st. st\<lparr>st_get := st_get st + 1\<rparr>) e)))"

definition listen_msg :: "net_env \<Rightarrow> tid \<Rightarrow> hash \<Rightarrow> query \<Rightarrow> bytes \<Rightarrow> tid \<Rightarrow> bytes outcome" where
  "listen_msg E t h q token sid = bind_outcome (pack_query q) (\<lambda>pq.
     Ret (request_msg E t (5 + (if has_query q then 1 else 0))
       (pack_str (lit ''ve'') @ pack_int 1 @ hash_arg h @ pack_str (lit ''token'') @ packToken token
        @ pack_str (lit ''sid'') @ pack_number sid @ pq) ''listen''))"

definition sendListen :: "net_env \<Rightarrow> nref \<Rightarrow> hash \<Rightarrow> query \<Rightarrow> bytes \<Rightarrow> tid \<Rightarrow> engine \<Rightarrow> rref outcome \<times> engine" where
  "sendListen E n h q token sid e =
     (let (t, e) = getNewTid n e in
      and_then (listen_msg E t h q token sid, e) (\<lambda>m e.
        let (r, e) = launch E Listen t n m [] False e
        in (Ret r, count_out (\<lambda>st. st\<lparr>st_listen := st_listen st + 1\<rparr>) e)))"

text \<open>The creation time is sent in seconds of the system clock, rounded towards zero.\<close>

definition to_time_t :: "time_point \<Rightarrow> int \<Rightarrow> time_point \<Rightarrow> int outcome" where
  "to_time_t now sys t =
     (let dt = t - now; secs = (\<lambda>x. if x < 0 then - (- x div seconds 1) else x div seconds 1) in
      if \<not> in_range dt then Undef
      else if dt > 0 \<and> sys \<ge> time_max - dt then Ret (secs time_max)
      else if dt < 0 \<and> sys \<le> time_min - dt then Ret (secs time_min)
      else Ret (secs (sys + dt)))"

definition created_arg :: "net_env \<Rightarrow> time_point \<Rightarrow> engine \<Rightarrow> bytes outcome" where
  "created_arg E created e =
     (if created < eng_now e then
        bind_outcome (to_time_t (clock_now E) (system_now E) created) (\<lambda>t. Ret (pack_str (lit ''c'') @ pack_int t))
      else Ret [])"

definition put_msg :: "net_env \<Rightarrow> tid \<Rightarrow> hash \<Rightarrow> bytes \<Rightarrow> time_point \<Rightarrow> bytes \<Rightarrow> engine \<Rightarrow> bytes outcome" where
  "put_msg E t h vh created token e = bind_outcome (created_arg E created e) (\<lambda>c.
     Ret (request_msg E t (if created < eng_now e then 5 else 4)
       (hash_arg h @ vh @ c @ pack_str (lit ''token'') @ pack_bin token) ''put''))"

definition sendAnnounceValue :: "net_env \<Rightarrow> nref \<Rightarrow> hash \<Rightarrow> dht_value \<Rightarrow> time_point \<Rightarrow> bytes \<Rightarrow> engine \<Rightarrow> rref outcome \<times> engine" where
  "sendAnnounceValue E n h v created token e =
     (let (t, e) = getNewTid n e; (vh, svals) = packValueHeader [v] in
      and_then (put_msg E t h vh created token e, e) (\<lambda>m e.
        let (r, e) = launch E AnnounceValue t n m svals False e
        in (Ret r, count_out (\<lambda>st. st\<lparr>st_put := st_put st + 1\<rparr>) e)))"

definition update_msg :: "net_env \<Rightarrow> tid \<Rightarrow> hash \<Rightarrow> tid \<Rightarrow> bytes \<Rightarrow> time_point \<Rightarrow> bytes \<Rightarrow> engine \<Rightarrow> bytes outcome" where
  "update_msg E t h sid vh created token e = bind_outcome (created_arg E created e) (\<lambda>c.
     Ret (request_msg E t (if created < eng_now e then 7 else 6)
       (pack_str (lit ''ve'') @ pack_int 1 @ hash_arg h @ pack_str (lit ''sid'') @ pack_number sid @ vh @ c
        @ pack_str (lit ''token'') @ pack_bin token) ''update''))"

definition sendUpdateValues :: "net_env \<Rightarrow> nref \<Rightarrow> hash \<Rightarrow> dht_value list \<Rightarrow> time_point \<Rightarrow> bytes \<Rightarrow> uint64 \<Rightarrow> engine \<Rightarrow> rref outcome \<times> engine" where
  "sendUpdateValues E n h vs created token socket e =
     (let (t, e) = getNewTid n e; (vh, svals) = packValueHeader vs in
      and_then (update_msg E t h (ucast socket) vh created token e, e) (\<lambda>m e.
        let (r, e) = launch E UpdateValue t n m svals False e
        in (Ret r, count_out (\<lambda>st. st\<lparr>st_updateValue := st_updateValue st + 1\<rparr>) e)))"

definition refresh_msg :: "net_env \<Rightarrow> tid \<Rightarrow> hash \<Rightarrow> value_id \<Rightarrow> bytes \<Rightarrow> bytes" where
  "refresh_msg E t h vid token = request_msg E t 4
     (hash_arg h @ pack_str (lit ''vid'') @ pack_number vid @ pack_str (lit ''token'') @ pack_bin token) ''refresh''"

definition sendRefreshValue :: "net_env \<Rightarrow> nref \<Rightarrow> hash \<Rightarrow> value_id \<Rightarrow> bytes \<Rightarrow> bool \<Rightarrow> engine \<Rightarrow> rref \<times> engine" where
  "sendRefreshValue E n h vid token err e =
     (let (t, e) = getNewTid n e;
          (r, e) = launch E Refresh t n (refresh_msg E t h vid token) [] err e
      in (r, count_out (\<lambda>st. st\<lparr>st_refresh := st_refresh st + 1\<rparr>) e))"

section \<open>Listeners\<close>

definition tellListener :: "net_env \<Rightarrow> nref \<Rightarrow> tid \<Rightarrow> hash \<Rightarrow> int \<Rightarrow> bytes \<Rightarrow> nref list \<Rightarrow> nref list \<Rightarrow> dht_value list \<Rightarrow> query \<Rightarrow> int
    \<Rightarrow> engine \<Rightarrow> unit outcome \<times> engine" where
  "tellListener E n sid h want token nodes nodes6 vs q version e =
     (let (n4, n6) = bufferNodes e (getFamily (n_addr (nd e n))) h want nodes nodes6 in
      if version \<ge> 1 then and_then (sendUpdateValues E n h vs (eng_now e) token (ucast sid) e) (\<lambda>_ e. (Ret (), e))
      else sendNodesValues E (n_addr (nd e n)) sid n4 n6 vs q token e)"

definition ids_arg :: "string \<Rightarrow> value_id list \<Rightarrow> bytes" where
  "ids_arg key ids = (if ids \<noteq> [] then pack_str (lit key) @ pack_array_header (length ids) @ concat (map pack_number ids) else [])"

text \<open>
  The identifiers of refreshed or expired values, in an \<open>update\<close> request to a peer of version 1 and in a message of its own
  to an older one.
\<close>

definition listener_head :: "net_env \<Rightarrow> tid \<Rightarrow> string \<Rightarrow> bytes \<Rightarrow> value_id list \<Rightarrow> int \<Rightarrow> bytes" where
  "listener_head E sid key token ids version =
     pack_map_header (4 + (if version \<ge> 1 then 1 else 0) + net_count E)
     @ pack_str (if version \<ge> 1 then lit ''a'' else lit ''u'')
     @ pack_map_header (1 + (if version \<ge> 1 then 1 else 0) + (if ids \<noteq> [] then 1 else 0) + (if token \<noteq> [] then 1 else 0))
     @ pack_str (lit ''id'') @ pack_bin (myid E)
     @ (if version \<ge> 1 then pack_str (lit ''sid'') @ pack_number sid else [])
     @ (if token \<noteq> [] then pack_str (lit ''token'') @ packToken token else [])
     @ ids_arg key ids
     @ pack_str (lit ''y'') @ pack_str (if version \<ge> 1 then lit ''q'' else lit ''r'')
     @ pack_str (lit ''v'') @ pack_str (lit ''RNG1'') @ pack_net E"

definition tell_ids :: "net_env \<Rightarrow> string \<Rightarrow> nref \<Rightarrow> tid \<Rightarrow> bytes \<Rightarrow> value_id list \<Rightarrow> int \<Rightarrow> engine \<Rightarrow> engine" where
  "tell_ids E key n sid token ids version e =
     (let head = listener_head E sid key token ids version in
      if version \<ge> 1 then
        let (t, e) = getNewTid n e;
            (r, e) = launch E UpdateValue t n (head @ pack_str (lit ''q'') @ pack_str (lit ''update'') @ pack_str (lit ''t'') @ pack_uint32 t) [] False e
        in count_out (\<lambda>st. st\<lparr>st_updateValue := st_updateValue st + 1\<rparr>) e
      else snd (send E (n_addr (nd e n)) (head @ pack_str (lit ''t'') @ pack_uint32 sid) False e))"

definition tellListenerRefreshed :: "net_env \<Rightarrow> nref \<Rightarrow> tid \<Rightarrow> bytes \<Rightarrow> value_id list \<Rightarrow> int \<Rightarrow> engine \<Rightarrow> engine" where
  "tellListenerRefreshed E = tell_ids E ''re''"

definition tellListenerExpired :: "net_env \<Rightarrow> nref \<Rightarrow> tid \<Rightarrow> bytes \<Rightarrow> value_id list \<Rightarrow> int \<Rightarrow> engine \<Rightarrow> engine" where
  "tellListenerExpired E = tell_ids E ''exp''"

section \<open>What the peer reads\<close>

definition net_entries :: "net_env \<Rightarrow> (msgpack_object \<times> msgpack_object) list" where
  "net_entries E = (if network E \<noteq> 0 then [(key_obj ''n'', num_obj (network E))] else [])"

definition tail_entries :: "net_env \<Rightarrow> tid \<Rightarrow> string \<Rightarrow> (msgpack_object \<times> msgpack_object) list" where
  "tail_entries E t y = [(key_obj ''t'', num_obj t), (key_obj ''y'', key_obj y), (key_obj ''v'', key_obj ''RNG1'')] @ net_entries E"

definition request_tree :: "net_env \<Rightarrow> tid \<Rightarrow> (msgpack_object \<times> msgpack_object) list \<Rightarrow> string \<Rightarrow> msgpack_object" where
  "request_tree E t args q = MAP ([(key_obj ''a'', MAP ((key_obj ''id'', BIN (myid E)) # args)), (key_obj ''q'', key_obj q)]
     @ tail_entries E t ''q'')"

definition reply_tree :: "net_env \<Rightarrow> tid \<Rightarrow> (msgpack_object \<times> msgpack_object) list \<Rightarrow> msgpack_object" where
  "reply_tree E t args = MAP ((key_obj ''r'', MAP ((key_obj ''id'', BIN (myid E)) # args)) # tail_entries E t ''r'')"

definition pack_entries :: "(msgpack_object \<times> msgpack_object) list \<Rightarrow> bytes" where
  "pack_entries kvs = concat (map (\<lambda>(k, v). pack_obj k @ pack_obj v) kvs)"

lemma pack_entries_simps [simp]:
  "pack_entries [] = []" "pack_entries ((k, v) # kvs) = pack_obj k @ pack_obj v @ pack_entries kvs"
  "pack_entries (xs @ ys) = pack_entries xs @ pack_entries ys"
  by (simp_all add: pack_entries_def)

lemma pack_obj_MAP [simp]: "pack_obj (MAP kvs) = pack_map_header (length kvs) @ pack_entries kvs"
  by (simp add: pack_entries_def)

declare pack_obj.simps(10) [simp del]

lemma pack_number_32: "pack_number (t :: uint32) = pack_uint32 t"
proof -
  have "(ucast t :: uint64) < 2 ^ 32" using unsigned_less [of t, where 'a = nat] by (simp add: word_less_nat_alt)
  moreover have "unat (ucast t :: byte) = unat t mod 256" by (simp add: unsigned_ucast_eq take_bit_eq_mod)
  then have "(ucast (ucast t :: uint64) :: byte) = ucast t" by (simp add: word_unat_eq_iff unat_low_byte)
  ultimately show ?thesis by (simp add: pack_number_def pack_uint64_def pack_uint32_def word_less_nat_alt)
qed

lemma pack_tail_entries: "pack_entries (tail_entries E t y) = pack_tail E t (lit y)"
  by (simp add: tail_entries_def net_entries_def pack_tail_def pack_net_def pack_number_32)

lemma length_tail [simp]: "length (tail_entries E t y) = 3 + net_count E"
  by (simp add: tail_entries_def net_entries_def net_count_def)

lemma pack_request_tree: "Suc (length args) = k \<Longrightarrow> pack_obj (request_tree E t args q) = request_msg E t k (pack_entries args) q"
  by (auto simp: request_tree_def request_msg_def pack_tail_entries eval_nat_numeral)

lemma pack_reply_tree: "Suc (length args) = k \<Longrightarrow> pack_obj (reply_tree E t args) = reply_msg E t k (pack_entries args)"
  by (auto simp: reply_tree_def reply_msg_def pack_tail_entries eval_nat_numeral)

definition peer_msg :: "net_env \<Rightarrow> message_type \<Rightarrow> tid \<Rightarrow> parsed_message" where
  "peer_msg E ty t = new_message\<lparr>pm_type := ty, pm_id := myid E, pm_network := network E, pm_tid := t, pm_ua := lit ''RNG1'', pm_want := -1\<rparr>"

lemma on_key_obj [simp]: "on_key f (key_obj k, v) s = f (lit k) v s"
  by (simp add: on_key_def key_obj_def)

lemma unpackTid_num [simp]: "unpackTid (num_obj (t :: uint32)) = Ret t"
proof -
  have "unpackTid (num_obj t) = as_uint32 (num_obj t)" by (simp add: unpackTid_def num_obj_def)
  then show ?thesis by simp
qed

lemma as_string_key [simp]: "as_string (key_obj k) = Ret (lit k)"
  by (simp add: as_string_def key_obj_def)

lemma top_tail:
  "fold_outcome (on_key top_field) (tail_entries E t y) (p, m)
     = Ret (p\<lparr>p_y := Some (key_obj y)\<rparr>, m\<lparr>pm_tid := t, pm_ua := lit ''RNG1'', pm_network := (if network E \<noteq> 0 then network E else pm_network m)\<rparr>)"
  by (simp add: tail_entries_def net_entries_def top_field_def)

lemma new_network: "pm_network new_message = 0"
  by (simp add: new_message_def)

definition read_args :: "parse_env \<Rightarrow> (msgpack_object \<times> msgpack_object) list \<Rightarrow> parsed_message \<Rightarrow> parsed_message outcome" where
  "read_args P args m = bind_outcome (fold_outcome (on_key (req_field P)) args (no_req, m)) (read_rest P)"

lemma parse_request:
  assumes "length (myid E) = HASH_LEN" and "query_type (lit q) = Ret ty" and "ty \<noteq> ValueData"
  shows "message_unpack P (request_tree E t args q) = read_args P args ((peer_msg E ty t)\<lparr>pm_want := 0\<rparr>)"
  using assms
  by (simp add: message_unpack_def request_tree_def top_tail top_field_def no_parsed_def message_kind_def read_request_def request_obj_def
      read_error_def req_field_def as_hash_def peer_msg_def read_args_def new_message_def)

lemma parse_reply:
  assumes "length (myid E) = HASH_LEN"
  shows "message_unpack P (reply_tree E t args) = read_args P args ((peer_msg E Reply t)\<lparr>pm_want := 0\<rparr>)"
  using assms
  by (simp add: message_unpack_def reply_tree_def top_tail top_field_def no_parsed_def message_kind_def read_request_def request_obj_def
      read_error_def req_field_def as_hash_def peer_msg_def read_args_def new_message_def)

definition understood :: "parse_env \<Rightarrow> bytes \<Rightarrow> parsed_message \<Rightarrow> bool" where
  "understood P bs m = (case pe_unpack P bs of None \<Rightarrow> False | Some obj \<Rightarrow> message_unpack P obj = Ret m)"

definition env_ok :: "net_env \<Rightarrow> bool" where
  "env_ok E \<longleftrightarrow> length (myid E) = HASH_LEN"

lemma tail_ok: "length y < 2 ^ 32 \<Longrightarrow> list_all (\<lambda>(k, v). obj_ok k \<and> obj_ok v) (tail_entries E t y)"
  by (simp add: tail_entries_def net_entries_def)

lemma net_count_le: "net_count E \<le> 1"
  by (simp add: net_count_def)

definition args_ok :: "(msgpack_object \<times> msgpack_object) list \<Rightarrow> bool" where
  "args_ok args \<longleftrightarrow> length args < 2 ^ 31 \<and> list_all (\<lambda>(k, v). obj_ok k \<and> obj_ok v) args"

lemma request_tree_ok:
  assumes "args_ok args" and "env_ok E" and "length q < 2 ^ 32"
  shows "obj_ok (request_tree E t args q)"
  using assms net_count_le [of E] by (simp add: request_tree_def args_ok_def env_ok_def tail_ok HASH_LEN_def)

lemma reply_tree_ok:
  assumes "args_ok args" and "env_ok E"
  shows "obj_ok (reply_tree E t args)"
  using assms net_count_le [of E] by (simp add: reply_tree_def args_ok_def env_ok_def tail_ok HASH_LEN_def)

lemma understood_request:
  assumes "msgpack_parser (pe_unpack P)" and "env_ok E" and "args_ok args" and "length q < 2 ^ 32"
    and "query_type (lit q) = Ret ty" and "ty \<noteq> ValueData" and "bs = pack_entries args" and "k = Suc (length args)"
    and "read_args P args ((peer_msg E ty t)\<lparr>pm_want := 0\<rparr>) = Ret m"
  shows "understood P (request_msg E t k bs q) m"
proof -
  have "pe_unpack P (pack_obj (request_tree E t args q)) = Some (request_tree E t args q)"
    using assms by (intro msgpack_parser.unpack_exact request_tree_ok)
  then show ?thesis
    using assms by (simp add: understood_def pack_request_tree [of args k] parse_request env_ok_def)
qed

lemma understood_reply:
  assumes "msgpack_parser (pe_unpack P)" and "env_ok E" and "args_ok args" and "bs = pack_entries args" and "k = Suc (length args)"
    and "read_args P args ((peer_msg E Reply t)\<lparr>pm_want := 0\<rparr>) = Ret m"
  shows "understood P (reply_msg E t k bs) m"
proof -
  have "pe_unpack P (pack_obj (reply_tree E t args)) = Some (reply_tree E t args)"
    using assms by (intro msgpack_parser.unpack_exact reply_tree_ok)
  then show ?thesis
    using assms by (simp add: understood_def pack_reply_tree [of args k] parse_reply env_ok_def)
qed

lemmas read_defs = read_args_def req_field_def read_rest_def read_addr_def read_values_def read_want_def no_req_def as_hash_def

definition want_entries :: "int \<Rightarrow> (msgpack_object \<times> msgpack_object) list" where
  "want_entries w = (if w > 0 then [(key_obj ''w'', ARRAY ((if bit w 0 then [num_obj (of_nat AF_INET :: uint32)] else [])
     @ (if bit w 1 then [num_obj (of_nat AF_INET6 :: uint32)] else [])))] else [])"

lemma pack_want_entries: "pack_want w = pack_entries (want_entries w)"
  by (simp add: pack_want_def want_entries_def want_count_def pack_number_32)

lemma want_small: "w \<le> 3 \<Longrightarrow> w > 0 \<Longrightarrow> w = 1 \<or> w = 2 \<or> w = (3::int)"
  by linarith

lemma read_want_entries:
  assumes "w \<le> 3"
  shows "read_want (p\<lparr>pr_want := (case want_entries w of [] \<Rightarrow> None | kv # _ \<Rightarrow> Some (snd kv))\<rparr>) m
    = Ret (m\<lparr>pm_want := (if w > 0 then w else -1)\<rparr>)"
  using assms want_small [of w]
  by (auto simp: read_want_def want_entries_def want_flag_def as_uint16_def convert_unsigned_def num_obj_def AF_INET_def AF_INET6_def)

lemma fold_outcome_append: "fold_outcome f (xs @ ys) s = bind_outcome (fold_outcome f xs s) (fold_outcome f ys)"
proof (induction xs arbitrary: s)
  case (Cons x xs)
  then show ?case by (cases "f x s") simp_all
qed simp

lemma fold_want:
  "pr_want p = None \<Longrightarrow> fold_outcome (on_key (req_field P)) (want_entries w) (p, m)
     = Ret (p\<lparr>pr_want := (case want_entries w of [] \<Rightarrow> None | kv # _ \<Rightarrow> Some (snd kv))\<rparr>, m)"
  by (simp add: want_entries_def req_field_def)

lemma read_want_none: "pr_want p = None \<Longrightarrow> read_want p m = Ret (m\<lparr>pm_want := -1\<rparr>)"
  by (simp add: read_want_def)

lemma want_ok: "list_all (\<lambda>(k, v). obj_ok k \<and> obj_ok v) (want_entries w)" "length (want_entries w) \<le> 1"
  by (auto simp: want_entries_def)

lemma ping_understood:
  assumes "msgpack_parser (pe_unpack P)" and "env_ok E"
  shows "understood P (ping_msg E t) (peer_msg E Ping t)"
proof -
  have "ping_msg E t = request_msg E t 1 [] ''ping''" by (simp add: ping_msg_def request_msg_def)
  then show ?thesis
    using assms by (auto intro!: understood_request [where args = "[]" and ty = Ping]
      simp: args_ok_def query_type_def read_defs peer_msg_def new_message_def)
qed

lemma find_understood:
  assumes "msgpack_parser (pe_unpack P)" and "env_ok E" and "length target = HASH_LEN" and "w \<le> 3"
  shows "understood P (find_msg E t target w) ((peer_msg E FindNode t)\<lparr>pm_target := target, pm_want := (if w > 0 then w else -1)\<rparr>)"
proof -
  let ?args = "(key_obj ''target'', BIN target) # want_entries w"
  have "find_msg E t target w = request_msg E t (Suc (length ?args)) (pack_entries ?args) ''find''"
    by (simp add: find_msg_def request_msg_def pack_want_entries) (simp add: want_entries_def)
  moreover have "read_args P ?args ((peer_msg E FindNode t)\<lparr>pm_want := 0\<rparr>)
      = Ret ((peer_msg E FindNode t)\<lparr>pm_target := target, pm_want := (if w > 0 then w else -1)\<rparr>)"
    using assms(3) read_want_entries [OF assms(4), of no_req]
    by (simp add: read_args_def req_field_def fold_want no_req_def read_rest_def read_addr_def read_values_def as_hash_def
        peer_msg_def new_message_def)
  ultimately show ?thesis
    using assms want_ok [of w]
    by (auto intro!: understood_request [where args = ?args and ty = FindNode] simp: args_ok_def query_type_def HASH_LEN_def)
qed

definition query_entries :: "query \<Rightarrow> (msgpack_object \<times> msgpack_object) list" where
  "query_entries q = (if has_query q then [(key_obj ''q'', query_obj q)] else [])"

definition sent_query :: "query \<Rightarrow> query" where
  "sent_query q = q\<lparr>q_none := False\<rparr>"

lemma pack_query_entries: "query_sendable q \<Longrightarrow> pack_query q = Ret (pack_entries (query_entries q))"
  by (simp add: pack_query_def query_entries_def query_sendable_def query_pack_obj)

lemma query_entries_ok:
  "query_sendable q \<Longrightarrow> list_all (\<lambda>(k, v). obj_ok k \<and> obj_ok v) (query_entries q)" "length (query_entries q) \<le> 1"
  by (simp_all add: query_entries_def query_obj_ok)

lemma fold_query:
  assumes "query_sendable q" and "pm_query m = \<lparr>q_select = [], q_where = [], q_none = False\<rparr>"
  shows "fold_outcome (on_key (req_field P)) (query_entries q) (p, m) = Ret (p, m\<lparr>pm_query := sent_query q\<rparr>)"
proof (cases "has_query q")
  case True
  then show ?thesis using assms query_unpack_obj [OF assms(1)] by (simp add: query_entries_def req_field_def sent_query_def)
next
  case False
  then have "sent_query q = pm_query m" using assms(2) by (simp add: has_query_def sent_query_def)
  then show ?thesis using False by (simp add: query_entries_def)
qed

lemma get_understood:
  assumes "msgpack_parser (pe_unpack P)" and "env_ok E" and "length h = HASH_LEN" and "w \<le> 3" and "query_sendable q"
  shows "\<exists>bs. get_msg E t h q w = Ret bs
    \<and> understood P bs ((peer_msg E GetValues t)\<lparr>pm_info_hash := h, pm_query := sent_query q, pm_want := (if w > 0 then w else -1)\<rparr>)"
proof -
  let ?args = "(key_obj ''h'', BIN h) # query_entries q @ want_entries w"
  have "get_msg E t h q w = Ret (request_msg E t (Suc (length ?args)) (pack_entries ?args) ''get'')"
    by (simp add: get_msg_def pack_query_entries [OF assms(5)] hash_arg_def pack_want_entries get_count_def)
      (simp add: query_entries_def want_entries_def)
  moreover have "read_args P ?args ((peer_msg E GetValues t)\<lparr>pm_want := 0\<rparr>)
      = Ret ((peer_msg E GetValues t)\<lparr>pm_info_hash := h, pm_query := sent_query q, pm_want := (if w > 0 then w else -1)\<rparr>)"
    using assms(3) read_want_entries [OF assms(4), of no_req]
    by (simp add: read_args_def req_field_def fold_outcome_append fold_query [OF assms(5)] fold_want no_req_def read_rest_def read_addr_def
        read_values_def as_hash_def peer_msg_def new_message_def)
  ultimately show ?thesis
    using assms want_ok [of w] query_entries_ok [of q]
    by (auto intro!: exI understood_request [where args = ?args and ty = GetValues] simp: args_ok_def query_type_def HASH_LEN_def)
qed

lemma pack_int_one: "pack_int 1 = pack_obj (POSITIVE_INTEGER 1)"
  by (simp add: pack_int_def)

lemma listen_understood:
  assumes "msgpack_parser (pe_unpack P)" and "env_ok E" and "length h = HASH_LEN" and "query_sendable q" and "length token < 2 ^ 32"
  shows "\<exists>bs. listen_msg E t h q token sid = Ret bs
    \<and> understood P bs ((peer_msg E Listen t)\<lparr>pm_version := 1, pm_info_hash := h, pm_token := token, pm_socket_id := sid, pm_query := sent_query q\<rparr>)"
proof -
  let ?args = "[(key_obj ''ve'', POSITIVE_INTEGER 1), (key_obj ''h'', BIN h), (key_obj ''token'', BIN token), (key_obj ''sid'', num_obj sid)]
    @ query_entries q"
  have "listen_msg E t h q token sid = Ret (request_msg E t (Suc (length ?args)) (pack_entries ?args) ''listen'')"
    by (simp add: listen_msg_def pack_query_entries [OF assms(4)] hash_arg_def packToken_def pack_int_one)
      (simp add: query_entries_def eval_nat_numeral)
  moreover have "read_args P ?args ((peer_msg E Listen t)\<lparr>pm_want := 0\<rparr>)
      = Ret ((peer_msg E Listen t)\<lparr>pm_version := 1, pm_info_hash := h, pm_token := token, pm_socket_id := sid, pm_query := sent_query q\<rparr>)"
    using assms(3)
    by (simp add: read_defs fold_query [OF assms(4)] as_int32_def convert_signed_def unpackBlob_def peer_msg_def new_message_def)
  ultimately show ?thesis
    using assms query_entries_ok [of q]
    by (auto intro!: exI understood_request [where args = ?args and ty = Listen] simp: args_ok_def query_type_def HASH_LEN_def)
qed

lemma refresh_understood:
  assumes "msgpack_parser (pe_unpack P)" and "env_ok E" and "length h = HASH_LEN" and "length token < 2 ^ 32"
  shows "understood P (refresh_msg E t h vid token) ((peer_msg E Refresh t)\<lparr>pm_info_hash := h, pm_value_id := vid, pm_token := token\<rparr>)"
  unfolding refresh_msg_def
  using assms
  by (intro understood_request [where args = "[(key_obj ''h'', BIN h), (key_obj ''vid'', num_obj vid), (key_obj ''token'', BIN token)]"
        and ty = Refresh])
    (auto simp: args_ok_def query_type_def HASH_LEN_def hash_arg_def read_defs unpackBlob_def peer_msg_def new_message_def)

subsection \<open>Values\<close>

definition in_one_packet :: "dht_value list \<Rightarrow> bool" where
  "in_one_packet st \<longleftrightarrow> length st < 50 \<and> sum_list (map length (serializeValues st)) < MAX_PACKET_VALUE_SIZE"

definition values_tree :: "dht_value list \<Rightarrow> msgpack_object" where
  "values_tree st = ARRAY (if in_one_packet st then map value_obj st
     else map (\<lambda>b. POSITIVE_INTEGER (of_nat (length b))) (serializeValues st))"

text \<open>The values a peer reads: values that have an owner and no signature are skipped.\<close>

fun recv_values :: "nat \<Rightarrow> dht_value list \<Rightarrow> dht_value list" where
  "recv_values r [] = []"
| "recv_values r (v # vs) = (if \<not> isEncrypted v \<and> has_owner v \<and> v_signature v = [] then recv_values r vs
     else wire_form r v # recv_values (Suc r) vs)"

definition header_parts :: "bytes list \<Rightarrow> value_parts" where
  "header_parts svals = map (\<lambda>(i, b). (of_nat i, of_nat (length b), [])) (enumerate 0 svals)"

definition with_values :: "parse_env \<Rightarrow> dht_value list \<Rightarrow> parsed_message \<Rightarrow> parsed_message" where
  "with_values P st m = (if in_one_packet st then m\<lparr>pm_values := recv_values (pe_ref P) st\<rparr>
     else m\<lparr>pm_value_parts := header_parts (serializeValues st)\<rparr>)"

definition values_ok :: "parse_env \<Rightarrow> dht_value list \<Rightarrow> bool" where
  "values_ok P st \<longleftrightarrow> length st < 2 ^ 31 \<and> list_all (\<lambda>v. value_sized v \<and> key_ok (pe_import P) v) st
     \<and> list_all (\<lambda>b. length b \<le> MAX_VALUE_SIZE + 32) (serializeValues st)"

lemma getPacked_eq: "getPacked = msgpack_pack"
  by (simp add: fun_eq_iff getPacked_def)

lemma pack_values_tree: "fst (packValueHeader st) = pack_obj (key_obj ''values'') @ pack_obj (values_tree st)"
  by (simp add: packValueHeader_def values_tree_def in_one_packet_def serializeValues_def Let_def getPacked_eq comp_def
      pack_value_obj del: pack_obj_MAP)

lemma snd_packValueHeader: "snd (packValueHeader st) = (if in_one_packet st then [] else serializeValues st)"
  by (simp add: packValueHeader_def in_one_packet_def serializeValues_def Let_def)

lemma values_tree_ok: "values_ok P st \<Longrightarrow> obj_ok (values_tree st)"
  by (auto simp: values_ok_def values_tree_def list_all_iff value_obj_ok serializeValues_def)

lemma read_value_obj:
  assumes "value_sized v" and "key_ok (pe_import P) v"
  shows "read_value P (i, value_obj v) m = Ret (m\<lparr>pm_values := pm_values m @ recv_values (pe_ref P + length (pm_values m)) [v]\<rparr>)"
proof -
  have "read_value P (i, value_obj v) m = (case msgpack_unpack (pe_import P) (pe_ref P + length (pm_values m)) (value_obj v) of
       Ret v \<Rightarrow> Ret (m\<lparr>pm_values := pm_values m @ [v]\<rparr>) | Throw \<Rightarrow> Ret m | Terminate \<Rightarrow> Terminate | Undef \<Rightarrow> Undef)"
    by (simp add: read_value_def value_obj_def)
  then show ?thesis using unpack_value_obj [OF assms(2)] assms(1) by (simp add: value_sized_def)
qed

lemma read_inline:
  assumes "list_all (\<lambda>v. value_sized v \<and> key_ok (pe_import P) v) st"
  shows "fold_outcome (read_value P) (enumerate i (map value_obj st)) m
    = Ret (m\<lparr>pm_values := pm_values m @ recv_values (pe_ref P + length (pm_values m)) st\<rparr>)"
  using assms by (induction st arbitrary: i m) (simp_all add: read_value_obj)

lemma map_emplace_last:
  assumes "\<And>x. x \<in> fst ` set m \<Longrightarrow> x < k"
  shows "snd (map_emplace k v m) = m @ [(k, v)]"
proof -
  have "map_put k v m = m @ [(k, v)]" using assms by (induction m) force+
  moreover have "map_of m k = None" using assms by (fastforce simp: map_of_eq_None_iff)
  ultimately show ?thesis by (simp add: map_emplace_def)
qed

lemma of_nat_less: "i < j \<Longrightarrow> j < 2 ^ 32 \<Longrightarrow> (of_nat i :: uint32) < of_nat j"
  by (simp add: word_less_nat_alt unat_of_nat)

lemma header_parts_snoc: "header_parts (svals @ [b]) = header_parts svals @ [(of_nat (length svals), of_nat (length b), [])]"
  by (simp add: header_parts_def enumerate_append_eq)

lemma read_sizes:
  assumes "length svals < 2 ^ 31" and "list_all (\<lambda>b. length b \<le> MAX_VALUE_SIZE + 32) svals" and "pm_value_parts m = []"
  shows "fold_outcome (read_value P) (enumerate 0 (map (\<lambda>b. POSITIVE_INTEGER (of_nat (length b))) svals)) m
    = Ret (m\<lparr>pm_value_parts := header_parts svals\<rparr>)"
  using assms
proof (induction svals rule: rev_induct)
  case Nil
  then show ?case by (simp add: header_parts_def)
next
  case (snoc b svals)
  have len: "unat (of_nat (length b) :: uint64) = length b" and small: "length b \<le> MAX_VALUE_SIZE + 32"
    using snoc.prems by (simp_all add: unat_of_nat MAX_VALUE_SIZE_def)
  have "x < of_nat (length svals)" if "x \<in> fst ` set (header_parts svals)" for x :: uint32
    using that snoc.prems(1) by (auto simp: header_parts_def in_set_enumerate_eq intro!: of_nat_less)
  then have "snd (map_emplace (of_nat (length svals)) (ucast (of_nat (length b) :: uint64) :: uint32, []) (header_parts svals))
      = header_parts svals @ [(of_nat (length svals), ucast (of_nat (length b) :: uint64), [])]"
    by (rule map_emplace_last)
  moreover have "(ucast (of_nat (length b) :: uint64) :: uint32) = of_nat (length b)"
    using small by (simp add: word_unat_eq_iff unsigned_ucast_eq unat_of_nat take_bit_eq_mod MAX_VALUE_SIZE_def)
  ultimately show ?case
    using snoc small len by (simp add: fold_outcome_append enumerate_append_eq read_value_def header_parts_snoc)
qed

lemma read_values_tree:
  assumes "values_ok P st" and "pr_values p = Some (values_tree st)" and "pm_value_parts m = []" and "pm_values m = []"
  shows "read_values P p m = Ret (with_values P st m)"
  using assms read_inline [of P st 0 m] read_sizes [of "serializeValues st" m P]
  by (simp add: read_values_def values_tree_def with_values_def values_ok_def serializeValues_def)

lemma put_understood:
  assumes "msgpack_parser (pe_unpack P)" and "env_ok E" and "length h = HASH_LEN" and "values_ok P st" and "length token < 2 ^ 32"
    and "eng_now e \<le> created"
  shows "\<exists>bs. put_msg E t h (fst (packValueHeader st)) created token e = Ret bs
    \<and> understood P bs (with_values P st ((peer_msg E AnnounceValue t)\<lparr>pm_info_hash := h, pm_token := token\<rparr>))"
proof -
  let ?args = "[(key_obj ''h'', BIN h), (key_obj ''values'', values_tree st), (key_obj ''token'', BIN token)]"
  have "put_msg E t h (fst (packValueHeader st)) created token e = Ret (request_msg E t (Suc (length ?args)) (pack_entries ?args) ''put'')"
    using assms(6) by (simp add: put_msg_def created_arg_def hash_arg_def pack_values_tree eval_nat_numeral)
  moreover have "read_args P ?args ((peer_msg E AnnounceValue t)\<lparr>pm_want := 0\<rparr>)
      = Ret (with_values P st ((peer_msg E AnnounceValue t)\<lparr>pm_info_hash := h, pm_token := token\<rparr>))"
    using assms(3,4)
    by (simp add: read_args_def req_field_def read_rest_def read_addr_def no_req_def as_hash_def read_values_tree read_want_def
        unpackBlob_def peer_msg_def new_message_def with_values_def)
  ultimately show ?thesis
    using assms values_tree_ok [OF assms(4)]
    by (auto intro!: exI understood_request [where args = ?args and ty = AnnounceValue] simp: args_ok_def query_type_def HASH_LEN_def)
qed

lemma update_understood:
  assumes "msgpack_parser (pe_unpack P)" and "env_ok E" and "length h = HASH_LEN" and "values_ok P st" and "length token < 2 ^ 32"
    and "eng_now e \<le> created"
  shows "\<exists>bs. update_msg E t h sid (fst (packValueHeader st)) created token e = Ret bs
    \<and> understood P bs (with_values P st ((peer_msg E UpdateValue t)\<lparr>pm_version := 1, pm_info_hash := h, pm_socket_id := sid, pm_token := token\<rparr>))"
proof -
  let ?args = "[(key_obj ''ve'', POSITIVE_INTEGER 1), (key_obj ''h'', BIN h), (key_obj ''sid'', num_obj sid),
    (key_obj ''values'', values_tree st), (key_obj ''token'', BIN token)]"
  have "update_msg E t h sid (fst (packValueHeader st)) created token e
      = Ret (request_msg E t (Suc (length ?args)) (pack_entries ?args) ''update'')"
    using assms(6) by (simp add: update_msg_def created_arg_def hash_arg_def pack_values_tree pack_int_one eval_nat_numeral)
  moreover have "read_args P ?args ((peer_msg E UpdateValue t)\<lparr>pm_want := 0\<rparr>)
      = Ret (with_values P st ((peer_msg E UpdateValue t)\<lparr>pm_version := 1, pm_info_hash := h, pm_socket_id := sid, pm_token := token\<rparr>))"
    using assms(3,4)
    by (simp add: read_args_def req_field_def read_rest_def read_addr_def no_req_def as_hash_def read_values_tree read_want_def
        unpackBlob_def as_int32_def convert_signed_def peer_msg_def new_message_def with_values_def)
  ultimately show ?thesis
    using assms values_tree_ok [OF assms(4)]
    by (auto intro!: exI understood_request [where args = ?args and ty = UpdateValue] simp: args_ok_def query_type_def HASH_LEN_def)
qed

subsection \<open>Answers\<close>

text \<open>The address a peer reads from an answer: the one the answer was sent to, without its port.\<close>

definition reported :: "sock_addr \<Rightarrow> sock_addr" where
  "reported a = (if getFamily a = AF_INET then blit (setFamily AF_INET []) 4 (ip4 a)
     else if getFamily a = AF_INET6 then blit (setFamily AF_INET6 []) 8 (ip6 a) else [])"

lemma addr_bytes_ok: "length (addr_bytes a) \<le> 16"
  by (simp add: addr_bytes_def min_le_iff_disj)

lemma blank_addr:
  "blit (setFamily AF_INET []) 2 [0, 0] = setFamily AF_INET []" "blit (setFamily AF_INET6 []) 2 [0, 0] = setFamily AF_INET6 []"
  by code_simp+

lemma read_addr_bytes:
  assumes "is_addr a" and "pm_addr m = []"
  shows "read_addr (Some (BIN (addr_bytes a))) m = Ret (m\<lparr>pm_addr := reported a\<rparr>)"
proof -
  consider "a = []" | "getFamily a = AF_INET" "length a = 16" | "getFamily a = AF_INET6" "length a = 28"
    using assms(1) by (auto simp: is_addr_def)
  then show ?thesis
  proof cases
    case 1
    then show ?thesis using assms(2)
      by (simp add: read_addr_def addr_bytes_def reported_def getFamily_def family_defs)
  next
    case 2
    then show ?thesis using assms(2)
      by (simp add: read_addr_def addr_bytes_def reported_def ip4_def blank_addr)
  next
    case 3
    moreover have "AF_INET6 \<noteq> AF_INET" by (simp add: family_defs)
    ultimately have "addr_bytes a = ip6 a" and "length (ip6 a) = 16"
      and "reported a = blit (setFamily AF_INET6 []) 8 (ip6 a)"
      by (simp_all add: addr_bytes_def reported_def ip6_def)
    then show ?thesis using assms(2) by (simp add: read_addr_def blank_addr)
  qed
qed

definition addr_entry :: "sock_addr \<Rightarrow> msgpack_object \<times> msgpack_object" where
  "addr_entry a = (key_obj ''sa'', BIN (addr_bytes a))"

lemma insertAddr_entry: "insertAddr a = pack_entries [addr_entry a]"
  by (simp add: insertAddr_def addr_entry_def)

lemma pong_understood:
  assumes "msgpack_parser (pe_unpack P)" and "env_ok E" and "is_addr a"
  shows "understood P (reply_msg E t 2 (insertAddr a)) ((peer_msg E Reply t)\<lparr>pm_addr := reported a\<rparr>)"
  using assms addr_bytes_ok [of a] read_addr_bytes [OF assms(3)]
  by (intro understood_reply [where args = "[addr_entry a]"])
    (auto simp: args_ok_def insertAddr_entry addr_entry_def read_args_def req_field_def read_rest_def read_values_def no_req_def
      read_want_def peer_msg_def new_message_def)

lemma announced_understood:
  assumes "msgpack_parser (pe_unpack P)" and "env_ok E" and "is_addr a"
  shows "understood P (reply_msg E t 3 (pack_str (lit ''vid'') @ pack_number vid @ insertAddr a))
    ((peer_msg E Reply t)\<lparr>pm_value_id := vid, pm_addr := reported a\<rparr>)"
  using assms addr_bytes_ok [of a] read_addr_bytes [OF assms(3)]
  by (intro understood_reply [where args = "[(key_obj ''vid'', num_obj vid), addr_entry a]"])
    (auto simp: args_ok_def insertAddr_entry addr_entry_def read_args_def req_field_def read_rest_def read_values_def no_req_def
      read_want_def peer_msg_def new_message_def)

definition nodes_entries :: "sock_addr \<Rightarrow> bytes \<Rightarrow> bytes \<Rightarrow> bytes \<Rightarrow> (msgpack_object \<times> msgpack_object) list" where
  "nodes_entries a nodes nodes6 token = addr_entry a # (if nodes \<noteq> [] then [(key_obj ''n4'', BIN nodes)] else [])
     @ (if nodes6 \<noteq> [] then [(key_obj ''n6'', BIN nodes6)] else []) @ (if token \<noteq> [] then [(key_obj ''token'', BIN token)] else [])"

definition values_entries :: "dht_value list \<Rightarrow> (msgpack_object \<times> msgpack_object) list" where
  "values_entries st = (if st \<noteq> [] then [(key_obj ''values'', values_tree st)] else [])"

definition nodes_msg :: "net_env \<Rightarrow> sock_addr \<Rightarrow> tid \<Rightarrow> bytes \<Rightarrow> bytes \<Rightarrow> dht_value list \<Rightarrow> bytes \<Rightarrow> bytes" where
  "nodes_msg E a t nodes nodes6 st token = reply_msg E t (nodes_count nodes nodes6 token st)
     (nodes_args a nodes nodes6 token @ (if st = [] then [] else fst (packValueHeader st)))"

lemma sendNodesValues_msg:
  "q_select q = [] \<Longrightarrow> sendNodesValues E a t nodes nodes6 st q token e =
     (Ret (), let e = snd (send E a (nodes_msg E a t nodes nodes6 st token) False e)
       in if st = [] \<or> in_one_packet st then e else sendValueParts E t (serializeValues st) a e)"
  using snd_packValueHeader [of st]
  by (cases "packValueHeader st") (auto simp: sendNodesValues_def nodes_msg_def Let_def serializeValues_def)

lemma fold_nodes:
  assumes "pm_nodes4_raw m = []" and "pm_nodes6_raw m = []" and "pm_token m = []"
  shows "fold_outcome (on_key (req_field P)) (nodes_entries a nodes nodes6 token) (p, m)
    = Ret (p\<lparr>pr_sa := Some (BIN (addr_bytes a))\<rparr>, m\<lparr>pm_nodes4_raw := nodes, pm_nodes6_raw := nodes6, pm_token := token\<rparr>)"
  using assms by (simp add: nodes_entries_def addr_entry_def req_field_def unpackBlob_def)

lemma nodes_understood:
  assumes "msgpack_parser (pe_unpack P)" and "env_ok E" and "is_addr a" and "values_ok P st"
    and "length nodes < 2 ^ 32" "length nodes6 < 2 ^ 32" "length token < 2 ^ 32"
  shows "understood P (nodes_msg E a t nodes nodes6 st token)
    (with_values P st ((peer_msg E Reply t)\<lparr>pm_addr := reported a, pm_nodes4_raw := nodes, pm_nodes6_raw := nodes6, pm_token := token\<rparr>))"
proof -
  let ?args = "nodes_entries a nodes nodes6 token @ values_entries st"
  have none: "with_values P [] m = m" if "pm_values m = []" for m
    using that by (simp add: with_values_def in_one_packet_def serializeValues_def MAX_PACKET_VALUE_SIZE_def)
  have args: "args_ok ?args"
    using assms addr_bytes_ok [of a] values_tree_ok [OF assms(4)]
    by (simp add: args_ok_def nodes_entries_def values_entries_def addr_entry_def)
  have bytes: "nodes_args a nodes nodes6 token @ (if st = [] then [] else fst (packValueHeader st)) = pack_entries ?args"
    by (simp add: nodes_args_def nodes_entries_def values_entries_def insertAddr_entry addr_entry_def pack_values_tree packToken_def)
  have "read_args P ?args ((peer_msg E Reply t)\<lparr>pm_want := 0\<rparr>)
      = Ret (with_values P st ((peer_msg E Reply t)\<lparr>pm_addr := reported a, pm_nodes4_raw := nodes, pm_nodes6_raw := nodes6, pm_token := token\<rparr>))"
  proof (cases "st = []")
    case True
    then show ?thesis
      by (simp add: read_args_def fold_outcome_append fold_nodes values_entries_def no_req_def read_rest_def read_addr_bytes [OF assms(3)]
          read_values_def read_want_def peer_msg_def new_message_def none)
  next
    case False
    then show ?thesis using assms(4)
      by (simp add: read_args_def fold_outcome_append fold_nodes values_entries_def no_req_def read_rest_def read_addr_bytes [OF assms(3)]
          req_field_def read_values_tree read_want_def peer_msg_def new_message_def with_values_def)
  qed
  with args show ?thesis
    unfolding nodes_msg_def using assms(1,2) bytes
    by (intro understood_reply [where args = ?args])
      (auto simp: nodes_count_def nodes_entries_def values_entries_def)
qed

definition error_tree :: "net_env \<Rightarrow> tid \<Rightarrow> 16 word \<Rightarrow> bytes \<Rightarrow> bool \<Rightarrow> msgpack_object" where
  "error_tree E t code message include_id = MAP ((key_obj ''e'', ARRAY [num_obj code, STRING message])
     # (if include_id then [(key_obj ''r'', MAP [(key_obj ''id'', BIN (myid E))])] else []) @ tail_entries E t ''e'')"

lemma pack_error_tree: "pack_obj (error_tree E t code message i) = error_msg E t code message i"
  by (simp add: error_tree_def error_msg_def pack_tail_entries eval_nat_numeral)

lemma error_tree_ok: "env_ok E \<Longrightarrow> length message < 2 ^ 32 \<Longrightarrow> obj_ok (error_tree E t code message i)"
  using net_count_le [of E] by (simp add: error_tree_def env_ok_def tail_ok HASH_LEN_def)

lemma error_understood:
  assumes "msgpack_parser (pe_unpack P)" and "env_ok E" and "length message < 2 ^ 32"
  shows "understood P (error_msg E t code message True) ((peer_msg E Error t)\<lparr>pm_error_code := code\<rparr>)"
proof -
  have "pe_unpack P (error_msg E t code message True) = Some (error_tree E t code message True)"
    using msgpack_parser.unpack_exact [OF assms(1) error_tree_ok [OF assms(2,3), of t code True]] by (simp add: pack_error_tree)
  moreover have "message_unpack P (error_tree E t code message True) = Ret ((peer_msg E Error t)\<lparr>pm_error_code := code\<rparr>)"
    using assms(2)
    by (simp add: error_tree_def message_unpack_def top_tail top_field_def no_parsed_def message_kind_def read_request_def request_obj_def
      read_error_def read_defs env_ok_def peer_msg_def new_message_def)
  ultimately show ?thesis by (simp add: understood_def)
qed

text \<open>An error without the identifier of the sender is read as if its array were a map.\<close>

lemma anonymous_error_undefined:
  "message_unpack P (error_tree E t code message False) = Undef"
  by (simp add: error_tree_def message_unpack_def top_tail top_field_def no_parsed_def message_kind_def read_request_def request_obj_def
      read_error_def)

end
