(* ===== verification/Engine_Receive.thy ===== *)
theory Engine_Receive
  imports Engine_Messages Node_Cache Rate_Limiter
begin

text \<open>
  The receiving side of the network engine (\<open>network_engine.cpp\<close>): filtering and rate limits of datagrams, values that
  arrive in parts, replies to requests, data for open sockets, and requests of other nodes, which are answered by the owner
  of the engine through the callbacks of its constructor. The owner is a record of functions on the engine and a state
  of its own; what it has to promise is the contract \<open>engine_owner\<close>.
\<close>

section \<open>How a callback ends\<close>

text \<open>
  A callback answers, throws a protocol exception with a code and a message, throws one of the other exceptions, runs
  into undefined behaviour or never comes back.
\<close>

datatype 'a answer = Answer 'a | Protocol "16 word" bytes | Overflow | Exception | Crash | Hang

fun bind_answer :: "'a answer \<times> 's \<Rightarrow> ('a \<Rightarrow> 's \<Rightarrow> 'b answer \<times> 's) \<Rightarrow> 'b answer \<times> 's" where
  "bind_answer (Answer x, s) f = f x s"
| "bind_answer (Protocol c m, s) f = (Protocol c m, s)"
| "bind_answer (Overflow, s) f = (Overflow, s)"
| "bind_answer (Exception, s) f = (Exception, s)"
| "bind_answer (Crash, s) f = (Crash, s)"
| "bind_answer (Hang, s) f = (Hang, s)"

fun answer_of :: "'a outcome \<Rightarrow> 'a answer" where
  "answer_of (Ret x) = Answer x"
| "answer_of Throw = Exception"
| "answer_of Terminate = Crash"
| "answer_of Undef = Crash"

section \<open>State\<close>

record request_answer =
  ra_ntoken :: bytes
  ra_vid :: value_id
  ra_values :: "dht_value list"
  ra_refreshed :: "value_id list"
  ra_expired :: "value_id list"
  ra_fields :: "field_index list"
  ra_nodes4 :: "nref list"
  ra_nodes6 :: "nref list"

definition no_answer :: request_answer where
  "no_answer = \<lparr>ra_ntoken = [], ra_vid = 0, ra_values = [], ra_refreshed = [], ra_expired = [], ra_fields = [],
     ra_nodes4 = [], ra_nodes6 = []\<rparr>"

definition answer_of_message :: "parsed_message \<Rightarrow> request_answer" where
  "answer_of_message m = \<lparr>ra_ntoken = pm_token m, ra_vid = 0, ra_values = pm_values m, ra_refreshed = pm_refreshed m,
     ra_expired = pm_expired m, ra_fields = pm_fields m, ra_nodes4 = pm_nodes4 m, ra_nodes6 = pm_nodes6 m\<rparr>"

record partial_message =
  pt_from :: sock_addr
  pt_start :: time_point
  pt_last :: time_point
  pt_msg :: parsed_message

text \<open>Replies handed to the callback of a request and messages handed to an open socket.\<close>

datatype delivery = ReplyTo rref parsed_message | SocketData nat nref parsed_message

text \<open>
  \<open>ns_alive\<close> says which nodes somebody holds; it is set from outside before an operation, and the nodes an operation gets
  from the cache are held until it ends. \<open>ns_draws\<close> counts the random numbers used.
\<close>

record 'd net_state =
  ns_engine :: engine
  ns_dht :: 'd
  ns_next_nd :: nref
  ns_alive :: "nref \<Rightarrow> bool"
  ns_cache :: node_cache
  ns_ip_limiters :: "((nat \<times> bytes) \<times> rate_limiter) list"
  ns_limiter :: rate_limiter
  ns_maintenance :: int
  ns_partial :: "(tid \<times> partial_message) list"
  ns_in_stats :: message_stats
  ns_blacklist :: "sock_addr set"
  ns_rx_jobs :: "(time_point \<times> tid) list"
  ns_delivered :: "delivery list"
  ns_draws :: nat

text \<open>
  The surroundings of the engine: the sending side's, what reading a message needs, the limit per peer of the
  configuration, the random numbers, and what the error callback of a request answers.
\<close>

record recv_env =
  rv_net :: net_env
  rv_parse :: parse_env
  rv_max_peer_req :: int
  rv_tid :: "nat \<Rightarrow> tid"
  rv_place :: "nat \<Rightarrow> hash"
  rv_handled :: "rref \<Rightarrow> bool"

type_synonym ('d, 'a) owner_call = "engine \<times> 'd \<Rightarrow> 'a answer \<times> engine \<times> 'd"

record 'd owner =
  h_onError :: "rref \<Rightarrow> 16 word \<Rightarrow> ('d, unit) owner_call"
  h_onNewNode :: "nref \<Rightarrow> int \<Rightarrow> ('d, unit) owner_call"
  h_onReportedAddr :: "hash \<Rightarrow> sock_addr \<Rightarrow> ('d, unit) owner_call"
  h_onPing :: "nref \<Rightarrow> ('d, request_answer) owner_call"
  h_onFindNode :: "nref \<Rightarrow> hash \<Rightarrow> int \<Rightarrow> ('d, request_answer) owner_call"
  h_onGetValues :: "nref \<Rightarrow> hash \<Rightarrow> int \<Rightarrow> query \<Rightarrow> ('d, request_answer) owner_call"
  h_onListen :: "nref \<Rightarrow> hash \<Rightarrow> bytes \<Rightarrow> tid \<Rightarrow> query \<Rightarrow> int \<Rightarrow> ('d, request_answer) owner_call"
  h_onAnnounce :: "nref \<Rightarrow> hash \<Rightarrow> bytes \<Rightarrow> dht_value list \<Rightarrow> time_point \<Rightarrow> ('d, request_answer) owner_call"
  h_onRefresh :: "nref \<Rightarrow> hash \<Rightarrow> bytes \<Rightarrow> value_id \<Rightarrow> ('d, request_answer) owner_call"

definition call_owner :: "('d, 'a) owner_call \<Rightarrow> 'd net_state \<Rightarrow> 'a answer \<times> 'd net_state" where
  "call_owner f s = (case f (ns_engine s, ns_dht s) of (a, e, d) \<Rightarrow> (a, s\<lparr>ns_engine := e, ns_dht := d\<rparr>))"

definition on_engine :: "(engine \<Rightarrow> engine) \<Rightarrow> 'd net_state \<Rightarrow> 'd net_state" where
  "on_engine f s = s\<lparr>ns_engine := f (ns_engine s)\<rparr>"

definition count_in :: "(message_stats \<Rightarrow> message_stats) \<Rightarrow> 'd net_state \<Rightarrow> 'd net_state" where
  "count_in f s = s\<lparr>ns_in_stats := f (ns_in_stats s)\<rparr>"

definition deliver :: "delivery \<Rightarrow> 'd net_state \<Rightarrow> 'd net_state" where
  "deliver x s = s\<lparr>ns_delivered := ns_delivered s @ [x]\<rparr>"

definition net_now :: "'d net_state \<Rightarrow> time_point" where
  "net_now s = eng_now (ns_engine s)"

section \<open>Limits and filters\<close>

definition RX_MAX_PACKET_TIME :: int where
  "RX_MAX_PACKET_TIME = seconds 10"

definition RX_TIMEOUT :: int where
  "RX_TIMEOUT = seconds 3"

definition maintain_limiters :: "time_point \<Rightarrow> ((nat \<times> bytes) \<times> rate_limiter) list \<Rightarrow> ((nat \<times> bytes) \<times> rate_limiter) list" where
  "maintain_limiters now m = filter (\<lambda>(k, r). rl_records r \<noteq> []) (map (\<lambda>(k, r). (k, snd (rl_maintain now r))) m)"

definition limit_peer :: "int \<Rightarrow> sock_addr \<Rightarrow> 'd net_state \<Rightarrow> bool \<times> 'd net_state" where
  "limit_peer mx addr s =
     (if mx < 0 then (True, s)
      else
        let k = quota_key addr;
            r = (case map_of (ns_ip_limiters s) k of Some r \<Rightarrow> r | None \<Rightarrow> new_limiter (of_int mx) (seconds 1));
            (ok, r) = rl_limit (net_now s) r
        in (ok, s\<lparr>ns_ip_limiters := map_put k r (ns_ip_limiters s)\<rparr>))"

definition rateLimit :: "int \<Rightarrow> sock_addr \<Rightarrow> 'd net_state \<Rightarrow> bool \<times> 'd net_state" where
  "rateLimit mx addr s =
     (let s = (if ns_maintenance s = mx
               then s\<lparr>ns_ip_limiters := maintain_limiters (net_now s) (ns_ip_limiters s), ns_maintenance := 0\<rparr>
               else s\<lparr>ns_maintenance := ns_maintenance s + 1\<rparr>);
          (ok, s) = limit_peer mx addr s
      in if \<not> ok then (False, s)
         else let (ok, r) = rl_limit (net_now s) (ns_limiter s) in (ok, s\<lparr>ns_limiter := r\<rparr>))"

definition isMartian :: "sock_addr \<Rightarrow> bool" where
  "isMartian addr =
     (if getPort addr = 0 then True
      else if getFamily addr = AF_INET then ip4 addr ! 0 = 0 \<or> ip4 addr ! 0 AND 0xE0 = 0xE0
      else if getFamily addr = AF_INET6 then
        if length addr < 28 then True
        else ip6 addr ! 0 = 0xFF \<or> ip6 addr ! 0 = 0xFE \<and> ip6 addr ! 1 AND 0xC0 = 0x80
          \<or> ip6 addr = replicate 16 0 \<or> take 12 (ip6 addr) = MAPPED_IPV4_PREFIX
      else True)"

definition blacklistNode :: "nref \<Rightarrow> 'd net_state \<Rightarrow> 'd net_state" where
  "blacklistNode n s = (let s = on_engine (node_setExpired n) s
     in s\<lparr>ns_blacklist := insert (n_addr (nd (ns_engine s) n)) (ns_blacklist s)\<rparr>)"

definition isNodeBlacklisted :: "sock_addr \<Rightarrow> 'd net_state \<Rightarrow> bool" where
  "isNodeBlacklisted addr s = (addr \<in> ns_blacklist s)"

section \<open>Nodes of a message\<close>

text \<open>\<open>cache.getNode\<close> on the objects of the engine.\<close>

definition node_heap_of :: "'d net_state \<Rightarrow> node_heap" where
  "node_heap_of s = \<lparr>nd = nd (ns_engine s), rq = rq (ns_engine s), next_rq = next_rq (ns_engine s), calls = calls (ns_engine s),
     next_nd = ns_next_nd s\<rparr>"

definition getNodeCached :: "recv_env \<Rightarrow> hash \<Rightarrow> sock_addr \<Rightarrow> bool \<Rightarrow> bool \<Rightarrow> 'd net_state \<Rightarrow> nref answer \<times> 'd net_state" where
  "getNodeCached R nid addr confirm client s =
     (case nc_getNode (ns_alive s) (rv_tid R (ns_draws s)) (rv_place R (ns_draws s)) nid addr (net_now s) confirm client
             (ns_cache s) (node_heap_of s) of
        Ret (n, c, h) \<Rightarrow> (Answer n, s\<lparr>ns_engine := (ns_engine s)\<lparr>nd := nd h\<rparr>, ns_next_nd := next_nd h, ns_cache := c,
          ns_alive := (ns_alive s)(n := True), ns_draws := ns_draws s + 1\<rparr>)
      | _ \<Rightarrow> (Crash, s))"

definition NODE4_INFO_BUF_LEN :: nat where
  "NODE4_INFO_BUF_LEN = HASH_LEN + 4 + 2"

definition NODE6_INFO_BUF_LEN :: nat where
  "NODE6_INFO_BUF_LEN = HASH_LEN + 16 + 2"

definition deserializeIPv4 :: "bytes \<Rightarrow> sock_addr" where
  "deserializeIPv4 ni = blit (blit (setFamily AF_INET []) 4 (take 4 ni)) 2 (take 2 (drop 4 ni))"

definition deserializeIPv6 :: "bytes \<Rightarrow> sock_addr" where
  "deserializeIPv6 ni = blit (blit (setFamily AF_INET6 []) 8 (take 16 ni)) 2 (take 2 (drop 16 ni))"

text \<open>A node that reports itself under the loopback address is reachable where the message came from.\<close>

definition node_address :: "nat \<Rightarrow> sock_addr \<Rightarrow> bytes \<Rightarrow> sock_addr" where
  "node_address af from ni =
     (let addr = (if af = AF_INET then deserializeIPv4 ni else deserializeIPv6 ni)
      in if isLoopback addr \<and> getFamily from = af then setPort (getPort addr) from else addr)"

fun deserialize_nodes :: "recv_env \<Rightarrow> 'd owner \<Rightarrow> nat \<Rightarrow> sock_addr \<Rightarrow> bytes list \<Rightarrow> 'd net_state \<Rightarrow> nref list answer \<times> 'd net_state" where
  "deserialize_nodes R H af from [] s = (Answer [], s)"
| "deserialize_nodes R H af from (ni # nis) s =
     (let nid = take HASH_LEN ni; addr = node_address af from (drop HASH_LEN ni) in
      if nid = myid (rv_net R) \<or> isMartian addr \<or> isNodeBlacklisted addr s then deserialize_nodes R H af from nis s
      else bind_answer (getNodeCached R nid addr False False s) (\<lambda>n s.
           bind_answer (call_owner (h_onNewNode H n 0) s) (\<lambda>_ s.
           bind_answer (deserialize_nodes R H af from nis s) (\<lambda>ns s. (Answer (n # ns), s)))))"

definition WRONG_NODE_INFO_BUF_LEN :: "16 word" where
  "WRONG_NODE_INFO_BUF_LEN = 423"

definition deserializeNodes :: "recv_env \<Rightarrow> 'd owner \<Rightarrow> parsed_message \<Rightarrow> sock_addr \<Rightarrow> 'd net_state \<Rightarrow> parsed_message answer \<times> 'd net_state" where
  "deserializeNodes R H m from s =
     (if length (pm_nodes4_raw m) mod NODE4_INFO_BUF_LEN \<noteq> 0 \<or> length (pm_nodes6_raw m) mod NODE6_INFO_BUF_LEN \<noteq> 0
      then (Protocol WRONG_NODE_INFO_BUF_LEN [], s)
      else bind_answer (deserialize_nodes R H AF_INET from (chunks NODE4_INFO_BUF_LEN (pm_nodes4_raw m)) s) (\<lambda>ns4 s.
           bind_answer (deserialize_nodes R H AF_INET6 from (chunks NODE6_INFO_BUF_LEN (pm_nodes6_raw m)) s) (\<lambda>ns6 s.
             (Answer (m\<lparr>pm_nodes4 := pm_nodes4 m @ ns4, pm_nodes6 := pm_nodes6 m @ ns6\<rparr>), s))))"

section \<open>A complete message\<close>

definition NOT_FOUND :: "16 word" where
  "NOT_FOUND = 404"

definition UNAUTHORIZED :: "16 word" where
  "UNAUTHORIZED = 401"

definition UNKNOWN_TID :: "16 word" where
  "UNKNOWN_TID = 422"

definition process_update :: "recv_env \<Rightarrow> 'd owner \<Rightarrow> nref \<Rightarrow> parsed_message \<Rightarrow> sock_addr \<Rightarrow> 'd net_state \<Rightarrow> unit answer \<times> 'd net_state" where
  "process_update R H n m from s =
     (case getSocket n (pm_tid m) (ns_engine s) of
        None \<Rightarrow> (Protocol UNKNOWN_TID (lit ''Can't find socket''), s)
      | Some cb \<Rightarrow>
          bind_answer (call_owner (h_onNewNode H n 2) (on_engine (node_received n (net_now s) None) s)) (\<lambda>_ s.
          bind_answer (deserializeNodes R H m from s) (\<lambda>m s. (Answer (), deliver (SocketData cb n m) s))))"

text \<open>An error answer is acted on when it refuses a refresh, a put or a listen.\<close>

definition refusal :: "16 word \<Rightarrow> message_type \<Rightarrow> bool" where
  "refusal code ty \<longleftrightarrow> code = NOT_FOUND \<and> ty = Refresh \<or> code = UNAUTHORIZED \<and> (ty = AnnounceValue \<or> ty = Listen)"

definition process_error :: "recv_env \<Rightarrow> 'd owner \<Rightarrow> parsed_message \<Rightarrow> rref option \<Rightarrow> 'd net_state \<Rightarrow> unit answer \<times> 'd net_state" where
  "process_error R H m req s =
     (case req of None \<Rightarrow> (Answer (), s)
      | Some r \<Rightarrow>
          if hash_bool (pm_id m) \<and> refusal (pm_error_code m) (rq_type (rq (ns_engine s) r)) then
            let e = upd_rq r (\<lambda>q. q\<lparr>last_try := time_min, rq_reply_time := time_min\<rparr>) (ns_engine s);
                (ok, e) = req_setError (rv_handled R r) r e;
                s = s\<lparr>ns_engine := e\<rparr>
            in if ok then (Answer (), s) else call_owner (h_onError H r (pm_error_code m)) s
          else (Answer (), s))"

definition confirms :: "message_type \<Rightarrow> bool" where
  "confirms ty \<longleftrightarrow> ty = AnnounceValue \<or> ty = Listen \<or> ty = Refresh"

definition complete_request :: "recv_env \<Rightarrow> 'd owner \<Rightarrow> parsed_message \<Rightarrow> sock_addr \<Rightarrow> rref \<Rightarrow> 'd net_state \<Rightarrow> unit answer \<times> 'd net_state" where
  "complete_request R H m from r s =
     (let q = rq (ns_engine s) r;
          s = (if confirms (rq_type q) then on_engine (authSuccess (rq_node q)) s else s);
          s = on_engine (upd_rq r (\<lambda>q. q\<lparr>rq_reply_time := net_now s\<rparr>)) s
      in bind_answer (deserializeNodes R H m from s) (\<lambda>m s.
           let s' = on_engine (req_setDone r) s
           in (Answer (), if pending (rq (ns_engine s) r) then deliver (ReplyTo r m) s' else s')))"

definition process_reply :: "recv_env \<Rightarrow> 'd owner \<Rightarrow> nref \<Rightarrow> parsed_message \<Rightarrow> sock_addr \<Rightarrow> rref option \<Rightarrow> nat option \<Rightarrow> 'd net_state \<Rightarrow> unit answer \<times> 'd net_state" where
  "process_reply R H n m from req rsocket s =
     bind_answer
       (let s = on_engine (node_received n (net_now s) req) s
        in if \<not> is_client (nd (ns_engine s) n) then call_owner (h_onNewNode H n 2) s else (Answer (), s)) (\<lambda>_ s.
     bind_answer (call_owner (h_onReportedAddr H (pm_id m) (pm_addr m)) s) (\<lambda>_ s.
       if (case req of None \<Rightarrow> False | Some r \<Rightarrow> over (rq (ns_engine s) r)) then (Answer (), s)
       else if pm_type m = Error then process_error R H m req s
       else case req of
         Some r \<Rightarrow> complete_request R H m from r s
       | None \<Rightarrow> bind_answer (deserializeNodes R H m from s) (\<lambda>m s.
           case rsocket of Some cb \<Rightarrow> (Answer (), deliver (SocketData cb n m) s) | None \<Rightarrow> (Crash, s))))"

text \<open>
  A reply to a node that was addressed without its identifier is found in the engine's own table; the node of the
  request is then the one that answered.
\<close>

definition adopt_request :: "nref \<Rightarrow> tid \<Rightarrow> 'd net_state \<Rightarrow> rref option \<times> 'd net_state" where
  "adopt_request n t s =
     (let e = ns_engine s in
      case map_of (eng_requests e) t of
        Some r \<Rightarrow> if \<not> hash_bool (n_id (nd e (rq_node (rq e r))))
          then (Some r, s\<lparr>ns_engine := (upd_rq r (\<lambda>q. q\<lparr>rq_node := n\<rparr>) e)\<lparr>eng_requests := map_erase t (eng_requests e)\<rparr>\<rparr>)
          else (None, s)
      | None \<Rightarrow> (None, s))"

definition process_response :: "recv_env \<Rightarrow> 'd owner \<Rightarrow> nref \<Rightarrow> parsed_message \<Rightarrow> sock_addr \<Rightarrow> 'd net_state \<Rightarrow> unit answer \<times> 'd net_state" where
  "process_response R H n m from s =
     (let rsocket = getSocket n (pm_tid m) (ns_engine s); req = node_getRequest n (pm_tid m) (ns_engine s) in
      if req = None \<and> rsocket = None then
        case adopt_request n (pm_tid m) s of
          (Some r, s) \<Rightarrow> process_reply R H n m from (Some r) None s
        | (None, s) \<Rightarrow>
            let s = on_engine (node_received n (net_now s) None) s
            in if \<not> is_client (nd (ns_engine s) n) then call_owner (h_onNewNode H n 1) s else (Answer (), s)
      else process_reply R H n m from req rsocket s)"

definition send_nodes :: "recv_env \<Rightarrow> sock_addr \<Rightarrow> parsed_message \<Rightarrow> hash \<Rightarrow> dht_value list \<Rightarrow> query \<Rightarrow> request_answer \<Rightarrow> 'd net_state \<Rightarrow> unit answer \<times> 'd net_state" where
  "send_nodes R from m h vs q a s =
     (let e = ns_engine s;
          (n4, n6) = bufferNodes e (getFamily from) h (pm_want m) (ra_nodes4 a) (ra_nodes6 a);
          (res, e) = sendNodesValues (rv_net R) from (pm_tid m) n4 n6 vs q (ra_ntoken a) e
      in (answer_of res, s\<lparr>ns_engine := e\<rparr>))"

definition no_query :: query where
  "no_query = \<lparr>q_select = [], q_where = [], q_none = False\<rparr>"

fun handle_request :: "recv_env \<Rightarrow> 'd owner \<Rightarrow> message_type \<Rightarrow> nref \<Rightarrow> parsed_message \<Rightarrow> sock_addr \<Rightarrow> 'd net_state \<Rightarrow> unit answer \<times> 'd net_state" where
  "handle_request R H Ping n m from s =
     bind_answer (call_owner (h_onPing H n) (count_in (\<lambda>st. st\<lparr>st_ping := st_ping st + 1\<rparr>) s)) (\<lambda>_ s.
       (Answer (), on_engine (sendPong (rv_net R) from (pm_tid m)) s))"
| "handle_request R H FindNode n m from s =
     bind_answer (call_owner (h_onFindNode H n (pm_target m) (pm_want m)) (count_in (\<lambda>st. st\<lparr>st_find := st_find st + 1\<rparr>) s))
       (send_nodes R from m (pm_target m) [] no_query)"
| "handle_request R H GetValues n m from s =
     bind_answer (call_owner (h_onGetValues H n (pm_info_hash m) (pm_want m) (pm_query m)) (count_in (\<lambda>st. st\<lparr>st_get := st_get st + 1\<rparr>) s))
       (\<lambda>a s. send_nodes R from m (pm_info_hash m) (ra_values a) (pm_query m) a s)"
| "handle_request R H AnnounceValue n m from s =
     bind_answer (call_owner (h_onAnnounce H n (pm_info_hash m) (pm_token m) (pm_values m) (pm_created m))
         (count_in (\<lambda>st. st\<lparr>st_put := st_put st + 1\<rparr>) s)) (\<lambda>_ s.
       (Answer (), on_engine (fold (\<lambda>v. sendValueAnnounced (rv_net R) from (pm_tid m) (v_id v)) (pm_values m)) s))"
| "handle_request R H Refresh n m from s =
     bind_answer (call_owner (h_onRefresh H n (pm_info_hash m) (pm_token m) (pm_value_id m)) s) (\<lambda>_ s.
       (Answer (), on_engine (sendValueAnnounced (rv_net R) from (pm_tid m) (pm_value_id m)) s))"
| "handle_request R H Listen n m from s =
     bind_answer (call_owner (h_onListen H n (pm_info_hash m) (pm_token m) (pm_socket_id m) (pm_query m) (pm_version m))
         (count_in (\<lambda>st. st\<lparr>st_listen := st_listen st + 1\<rparr>) s)) (\<lambda>_ s.
       (Answer (), on_engine (sendListenConfirmation (rv_net R) from (pm_tid m)) s))"
| "handle_request R H UpdateValue n m from s =
     (let s = count_in (\<lambda>st. st\<lparr>st_updateValue := st_updateValue st + 1\<rparr>) s;
          s = (case getSocket n (pm_socket_id m) (ns_engine s) of Some cb \<Rightarrow> deliver (SocketData cb n m) s | None \<Rightarrow> s)
      in (Answer (), on_engine (sendListenConfirmation (rv_net R) from (pm_tid m)) s))"
| "handle_request R H _ n m from s = (Answer (), s)"

text \<open>The message of a protocol exception goes through \<open>c_str\<close>.\<close>

definition catch_request :: "recv_env \<Rightarrow> parsed_message \<Rightarrow> sock_addr \<Rightarrow> unit answer \<times> 'd net_state \<Rightarrow> unit answer \<times> 'd net_state" where
  "catch_request R m from res = (case res of
     (Protocol code what, s) \<Rightarrow> (Answer (), on_engine (sendError (rv_net R) from (pm_tid m) code (takeWhile (\<lambda>b. b \<noteq> 0) what) True) s)
   | (Overflow, s) \<Rightarrow> (Answer (), s)
   | _ \<Rightarrow> res)"

definition process_request :: "recv_env \<Rightarrow> 'd owner \<Rightarrow> nref \<Rightarrow> parsed_message \<Rightarrow> sock_addr \<Rightarrow> 'd net_state \<Rightarrow> unit answer \<times> 'd net_state" where
  "process_request R H n m from s =
     bind_answer
       (let s = on_engine (node_received n (net_now s) None) s
        in if \<not> is_client (nd (ns_engine s) n) then call_owner (h_onNewNode H n 1) s else (Answer (), s)) (\<lambda>_ s.
       catch_request R m from (handle_request R H (pm_type m) n m from s))"

definition process :: "recv_env \<Rightarrow> 'd owner \<Rightarrow> parsed_message \<Rightarrow> sock_addr \<Rightarrow> 'd net_state \<Rightarrow> unit answer \<times> 'd net_state" where
  "process R H m from s =
     bind_answer (getNodeCached R (pm_id m) from True (pm_is_client m) s) (\<lambda>n s.
       if pm_type m = ValueUpdate then process_update R H n m from s
       else if pm_type m = Error \<or> pm_type m = Reply then process_response R H n m from s
       else process_request R H n m from s)"

section \<open>Datagrams\<close>

text \<open>A part of a value is for the message with its identifier, from the same address.\<close>

definition process_part :: "recv_env \<Rightarrow> 'd owner \<Rightarrow> parsed_message \<Rightarrow> sock_addr \<Rightarrow> 'd net_state \<Rightarrow> unit answer \<times> 'd net_state" where
  "process_part R H m from s =
     (case map_of (ns_partial s) (pm_tid m) of
        None \<Rightarrow> (Answer (), snd (rateLimit (rv_max_peer_req R) from s))
      | Some p \<Rightarrow>
          if \<not> addr_equals (pt_from p) from then (Answer (), snd (rateLimit (rv_max_peer_req R) from s))
          else
            let (appended, pm) = message_append m (pt_msg p);
                put = (\<lambda>p. s\<lparr>ns_partial := map_put (pm_tid m) p (ns_partial s)\<rparr>)
            in if \<not> appended then (Answer (), put (p\<lparr>pt_msg := pm\<rparr>))
               else case message_complete (rv_parse R) pm of
                 (Ret True, pm) \<Rightarrow>
                   bind_answer (process R H pm from (put (p\<lparr>pt_msg := pm, pt_last := net_now s\<rparr>))) (\<lambda>_ s.
                     (Answer (), s\<lparr>ns_partial := map_erase (pm_tid m) (ns_partial s)\<rparr>))
               | (Ret False, pm) \<Rightarrow>
                   let s = put (p\<lparr>pt_msg := pm, pt_last := net_now s\<rparr>)
                   in (Answer (), s\<lparr>ns_rx_jobs := ns_rx_jobs s @ [(net_now s + RX_TIMEOUT, pm_tid m)]\<rparr>)
               | (Throw, pm) \<Rightarrow> (Exception, put (p\<lparr>pt_msg := pm, pt_last := net_now s\<rparr>))
               | (_, pm) \<Rightarrow> (Crash, put (p\<lparr>pt_msg := pm, pt_last := net_now s\<rparr>)))"

definition start_partial :: "parsed_message \<Rightarrow> sock_addr \<Rightarrow> 'd net_state \<Rightarrow> 'd net_state" where
  "start_partial m from s =
     (case map_of (ns_partial s) (pm_tid m) of
        Some p \<Rightarrow> s
      | None \<Rightarrow> s\<lparr>ns_partial := map_put (pm_tid m) \<lparr>pt_from = from, pt_start = net_now s, pt_last = net_now s, pt_msg = m\<rparr> (ns_partial s),
          ns_rx_jobs := ns_rx_jobs s @ [(net_now s + RX_MAX_PACKET_TIME, pm_tid m), (net_now s + RX_TIMEOUT, pm_tid m)]\<rparr>)"

definition process_parsed :: "recv_env \<Rightarrow> 'd owner \<Rightarrow> parsed_message \<Rightarrow> sock_addr \<Rightarrow> 'd net_state \<Rightarrow> unit answer \<times> 'd net_state" where
  "process_parsed R H m from s =
     (if pm_network m \<noteq> network (rv_net R) then (Answer (), s)
      else if pm_type m = ValueData then process_part R H m from s
      else if pm_id m = myid (rv_net R) \<or> \<not> hash_bool (pm_id m) then (Answer (), s)
      else
        let (ok, s) = (if pm_type m \<noteq> Error \<and> pm_type m \<noteq> Reply then rateLimit (rv_max_peer_req R) from s else (True, s))
        in if \<not> ok then (Answer (), s)
           else if pm_value_parts m = [] then process R H m from s
           else (Answer (), start_partial m from s))"

definition processMessage :: "recv_env \<Rightarrow> 'd owner \<Rightarrow> bytes \<Rightarrow> sock_addr \<Rightarrow> 'd net_state \<Rightarrow> unit answer \<times> 'd net_state" where
  "processMessage R H buf f s =
     (let from = getMappedIPv4 f in
      if isMartian from \<or> isNodeBlacklisted from s then (Answer (), s)
      else case pe_unpack (rv_parse R) buf of
        None \<Rightarrow> (Answer (), s)
      | Some obj \<Rightarrow> (case message_unpack (rv_parse R) obj of
          Ret m \<Rightarrow> process_parsed R H m from s
        | Throw \<Rightarrow> (Answer (), s)
        | _ \<Rightarrow> (Crash, s)))"

definition maintainRxBuffer :: "tid \<Rightarrow> 'd net_state \<Rightarrow> 'd net_state" where
  "maintainRxBuffer t s =
     (case map_of (ns_partial s) t of
        Some p \<Rightarrow> if pt_start p + RX_MAX_PACKET_TIME < net_now s \<or> pt_last p + RX_TIMEOUT < net_now s
          then s\<lparr>ns_partial := map_erase t (ns_partial s)\<rparr> else s
      | None \<Rightarrow> s)"

end
