(* ===== verification/Dht_Core.thy ===== *)
theory Dht_Core
  imports Engine_Receive Search_Ops
begin

text \<open>
  The node as a whole (\<open>dht.h\<close>, \<open>dht.cpp\<close>): its two routing tables with their searches, its store and its scheduler, next to the
  network engine; and the requests a search sends. The scheduler's time is the engine's. Callbacks of requests are
  entries of the engine's log; the expiry of a request that fails while it is sent is handled at once, as in the code.
\<close>

section \<open>State\<close>

record kad =
  k_buckets :: routing
  k_searches :: "(hash \<times> dht_search) list"
  pending_pings :: uint32

record dht_core =
  c_dht4 :: kad
  c_dht6 :: kad
  c_store :: dht_store
  c_sched :: scheduler
  nextNodesConfirmation :: "nat option"
  c_reported :: "(uint32 \<times> sock_addr) list"
  c_queries :: "nat \<Rightarrow> query"
  c_next_query :: nat
  c_log :: "search_call list"

record dht_env =
  dv_net :: net_env
  dv_types :: type_store
  dv_hash :: "bytes \<Rightarrow> nat \<Rightarrow> bytes"

type_synonym dht_world = "engine \<times> dht_core"

definition dht_af :: "nat \<Rightarrow> dht_core \<Rightarrow> kad" where
  "dht_af af d = (if af = AF_INET then c_dht4 d else c_dht6 d)"

definition upd_af :: "nat \<Rightarrow> (kad \<Rightarrow> kad) \<Rightarrow> dht_core \<Rightarrow> dht_core" where
  "upd_af af f d = (if af = AF_INET then d\<lparr>c_dht4 := f (c_dht4 d)\<rparr> else d\<lparr>c_dht6 := f (c_dht6 d)\<rparr>)"

text \<open>What the operations of a search see of the node, and how their changes come back.\<close>

definition world_of :: "dht_world \<Rightarrow> search_world" where
  "world_of x = (case x of (e, d) \<Rightarrow> \<lparr>nd = nd e, rq = rq e, next_rq = next_rq e, calls = calls e,
     w_sched = (c_sched d)\<lparr>sch_now := eng_now e\<rparr>, w_log = c_log d\<rparr>)"

definition put_world :: "search_world \<Rightarrow> dht_world \<Rightarrow> dht_world" where
  "put_world w x = (case x of (e, d) \<Rightarrow>
     (e\<lparr>nd := nd w, rq := rq w, next_rq := next_rq w, calls := calls w\<rparr>, d\<lparr>c_sched := w_sched w, c_log := w_log w\<rparr>))"

section \<open>Requests of a search\<close>

definition MAX_REQUESTED_SEARCH_NODES :: nat where
  "MAX_REQUESTED_SEARCH_NODES = 4"

text \<open>The static query of a search without operations has the reference 0.\<close>

definition ANY_QUERY :: qref where
  "ANY_QUERY = Some 0"

definition any_query :: query where
  "any_query = \<lparr>q_select = [], q_where = [], q_none = True\<rparr>"

definition upd_sn :: "nref \<Rightarrow> (search_node \<Rightarrow> search_node) \<Rightarrow> dht_search \<Rightarrow> dht_search" where
  "upd_sn n f s = s\<lparr>s_nodes := map (\<lambda>sn. if sn_node sn = n then f sn else sn) (s_nodes s)\<rparr>"

definition searchNodeGetExpired :: "nref \<Rightarrow> bool \<Rightarrow> qref \<Rightarrow> dht_search \<Rightarrow> search_world \<Rightarrow> dht_search \<times> search_world" where
  "searchNodeGetExpired n is_over q s w =
     edit_step (sch_now (w_sched w))
       (upd_sn n (\<lambda>sn. sn\<lparr>candidate := \<not> is_over, getStatus := (if is_over then map_erase q (getStatus sn) else getStatus sn)\<rparr>) s) w"

definition track_request :: "qref \<Rightarrow> nref \<Rightarrow> rref \<Rightarrow> dht_search \<Rightarrow> dht_world \<Rightarrow> dht_search \<times> dht_world" where
  "track_request q n r s x =
     (let (s, w) = (if over (rq (fst x) r) then searchNodeGetExpired n True q s (world_of x) else (s, world_of x))
      in (upd_sn n (\<lambda>sn. sn\<lparr>getStatus := map_put q r (getStatus sn)\<rparr>) s, put_world w x))"

definition send_find :: "dht_env \<Rightarrow> qref \<Rightarrow> nref \<Rightarrow> dht_search \<Rightarrow> dht_world \<Rightarrow> dht_search \<times> dht_world" where
  "send_find V q n s x =
     (let (r, e) = sendFindNode (dv_net V) n (s_id s) (- 1) (fst x) in track_request q n r s (e, snd x))"

definition send_get :: "dht_env \<Rightarrow> qref \<Rightarrow> query \<Rightarrow> nref \<Rightarrow> dht_search \<Rightarrow> dht_world \<Rightarrow> unit outcome \<times> dht_search \<times> dht_world" where
  "send_get V q qv n s x =
     (case sendGetValues (dv_net V) n (s_id s) qv (- 1) (fst x) of
        (Ret r, e) \<Rightarrow> (Ret (), track_request q n r s (e, snd x))
      | (Throw, e) \<Rightarrow> (Throw, s, e, snd x)
      | (Terminate, e) \<Rightarrow> (Terminate, s, e, snd x)
      | (Undef, e) \<Rightarrow> (Undef, s, e, snd x))"

definition paginate :: "dht_env \<Rightarrow> qref \<Rightarrow> nref \<Rightarrow> dht_search \<Rightarrow> dht_world \<Rightarrow> unit outcome \<times> dht_search \<times> dht_world" where
  "paginate V q n s x =
     (let d = snd x;
          select_q = c_next_query d;
          qv = \<lparr>q_select = [FId], q_where = (case q of None \<Rightarrow> [] | Some i \<Rightarrow> q_where (c_queries d i)), q_none = False\<rparr>;
          d = d\<lparr>c_queries := (c_queries d)(select_q := qv), c_next_query := select_q + 1\<rparr>;
          push = (\<lambda>ps. map_put q ((case map_of ps q of None \<Rightarrow> [] | Some qs \<Rightarrow> qs) @ [Some select_q]) ps);
          s = upd_sn n (\<lambda>sn. sn\<lparr>pagination_queries := push (pagination_queries sn)\<rparr>) s
      in send_get V (Some select_q) qv n s (fst x, d))"

text \<open>The node a request goes to: the given one if it may be asked, else the first that may.\<close>

definition pick_node :: "nref option \<Rightarrow> time_point \<Rightarrow> qref \<Rightarrow> dht_search \<Rightarrow> dht_world \<Rightarrow> nref option" where
  "pick_node pn up q s x =
     (let w = world_of x; can = canGet (c_queries (snd x)) w (sch_now (w_sched w)) up q;
          given = (case pn of None \<Rightarrow> None | Some n \<Rightarrow> getNode n s)
      in case given of
           Some sn \<Rightarrow> if can sn then Some (sn_node sn) else map_option sn_node (find can (s_nodes s))
         | None \<Rightarrow> map_option sn_node (find can (s_nodes s)))"

fun send_gets :: "dht_env \<Rightarrow> nref option \<Rightarrow> bool \<Rightarrow> (time_point \<times> dht_get) list \<Rightarrow> dht_search \<Rightarrow> dht_world \<Rightarrow> nref option outcome \<times> dht_search \<times> dht_world" where
  "send_gets V pn update [] s x = (Ret None, s, x)"
| "send_gets V pn update ((t, g) # gs) s x =
     (let q = g_query g;
          qv = c_queries (snd x) (the q);
          up = (if update then getLastGetTime_query (c_queries (snd x)) qv s else time_min)
      in case pick_node pn up q s x of
           None \<Rightarrow> send_gets V pn update gs s x
         | Some n \<Rightarrow>
             (case (if q \<noteq> None \<and> q_select qv \<noteq> [] then send_get V q qv n s x else paginate V q n s x) of
                (res, s, x) \<Rightarrow> (bind_outcome res (\<lambda>_. Ret (Some n)), s, x)))"

definition searchSendGetValues :: "dht_env \<Rightarrow> nref option \<Rightarrow> bool \<Rightarrow> dht_search \<Rightarrow> dht_world \<Rightarrow> nref option outcome \<times> dht_search \<times> dht_world" where
  "searchSendGetValues V pn update s x =
     (if s_done s \<or> currentlySolicitedNodeCount (world_of x) s \<ge> MAX_REQUESTED_SEARCH_NODES then (Ret None, s, x)
      else if s_callbacks s = [] then
        case pick_node pn time_min ANY_QUERY s x of
          None \<Rightarrow> (Ret None, s, x)
        | Some n \<Rightarrow> let (s, x) = send_find V ANY_QUERY n s x in (Ret (Some n), s, x)
      else send_gets V pn update (s_callbacks s) s x)"

section \<open>New nodes\<close>

text \<open>The searches from one position on, until one that is live refuses the node.\<close>

fun insert_run :: "nref \<Rightarrow> time_point \<Rightarrow> hash list \<Rightarrow> bool \<times> (hash \<times> dht_search) list \<times> search_world \<Rightarrow> (bool \<times> (hash \<times> dht_search) list \<times> search_world) outcome" where
  "insert_run n now [] x = Ret x"
| "insert_run n now (k # ks) (ins, srs, w) =
     (case map_of srs k of
        None \<Rightarrow> Ret (ins, srs, w)
      | Some s \<Rightarrow> bind_outcome (insertNode n now [] s w) (\<lambda>(b, s, w).
          if b then let (s, w) = edit_step now s w in insert_run n now ks (True, map_put k s srs, w)
          else if \<not> s_expired s \<and> \<not> s_done s then Ret (ins, map_put k s srs, w)
          else insert_run n now ks (ins, map_put k s srs, w)))"

definition trySearchInsert :: "nref \<Rightarrow> dht_world \<Rightarrow> bool answer \<times> dht_world" where
  "trySearchInsert n x =
     (let (e, d) = x;
          af = getFamily (n_addr (nd e n));
          srs = k_searches (dht_af af d);
          nid = n_id (nd e n);
          up = filter (\<lambda>k. \<not> k < nid) (map fst srs);
          down = rev (filter (\<lambda>k. k < nid) (map fst srs))
      in case bind_outcome (insert_run n (eng_now e) up (False, srs, world_of x)) (insert_run n (eng_now e) down) of
           Ret (ins, srs, w) \<Rightarrow>
             let (e, d) = put_world w (e, d) in (Answer ins, e, upd_af af (\<lambda>k. k\<lparr>k_searches := srs\<rparr>) d)
         | _ \<Rightarrow> (Crash, x))"

definition reportedAddr :: "sock_addr \<Rightarrow> dht_core \<Rightarrow> dht_core" where
  "reportedAddr a d =
     (let rs = c_reported d in
      case find_pos (\<lambda>r. addr_equals (snd r) a) rs of
        None \<Rightarrow> if length rs < 32 then d\<lparr>c_reported := rs @ [(1, a)]\<rparr> else d
      | Some i \<Rightarrow> d\<lparr>c_reported := rs[i := (fst (rs ! i) + 1, snd (rs ! i))]\<rparr>)"

definition getPublicAddress :: "nat \<Rightarrow> dht_core \<Rightarrow> sock_addr list \<times> dht_core" where
  "getPublicAddress family d =
     (let rs = fold (\<lambda>r acc. insert_before (\<lambda>m. fst r > fst m) r acc) (c_reported d) []
      in (map snd (filter (\<lambda>r. family = 0 \<or> family = getFamily (snd r)) rs), d\<lparr>c_reported := rs\<rparr>))"

definition dht_onNewNode :: "dht_env \<Rightarrow> nref \<Rightarrow> int \<Rightarrow> (dht_core, unit) owner_call" where
  "dht_onNewNode V n confirm x =
     (let (e, d) = x;
          now = eng_now e;
          af = getFamily (n_addr (nd e n));
          rt = k_buckets (dht_af af d);
          wasEmpty = confirm < 2 \<and> grow_time rt < now - minutes 5
      in case onNewNode 161 (engine_service (dv_net V)) n confirm now (myid (dv_net V)) rt e of
           None \<Rightarrow> (Hang, x)
         | Some (fresh, rt, e) \<Rightarrow>
             let d = upd_af af (\<lambda>k. k\<lparr>k_buckets := rt\<rparr>) d in
             if fresh \<or> confirm \<noteq> 0 then
               bind_answer (trySearchInsert n (e, d)) (\<lambda>_ (e, d).
                 if wasEmpty then
                   let (j, sc) = sch_edit (nextNodesConfirmation d) (now + seconds 1) (c_sched d)
                   in (Answer (), e, d\<lparr>nextNodesConfirmation := j, c_sched := sc\<rparr>)
                 else (Answer (), e, d))
             else (Answer (), e, d))"

section \<open>Handlers\<close>

definition dht_onReportedAddr :: "hash \<Rightarrow> sock_addr \<Rightarrow> (dht_core, unit) owner_call" where
  "dht_onReportedAddr h a x = (Answer (), fst x, if a \<noteq> [] then reportedAddr a (snd x) else snd x)"

definition dht_onPing :: "nref \<Rightarrow> (dht_core, request_answer) owner_call" where
  "dht_onPing n x = (Answer no_answer, x)"

text \<open>The store sees nodes through the engine and the routing tables.\<close>

definition near_nodes :: "dht_env \<Rightarrow> dht_world \<Rightarrow> nat \<Rightarrow> hash \<Rightarrow> nat \<Rightarrow> nref list" where
  "near_nodes V x af h cnt =
     findClosestNodes (engine_service (dv_net V)) (fst x) h (eng_now (fst x)) cnt (buckets (k_buckets (dht_af af (snd x))))"

definition store_env_of :: "dht_env \<Rightarrow> dht_world \<Rightarrow> store_env" where
  "store_env_of V x = \<lparr>e_myid = myid (dv_net V), e_types = dv_types V, e_hash = dv_hash V,
     e_addr = (\<lambda>n. n_addr (nd (fst x) n)), e_nid = (\<lambda>n. n_id (nd (fst x) n)), e_near = near_nodes V x\<rparr>"

definition store_now :: "dht_world \<Rightarrow> dht_store" where
  "store_now x = (c_store (snd x))\<lparr>ds_time := eng_now (fst x)\<rparr>"

definition dht_onFindNode :: "dht_env \<Rightarrow> nref \<Rightarrow> hash \<Rightarrow> int \<Rightarrow> (dht_core, request_answer) owner_call" where
  "dht_onFindNode V n target want x =
     (Answer (no_answer\<lparr>ra_ntoken := makeToken (store_env_of V x) (n_addr (nd (fst x) n)) False (store_now x),
        ra_nodes4 := (if bit want 0 then near_nodes V x AF_INET target TARGET_NODES else []),
        ra_nodes6 := (if bit want 1 then near_nodes V x AF_INET6 target TARGET_NODES else [])\<rparr>), x)"

definition NON_AUTHORITATIVE_INFORMATION :: "16 word" where
  "NON_AUTHORITATIVE_INFORMATION = 203"

definition dht_onGetValues :: "dht_env \<Rightarrow> nref \<Rightarrow> hash \<Rightarrow> int \<Rightarrow> query \<Rightarrow> (dht_core, request_answer) owner_call" where
  "dht_onGetValues V n h want q x =
     (if \<not> hash_bool h then (Protocol NON_AUTHORITATIVE_INFORMATION (lit ''Get_values with no info_hash''), x)
      else (Answer (no_answer\<lparr>ra_ntoken := makeToken (store_env_of V x) (n_addr (nd (fst x) n)) False (store_now x),
        ra_nodes4 := near_nodes V x AF_INET h TARGET_NODES, ra_nodes6 := near_nodes V x AF_INET6 h TARGET_NODES,
        ra_values := getLocal h (getFilter (q_where q)) (store_now x)\<rparr>), x))"

text \<open>The texts of the protocol errors.\<close>

definition error_text :: "string \<Rightarrow> bytes" where
  "error_text k = lit (if k = ''LISTEN_NO_INFOHASH'' then ''Listen with no info_hash''
     else if k = ''LISTEN_WRONG_TOKEN'' then ''Listen with wrong token''
     else if k = ''PUT_NO_INFOHASH'' then ''Put with no info_hash''
     else if k = ''PUT_WRONG_TOKEN'' then ''Put with wrong token''
     else if k = ''PUT_INVALID_ID'' then ''Put with invalid id''
     else ''Access operation for unknown storage'')"

text \<open>What the store tells its remote listeners is sent after the operation that changed it.\<close>

definition tell :: "net_env \<Rightarrow> store_event \<Rightarrow> engine \<Rightarrow> unit answer \<times> engine" where
  "tell E ev e = (case ev of
     TellListener n sid h want token ns4 ns6 vs q version \<Rightarrow>
       (case tellListener E n (of_nat sid) h (int want) token ns4 ns6 vs q (int version) e of (res, e) \<Rightarrow> (answer_of res, e))
   | TellListenerExpired n sid h token ids version \<Rightarrow> (Answer (), tellListenerExpired E n (of_nat sid) token ids (int version) e)
   | TellListenerRefreshed n sid h token ids version \<Rightarrow> (Answer (), tellListenerRefreshed E n (of_nat sid) token ids (int version) e)
   | _ \<Rightarrow> (Answer (), e))"

fun tell_all :: "net_env \<Rightarrow> store_event list \<Rightarrow> engine \<Rightarrow> unit answer \<times> engine" where
  "tell_all E [] e = (Answer (), e)"
| "tell_all E (ev # evs) e = bind_answer (tell E ev e) (\<lambda>_. tell_all E evs)"

definition store_result :: "dht_env \<Rightarrow> proto_error option \<Rightarrow> dht_store \<Rightarrow> (dht_core, request_answer) owner_call" where
  "store_result V err s x =
     (let (res, e) = tell_all (dv_net V) (drop (length (ds_out (c_store (snd x)))) (ds_out s)) (fst x);
          d = (snd x)\<lparr>c_store := s\<rparr>
      in case res of
           Answer _ \<Rightarrow> (case err of
               None \<Rightarrow> (Answer no_answer, e, d)
             | Some (code, k) \<Rightarrow> (Protocol (of_nat code) (error_text k), e, d))
         | Protocol c m \<Rightarrow> (Protocol c m, e, d)
         | Overflow \<Rightarrow> (Overflow, e, d)
         | Exception \<Rightarrow> (Exception, e, d)
         | Crash \<Rightarrow> (Crash, e, d)
         | Hang \<Rightarrow> (Hang, e, d))"

definition dht_onListen :: "dht_env \<Rightarrow> nref \<Rightarrow> hash \<Rightarrow> bytes \<Rightarrow> tid \<Rightarrow> query \<Rightarrow> int \<Rightarrow> (dht_core, request_answer) owner_call" where
  "dht_onListen V n h token sid q version x =
     (let (err, s) = onListen (store_env_of V x) n h token (unat sid) q (nat version) (store_now x) in store_result V err s x)"

definition dht_onRefresh :: "dht_env \<Rightarrow> nref \<Rightarrow> hash \<Rightarrow> bytes \<Rightarrow> value_id \<Rightarrow> (dht_core, request_answer) owner_call" where
  "dht_onRefresh V n h token vid x =
     (let (err, s) = onRefresh (store_env_of V x) n h token vid (store_now x) in store_result V err s x)"

definition dht_onAnnounce :: "dht_env \<Rightarrow> nref \<Rightarrow> hash \<Rightarrow> bytes \<Rightarrow> dht_value list \<Rightarrow> time_point \<Rightarrow> (dht_core, request_answer) owner_call" where
  "dht_onAnnounce V n h token vs created x =
     (case onAnnounce (store_env_of V x) n h token vs created (store_now x) of
        None \<Rightarrow> (Hang, x)
      | Some (Ret (err, s)) \<Rightarrow> store_result V err s x
      | Some Throw \<Rightarrow> (Exception, x)
      | Some _ \<Rightarrow> (Crash, x))"

text \<open>A refused token is forgotten and asked for again, in every search that knows the node.\<close>

definition flush_token :: "dht_env \<Rightarrow> nref \<Rightarrow> dht_search \<Rightarrow> dht_world \<Rightarrow> unit outcome \<times> dht_search \<times> dht_world" where
  "flush_token V n s x =
     (if getNode n s = None then (Ret (), s, x)
      else
        let s = upd_sn n (\<lambda>sn. sn\<lparr>sn_token := [], last_get_reply := time_min\<rparr>) s
        in case searchSendGetValues V None True s x of
             (Ret _, s, x) \<Rightarrow> let (s, w) = edit_step (eng_now (fst x)) s (world_of x) in (Ret (), s, put_world w x)
           | (Throw, s, x) \<Rightarrow> (Throw, s, x)
           | (Terminate, s, x) \<Rightarrow> (Terminate, s, x)
           | (Undef, s, x) \<Rightarrow> (Undef, s, x))"

fun flush_tokens :: "dht_env \<Rightarrow> nref \<Rightarrow> nat \<Rightarrow> hash list \<Rightarrow> dht_world \<Rightarrow> unit answer \<times> dht_world" where
  "flush_tokens V n af [] x = (Answer (), x)"
| "flush_tokens V n af (k # ks) x =
     (case map_of (k_searches (dht_af af (snd x))) k of
        None \<Rightarrow> flush_tokens V n af ks x
      | Some s \<Rightarrow> (case flush_token V n s x of
          (res, s, e, d) \<Rightarrow>
            bind_answer (answer_of res, e, upd_af af (\<lambda>m. m\<lparr>k_searches := map_put k s (k_searches m)\<rparr>) d) (\<lambda>_. flush_tokens V n af ks)))"

definition dht_onError :: "dht_env \<Rightarrow> rref \<Rightarrow> 16 word \<Rightarrow> (dht_core, unit) owner_call" where
  "dht_onError V r code x =
     (let (e, d) = x; n = rq_node (rq e r) in
      if code = UNAUTHORIZED then
        let af = getFamily (n_addr (nd e n)) in flush_tokens V n af (map fst (k_searches (dht_af af d))) (authError n e, d)
      else if code = NOT_FOUND then (Answer (), node_cancelRequest n (Some r) e, d)
      else (Answer (), x))"

definition dht_owner :: "dht_env \<Rightarrow> dht_core owner" where
  "dht_owner V = \<lparr>h_onError = dht_onError V, h_onNewNode = dht_onNewNode V, h_onReportedAddr = dht_onReportedAddr,
     h_onPing = dht_onPing, h_onFindNode = dht_onFindNode V, h_onGetValues = dht_onGetValues V, h_onListen = dht_onListen V,
     h_onAnnounce = dht_onAnnounce V, h_onRefresh = dht_onRefresh V\<rparr>"

end
