(* ===== verification/Engine_Receive_Inv.thy ===== *)
theory Engine_Receive_Inv
  imports Engine_Receive Routing_Inv
begin

text \<open>
  What receiving keeps: the contract \<open>engine_owner\<close> between the engine and its owner, and the proof that every message,
  whatever it holds, leaves requests, node identifiers and the node cache in order.
\<close>

section \<open>Steps of the engine\<close>

definition engine_keeps :: "engine \<Rightarrow> engine \<Rightarrow> bool" where
  "engine_keeps e e' \<longleftrightarrow> sound_step e e' \<and> same_ids e e' \<and> eng_now e' = eng_now e"

named_theorems keeps_intros \<open>steps of the engine that keep requests, identifiers and time\<close>

lemma engine_keeps_refl [simp, keeps_intros]: "engine_keeps e e"
  by (simp add: engine_keeps_def same_ids_def)

lemma engine_keeps_trans: "engine_keeps e e1 \<Longrightarrow> engine_keeps e1 e2 \<Longrightarrow> engine_keeps e e2"
  by (auto simp: engine_keeps_def intro: sound_step_trans same_ids_trans)

lemma engine_keeps_fold: "(\<And>x e. engine_keeps e (f x e)) \<Longrightarrow> engine_keeps e (fold f xs e)"
  by (induction xs arbitrary: e) (auto intro: engine_keeps_trans)

lemma send_keeps [keeps_intros]: "engine_keeps e (snd (send E a b c e))"
  by (auto simp: engine_keeps_def same_ids_def send_sound) (auto simp: send_def)

lemma sendValueParts_keeps [keeps_intros]: "engine_keeps e (sendValueParts E t vs a e)"
  by (auto simp: sendValueParts_def intro!: engine_keeps_fold send_keeps split: prod.splits)

lemma answers_keep [keeps_intros]:
  "engine_keeps e (sendPong E a t e)" "engine_keeps e (sendListenConfirmation E a t e)"
  "engine_keeps e (sendValueAnnounced E a t v e)" "engine_keeps e (sendError E a t code msg inc e)"
  by (simp_all add: sendPong_def sendListenConfirmation_def sendValueAnnounced_def sendError_def send_keeps)

lemma sendNodesValues_keeps [keeps_intros]: "engine_keeps e (snd (sendNodesValues E a t n4 n6 st q token e))"
  by (auto simp: sendNodesValues_def Let_def intro: engine_keeps_trans keeps_intros split: outcome.splits prod.splits)

lemma upd_nd_keeps [keeps_intros]: "(\<And>x. n_id (f x) = n_id x \<and> n_addr (f x) = n_addr x) \<Longrightarrow> engine_keeps e (upd_nd n f e)"
  by (auto simp: engine_keeps_def intro: inv_intros same_ids_upd_nd) (simp add: upd_nd_def)

lemma upd_rq_keeps: "(\<And>q. rq_state (f q) = rq_state q) \<Longrightarrow> engine_keeps e (upd_rq r f e)"
  by (auto simp: engine_keeps_def upd_rq_sound) (auto simp: upd_rq_def same_ids_def)

lemma node_received_keeps [keeps_intros]: "engine_keeps e (node_received n t req e)"
  by (simp add: engine_keeps_def node_received_sound) (simp add: node_received_def same_ids_def upd_nd_def Let_def split: option.splits)

lemma eng_now_req_setExpired [simp]: "eng_now (req_setExpired r e) = eng_now e"
  by (simp add: req_setExpired_def heap_defs)

lemma eng_now_node_setExpired [simp]:
  fixes e :: engine
  shows "eng_now (node_setExpired n e) = eng_now e"
proof -
  have "eng_now (fold (\<lambda>x. req_setExpired (snd x)) xs e) = eng_now e" for xs :: "(tid \<times> rref) list" and e :: engine
    by (induction xs arbitrary: e) simp_all
  then show ?thesis by (simp add: node_setExpired_def Let_def upd_nd_def)
qed

lemma node_setExpired_keeps [keeps_intros]: "engine_keeps e (node_setExpired n e)"
  by (simp add: engine_keeps_def node_setExpired_sound same_ids_node_setExpired)

lemma authSuccess_keeps [keeps_intros]: "engine_keeps e (authSuccess n e)"
  by (simp add: authSuccess_def upd_nd_keeps)

lemma req_setDone_keeps [keeps_intros]: "engine_keeps e (req_setDone r e)"
  by (auto simp: engine_keeps_def req_setDone_sound) (auto simp: req_setDone_def same_ids_def heap_defs)

lemma req_setError_keeps [keeps_intros]: "engine_keeps e (snd (req_setError b r e))"
  by (auto simp: engine_keeps_def req_setError_sound) (auto simp: req_setError_def same_ids_def heap_defs Let_def)

lemma expire_request_keeps [keeps_intros]: "engine_keeps e (expire_request r e)"
  by (simp add: engine_keeps_def expire_request_sound same_ids_expire) (simp add: expire_request_def Let_def)

lemma eng_now_send [simp]: "eng_now (snd (send E a b c e)) = eng_now e"
  by (simp add: send_def)

lemma eng_now_parts [simp]: "eng_now (sendValueParts E t vs a e) = eng_now e"
  using sendValueParts_keeps by (simp add: engine_keeps_def)

lemma eng_now_requestStep: "eng_now (requestStep E r e) = eng_now e"
proof -
  have "eng_now (after_send E r k res) = eng_now (snd res)" for k res
    by (cases res) (auto simp: after_send_def expire_request_def schedule_step_def upd_rq_def Let_def)
  then show ?thesis
    by (auto simp: requestStep_unfold Let_def expire_request_def call_cb_def)
qed

lemma requestStep_keeps [keeps_intros]: "engine_keeps e (requestStep E r e)"
  by (simp add: engine_keeps_def requestStep_sound same_ids_requestStep eng_now_requestStep)

lemma node_requested_keeps [keeps_intros]: "engine_keeps e (node_requested n r e)"
  by (simp add: engine_keeps_def node_requested_sound same_ids_requested)
    (auto simp: node_requested_def Let_def upd_nd_def split: option.splits)

lemma engine_fields_keep [keeps_intros]:
  "engine_keeps e (e\<lparr>eng_requests := x\<rparr>)" "engine_keeps e (count_out f e)"
  by (auto simp: engine_keeps_def same_ids_def count_out_def intro!: sound_stepI)

lemma sendRequest_keeps [keeps_intros]: "engine_keeps e (sendRequest E r e)"
proof -
  let ?e1 = "if \<not> hash_bool (n_id (nd e (rq_node (rq e r))))
    then e\<lparr>eng_requests := snd (map_emplace (rq_tid (rq e r)) r (eng_requests e))\<rparr> else e"
  have "engine_keeps e ?e1" by (simp add: engine_fields_keep)
  then have "engine_keeps e (upd_rq r (\<lambda>q. q\<lparr>start := t\<rparr>) ?e1)" for t
    by (rule engine_keeps_trans [OF _ upd_rq_keeps]) simp
  then show ?thesis
    unfolding sendRequest_def Let_def by (intro engine_keeps_trans [OF _ requestStep_keeps] engine_keeps_trans [OF _ node_requested_keeps])
qed

lemma getNewTid_keeps [keeps_intros]: "engine_keeps e (snd (getNewTid n e))"
  by (auto simp: getNewTid_def Let_def intro!: upd_nd_keeps)

lemma alloc_request_keeps: "rq_state q = PENDING \<Longrightarrow> engine_keeps e (snd (alloc_request q e))"
  by (simp add: engine_keeps_def alloc_request_sound) (simp add: alloc_request_def same_ids_def)

lemma launch_keeps [keeps_intros]: "engine_keeps e (snd (launch E ty t n m parts err e))"
proof -
  have "engine_keeps e (snd (alloc_request ((new_request_obj ty t n m err)\<lparr>rq_parts := parts\<rparr>) e))"
    by (rule alloc_request_keeps) (simp add: new_request_obj_def)
  then show ?thesis by (auto simp: launch_def Let_def intro: engine_keeps_trans keeps_intros split: prod.splits)
qed

lemma launched_keeps: "engine_keeps e e1 \<Longrightarrow> engine_keeps e (count_out f (snd (launch E ty t n m parts err e1)))"
  by (blast intro: engine_keeps_trans keeps_intros)

lemma no_parts [simp]: "(new_request_obj ty t n m err)\<lparr>rq_parts := []\<rparr> = new_request_obj ty t n m err"
  by (simp add: new_request_obj_def)

lemma requests_keep [keeps_intros]:
  "engine_keeps e (snd (sendPing E n e))" "engine_keeps e (snd (sendFindNode E n h w e))"
proof -
  have "sendPing E n e = (let (t, e) = getNewTid n e; (r, e) = launch E Ping t n (ping_msg E t) [] False e
      in (r, count_out (\<lambda>st. st\<lparr>st_ping := st_ping st + 1\<rparr>) e))"
    by (simp add: sendPing_def launch_def case_prod_beta Let_def)
  then show "engine_keeps e (snd (sendPing E n e))"
    using launched_keeps [OF getNewTid_keeps] by (simp add: Let_def case_prod_beta)
  have "sendFindNode E n h w e = (let (t, e) = getNewTid n e; (r, e) = launch E FindNode t n (find_msg E t h w) [] False e
      in (r, count_out (\<lambda>st. st\<lparr>st_find := st_find st + 1\<rparr>) e))"
    by (simp add: sendFindNode_def launch_def case_prod_beta Let_def)
  then show "engine_keeps e (snd (sendFindNode E n h w e))"
    using launched_keeps [OF getNewTid_keeps] by (simp add: Let_def case_prod_beta)
qed

lemma same_ids_clear: "same_ids e (engine_clear e)"
proof -
  have "same_ids e (fold (\<lambda>(t, r) e. node_setExpired (rq_node (rq e r)) (req_cancel r e)) xs e)" for xs :: "(tid \<times> rref) list"
  proof (induction xs arbitrary: e)
    case (Cons x xs)
    have "same_ids e (req_cancel (snd x) e)" by (simp add: req_cancel_def heap_defs same_ids_def)
    from same_ids_trans [OF this same_ids_node_setExpired] Cons.IH show ?case
      by (auto simp: case_prod_beta intro: same_ids_trans)
  qed (simp add: same_ids_def)
  then show ?thesis by (simp add: engine_clear_def same_ids_def)
qed

lemma same_ids_apply: "same_ids e (engine_apply E ev e)"
proof (cases ev)
  case (Ev_step t r)
  then show ?thesis using same_ids_requestStep [of "e\<lparr>eng_now := t\<rparr>" E r] by (simp add: same_ids_def)
next
  case (Ev_error b r)
  then show ?thesis using req_setError_keeps by (simp add: engine_keeps_def)
next
  case (Ev_cancel n req)
  then show ?thesis by (cases req) (auto simp: node_cancelRequest_def req_cancel_def heap_defs same_ids_def)
next
  case (Ev_auth_error n)
  then show ?thesis
    by (auto simp: authError_def Let_def intro: same_ids_trans [OF same_ids_upd_nd same_ids_node_setExpired] same_ids_upd_nd)
qed (use requests_keep req_setDone_keeps node_received_keeps node_setExpired_keeps same_ids_clear in \<open>auto simp: engine_keeps_def\<close>)

section \<open>Steps of the receiver\<close>

definition cache_inv :: "'d net_state \<Rightarrow> bool" where
  "cache_inv s \<longleftrightarrow> nc_ok (node_heap_of s) (ns_cache s)"

definition net_keeps :: "'d net_state \<Rightarrow> 'd net_state \<Rightarrow> bool" where
  "net_keeps s s' \<longleftrightarrow> sound_step (ns_engine s) (ns_engine s') \<and> net_now s' = net_now s \<and> ns_next_nd s \<le> ns_next_nd s'
     \<and> (\<forall>n<ns_next_nd s. n_id (nd (ns_engine s') n) = n_id (nd (ns_engine s) n)) \<and> (cache_inv s \<longrightarrow> cache_inv s')"

named_theorems net_intros \<open>steps of the receiver\<close>

lemma net_keeps_refl [simp, net_intros]: "net_keeps s s"
  by (simp add: net_keeps_def)

lemma net_keeps_trans: "net_keeps s s1 \<Longrightarrow> net_keeps s1 s2 \<Longrightarrow> net_keeps s s2"
  by (auto simp: net_keeps_def intro: sound_step_trans)

lemma cache_inv_engine:
  assumes "same_ids (ns_engine s) (ns_engine s')" and "ns_next_nd s' = ns_next_nd s" and "ns_cache s' = ns_cache s" and "cache_inv s"
  shows "cache_inv s'"
  using assms nm_ok_heap [of "node_heap_of s" _ "node_heap_of s'"]
  by (auto simp: cache_inv_def nc_ok_def node_heap_of_def same_ids_def)

lemma net_keepsI:
  assumes "engine_keeps (ns_engine s) (ns_engine s')" and "ns_next_nd s' = ns_next_nd s" and "ns_cache s' = ns_cache s"
  shows "net_keeps s s'"
  using assms cache_inv_engine [of s s'] by (auto simp: net_keeps_def engine_keeps_def net_now_def same_ids_def)

lemma on_engine_keeps: "(\<And>e. engine_keeps e (f e)) \<Longrightarrow> net_keeps s (on_engine f s)"
  by (rule net_keepsI) (simp_all add: on_engine_def)

lemma on_engine_trans: "net_keeps s s1 \<Longrightarrow> (\<And>e. engine_keeps e (f e)) \<Longrightarrow> net_keeps s (on_engine f s1)"
  using net_keeps_trans on_engine_keeps by blast

lemma received_keeps [net_intros]: "net_keeps s (on_engine (node_received n t req) s)"
  by (rule on_engine_keeps, rule node_received_keeps)

lemma field_keeps [net_intros]:
  "net_keeps s (count_in g s)" "net_keeps s (deliver x s)" "net_keeps s (start_partial m from s)"
  "net_keeps s (maintainRxBuffer t s)" "net_keeps s (s\<lparr>ns_partial := p\<rparr>)"
  by (rule net_keepsI; auto simp: count_in_def deliver_def start_partial_def maintainRxBuffer_def split: option.splits)+

lemma limit_peer_keeps: "net_keeps s (snd (limit_peer mx addr s))"
  by (rule net_keepsI) (auto simp: limit_peer_def Let_def split: prod.splits)

lemma rateLimit_keeps [net_intros]: "net_keeps s (snd (rateLimit mx addr s))"
  by (rule net_keepsI) (auto simp: rateLimit_def limit_peer_def Let_def split: prod.splits if_splits)

lemma bind_keeps:
  assumes "net_keeps s (snd r)" and "\<And>x s1. net_keeps s s1 \<Longrightarrow> net_keeps s1 (snd (f x s1))"
  shows "net_keeps s (snd (bind_answer r f))"
  using assms by (cases r; cases "fst r") (auto intro: net_keeps_trans)

lemma nc_getNode_heap:
  assumes "nc_getNode alive rnd r nid addr now confirm client c h = Ret (n, c', h')"
  shows "(n, h') = make_node nid addr rnd client h \<or> h' = node_update n addr h \<or> h' = h"
  using assms
  by (auto simp: nc_getNode_def nm_getNode_def bind_outcome_Ret Let_def make_node_def split: if_splits option.splits prod.splits)

lemma cache_inv_get:
  assumes "cache_inv s" and "nc_getNode alive rnd r nid addr now confirm client (ns_cache s) (node_heap_of s) = Ret (n, c, h)"
  shows "nc_ok h c"
proof (cases "hash_bool nid")
  case True
  have "nc_ok (node_heap_of s) (ns_cache s)" using assms(1) by (simp add: cache_inv_def)
  from nc_getNode_effect [OF this True, of alive rnd r addr now confirm client] assms(2) show ?thesis by fastforce
next
  case False
  then have "c = ns_cache s" "(n, h) = make_node nid addr rnd client (node_heap_of s)"
    using assms(2) by (auto simp: nc_getNode_def split: prod.splits)
  then show ?thesis
    using assms(1) nm_ok_heap [of "node_heap_of s" _ h] by (auto simp: cache_inv_def nc_ok_def make_node_def)
qed

lemma getNodeCached_keeps [net_intros]: "net_keeps s (snd (getNodeCached R nid addr confirm client s))"
proof (cases "nc_getNode (ns_alive s) (rv_tid R (ns_draws s)) (rv_place R (ns_draws s)) nid addr (net_now s) confirm client
    (ns_cache s) (node_heap_of s)")
  case (Ret x)
  obtain n c h where x: "x = (n, c, h)" by (cases x)
  note get = Ret [unfolded x]
  have h: "(n, h) = make_node nid addr (rv_tid R (ns_draws s)) client (node_heap_of s) \<or> h = node_update n addr (node_heap_of s)
      \<or> h = node_heap_of s"
    by (rule nc_getNode_heap [OF get])
  let ?s = "snd (getNodeCached R nid addr confirm client s)"
  have eng: "ns_engine ?s = (ns_engine s)\<lparr>nd := nd h\<rparr>" "ns_next_nd ?s = next_nd h" "ns_cache ?s = c"
    using get by (simp_all add: getNodeCached_def)
  have "sound_step (ns_engine s) (ns_engine ?s)" unfolding eng by (rule sound_stepI) auto
  moreover have "ns_next_nd s \<le> next_nd h" "\<forall>n<ns_next_nd s. n_id (nd h n) = n_id (nd (ns_engine s) n)"
    using h by (auto simp: make_node_def node_update_def upd_nd_def node_heap_of_def)
  moreover have "cache_inv ?s" if "cache_inv s"
    using cache_inv_get [OF that get] nm_ok_heap [of h _ "node_heap_of ?s"]
    by (auto simp: cache_inv_def nc_ok_def eng node_heap_of_def)
  ultimately show ?thesis by (simp add: net_keeps_def eng net_now_def)
qed (simp_all add: getNodeCached_def)

section \<open>The contract of the owner\<close>

text \<open>
  What the engine relies on: a callback may send messages and change nodes, but it ends no request twice, leaves the
  identifiers of nodes alone and does not move the clock.
\<close>

definition owner_keeps :: "('d, 'a) owner_call \<Rightarrow> bool" where
  "owner_keeps f \<longleftrightarrow> (\<forall>e d. engine_keeps e (fst (snd (f (e, d)))))"

locale engine_owner =
  fixes H :: "'d owner"
  assumes onError_keeps: "owner_keeps (h_onError H r code)"
    and onNewNode_keeps: "owner_keeps (h_onNewNode H n confirm)"
    and onReportedAddr_keeps: "owner_keeps (h_onReportedAddr H h a)"
    and onPing_keeps: "owner_keeps (h_onPing H n)"
    and onFindNode_keeps: "owner_keeps (h_onFindNode H n h want)"
    and onGetValues_keeps: "owner_keeps (h_onGetValues H n h want q)"
    and onListen_keeps: "owner_keeps (h_onListen H n h token sid q version)"
    and onAnnounce_keeps: "owner_keeps (h_onAnnounce H n h token vs created)"
    and onRefresh_keeps: "owner_keeps (h_onRefresh H n h token vid)"
begin

lemma call_owner_keeps: "owner_keeps f \<Longrightarrow> net_keeps s (snd (call_owner f s))"
  by (rule net_keepsI) (simp_all add: call_owner_def owner_keeps_def case_prod_beta)

lemmas owner_intros = onError_keeps onNewNode_keeps onReportedAddr_keeps onPing_keeps onFindNode_keeps onGetValues_keeps
  onListen_keeps onAnnounce_keeps onRefresh_keeps

lemma deserialize_nodes_keeps: "net_keeps s (snd (deserialize_nodes R H af from nis s))"
proof (induction nis arbitrary: s)
  case (Cons ni nis)
  then show ?case
    by (auto simp: Let_def intro!: bind_keeps net_intros call_owner_keeps owner_intros)
qed simp

lemma deserializeNodes_keeps: "net_keeps s (snd (deserializeNodes R H m from s))"
  by (auto simp: deserializeNodes_def intro!: bind_keeps deserialize_nodes_keeps)

lemma new_node_keeps:
  "net_keeps s (snd (let s = on_engine (node_received n t req) s
     in if \<not> is_client (nd (ns_engine s) n) then call_owner (h_onNewNode H n c) s else (Answer (), s)))"
  using net_keeps_trans [OF received_keeps [of s n t req] call_owner_keeps [OF onNewNode_keeps, of _ n c]]
  by (simp add: Let_def received_keeps)

lemma process_update_keeps: "net_keeps s (snd (process_update R H n m from s))"
  by (auto simp: process_update_def intro!: bind_keeps net_keeps_trans [OF received_keeps call_owner_keeps]
      net_intros deserializeNodes_keeps owner_intros split: option.splits)

lemma process_error_keeps: "net_keeps s (snd (process_error R H m req s))"
proof (cases req)
  case (Some r)
  let ?e = "upd_rq r (\<lambda>q. q\<lparr>last_try := time_min, rq_reply_time := time_min\<rparr>) (ns_engine s)"
  let ?s = "s\<lparr>ns_engine := snd (req_setError (rv_handled R r) r ?e)\<rparr>"
  have "engine_keeps (ns_engine s) (snd (req_setError (rv_handled R r) r ?e))"
    by (rule engine_keeps_trans [OF upd_rq_keeps req_setError_keeps]) simp
  then have "net_keeps s ?s" by (intro net_keepsI) simp_all
  moreover from this have "net_keeps s (snd (call_owner (h_onError H r (pm_error_code m)) ?s))"
    by (rule net_keeps_trans [OF _ call_owner_keeps [OF onError_keeps]])
  ultimately show ?thesis by (simp add: process_error_def Some Let_def case_prod_beta)
qed (simp add: process_error_def)

lemma complete_request_keeps: "net_keeps s (snd (complete_request R H m from r s))"
proof -
  let ?q = "rq (ns_engine s) r"
  let ?s1 = "if confirms (rq_type ?q) then on_engine (authSuccess (rq_node ?q)) s else s"
  have "net_keeps s ?s1" by (simp add: on_engine_keeps authSuccess_keeps)
  moreover have "net_keeps s1 (on_engine (upd_rq r (\<lambda>q. q\<lparr>rq_reply_time := net_now s1\<rparr>)) s1)" for s1
    by (rule on_engine_keeps, rule upd_rq_keeps) simp
  ultimately have "net_keeps s (on_engine (upd_rq r (\<lambda>q. q\<lparr>rq_reply_time := net_now ?s1\<rparr>)) ?s1)"
    by (rule net_keeps_trans)
  moreover have "net_keeps s1 (snd (bind_answer (deserializeNodes R H m from s1) (\<lambda>m s.
      let s' = on_engine (req_setDone r) s
      in (Answer (), if pending (rq (ns_engine s) r) then deliver (ReplyTo r m) s' else s'))))" for s1
  proof (rule bind_keeps [OF deserializeNodes_keeps])
    fix x s2
    have fin: "net_keeps s2 (on_engine (req_setDone r) s2)" by (rule on_engine_keeps, rule req_setDone_keeps)
    then show "net_keeps s2 (snd (let s' = on_engine (req_setDone r) s2
        in (Answer (), if pending (rq (ns_engine s2) r) then deliver (ReplyTo r x) s' else s')))"
      by (simp add: Let_def net_keeps_trans [OF fin field_keeps(2)])
  qed
  ultimately show ?thesis unfolding complete_request_def Let_def by (rule net_keeps_trans)
qed

lemma process_reply_keeps: "net_keeps s (snd (process_reply R H n m from req rsocket s))"
  unfolding process_reply_def
  by (rule bind_keeps [OF new_node_keeps], rule bind_keeps [OF call_owner_keeps [OF onReportedAddr_keeps]])
    (auto intro!: process_error_keeps complete_request_keeps bind_keeps deserializeNodes_keeps net_intros split: option.splits)

lemma adopt_request_keeps: "net_keeps s (snd (adopt_request n t s))"
proof -
  have "engine_keeps e ((upd_rq r (\<lambda>q. q\<lparr>rq_node := n\<rparr>) e)\<lparr>eng_requests := x\<rparr>)" for e r x
    by (auto simp: engine_keeps_def upd_rq_def same_ids_def intro!: sound_stepI)
  then show ?thesis
    by (auto simp: adopt_request_def Let_def intro!: net_keepsI split: option.splits)
qed

lemma process_response_keeps: "net_keeps s (snd (process_response R H n m from s))"
proof -
  obtain req s1 where a: "adopt_request n (pm_tid m) s = (req, s1)" by fastforce
  have "net_keeps s s1" using adopt_request_keeps [of s n "pm_tid m"] a by simp
  then have "net_keeps s (snd (process_reply R H n m from req rsocket s1))"
    and "net_keeps s (snd (let s = on_engine (node_received n (net_now s1) None) s1
      in if \<not> is_client (nd (ns_engine s) n) then call_owner (h_onNewNode H n 1) s else (Answer (), s)))" for rsocket
    using net_keeps_trans process_reply_keeps new_node_keeps by blast+
  then show ?thesis
    using process_reply_keeps by (auto simp: process_response_def Let_def a split: option.splits)
qed

lemma send_nodes_keeps: "net_keeps s (snd (send_nodes R from m h vs q a s))"
  by (rule net_keepsI) (use sendNodesValues_keeps in \<open>auto simp: send_nodes_def Let_def split: prod.splits\<close>, metis snd_conv)

lemma answer_keeps:
  assumes "owner_keeps f" and "\<And>e. engine_keeps e (g e)"
  shows "net_keeps s (snd (bind_answer (call_owner f (count_in c s)) (\<lambda>_ s. (Answer (), on_engine g s))))"
    and "net_keeps s (snd (bind_answer (call_owner f s) (\<lambda>_ s. (Answer (), on_engine g s))))"
  by (auto intro!: bind_keeps net_keeps_trans [OF field_keeps(1) call_owner_keeps] call_owner_keeps assms on_engine_keeps)

lemma nodes_answer_keeps:
  assumes "owner_keeps f"
  shows "net_keeps s (snd (bind_answer (call_owner f (count_in c s)) (\<lambda>a s. send_nodes R from m h (vs a) q a s)))"
  by (rule bind_keeps [OF net_keeps_trans [OF field_keeps(1) call_owner_keeps [OF assms]] send_nodes_keeps])

lemma update_keeps: "net_keeps s (snd (handle_request R H UpdateValue n m from s))"
proof -
  have "net_keeps s (case x of Some cb \<Rightarrow> deliver (SocketData cb n m) (count_in c s) | None \<Rightarrow> count_in c s)" for x c
    by (auto intro: net_keeps_trans [OF field_keeps(1) field_keeps(2)] field_keeps split: option.splits)
  then show ?thesis by (simp add: Let_def on_engine_trans answers_keep)
qed

lemma handle_request_keeps: "net_keeps s (snd (handle_request R H ty n m from s))"
proof (cases ty)
  case AnnounceValue
  have "engine_keeps e (fold (\<lambda>v. sendValueAnnounced (rv_net R) from (pm_tid m) (v_id v)) (pm_values m) e)" for e
    by (rule engine_keeps_fold, rule answers_keep)
  then show ?thesis by (simp add: AnnounceValue answer_keeps onAnnounce_keeps)
qed (simp_all add: answer_keeps answers_keep owner_intros update_keeps nodes_answer_keeps nodes_answer_keeps [where vs = "\<lambda>_. []"] del: handle_request.simps(7))

lemma process_keeps: "net_keeps s (snd (process R H m from s))"
proof -
  have "net_keeps s (snd (catch_request R m from res))" if "net_keeps s (snd res)" for s res
    using that
    by (auto simp: catch_request_def intro: on_engine_trans keeps_intros split: prod.splits answer.splits)
  then have "net_keeps s (snd (process_request R H n m from s))" for n s
    unfolding process_request_def by (rule bind_keeps [OF new_node_keeps]) (rule handle_request_keeps)
  then show ?thesis
    unfolding process_def
    by (intro bind_keeps net_intros) (simp add: process_update_keeps process_response_keeps)
qed

lemma process_part_keeps: "net_keeps s (snd (process_part R H m from s))"
proof -
  have put: "net_keeps s (s\<lparr>ns_partial := p, ns_rx_jobs := j\<rparr>)" for p j by (rule net_keepsI) simp_all
  have "net_keeps s (snd (bind_answer (process R H pm from (s\<lparr>ns_partial := p\<rparr>)) (\<lambda>_ s.
      (Answer (), s\<lparr>ns_partial := map_erase t (ns_partial s)\<rparr>))))" for pm p t
    by (rule bind_keeps [OF net_keeps_trans [OF field_keeps(5) process_keeps]]) (simp add: net_intros)
  then show ?thesis
    by (auto simp: process_part_def Let_def intro: net_intros put split: option.splits prod.splits outcome.splits bool.splits)
qed

lemma process_parsed_keeps: "net_keeps s (snd (process_parsed R H m from s))"
proof -
  obtain ok s1 where r: "rateLimit (rv_max_peer_req R) from s = (ok, s1)" by fastforce
  have "net_keeps s s1" using rateLimit_keeps [of s "rv_max_peer_req R" "from"] r by simp
  then have "net_keeps s (snd (process R H m from s1))" "net_keeps s (start_partial m from s1)"
    using net_keeps_trans process_keeps field_keeps(3) by blast+
  then show ?thesis
    using \<open>net_keeps s s1\<close> by (simp add: process_parsed_def r process_keeps field_keeps process_part_keeps)
qed

lemma processMessage_keeps: "net_keeps s (snd (processMessage R H buf f s))"
  using process_parsed_keeps by (auto simp: processMessage_def Let_def split: option.splits outcome.splits)

end

section \<open>The receiver as an event machine\<close>

text \<open>
  Datagrams arrive, the jobs that watch over parts run, and the engine's other operations (sends, attempts, replies,
  cancellations) go on in between.
\<close>

datatype recv_event =
    Arrives time_point "nref \<Rightarrow> bool" bytes sock_addr
  | RxJob time_point tid
  | Operates engine_event

definition at_time :: "time_point \<Rightarrow> 'd net_state \<Rightarrow> 'd net_state" where
  "at_time t s = s\<lparr>ns_engine := (ns_engine s)\<lparr>eng_now := t\<rparr>\<rparr>"

fun recv_apply :: "recv_env \<Rightarrow> 'd owner \<Rightarrow> recv_event \<Rightarrow> 'd net_state \<Rightarrow> 'd net_state" where
  "recv_apply R H (Arrives t alive buf from) s = snd (processMessage R H buf from ((at_time t s)\<lparr>ns_alive := alive\<rparr>))"
| "recv_apply R H (RxJob t k) s = maintainRxBuffer k (at_time t s)"
| "recv_apply R H (Operates ev) s = on_engine (engine_apply (rv_net R) ev) s"

inductive recv_step :: "recv_env \<Rightarrow> 'd owner \<Rightarrow> 'd net_state \<Rightarrow> recv_event \<Rightarrow> 'd net_state \<Rightarrow> bool" for R H where
  "recv_step R H s ev (recv_apply R H ev s)"

inductive_cases recv_stepE: "recv_step R H s ev s'"

definition recv_inv :: "'d net_state \<Rightarrow> bool" where
  "recv_inv s \<longleftrightarrow> once_ok (ns_engine s) \<and> cache_inv s"

definition recv_settles :: "'d net_state \<Rightarrow> 'd net_state \<Rightarrow> bool" where
  "recv_settles s s' \<longleftrightarrow> settles (ns_engine s) (ns_engine s')"

lemma at_time_sound: "sound_step (ns_engine s) (ns_engine ((at_time t s)\<lparr>ns_alive := a\<rparr>))"
  by (rule sound_stepI) (auto simp: at_time_def)

lemma at_time_cache: "cache_inv ((at_time t s)\<lparr>ns_alive := a\<rparr>) = cache_inv s" "cache_inv (at_time t s) = cache_inv s"
  by (simp_all add: cache_inv_def at_time_def node_heap_of_def)

context engine_owner
begin

lemma recv_apply_sound:
  "sound_step (ns_engine s) (ns_engine (recv_apply R H ev s)) \<and> (cache_inv s \<longrightarrow> cache_inv (recv_apply R H ev s))"
proof (cases ev)
  case (Arrives t alive buf f)
  then show ?thesis
    using processMessage_keeps [of "(at_time t s)\<lparr>ns_alive := alive\<rparr>" R buf f] at_time_sound [where t = t and s = s and a = alive]
    by (auto simp: net_keeps_def at_time_cache intro: sound_step_trans)
next
  case (RxJob t k)
  then show ?thesis
    using RxJob field_keeps(4) [of "at_time t s" k] at_time_sound [where t = t and s = s]
    by (auto simp: net_keeps_def at_time_cache intro: sound_step_trans)
next
  case (Operates ev)
  then show ?thesis
    using engine_apply_sound same_ids_apply cache_inv_engine [of s "on_engine (engine_apply (rv_net R) ev) s"]
    by (auto simp: on_engine_def)
qed

end

sublocale engine_owner \<subseteq> receiver: event_machine "recv_step R H" recv_inv recv_settles for R
proof
  fix s ev s'
  assume "recv_step R H s ev s'"
  then have s': "s' = recv_apply R H ev s" by (auto elim: recv_stepE)
  show "recv_inv s \<Longrightarrow> recv_inv s'" and "recv_settles s s'"
    using recv_apply_sound [of s R ev] by (auto simp: s' recv_inv_def recv_settles_def sound_step_def)
qed (auto simp: recv_settles_def intro: settles_trans)

end
