(* ===== verification/Dht_Contract.thy ===== *)
theory Dht_Contract
  imports Dht_Core Engine_Receive_Inv
begin

text \<open>
  The node fulfils the contract of the network engine: none of its handlers ends a request twice, changes the identifier of a
  node or moves the clock. With the contract come the properties of receiving, for the node as the owner.
\<close>

section \<open>Operations of searches\<close>

definition world_keeps :: "search_world \<Rightarrow> search_world \<Rightarrow> bool" where
  "world_keeps w w' \<longleftrightarrow> sound_step w w' \<and> same_ids w w'"

named_theorems world_intros \<open>operations of searches on the shared objects\<close>

lemma world_keeps_refl [simp, world_intros]: "world_keeps w w"
  by (simp add: world_keeps_def same_ids_def)

lemma world_keeps_trans: "world_keeps w w1 \<Longrightarrow> world_keeps w1 w2 \<Longrightarrow> world_keeps w w2"
  by (auto simp: world_keeps_def intro: sound_step_trans same_ids_trans)

lemma world_keeps_fold: "(\<And>x w. world_keeps w (f x w)) \<Longrightarrow> world_keeps w (fold f xs w)"
  by (induction xs arbitrary: w) (auto intro: world_keeps_trans)

lemma world_fields [world_intros]: "world_keeps w (w\<lparr>w_sched := sc\<rparr>)" "world_keeps w (w\<lparr>w_log := l\<rparr>)"
  "world_keeps w (w\<lparr>w_sched := sc, w_log := l\<rparr>)"
  by (auto simp: world_keeps_def same_ids_def intro!: sound_stepI)

lemma world_upd_nd [world_intros]: "(\<And>x. n_id (f x) = n_id x \<and> n_addr (f x) = n_addr x) \<Longrightarrow> world_keeps w (upd_nd n f w)"
  by (simp add: world_keeps_def upd_nd_sound same_ids_upd_nd)

lemma same_ids_cancelRequest: "same_ids h (node_cancelRequest n req h)"
  by (cases req) (auto simp: node_cancelRequest_def req_cancel_def heap_defs same_ids_def)

lemma world_cancelRequest [world_intros]: "world_keeps w (node_cancelRequest n req w)"
  by (simp add: world_keeps_def node_cancelRequest_sound same_ids_cancelRequest)

lemma world_cancelGet [world_intros]: "world_keeps w (snd (cancelGet n w))"
  by (auto simp: cancelGet_def intro!: world_keeps_fold world_cancelRequest split: prod.splits)

lemma world_closeSocket [world_intros]: "world_keeps w (closeSocket n t w)"
  by (simp add: closeSocket_def world_upd_nd)

lemma world_destroy_listen [world_intros]: "world_keeps w (destroy_listen x w)"
  by (auto simp: destroy_listen_def Let_def intro!: world_fields world_keeps_trans [OF world_closeSocket world_fields(2)] split: option.splits)

lemma world_cancelListen [world_intros]: "world_keeps w (snd (cancelListen_all n w))"
  by (auto simp: cancelListen_all_def Let_def intro!: world_keeps_trans [OF world_keeps_fold world_keeps_fold] world_cancelRequest
      world_destroy_listen split: prod.splits)

lemma world_cancelAnnounce [world_intros]: "world_keeps w (snd (cancelAnnounce n w))"
  by (auto simp: cancelAnnounce_def intro!: world_keeps_fold world_cancelRequest split: prod.splits option.splits)

lemma world_destroy [world_intros]: "world_keeps w (destroy_search_node n w)"
  unfolding destroy_search_node_def Let_def case_prod_beta
  by (blast intro: world_keeps_trans world_intros)

lemma world_destroy_nodes [world_intros]: "world_keeps w (destroy_nodes ns w)"
  unfolding destroy_nodes_def by (rule world_keeps_fold, rule world_destroy)

lemma world_trim_back: "world_keeps w (snd (trim_back ex bad ns w))"
proof (induction ex bad ns w rule: trim_back.induct)
  case (1 ex bad ns w)
  then show ?case
    by (subst trim_back.simps) (auto intro: world_keeps_trans [OF world_destroy])
qed

lemma world_add_node: "world_keeps w (snd (add_node node now i bad s w))"
proof -
  have "world_keeps w (upd_nd node (\<lambda>x. x\<lparr>n_time := now\<rparr>) w)" by (rule world_upd_nd) simp
  then have "world_keeps w (snd (trim_back ex bad ns (upd_nd node (\<lambda>x. x\<lparr>n_time := now\<rparr>) w)))" for ex bad ns
    by (rule world_keeps_trans [OF _ world_trim_back])
  then show ?thesis by (simp add: add_node_def Let_def case_prod_beta)
qed

lemma world_removeExpired: "removeExpiredNode now s w = (b, s', w') \<Longrightarrow> world_keeps w w'"
  by (auto simp: removeExpiredNode_def intro: world_destroy split: option.splits)

lemma world_insertNode:
  assumes "insertNode node now token s w = Ret (b, s', w')"
  shows "world_keeps w w'"
proof -
  obtain full t bad where fa: "full_at s w = (full, t, bad)" by (metis prod_cases3)
  define w1 where "w1 = (if full then destroy_nodes (drop t (s_nodes s)) w else w)"
  have w1: "world_keeps w w1" by (simp add: w1_def world_destroy_nodes)
  have add: "snd (removeExpiredNode now s3 (snd (add_node node now i bad s1 w1))) = (s4, w4) \<Longrightarrow> world_keeps w w4" for s3 i s1 s4 w4
    using world_keeps_trans [OF world_keeps_trans [OF w1 world_add_node] world_removeExpired] by (metis prod.collapse snd_conv)
  obtain found i where place: "find_place (\<lambda>n. sn_node n = node)
      (\<lambda>n. xorCmp (s_id s) (n_id (nd w node)) (n_id (nd w (sn_node n))) > 0) (s_nodes s) (length (s_nodes s)) = (found, i)"
    by fastforce
  show ?thesis
  proof (cases "getFamily (n_addr (nd w node)) \<noteq> s_af s \<or> found \<or> full \<and> i \<ge> t")
    case True
    then show ?thesis
      using assms by (auto simp: insertNode_def place fa Let_def bind_outcome_Ret intro: world_destroy_nodes split: if_splits)
  next
    case False
    then show ?thesis
      using assms add [unfolded w1_def]
      by (cases full) (auto simp: insertNode_def place fa Let_def bind_outcome_Ret case_prod_beta)
  qed
qed

lemma world_edit_step: "world_keeps w (snd (edit_step t s w))"
  by (auto simp: edit_step_def intro: world_fields split: prod.splits)

lemma world_insert_run:
  "insert_run n now ks (ins, srs, w) = Ret (ins', srs', w') \<Longrightarrow> world_keeps w w'"
proof (induction ks arbitrary: ins srs w)
  case (Cons k ks)
  show ?case
  proof (cases "map_of srs k")
    case (Some s)
    then obtain b s1 w1 where step: "insertNode n now [] s w = Ret (b, s1, w1)"
      using Cons.prems by (auto simp: bind_outcome_Ret)
    have "world_keeps w w1" by (rule world_insertNode [OF step])
    moreover have "world_keeps w1 w'"
    proof (cases b)
      case True
      obtain s2 w2 where "edit_step now s1 w1 = (s2, w2)" by fastforce
      then show ?thesis
        using True Cons.prems Some step Cons.IH world_edit_step [of w1 now s1] by (auto intro: world_keeps_trans)
    next
      case False
      then show ?thesis using Cons.prems Some step Cons.IH by (auto split: if_splits)
    qed
    ultimately show ?thesis by (rule world_keeps_trans)
  qed (use Cons.prems in simp)
qed simp

section \<open>From searches to the engine\<close>

lemma once_ok_world: "once_ok (world_of (e, d)) = once_ok e"
  by (simp add: once_ok_def world_of_def finals_def)

lemma put_world_keeps:
  assumes "world_keeps (world_of (e, d)) w"
  shows "engine_keeps e (fst (put_world w (e, d)))"
proof -
  let ?e = "fst (put_world w (e, d))"
  have "once_ok ?e = once_ok w" by (simp add: once_ok_def put_world_def finals_def)
  moreover have "settles e ?e = settles (world_of (e, d)) w" by (simp add: settles_def put_world_def world_of_def)
  ultimately show ?thesis
    using assms by (auto simp: world_keeps_def engine_keeps_def sound_step_def once_ok_world) (simp_all add: same_ids_def put_world_def world_of_def)
qed

lemma trySearchInsert_keeps: "engine_keeps e (fst (snd (trySearchInsert n (e, d))))"
proof -
  let ?af = "getFamily (n_addr (nd e n))"
  let ?srs = "k_searches (dht_af ?af d)"
  let ?up = "filter (\<lambda>k. \<not> k < n_id (nd e n)) (map fst ?srs)"
  let ?down = "rev (filter (\<lambda>k. k < n_id (nd e n)) (map fst ?srs))"
  let ?run = "bind_outcome (insert_run n (eng_now e) ?up (False, ?srs, world_of (e, d))) (insert_run n (eng_now e) ?down)"
  have "engine_keeps e (fst (put_world w (e, d)))" if "?run = Ret (ins, srs, w)" for ins srs w
  proof (rule put_world_keeps)
    obtain i1 s1 w1 where "insert_run n (eng_now e) ?up (False, ?srs, world_of (e, d)) = Ret (i1, s1, w1)"
        "insert_run n (eng_now e) ?down (i1, s1, w1) = Ret (ins, srs, w)"
      using \<open>?run = Ret (ins, srs, w)\<close> by (auto simp: bind_outcome_Ret)
    then show "world_keeps (world_of (e, d)) w"
      by (blast intro: world_insert_run world_keeps_trans)
  qed
  then show ?thesis
    by (auto simp: trySearchInsert_def Let_def case_prod_beta split: outcome.splits)
qed

section \<open>The routing table\<close>

lemma ping_dubious_keeps: "engine_keeps e (snd (ping_dubious (engine_service E) now ns e))"
  by (induction ns arbitrary: e) (auto simp: engine_service_def intro: keeps_intros)

lemma sendCachedPing_keeps: "engine_keeps e (snd (sendCachedPing (engine_service E) b e))"
  by (auto simp: sendCachedPing_def engine_service_def intro: keeps_intros split: option.splits)

lemma onNewNode_pass_keeps:
  "onNewNode_pass (engine_service E) n c now me rt e = Inl (fresh, rt1, e1) \<Longrightarrow> engine_keeps e e1"
  "onNewNode_pass (engine_service E) n c now me rt e = Inr (rt2, e2) \<Longrightarrow> engine_keeps e e2"
proof -
  have dub: "ping_dubious (engine_service E) now ns e = (b, e1) \<Longrightarrow> engine_keeps e e1" for ns b e1
    using ping_dubious_keeps [of e E now ns] by simp
  then have "ping_dubious (engine_service E) now ns e = (b, e1) \<Longrightarrow> sendCachedPing (engine_service E) x e1 = (y, e2) \<Longrightarrow> engine_keeps e e2"
    for ns b e1 x y e2
    using sendCachedPing_keeps [of e1 E x] by (auto intro: engine_keeps_trans)
  with dub show "onNewNode_pass (engine_service E) n c now me rt e = Inl (fresh, rt1, e1) \<Longrightarrow> engine_keeps e e1"
    and "onNewNode_pass (engine_service E) n c now me rt e = Inr (rt2, e2) \<Longrightarrow> engine_keeps e e2"
    by (auto simp: onNewNode_pass_def Let_def split: option.splits if_splits prod.splits)
qed

lemma onNewNode_keeps: "onNewNode k (engine_service E) n c now me rt e = Some (fresh, rt1, e1) \<Longrightarrow> engine_keeps e e1"
proof (induction k arbitrary: rt e)
  case (Suc k)
  then show ?case
    by (auto dest: onNewNode_pass_keeps intro: engine_keeps_trans split: sum.splits)
qed simp

lemma bind_engine_keeps:
  assumes "engine_keeps e (fst (snd r))" and "\<And>y x. engine_keeps (fst x) (fst (snd (f y x)))"
  shows "engine_keeps e (fst (snd (bind_answer r f)))"
  using assms by (cases r; cases "fst r") (auto intro: engine_keeps_trans)

lemma dht_onNewNode_keeps: "owner_keeps (dht_onNewNode V n confirm)"
proof -
  have "engine_keeps e (fst (snd (bind_answer (trySearchInsert n (e1, d)) g)))"
    if "engine_keeps e e1" and "\<And>y x. fst (snd (g y x)) = fst x" for e e1 d and g :: "bool \<Rightarrow> dht_world \<Rightarrow> unit answer \<times> dht_world"
    using that by (intro bind_engine_keeps engine_keeps_trans [OF that(1) trySearchInsert_keeps]) simp_all
  then show ?thesis
    unfolding owner_keeps_def dht_onNewNode_def
    by (auto simp: Let_def case_prod_beta split: option.splits dest: onNewNode_keeps)
qed

section \<open>Requests\<close>

lemma and_then_keeps:
  assumes "engine_keeps e (snd r)" and "\<And>y e. engine_keeps e (snd (f y e))"
  shows "engine_keeps e (snd (and_then r f))"
  using assms by (cases r; cases "fst r") (auto intro: engine_keeps_trans)

lemma launch_ret_keeps: "engine_keeps e (snd (let (r, e) = launch E ty t n m parts err e in (Ret r, count_out f e)))"
  using launched_keeps [OF engine_keeps_refl] by (simp add: case_prod_beta Let_def)

lemma sendGetValues_keeps: "engine_keeps e (snd (sendGetValues E n h q w e))"
  unfolding sendGetValues_def Let_def case_prod_beta [of _ "getNewTid n e"]
  by (rule and_then_keeps) (simp_all add: getNewTid_keeps launch_ret_keeps [unfolded Let_def])

lemma sendUpdateValues_keeps: "engine_keeps e (snd (sendUpdateValues E n h vs created token socket e))"
  unfolding sendUpdateValues_def Let_def case_prod_beta [of _ "getNewTid n e"] case_prod_beta [of _ "packValueHeader vs"]
  by (rule and_then_keeps) (simp_all add: getNewTid_keeps launch_ret_keeps [unfolded Let_def])

lemma tellListener_keeps: "engine_keeps e (snd (tellListener E n sid h want token n4 n6 vs q version e))"
  by (auto simp: tellListener_def case_prod_beta Let_def intro!: and_then_keeps sendUpdateValues_keeps sendNodesValues_keeps)

lemma tell_ids_keeps: "engine_keeps e (tell_ids E key n sid token ids version e)"
  by (auto simp: tell_ids_def Let_def case_prod_beta intro!: launched_keeps keeps_intros)

lemma tell_keeps: "engine_keeps e (snd (tell E ev e))"
  using tellListener_keeps tell_ids_keeps
  by (auto simp: tell_def tellListenerExpired_def tellListenerRefreshed_def case_prod_beta split: store_event.splits)

lemma tell_all_keeps: "engine_keeps e (snd (tell_all E evs e))"
proof (induction evs arbitrary: e)
  case (Cons ev evs)
  obtain r e1 where t: "tell E ev e = (r, e1)" by fastforce
  then have "engine_keeps e e1" using tell_keeps [of e E ev] by simp
  then show ?case using t Cons.IH by (cases r) (auto intro: engine_keeps_trans)
qed simp

lemma store_result_keeps: "engine_keeps e (fst (snd (store_result V err s (e, d))))"
  using tell_all_keeps [of e] by (auto simp: store_result_def Let_def case_prod_beta split: answer.splits option.splits)

section \<open>Searches that send\<close>

lemma track_request_keeps: "engine_keeps e (fst (snd (track_request q n r s (e, d))))"
proof -
  have "world_keeps w (snd (searchNodeGetExpired n b q s w))" for s w b
    by (simp add: searchNodeGetExpired_def world_edit_step)
  then show ?thesis by (auto simp: track_request_def case_prod_beta Let_def intro!: put_world_keeps)
qed

lemma send_find_keeps: "engine_keeps e (fst (snd (send_find V q n s (e, d))))"
  using engine_keeps_trans [OF requests_keep(2) track_request_keeps] by (simp add: send_find_def case_prod_beta Let_def)

lemma send_get_keeps: "engine_keeps e (fst (snd (snd (send_get V q qv n s (e, d)))))"
proof -
  obtain r e1 where g: "sendGetValues (dv_net V) n (s_id s) qv (- 1) e = (r, e1)" by fastforce
  then have "engine_keeps e e1" using sendGetValues_keeps [of e "dv_net V" n "s_id s" qv "- 1"] by simp
  then show ?thesis by (auto simp: send_get_def g intro: engine_keeps_trans [OF _ track_request_keeps] split: outcome.splits)
qed

lemma paginate_keeps: "engine_keeps e (fst (snd (snd (paginate V q n s (e, d)))))"
  by (simp add: paginate_def Let_def send_get_keeps)

lemma send_gets_keeps: "engine_keeps e (fst (snd (snd (send_gets V pn u gs s (e, d)))))"
proof (induction gs)
  case (Cons g gs)
  then show ?case
    by (cases g) (auto simp: Let_def case_prod_beta send_get_keeps paginate_keeps split: option.splits)
qed simp

lemma searchSendGetValues_keeps: "engine_keeps e (fst (snd (snd (searchSendGetValues V pn u s (e, d)))))"
  by (auto simp: searchSendGetValues_def Let_def case_prod_beta send_find_keeps send_gets_keeps split: option.splits)

lemma flush_token_keeps: "engine_keeps e (fst (snd (snd (flush_token V n s (e, d)))))"
proof -
  have "engine_keeps e (fst (put_world (snd (edit_step t s1 (world_of x))) x))"
    if "searchSendGetValues V None True s0 (e, d) = (r, s1, x)" for s0 r s1 x t
    using searchSendGetValues_keeps [of e V None True s0 d] that put_world_keeps [of "fst x" "snd x", OF world_edit_step, of t s1]
    by (auto intro: engine_keeps_trans)
  moreover have "engine_keeps e (fst x)" if "searchSendGetValues V None True s0 (e, d) = (r, s1, x)" for s0 r s1 x
    using searchSendGetValues_keeps [of e V None True s0 d] that by simp
  ultimately show ?thesis
    by (fastforce simp: flush_token_def Let_def case_prod_beta [of _ "edit_step _ _ _"] split: prod.splits outcome.splits)
qed

lemma flush_tokens_keeps: "engine_keeps e (fst (snd (flush_tokens V n af ks (e, d))))"
proof (induction ks arbitrary: e d)
  case (Cons k ks)
  show ?case
  proof (cases "map_of (k_searches (dht_af af d)) k")
    case (Some s)
    obtain r s1 e1 d1 where f: "flush_token V n s (e, d) = (r, s1, e1, d1)" by (metis prod_cases4)
    then have "engine_keeps e e1" using flush_token_keeps [of e V n s d] by simp
    moreover have "engine_keeps (fst x) (fst (snd (flush_tokens V n af ks x)))" for x using Cons.IH by (cases x) simp
    ultimately show ?thesis using Some f by (simp add: bind_engine_keeps)
  qed (use Cons.IH in simp)
qed simp

lemma authError_keeps: "engine_keeps e (authError n e)"
  using same_ids_apply [of e undefined "Ev_auth_error n"]
  by (simp add: engine_keeps_def authError_sound) (simp add: authError_def Let_def upd_nd_def)

lemma cancel_keeps: "engine_keeps e (node_cancelRequest n req e)"
  by (simp add: engine_keeps_def node_cancelRequest_sound same_ids_cancelRequest)
    (cases req, auto simp: node_cancelRequest_def req_cancel_def heap_defs)

lemma dht_onError_keeps: "owner_keeps (dht_onError V r code)"
  unfolding owner_keeps_def dht_onError_def Let_def
  using engine_keeps_trans [OF authError_keeps flush_tokens_keeps] cancel_keeps by simp

section \<open>The contract\<close>

interpretation node: engine_owner "dht_owner V" for V
proof
  show "owner_keeps (h_onAnnounce (dht_owner V) n h token vs created)" for n h token vs created
    by (auto simp: dht_owner_def owner_keeps_def dht_onAnnounce_def store_result_keeps split: option.splits outcome.splits prod.splits)
qed (simp_all add: dht_owner_def dht_onError_keeps dht_onNewNode_keeps,
  simp_all add: owner_keeps_def dht_onReportedAddr_def dht_onPing_def dht_onFindNode_def dht_onGetValues_def dht_onListen_def
    dht_onRefresh_def store_result_keeps case_prod_beta)

end
