(* ===== verification/Wire_Values.thy ===== *)
theory Wire_Values
  imports Engine_Messages
begin

text \<open>
  Values that are too large for one packet, from the sender's parts (\<open>sendValueParts\<close>) to the receiver's buffers
  (\<open>ParsedMessage::append\<close>, \<open>ParsedMessage::complete\<close>), over a network that loses, repeats and reorders packets.
\<close>

section \<open>A part on the wire\<close>

definition part_tree :: "net_env \<Rightarrow> tid \<Rightarrow> uint32 \<times> uint64 \<times> bytes \<Rightarrow> msgpack_object" where
  "part_tree E t p = (case p of (i, off, d) \<Rightarrow> MAP (net_entries E @ [(key_obj ''y'', key_obj ''p''), (key_obj ''t'', num_obj t),
     (key_obj ''p'', MAP [(num_obj i, MAP [(key_obj ''o'', num_obj off), (key_obj ''d'', BIN d)])])]))"

definition part_message :: "net_env \<Rightarrow> tid \<Rightarrow> uint32 \<times> uint32 \<times> bytes \<Rightarrow> parsed_message" where
  "part_message E t p = new_message\<lparr>pm_type := ValueData, pm_network := network E, pm_tid := t, pm_value_parts := [p]\<rparr>"

lemma pack_number_64: "pack_number (n :: uint64) = pack_uint64 n"
  by (simp add: pack_number_def)

lemma pack_part_tree: "pack_obj (part_tree E t (of_nat i, of_nat off, d)) = part_msg E t i off d"
  by (simp add: part_tree_def part_msg_def net_entries_def net_count_def pack_net_def pack_number_32 pack_number_64 eval_nat_numeral)

lemma part_tree_ok: "length d < 2 ^ 32 \<Longrightarrow> obj_ok (part_tree E t (i, off, d))"
  by (simp add: part_tree_def net_entries_def)

lemma fold_net:
  "fold_outcome (on_key top_field) (net_entries E) (p, m) = Ret (p, m\<lparr>pm_network := (if network E \<noteq> 0 then network E else pm_network m)\<rparr>)"
  by (simp add: net_entries_def top_field_def)

lemma parse_part:
  "message_unpack P (part_tree E t (i, off, d)) = Ret (part_message E t (i, ucast off, d))"
  by (simp add: part_tree_def message_unpack_def fold_outcome_append fold_net top_field_def no_parsed_def message_kind_def
      value_part_def findMapValue_def unpackBlob_def part_message_def new_message_def map_emplace_def)

lemma part_understood:
  assumes "msgpack_parser (pe_unpack P)" and "length d < 2 ^ 32" and "off < 2 ^ 32"
  shows "understood P (part_msg E t i off d) (part_message E t (of_nat i, of_nat off, d))"
proof -
  have "pe_unpack P (part_msg E t i off d) = Some (part_tree E t (of_nat i, of_nat off, d))"
    using msgpack_parser.unpack_exact [OF assms(1) part_tree_ok [OF assms(2)]] by (simp flip: pack_part_tree)
  moreover have "(ucast (of_nat off :: uint64) :: uint32) = of_nat off"
    using assms(3) by (simp add: word_unat_eq_iff unsigned_ucast_eq unat_of_nat take_bit_eq_mod)
  ultimately show ?thesis by (simp add: understood_def parse_part)
qed

section \<open>Collecting parts\<close>

definition sent_parts :: "bytes list \<Rightarrow> (uint32 \<times> uint32 \<times> bytes) list" where
  "sent_parts svals = concat (map (\<lambda>(i, v). map (\<lambda>(off, d). (of_nat i, of_nat off, d)) (parts_of v 0)) (enumerate 0 svals))"

lemma parts_of_bound: "st \<le> length v \<Longrightarrow> (off, d) \<in> set (parts_of v st) \<Longrightarrow> off \<le> length v"
proof (induction v st rule: parts_of.induct)
  case (1 v st)
  let ?en = "min (st + MTU) (length v)"
  from "1.prems"(2) have "off = st \<or> ?en \<noteq> length v \<and> (off, d) \<in> set (parts_of v ?en)"
    by (subst (asm) parts_of.simps) (auto simp: Let_def split: if_splits)
  then show ?case using "1.prems"(1) "1.IH" [OF refl refl] by auto
qed

definition collects :: "bytes list \<Rightarrow> value_parts \<Rightarrow> bool" where
  "collects svals parts \<longleftrightarrow> map fst parts = map of_nat [0..<length svals]
     \<and> (\<forall>i<length svals. \<exists>k. map_of parts (of_nat i) = Some (of_nat (length (svals ! i)), take k (svals ! i)))"

definition sizes_ok :: "bytes list \<Rightarrow> bool" where
  "sizes_ok svals \<longleftrightarrow> length svals < 2 ^ 32 \<and> list_all (\<lambda>v. 0 < length v \<and> length v < 2 ^ 32) svals"

lemma map_put_keys: "map_sorted m \<Longrightarrow> map_of m k \<noteq> None \<Longrightarrow> map fst (map_put k v m) = map fst m"
proof (induction k v m rule: map_put.induct)
  case (2 k v k' v' m)
  have "map_of m k = None" if "k < k'"
    using that 2(2) by (force simp: map_sorted_Cons map_of_eq_None_iff)
  then show ?case using 2 by (auto simp: map_sorted_Cons split: if_splits)
qed simp

lemma keys_sorted: "length svals < 2 ^ 32 \<Longrightarrow> map fst parts = map of_nat [0..<length svals] \<Longrightarrow> map_sorted (parts :: value_parts)"
  by (auto simp: map_sorted_def sorted_wrt_map intro!: sorted_wrt_mono_rel [OF of_nat_less sorted_wrt_upt])

lemma of_nat_32_inject: "i < 2 ^ 32 \<Longrightarrow> j < 2 ^ 32 \<Longrightarrow> (of_nat i :: uint32) = of_nat j \<longleftrightarrow> i = j"
  by (metis nat_neq_iff of_nat_less less_irrefl)

lemma sent_part_cases:
  assumes "p \<in> set (sent_parts svals)"
  obtains i off d where "i < length svals" "p = (of_nat i, of_nat off, d)" "off \<le> length (svals ! i)"
    "d = take (length d) (drop off (svals ! i))"
proof -
  from assms obtain i off d where i: "i < length svals" and p: "p = (of_nat i, of_nat off, d)"
    and part: "(off, d) \<in> set (parts_of (svals ! i) 0)"
    by (auto simp: sent_parts_def in_set_enumerate_eq)
  with that show ?thesis using parts_of_cover [of 0 "svals ! i"] parts_of_bound [of 0 "svals ! i" off d] by fastforce
qed

lemma append_collects:
  assumes "sizes_ok svals" and "collects svals parts" and "p \<in> set (sent_parts svals)"
  shows "collects svals (snd (append_part p (r, parts)))"
proof -
  from sent_part_cases [OF assms(3)] obtain i off d where i: "i < length svals" and p: "p = (of_nat i, of_nat off, d)"
    and off: "off \<le> length (svals ! i)" and d: "d = take (length d) (drop off (svals ! i))" by blast
  let ?v = "svals ! i"
  have len: "length svals < 2 ^ 32" "length ?v < 2 ^ 32" using assms(1) i by (auto simp: sizes_ok_def list_all_iff)
  from assms(2) i obtain k where k: "map_of parts (of_nat i) = Some (of_nat (length ?v), take k ?v)" by (auto simp: collects_def)
  have srt: "map_sorted parts" using assms(2) len(1) keys_sorted by (auto simp: collects_def)
  show ?thesis
  proof (cases "length (take k ?v) < length ?v \<and> off = length (take k ?v)")
    case True
    then have ok: "off = k" "k < length ?v" by auto
    with d have "take k ?v @ d = take (k + length d) ?v" by (metis take_add)
    moreover have "append_part p (r, parts) = (True, map_put (of_nat i) (of_nat (length ?v), take k ?v @ d) parts)"
      using ok k p len by (simp add: append_part_def unat_of_nat)
    moreover have "map_of (map_put (of_nat i) x parts) (of_nat j) = (if j = i then Some x else map_of parts (of_nat j))"
      if "j < length svals" for j x
      using that srt i len(1) of_nat_32_inject [of j i] by simp
    ultimately show ?thesis
      using assms(2) k srt by (auto simp: collects_def map_put_keys)
  next
    case False
    then have "append_part p (r, parts) = (r, parts)"
      using k p len off by (auto simp: append_part_def unat_of_nat)
    then show ?thesis using assms(2) by simp
  qed
qed

lemma fold_collects:
  assumes "sizes_ok svals" and "collects svals parts" and "list_all (\<lambda>p. p \<in> set (sent_parts svals)) ps"
  shows "collects svals (snd (fold append_part ps (r, parts)))"
  using assms(2,3)
proof (induction ps arbitrary: r parts)
  case (Cons p ps)
  obtain r' parts' where rp: "append_part p (r, parts) = (r', parts')" by (cases "append_part p (r, parts)")
  then have "collects svals parts'" using append_collects [OF assms(1) Cons.prems(1), of p r] Cons.prems(2) by simp
  then show ?case using Cons.IH Cons.prems(2) rp by simp
qed simp

lemma header_collects: "length svals < 2 ^ 32 \<Longrightarrow> collects svals (header_parts svals)"
proof -
  assume len: "length svals < 2 ^ 32"
  have keys: "map fst (header_parts svals) = map of_nat [0..<length svals]"
    by (rule nth_equalityI) (simp_all add: header_parts_def nth_enumerate_eq)
  have "map_of (header_parts svals) (of_nat i) = Some (of_nat (length (svals ! i)), take 0 (svals ! i))" if "i < length svals" for i
    using that map_of_in_set [OF keys_sorted [OF len keys], of "of_nat i"]
    by (force simp: header_parts_def in_set_enumerate_eq)
  with keys show ?thesis unfolding collects_def by blast
qed

text \<open>When every buffer is full, the buffers are the values.\<close>

lemma collected_all:
  assumes "sizes_ok svals" and "collects svals parts" and "parts_here parts"
  shows "map (\<lambda>p. snd (snd p)) parts = svals"
proof (rule nth_equalityI)
  have len: "length svals < 2 ^ 32" using assms(1) by (simp add: sizes_ok_def)
  have keys: "map fst parts = map of_nat [0..<length svals]" using assms(2) by (simp add: collects_def)
  then have l: "length parts = length svals" by (metis length_map length_upt minus_nat.diff_0)
  then show "length (map (\<lambda>p. snd (snd p)) parts) = length svals" by simp
  fix i
  assume "i < length (map (\<lambda>p. snd (snd p)) parts)"
  then have i: "i < length svals" using l by simp
  have fst: "fst (parts ! i) = of_nat i"
    using arg_cong [OF keys, of "\<lambda>xs. xs ! i"] i l by simp
  have "parts ! i \<in> set parts" using i l by simp
  then have "map_of parts (of_nat i) = Some (snd (parts ! i))"
    using map_of_in_set [OF keys_sorted [OF len keys], of "of_nat i" "snd (parts ! i)"] fst by (metis prod.collapse)
  with assms(2) i obtain k where k: "snd (parts ! i) = (of_nat (length (svals ! i)), take k (svals ! i))"
    unfolding collects_def by (metis option.inject)
  moreover have "unat (fst (snd (parts ! i))) \<le> length (snd (snd (parts ! i)))"
    using assms(3) \<open>parts ! i \<in> set parts\<close> by (auto simp: parts_here_def list_all_iff)
  moreover have "length (svals ! i) < 2 ^ 32" using assms(1) i by (auto simp: sizes_ok_def list_all_iff)
  ultimately show "map (\<lambda>p. snd (snd p)) parts ! i = svals ! i"
    using i l by (simp add: unat_of_nat)
qed

text \<open>All parts in the order in which they are sent fill every buffer.\<close>

lemma append_next:
  assumes "map_sorted parts" and "map_of parts key = Some (of_nat (length v), take st v)" and "st < length v" and "length v < 2 ^ 32"
  shows "snd (fold append_part (map (\<lambda>(off, d). (key, of_nat off, d)) (parts_of v st)) (r, parts)) = map_put key (of_nat (length v), v) parts
     \<and> fst (fold append_part (map (\<lambda>(off, d). (key, of_nat off, d)) (parts_of v st)) (r, parts))"
  using assms
proof (induction v st arbitrary: r parts rule: parts_of.induct)
  case (1 v st)
  let ?en = "min (st + MTU) (length v)"
  have step: "append_part (key, of_nat st, take (?en - st) (drop st v)) (r, parts)
      = (True, map_put key (of_nat (length v), take ?en v) parts)"
  proof -
    have "st \<le> ?en" using "1.prems"(3) by simp
    then have "take st v @ take (?en - st) (drop st v) = take ?en v" by (metis le_add_diff_inverse take_add)
    then show ?thesis using "1.prems" by (simp add: append_part_def unat_of_nat)
  qed
  have twice: "map_put key x (map_put key y m) = map_put key x m" for x y and m :: value_parts
    by (induction m) auto
  show ?case
  proof (cases "?en = length v")
    case True
    then show ?thesis using step by (subst (1 2) parts_of.simps) (simp add: Let_def)
  next
    case False
    have "?en < length v" using False by simp
    then show ?thesis
      using "1.IH" [OF refl refl False, of "map_put key (of_nat (length v), take ?en v) parts" True] "1.prems" step False
      by (subst (1 2) parts_of.simps) (simp add: Let_def twice)
  qed
qed

definition parts_for :: "bytes list \<Rightarrow> nat \<Rightarrow> (uint32 \<times> uint32 \<times> bytes) list" where
  "parts_for svals i = map (\<lambda>(off, d). (of_nat i, of_nat off, d)) (parts_of (svals ! i) 0)"

lemma sent_parts_upt: "sent_parts svals = concat (map (parts_for svals) [0..<length svals])"
proof -
  have "enumerate 0 svals = map (\<lambda>i. (i, svals ! i)) [0..<length svals]"
    by (rule nth_equalityI) (simp_all add: nth_enumerate_eq)
  moreover have "parts_for svals = (\<lambda>i. map (\<lambda>(off, d). (of_nat i, of_nat off, d)) (parts_of (svals ! i) 0))"
    by (simp add: fun_eq_iff parts_for_def)
  ultimately show ?thesis by (simp add: sent_parts_def comp_def)
qed

lemma append_each:
  assumes ok: "sizes_ok svals" and srt: "map_sorted parts" and "distinct is" and "set is \<subseteq> {..<length svals}"
    and "\<And>i. i \<in> set is \<Longrightarrow> map_of parts (of_nat i) = Some (of_nat (length (svals ! i)), [])"
  shows "map_of (snd (fold append_part (concat (map (parts_for svals) is)) (r, parts)))
      = map_of parts ++ map_of (rev (map (\<lambda>i. (of_nat i, of_nat (length (svals ! i)), svals ! i)) is))
    \<and> map_sorted (snd (fold append_part (concat (map (parts_for svals) is)) (r, parts)))"
  using srt assms(3-5)
proof (induction "is" arbitrary: r parts)
  case (Cons i js)
  let ?v = "svals ! i"
  have v: "0 < length ?v" "length ?v < 2 ^ 32" and len: "length svals < 2 ^ 32"
    using ok Cons.prems(3) by (auto simp: sizes_ok_def list_all_iff)
  have "map_of parts (of_nat i) = Some (of_nat (length ?v), take 0 ?v)" using Cons.prems(4) [of i] by simp
  from append_next [OF Cons.prems(1) this v(1,2), of r] obtain r' where
    one: "fold append_part (parts_for svals i) (r, parts) = (r', map_put (of_nat i) (of_nat (length ?v), ?v) parts)"
    unfolding parts_for_def by (metis prod.collapse)
  have keep: "map_of (map_put (of_nat i) (of_nat (length ?v), ?v) parts) (of_nat j) = Some (of_nat (length (svals ! j)), [])"
    if "j \<in> set js" for j
    using that Cons.prems len of_nat_32_inject [of j i] by auto
  from Cons.IH [OF map_put_sorted [OF Cons.prems(1)] _ _ keep, of r'] Cons.prems(1-3) one
  show ?case by (simp add: map_add_def fun_eq_iff split: option.splits)
qed simp

lemma append_all:
  assumes "sizes_ok svals"
  shows "parts_here (snd (fold append_part (sent_parts svals) (False, header_parts svals)))"
proof -
  let ?P = "snd (fold append_part (sent_parts svals) (False, header_parts svals))"
  let ?full = "map (\<lambda>i. (of_nat i :: uint32, of_nat (length (svals ! i)) :: uint32, svals ! i)) [0..<length svals]"
  have len: "length svals < 2 ^ 32" using assms by (simp add: sizes_ok_def)
  have col: "collects svals (header_parts svals)" by (rule header_collects [OF len])
  then have srt: "map_sorted (header_parts svals)" using keys_sorted [OF len] by (auto simp: collects_def)
  have "map_of (header_parts svals) (of_nat i) = Some (of_nat (length (svals ! i)), [])" if "i < length svals" for i
    using that map_of_in_set [OF srt, of "of_nat i"] by (force simp: header_parts_def in_set_enumerate_eq)
  then have "map_of ?P = map_of (header_parts svals) ++ map_of (rev ?full) \<and> map_sorted ?P"
    unfolding sent_parts_upt by (intro append_each [OF assms srt]) auto
  then have mp: "map_of ?P = map_of (header_parts svals) ++ map_of (rev ?full)" and srt': "map_sorted ?P" by auto
  have keys: "map fst ?P = map of_nat [0..<length svals]"
    using fold_collects [OF assms col, of "sent_parts svals" False] by (simp add: collects_def list_all_iff)
  have "\<exists>i<length svals. p = (of_nat i, of_nat (length (svals ! i)), svals ! i)" if p: "p \<in> set ?P" for p
  proof -
    have "fst p \<in> set (map fst ?P)" using p by simp
    then obtain i where i: "i < length svals" "fst p = of_nat i" unfolding keys by auto
    have "distinct (map fst ?full)" using len of_nat_32_inject by (auto simp: distinct_map inj_on_def)
    then have "distinct (map fst (rev ?full))" by (simp flip: rev_map)
    then have "map_of (rev ?full) (of_nat i) = Some (of_nat (length (svals ! i)), svals ! i)"
      using i by (subst map_of_eq_Some_iff) auto
    moreover have "map_of ?P (fst p) = Some (snd p)" using map_of_in_set [OF srt', of "fst p" "snd p"] p by simp
    ultimately have "snd p = (of_nat (length (svals ! i)), svals ! i)" using i(2) mp by (simp add: map_add_find_right)
    then show ?thesis using i by (intro exI [of _ i]) (simp add: prod_eq_iff)
  qed
  then show ?thesis
    using assms by (force simp: parts_here_def list_all_iff sizes_ok_def unat_of_nat)
qed

section \<open>Delivery\<close>

definition collect_parts :: "net_env \<Rightarrow> tid \<Rightarrow> (uint32 \<times> uint32 \<times> bytes) list \<Rightarrow> parsed_message \<Rightarrow> parsed_message" where
  "collect_parts E t ps m = fold (\<lambda>p m. snd (message_append (part_message E t p) m)) ps m"

lemma append_part_flag: "snd (append_part p (r, parts)) = snd (append_part p (r', parts))"
  by (auto simp: append_part_def split: prod.splits option.splits)

lemma append_flag: "snd (fold append_part ps (r, parts)) = snd (fold append_part ps (r', parts))"
proof (induction ps arbitrary: r r' parts)
  case (Cons p ps)
  then show ?case using append_part_flag [of p r parts r'] by (metis fold_simps(2) prod.collapse)
qed simp

lemma collect_parts_eq: "collect_parts E t ps m = m\<lparr>pm_value_parts := snd (fold append_part ps (r, pm_value_parts m))\<rparr>"
proof (induction ps arbitrary: m r)
  case Nil
  then show ?case by (simp add: collect_parts_def)
next
  case (Cons p ps)
  obtain r' parts where rp: "append_part p (r, pm_value_parts m) = (r', parts)" by fastforce
  then have "snd (append_part p (False, pm_value_parts m)) = parts" using append_part_flag by (metis snd_conv)
  then have "snd (message_append (part_message E t p) m) = m\<lparr>pm_value_parts := parts\<rparr>"
    by (simp add: message_append_def part_message_def case_prod_beta)
  then show ?case using Cons.IH [of "m\<lparr>pm_value_parts := parts\<rparr>" r'] rp by (simp add: collect_parts_def)
qed

definition readable :: "dht_value \<Rightarrow> bool" where
  "readable v \<longleftrightarrow> isEncrypted v \<or> \<not> has_owner v \<or> v_signature v \<noteq> []"

lemma complete_serialized:
  assumes "msgpack_parser (pe_unpack P)"
  shows "list_all (\<lambda>v. value_sized v \<and> key_ok (pe_import P) v \<and> readable v) st \<Longrightarrow> map (\<lambda>p. snd (snd p)) ps = serializeValues st
    \<Longrightarrow> complete_values P ps m = (Ret (), m\<lparr>pm_values := pm_values m @ recv_values (pe_ref P + length (pm_values m)) st\<rparr>)"
proof (induction st arbitrary: ps m)
  case Nil
  then show ?case by (simp add: serializeValues_def)
next
  case (Cons v st)
  then obtain i tot ps' where ps: "ps = (i, tot, getPacked v) # ps'" and ps': "map (\<lambda>p. snd (snd p)) ps' = serializeValues st"
    by (auto simp: serializeValues_def map_eq_Cons_conv)
  have "pe_unpack P (pack_obj (value_obj v)) = Some (value_obj v)"
    using Cons.prems(1) by (intro msgpack_parser.unpack_exact [OF assms] value_obj_ok) simp
  then have "pe_unpack P (getPacked v) = Some (value_obj v)" by (simp add: getPacked_eq pack_value_obj)
  moreover have "msgpack_unpack (pe_import P) r (value_obj v) = Ret (wire_form r v)" for r
    using Cons.prems(1) unpack_value_obj [of "pe_import P" v r] by (auto simp: value_sized_def readable_def)
  ultimately show ?case
    using Cons.IH [OF _ ps', of "m\<lparr>pm_values := pm_values m @ [wire_form (pe_ref P + length (pm_values m)) v]\<rparr>"] Cons.prems(1)
    by (auto simp: ps readable_def)
qed

lemma serialized_sizes: "values_ok P st \<Longrightarrow> sizes_ok (serializeValues st)"
  by (auto simp: values_ok_def sizes_ok_def list_all_iff serializeValues_def MAX_VALUE_SIZE_def getPacked_def msgpack_pack_def)

text \<open>
  C5: Values that do not fit one packet arrive unchanged or not at all. After the message that announces their sizes, let
  part messages of them arrive in any order, some more than once and some never: what is held of each value is a prefix of its packed form, beside its announced
  length; as long as a part is missing the message is not complete, and when it is complete its values are those that were sent, in their
  order. If all part messages arrive in the order in which they are sent, it is complete.
\<close>

theorem values_delivered:
  assumes "msgpack_parser (pe_unpack P)" and "values_ok P st" and "list_all readable st"
    and "list_all (\<lambda>p. p \<in> set (sent_parts (serializeValues st))) arrived" and "\<not> in_one_packet st" and "pm_values m = []"
  shows "(let m' = collect_parts E t arrived (with_values P st m) in
      map fst (pm_value_parts m') = map of_nat [0..<length st]
    \<and> (\<forall>i < length st. \<exists>k. map_of (pm_value_parts m') (of_nat i) = Some (of_nat (length (getPacked (st ! i))), take k (getPacked (st ! i))))
    \<and> message_complete P m' = (if parts_here (pm_value_parts m') then (Ret True, m'\<lparr>pm_values := recv_values (pe_ref P) st\<rparr>) else (Ret False, m')))
    \<and> parts_here (pm_value_parts (collect_parts E t (sent_parts (serializeValues st)) (with_values P st m)))"
proof -
  let ?m = "with_values P st m"
  have m: "pm_value_parts ?m = header_parts (serializeValues st)" "pm_values ?m = []" using assms(5,6) by (simp_all add: with_values_def)
  have sz: "sizes_ok (serializeValues st)" by (rule serialized_sizes [OF assms(2)])
  then have col: "collects (serializeValues st) (header_parts (serializeValues st))"
    by (intro header_collects) (simp add: sizes_ok_def)
  let ?m' = "collect_parts E t arrived ?m"
  have m': "pm_value_parts ?m' = snd (fold append_part arrived (False, header_parts (serializeValues st)))" "pm_values ?m' = []"
    using collect_parts_eq [of E t arrived ?m False] m by simp_all
  have "message_complete P ?m' = (Ret True, ?m'\<lparr>pm_values := recv_values (pe_ref P) st\<rparr>)" if "parts_here (pm_value_parts ?m')"
  proof -
    have "map (\<lambda>p. snd (snd p)) (pm_value_parts ?m') = serializeValues st"
      using collected_all [OF sz] fold_collects [OF sz col assms(4), of False] that by (simp add: m'(1))
    moreover have "list_all (\<lambda>v. value_sized v \<and> key_ok (pe_import P) v \<and> readable v) st"
      using assms(2,3) by (auto simp: values_ok_def list_all_iff)
    ultimately show ?thesis
      using complete_serialized [OF assms(1), of st "pm_value_parts ?m'" ?m'] that m'(2) by (simp add: message_complete_def)
  qed
  moreover have "parts_here (pm_value_parts (collect_parts E t (sent_parts (serializeValues st)) ?m))"
    using append_all [OF sz] collect_parts_eq [of E t "sent_parts (serializeValues st)" ?m False] m(1) by simp
  moreover have "collects (serializeValues st) (pm_value_parts ?m')" using fold_collects [OF sz col assms(4), of False] m'(1) by simp
  then have "map fst (pm_value_parts ?m') = map of_nat [0..<length st]"
      "\<forall>i < length st. \<exists>k. map_of (pm_value_parts ?m') (of_nat i) = Some (of_nat (length (getPacked (st ! i))), take k (getPacked (st ! i)))"
    by (simp_all add: collects_def serializeValues_def)
  ultimately show ?thesis by (simp add: message_complete_def Let_def)
qed

definition test_parse :: parse_env where
  "test_parse = \<lparr>pe_unpack = unpack_obj, pe_import = import_one, pe_clock = 0, pe_system = 0, pe_ref = 5\<rparr>"

definition big_value :: dht_value where
  "big_value = (new_value 5)\<lparr>v_id := 1, v_data := replicate 700 7\<rparr>"

lemma length_pack_str: "length (pack_str (lit k)) = (if length k < 32 then 1 + length k else length (pack_str (lit k)))"
  by (simp add: pack_str_def pack_str_header_def lit_def)

lemma big_value_length: "length (getPacked big_value) = 730"
  by (simp add: getPacked_def msgpack_pack_def msgpack_pack_to_encrypt_def msgpack_pack_to_sign_def big_value_def new_value_def isEncrypted_def
      isSigned_def has_owner_def pack_map_header_def length_pack_str pack_number_def pack_uint64_def pack_bin_def pack_bin_header_def store16_def)

lemma big_value_ok: "values_ok test_parse [big_value]" "\<not> in_one_packet [big_value]"
  using big_value_length
  by (simp_all add: values_ok_def in_one_packet_def serializeValues_def MAX_PACKET_VALUE_SIZE_def MAX_VALUE_SIZE_def value_sized_def key_ok_def
      big_value_def new_value_def owner_export_def hash_zero_def)

theorem values_delivered_witness:
  "message_complete test_parse
     (collect_parts test_net 9 (sent_parts (serializeValues [big_value])) (with_values test_parse [big_value] new_message))
   = (Ret True, (collect_parts test_net 9 (sent_parts (serializeValues [big_value])) (with_values test_parse [big_value] new_message))
       \<lparr>pm_values := recv_values 5 [big_value]\<rparr>)"
  using values_delivered [OF _ big_value_ok(1) _ _ big_value_ok(2), of "sent_parts (serializeValues [big_value])" new_message test_net 9]
    decoder.msgpack_parser_axioms
  by (simp add: test_parse_def readable_def has_owner_def big_value_def new_value_def list_all_iff new_message_def Let_def)

end
