(* ===== verification/Wire_Nodes.thy ===== *)
theory Wire_Nodes
  imports Engine_Receive_Inv Wire_Values
begin

text \<open>
  Nodes in messages: what \<open>bufferNodes\<close> writes is what \<open>deserializeNodes\<close> reads, in the order of the distance to the target.
\<close>

section \<open>Nodes from the cache\<close>

lemma locked_id: "nm_ok h m \<Longrightarrow> locked alive (nm_nodes m) k = Some n \<Longrightarrow> n_id (nd h n) = k \<and> n < next_nd h \<and> alive n"
  by (auto simp: nm_ok_def locked_def dest!: map_of_SomeD split: option.splits if_splits)

lemma getNodeCached_Answer:
  assumes "cache_inv s"
  shows "\<exists>n s'. getNodeCached R nid addr confirm client s = (Answer n, s') \<and> n < ns_next_nd s' \<and> n_id (nd (ns_engine s') n) = nid
    \<and> ns_blacklist s' = ns_blacklist s \<and> (confirm \<longrightarrow> n_addr (nd (ns_engine s') n) = addr)"
proof (cases "hash_bool nid")
  case True
  let ?h = "node_heap_of s" and ?rnd = "rv_tid R (ns_draws s)" and ?r = "rv_place R (ns_draws s)"
  have ok: "nc_ok ?h (ns_cache s)" using assms by (simp add: cache_inv_def)
  obtain n c' h' where get: "nc_getNode (ns_alive s) ?rnd ?r nid addr (net_now s) confirm client (ns_cache s) ?h = Ret (n, c', h')"
    and res: "(n, h') = (case nc_view (ns_alive s) (ns_cache s) (getFamily addr) nid of
          Some n \<Rightarrow> (n, if confirm \<or> isOld (net_now s) (nd ?h n) then node_update n addr ?h else ?h)
        | None \<Rightarrow> make_node nid addr ?rnd client ?h)"
    using nc_getNode_effect [OF ok True, of "ns_alive s" ?rnd ?r addr "net_now s" confirm client] by blast
  have "n < next_nd h' \<and> n_id (nd h' n) = nid \<and> (confirm \<longrightarrow> n_addr (nd h' n) = addr)"
    using res locked_id [OF nc_ok_cache [OF ok], of "ns_alive s" "getFamily addr" nid]
    by (auto simp: nc_view_def make_node_def new_node_obj_def node_update_def upd_nd_def split: option.splits if_splits)
  then show ?thesis by (simp add: getNodeCached_def get)
next
  case False
  then show ?thesis by (simp add: getNodeCached_def nc_getNode_def make_node_def new_node_obj_def node_heap_of_def)
qed

section \<open>Addresses\<close>

text \<open>An address of a family as the program builds it: everything but port and address bytes is zero.\<close>

definition plain_addr :: "nat \<Rightarrow> sock_addr \<Rightarrow> bool" where
  "plain_addr af a \<longleftrightarrow> (af = AF_INET \<and> length a = 16 \<and> a = blit (blit (setFamily AF_INET []) 4 (ip4 a)) 2 (take 2 (drop 2 a)))
     \<or> (af = AF_INET6 \<and> length a = 28 \<and> a = blit (blit (setFamily AF_INET6 []) 8 (ip6 a)) 2 (take 2 (drop 2 a)))"

definition info_len :: "nat \<Rightarrow> nat" where
  "info_len af = (if af = AF_INET then NODE4_INFO_BUF_LEN else NODE6_INFO_BUF_LEN)"

lemma node_blob_length:
  assumes "plain_addr af (n_addr (nd e n))" and "length (n_id (nd e n)) = HASH_LEN"
  shows "length (node_blob e af n) = info_len af" and "take HASH_LEN (node_blob e af n) = n_id (nd e n)"
    and "\<not> (isLoopback (n_addr (nd e n)) \<and> getFamily from = af) \<Longrightarrow> node_address af from (drop HASH_LEN (node_blob e af n)) = n_addr (nd e n)"
  using assms
  by (auto simp: node_blob_def info_len_def plain_addr_def NODE4_INFO_BUF_LEN_def NODE6_INFO_BUF_LEN_def ip4_def ip6_def family_defs
      node_address_def deserializeIPv4_def deserializeIPv6_def)

lemma chunks_concat: "0 < k \<Longrightarrow> list_all (\<lambda>x. length x = k) xs \<Longrightarrow> chunks k (concat xs) = xs"
  by (induction xs) (simp_all add: chunks_append_block chunks_short)

section \<open>Round trip\<close>

definition node_sendable :: "nat \<Rightarrow> sock_addr \<Rightarrow> dht_node \<Rightarrow> bool" where
  "node_sendable af from x \<longleftrightarrow> length (n_id x) = HASH_LEN \<and> plain_addr af (n_addr x) \<and> \<not> (isLoopback (n_addr x) \<and> getFamily from = af)"

text \<open>The nodes a receiver takes from a list: not itself, and none with an address that it refuses.\<close>

definition acceptable :: "recv_env \<Rightarrow> sock_addr set \<Rightarrow> dht_node \<Rightarrow> bool" where
  "acceptable R bl x \<longleftrightarrow> n_id x \<noteq> myid (rv_net R) \<and> \<not> isMartian (n_addr x) \<and> n_addr x \<notin> bl"

definition node_ids :: "'d net_state \<Rightarrow> nref list \<Rightarrow> hash list" where
  "node_ids s ns = map (\<lambda>n. n_id (nd (ns_engine s) n)) ns"

lemma call_owner_frame: "call_owner f s = (a, s') \<Longrightarrow> ns_blacklist s' = ns_blacklist s \<and> ns_next_nd s' = ns_next_nd s"
  by (auto simp: call_owner_def split: prod.splits)

lemma node_ids_keep: "net_keeps s s' \<Longrightarrow> list_all (\<lambda>n. n < ns_next_nd s) ns \<Longrightarrow> node_ids s' ns = node_ids s ns"
  by (auto simp: net_keeps_def node_ids_def list_all_iff)

lemma chunks_nodes:
  assumes "list_all (node_sendable af from) (map (nd e) ns)" and "af = AF_INET \<or> af = AF_INET6"
  shows "chunks (info_len af) (concat (map (node_blob e af) ns)) = map (node_blob e af) ns"
    and "length (concat (map (node_blob e af) ns)) mod info_len af = 0"
proof -
  have len: "length (node_blob e af n) = info_len af" if "n \<in> set ns" for n
    using that assms(1) node_blob_length(1) by (auto simp: list_all_iff node_sendable_def)
  have "0 < info_len af" by (simp add: info_len_def NODE4_INFO_BUF_LEN_def NODE6_INFO_BUF_LEN_def)
  then show "chunks (info_len af) (concat (map (node_blob e af) ns)) = map (node_blob e af) ns"
    by (rule chunks_concat) (simp add: list_all_iff len)
  have "length (concat (map (node_blob e af) ns)) = length ns * info_len af"
    using len by (induction ns) auto
  then show "length (concat (map (node_blob e af) ns)) mod info_len af = 0" by simp
qed

lemma sort_nodes_sorted:
  assumes "\<forall>n. length (n_id (nd e n)) = length h"
  shows "by_distance (\<lambda>n. n_id (nd e n)) h (sort_nodes e h ns)" and "mset (sort_nodes e h ns) = mset ns"
proof -
  have "sort_nodes e h ns = bucket_insert (\<lambda>n. n_id (nd e n)) (\<lambda>_. True) h ((new_bucket 0 [] 0)\<lparr>b_nodes := ns\<rparr>) []"
    by (simp add: sort_nodes_def bucket_insert_def)
  then show "by_distance (\<lambda>n. n_id (nd e n)) h (sort_nodes e h ns)" "mset (sort_nodes e h ns) = mset ns"
    using bucket_insert_props [where ids = "\<lambda>n. n_id (nd e n)" and target = h and acc = "[]"] assms
    by (auto simp: by_distance_def)
qed

definition sent_nodes :: "engine \<Rightarrow> hash \<Rightarrow> bool \<Rightarrow> nref list \<Rightarrow> nref list" where
  "sent_nodes e h wanted ns = (if wanted then take SEND_NODES (sort_nodes e h ns) else [])"

text \<open>The families wanted; a negative number asks for the family of the question.\<close>

definition families :: "nat \<Rightarrow> int \<Rightarrow> int" where
  "families af want = (if want < 0 then if af = AF_INET then 1 else 2 else want)"

lemma bufferNodes_sent:
  "bufferNodes e af h want ns4 ns6 =
     (concat (map (node_blob e AF_INET) (sent_nodes e h (bit (families af want) 0) ns4)), concat (map (node_blob e AF_INET6) (sent_nodes e h (bit (families af want) 1) ns6)))"
  by (simp add: bufferNodes_def bufferNodes_af_def sent_nodes_def families_def Let_def)

lemma sent_subset:
  assumes "\<forall>n. length (n_id (nd e n)) = length h" and "list_all p (map (nd e) ns)"
  shows "list_all p (map (nd e) (sent_nodes e h wanted ns))"
  using assms(2) mset_eq_setD [OF sort_nodes_sorted(2) [OF assms(1)], of ns]
  by (auto simp: sent_nodes_def list_all_iff dest: in_set_takeD)

text \<open>
  An owner that can be told of nodes: in a state that is \<open>ready\<close>, a node with an identifier can be looked up or made and is taken without a
  hang, and the state is ready again.
\<close>

locale node_taker = engine_owner H for H :: "'d owner" +
  fixes ready :: "'d net_state \<Rightarrow> bool"
  assumes ready_cache: "ready s \<Longrightarrow> cache_inv s"
    and introduces: "ready s \<Longrightarrow> hash_bool nid \<Longrightarrow> length nid = HASH_LEN
      \<Longrightarrow> \<exists>n s1 s2. getNodeCached R nid addr False False s = (Answer n, s1) \<and> call_owner (h_onNewNode H n 0) s1 = (Answer (), s2) \<and> ready s2"
begin

lemma deserialize_delivers:
  assumes "ready s" and "list_all (\<lambda>x. node_sendable af from x \<and> hash_bool (n_id x)) (map (nd e) ns)"
  shows "\<exists>ns' s'. deserialize_nodes R H af from (map (node_blob e af) ns) s = (Answer ns', s')
    \<and> node_ids s' ns' = map (\<lambda>n. n_id (nd e n)) (filter (\<lambda>n. acceptable R (ns_blacklist s) (nd e n)) ns)
    \<and> list_all (\<lambda>n. n < ns_next_nd s') ns' \<and> ns_blacklist s' = ns_blacklist s \<and> ready s'"
  using assms
proof (induction ns arbitrary: s)
  case Nil
  then show ?case by (simp add: node_ids_def)
next
  case (Cons n ns)
  let ?b = "node_blob e af n"
  have blob: "take HASH_LEN ?b = n_id (nd e n)" "node_address af from (drop HASH_LEN ?b) = n_addr (nd e n)"
    using Cons.prems(2) node_blob_length(2,3) [where e = e and n = n and af = af] by (auto simp: node_sendable_def)
  show ?case
  proof (cases "acceptable R (ns_blacklist s) (nd e n)")
    case False
    have "deserialize_nodes R H af from (map (node_blob e af) (n # ns)) s = deserialize_nodes R H af from (map (node_blob e af) ns) s"
      using False by (auto simp: blob acceptable_def isNodeBlacklisted_def)
    then show ?thesis using Cons.IH [OF Cons.prems(1)] Cons.prems(2) False by simp
  next
    case True
    obtain x s1 s2 where get: "getNodeCached R (n_id (nd e n)) (n_addr (nd e n)) False False s = (Answer x, s1)"
      and own: "call_owner (h_onNewNode H x 0) s1 = (Answer (), s2)" and ready: "ready s2"
      using introduces [OF Cons.prems(1), of "n_id (nd e n)" R "n_addr (nd e n)"] Cons.prems(2) by (auto simp: node_sendable_def)
    have x: "x < ns_next_nd s1" "n_id (nd (ns_engine s1) x) = n_id (nd e n)" "ns_blacklist s1 = ns_blacklist s"
      using getNodeCached_Answer [OF ready_cache [OF Cons.prems(1)], of R "n_id (nd e n)" "n_addr (nd e n)" False False] get by auto
    note frame = call_owner_frame [OF own]
    have k2: "net_keeps s1 s2" using call_owner_keeps [OF onNewNode_keeps, of s1 x 0] own by simp
    obtain ns' s' where rest: "deserialize_nodes R H af from (map (node_blob e af) ns) s2 = (Answer ns', s')"
      "node_ids s' ns' = map (\<lambda>n. n_id (nd e n)) (filter (\<lambda>n. acceptable R (ns_blacklist s2) (nd e n)) ns)"
      "list_all (\<lambda>n. n < ns_next_nd s') ns'" "ns_blacklist s' = ns_blacklist s2" "ready s'"
      using Cons.IH [OF ready] Cons.prems(2) by auto
    have k3: "net_keeps s2 s'" using deserialize_nodes_keeps [of s2 R af "from" "map (node_blob e af) ns"] rest(1) by simp
    have "node_ids s' [x] = node_ids s1 [x]" by (rule node_ids_keep [OF net_keeps_trans [OF k2 k3]]) (simp add: x(1))
    moreover have "x < ns_next_nd s'" using x(1) net_keeps_trans [OF k2 k3] by (simp add: net_keeps_def)
    ultimately show ?thesis
      using True rest x own frame by (simp add: blob acceptable_def isNodeBlacklisted_def get node_ids_def)
  qed
qed

lemma nodes_delivered:
  fixes e :: engine
  assumes "ready s" and ids: "\<forall>n. length (n_id (nd e n)) = length h"
    and "list_all (\<lambda>x. node_sendable AF_INET from x \<and> hash_bool (n_id x)) (map (nd e) ns4)"
    and "list_all (\<lambda>x. node_sendable AF_INET6 from x \<and> hash_bool (n_id x)) (map (nd e) ns6)"
    and "(pm_nodes4_raw m, pm_nodes6_raw m) = bufferNodes e af h want ns4 ns6" and "pm_nodes4 m = []" and "pm_nodes6 m = []"
  shows "\<exists>m' s'. deserializeNodes R H m from s = (Answer m', s') \<and> net_keeps s s' \<and> ready s'
     \<and> node_ids s' (pm_nodes4 m') = map (\<lambda>n. n_id (nd e n)) (filter (\<lambda>n. acceptable R (ns_blacklist s) (nd e n)) (sent_nodes e h (bit (families af want) 0) ns4))
     \<and> node_ids s' (pm_nodes6 m') = map (\<lambda>n. n_id (nd e n)) (filter (\<lambda>n. acceptable R (ns_blacklist s) (nd e n)) (sent_nodes e h (bit (families af want) 1) ns6))"
proof -
  define n4 where "n4 = sent_nodes e h (bit (families af want) 0) ns4"
  define n6 where "n6 = sent_nodes e h (bit (families af want) 1) ns6"
  have ok4: "list_all (\<lambda>x. node_sendable AF_INET from x \<and> hash_bool (n_id x)) (map (nd e) n4)"
    and ok6: "list_all (\<lambda>x. node_sendable AF_INET6 from x \<and> hash_bool (n_id x)) (map (nd e) n6)"
    using sent_subset [OF ids] assms(3,4) by (simp_all add: n4_def n6_def)
  then have s4: "list_all (node_sendable AF_INET from) (map (nd e) n4)" and s6: "list_all (node_sendable AF_INET6 from) (map (nd e) n6)"
    by (simp_all add: list_all_iff)
  have raw: "pm_nodes4_raw m = concat (map (node_blob e AF_INET) n4)" "pm_nodes6_raw m = concat (map (node_blob e AF_INET6) n6)"
    using assms(5) bufferNodes_sent by (auto simp: n4_def n6_def)
  have len: "info_len AF_INET = NODE4_INFO_BUF_LEN" "info_len AF_INET6 = NODE6_INFO_BUF_LEN" by (simp_all add: info_len_def family_defs)
  note c4 = chunks_nodes [OF s4, unfolded len] and c6 = chunks_nodes [OF s6, unfolded len]
  obtain x4 s1 where d4: "deserialize_nodes R H AF_INET from (map (node_blob e AF_INET) n4) s = (Answer x4, s1)"
      "node_ids s1 x4 = map (\<lambda>n. n_id (nd e n)) (filter (\<lambda>n. acceptable R (ns_blacklist s) (nd e n)) n4)"
      "list_all (\<lambda>n. n < ns_next_nd s1) x4" "ns_blacklist s1 = ns_blacklist s" "ready s1"
    using deserialize_delivers [OF assms(1) ok4] by blast
  have k1: "net_keeps s s1"
    using deserialize_nodes_keeps [of s R AF_INET "from" "map (node_blob e AF_INET) n4"] d4(1) by simp
  obtain x6 s2 where d6: "deserialize_nodes R H AF_INET6 from (map (node_blob e AF_INET6) n6) s1 = (Answer x6, s2)"
      "node_ids s2 x6 = map (\<lambda>n. n_id (nd e n)) (filter (\<lambda>n. acceptable R (ns_blacklist s1) (nd e n)) n6)" "ready s2"
    using deserialize_delivers [OF d4(5) ok6] by blast
  have k2: "net_keeps s1 s2"
    using deserialize_nodes_keeps [of s1 R AF_INET6 "from" "map (node_blob e AF_INET6) n6"] d6(1) by simp
  have "deserializeNodes R H m from s = (Answer (m\<lparr>pm_nodes4 := x4, pm_nodes6 := x6\<rparr>), s2)"
    using assms(6,7) by (simp add: deserializeNodes_def raw d4(1) d6(1) c4 c6 del: length_concat map_concat)
  then show ?thesis
    unfolding n4_def [symmetric] n6_def [symmetric]
    using d4 d6 node_ids_keep [OF k2 d4(3)] net_keeps_trans [OF k1 k2] by simp
qed

end

section \<open>A network with two neighbours\<close>

definition init_net :: "engine \<Rightarrow> 'd \<Rightarrow> 'd net_state" where
  "init_net e d = \<lparr>ns_engine = e, ns_dht = d, ns_next_nd = 0, ns_alive = (\<lambda>_. False), ns_cache = new_node_cache, ns_ip_limiters = [],
     ns_limiter = new_limiter 200 (seconds 1), ns_maintenance = 0, ns_partial = [], ns_in_stats = no_stats, ns_blacklist = {},
     ns_rx_jobs = [], ns_delivered = [], ns_draws = 0\<rparr>"

definition test_recv :: recv_env where
  "test_recv = \<lparr>rv_net = test_net, rv_parse = test_parse, rv_max_peer_req = 50, rv_tid = (\<lambda>_. 7), rv_place = (\<lambda>_. []), rv_handled = (\<lambda>_. False)\<rparr>"

definition lan_addr :: "byte \<Rightarrow> sock_addr" where
  "lan_addr b = blit (blit (setFamily AF_INET []) 4 [192, 168, 0, b]) 2 [16, 126]"

definition lan_engine :: engine where
  "lan_engine = init_engine\<lparr>nd := (\<lambda>n. new_node_obj (replicate 20 (of_nat n)) (lan_addr (of_nat n)) 1 False)\<rparr>"

lemma blank_inet: "setFamily AF_INET [] = [2, 0, 0, 0, 0, 0, 0, 0, 0, 0, 0, 0, 0, 0, 0, 0]"
  by code_simp

lemma lan_addr_eq: "lan_addr b = [2, 0, 16, 126, 192, 168, 0, b, 0, 0, 0, 0, 0, 0, 0, 0]"
  by (simp add: lan_addr_def blank_inet blit_def)

lemma lan_addr_sendable: "node_sendable AF_INET [] (nd lan_engine n)"
proof -
  have "getFamily [] \<noteq> AF_INET" by (simp add: getFamily_def family_defs)
  then show ?thesis
    by (simp add: node_sendable_def lan_engine_def new_node_obj_def plain_addr_def lan_addr_eq ip4_def blank_inet blit_def HASH_LEN_def)
qed

lemma init_net_cache: "cache_inv (init_net e d)"
  by (simp add: cache_inv_def init_net_def nc_ok_def nm_ok_def new_node_cache_def new_node_map_def map_sorted_def)

definition lan_target :: hash where
  "lan_target = replicate 20 7"

definition lan_msg :: parsed_message where
  "lan_msg = new_message\<lparr>pm_nodes4_raw := fst (bufferNodes lan_engine 0 lan_target 1 [3, 4] []),
     pm_nodes6_raw := snd (bufferNodes lan_engine 0 lan_target 1 [3, 4] [])\<rparr>"

lemma lan_accepts: "acceptable test_recv {} (nd lan_engine 3)" "acceptable test_recv {} (nd lan_engine 4)"
  by (simp_all add: acceptable_def isMartian_def lan_engine_def new_node_obj_def lan_addr_eq test_recv_def test_net_def getPort_def
      getFamily_def family_defs ip4_def)

end
