(* ===== verification/Dht_Node.thy ===== *)
theory Dht_Node
  imports Dht_Contract Wire_Nodes Dht_Store_Props
begin

text \<open>
  The node at work: what the composition of engine, routing tables, searches and store does with the datagrams of its peers.
\<close>

section \<open>Any datagrams\<close>

text \<open>
  C3: Nothing that reaches a node harms its requests. Over every sequence of datagrams, whatever bytes they hold and whoever sends
  them, of expiry jobs for parts and of the engine's own operations, with the node's handlers run in between, every request
  ends at most once and stays ended, and the cache of nodes keeps its invariant: every entry is a node with the identifier it
  is filed under.
\<close>

theorem node_receives_soundly:
  assumes "run (recv_step R (dht_owner V)) s evs s'" and "recv_inv s"
  shows "recv_inv s' \<and> recv_settles s s'"
  using node.receiver.run_keeps [OF assms] .

definition init_kad :: kad where
  "init_kad = \<lparr>k_buckets = init_table, k_searches = [], pending_pings = 0\<rparr>"

definition init_core :: dht_core where
  "init_core = \<lparr>c_dht4 = init_kad, c_dht6 = init_kad, c_store = empty_store 10 100, c_sched = new_scheduler 0, nextNodesConfirmation = None,
     c_reported = [], c_queries = (\<lambda>_. any_query), c_next_query = 1, c_log = []\<rparr>"

definition test_dht :: dht_env where
  "test_dht = \<lparr>dv_net = test_net, dv_types = [], dv_hash = (\<lambda>d n. replicate n 9)\<rparr>"

definition init_node :: "dht_core net_state" where
  "init_node = init_net init_engine init_core"

lemma init_node_ok: "recv_inv init_node"
  by (simp add: recv_inv_def init_node_def init_net_cache) (simp add: init_net_def init_once_ok)

theorem node_receives_soundly_witness:
  "recv_inv (recv_apply test_recv (dht_owner test_dht) (Arrives 1 (\<lambda>_. True) (pack_obj NIL) (lan_addr 3)) init_node)"
proof -
  have "run (recv_step test_recv (dht_owner test_dht)) init_node [Arrives 1 (\<lambda>_. True) (pack_obj NIL) (lan_addr 3)]
      (recv_apply test_recv (dht_owner test_dht) (Arrives 1 (\<lambda>_. True) (pack_obj NIL) (lan_addr 3)) init_node)"
    by (meson recv_step.intros run_Cons run_Nil)
  then show ?thesis using node_receives_soundly [OF _ init_node_ok] by blast
qed

section \<open>A node becomes known\<close>

text \<open>
  What happens before a message is handled: the sender is looked up or made (\<open>getNodeCached\<close>), marked as heard of and, unless it is a
  client, offered to the tables.
\<close>

definition hear :: "'d owner \<Rightarrow> nref \<Rightarrow> int \<Rightarrow> rref option \<Rightarrow> 'd net_state \<Rightarrow> unit answer \<times> 'd net_state" where
  "hear H n confirm req s =
     (let s = on_engine (node_received n (net_now s) req) s
      in if \<not> is_client (nd (ns_engine s) n) then call_owner (h_onNewNode H n confirm) s else (Answer (), s))"

definition admit :: "recv_env \<Rightarrow> 'd owner \<Rightarrow> parsed_message \<Rightarrow> sock_addr \<Rightarrow> 'd net_state \<Rightarrow> nref answer \<times> 'd net_state" where
  "admit R H m from s =
     bind_answer (getNodeCached R (pm_id m) from True (pm_is_client m) s) (\<lambda>n s.
     bind_answer (hear H n 1 None s) (\<lambda>_ s. (Answer n, s)))"

definition is_request :: "message_type \<Rightarrow> bool" where
  "is_request ty \<longleftrightarrow> ty \<noteq> ValueUpdate \<and> ty \<noteq> Error \<and> ty \<noteq> Reply"

lemma bind_answer_assoc: "bind_answer (bind_answer r f) g = bind_answer r (\<lambda>x s. bind_answer (f x s) g)"
  by (cases r; cases "fst r") auto

lemma process_admit:
  "is_request (pm_type m) \<Longrightarrow> process R H m from s =
     bind_answer (admit R H m from s) (\<lambda>n s. catch_request R m from (handle_request R H (pm_type m) n m from s))"
  by (simp add: process_def admit_def is_request_def process_request_def hear_def bind_answer_assoc)

lemma insertNode_returns: "\<exists>r. insertNode n now [] s w = Ret r"
  by (auto simp: insertNode_def take_token_def Let_def split: prod.splits)

lemma insert_run_returns: "\<exists>r. insert_run n now ks x = Ret r"
proof (induction ks arbitrary: x)
  case (Cons k ks)
  obtain ins srs w where x: "x = (ins, srs, w)" by (cases x)
  show ?case
  proof (cases "map_of srs k")
    case (Some s)
    obtain b s1 w1 where "insertNode n now [] s w = Ret (b, s1, w1)" using insertNode_returns [of n now s w] by auto
    then show ?thesis using x Some Cons.IH by (simp add: case_prod_beta Let_def)
  qed (simp add: x)
qed (rule exI, rule insert_run.simps(1))

lemma upd_af_store [simp]: "c_store (upd_af af f d) = c_store d"
  by (simp add: upd_af_def)

lemma trySearchInsert_answers: "\<exists>b e' d'. trySearchInsert n (e, d) = (Answer b, e', d') \<and> c_store d' = c_store d"
proof -
  let ?af = "getFamily (n_addr (nd e n))"
  let ?srs = "k_searches (dht_af ?af d)"
  let ?up = "filter (\<lambda>k. \<not> k < n_id (nd e n)) (map fst ?srs)"
  let ?down = "rev (filter (\<lambda>k. k < n_id (nd e n)) (map fst ?srs))"
  obtain r where "insert_run n (eng_now e) ?up (False, ?srs, world_of (e, d)) = Ret r" using insert_run_returns by blast
  moreover obtain ins srs w where "insert_run n (eng_now e) ?down r = Ret (ins, srs, w)" using insert_run_returns by (metis prod_cases3)
  ultimately show ?thesis by (simp add: trySearchInsert_def Let_def put_world_def)
qed

text \<open>Both tables tile the identifiers, hold every node where it belongs, and no identifier twice.\<close>

definition kad_ok :: "(nref \<Rightarrow> hash) \<Rightarrow> nat \<Rightarrow> kad \<Rightarrow> bool" where
  "kad_ok ids k kd \<longleftrightarrow> (let bs = buckets (k_buckets kd) in
     table_ok ids bs \<and> inj_on ids (table_nodes bs) \<and> table_nodes bs \<subseteq> {..<k})"

definition tables_ok :: "dht_core net_state \<Rightarrow> bool" where
  "tables_ok s \<longleftrightarrow> (\<forall>n. length (n_id (nd (ns_engine s) n)) = 20)
     \<and> kad_ok (\<lambda>n. n_id (nd (ns_engine s) n)) (ns_next_nd s) (c_dht4 (ns_dht s))
     \<and> kad_ok (\<lambda>n. n_id (nd (ns_engine s) n)) (ns_next_nd s) (c_dht6 (ns_dht s))"

lemma kad_ok_ids:
  assumes "kad_ok ids k kd" and "\<And>n. n < k \<Longrightarrow> ids' n = ids n"
  shows "table_ok ids' (buckets (k_buckets kd)) \<and> inj_on ids' (table_nodes (buckets (k_buckets kd)))"
proof -
  let ?bs = "buckets (k_buckets kd)"
  have sub: "table_nodes ?bs \<subseteq> {..<k}" using assms(1) by (simp add: kad_ok_def Let_def)
  then have same: "ids' n = ids n" if "n \<in> table_nodes ?bs" for n using that assms(2) by auto
  then have "placed ids' ?bs = placed ids ?bs"
    unfolding placed_def table_nodes_nth by (metis UN_iff lessThan_iff)
  then show ?thesis
    using assms(1) same by (auto simp: kad_ok_def Let_def table_ok_def cong: inj_on_cong)
qed

lemma dht_onNewNode_answers:
  assumes "table_ok (\<lambda>n. n_id (nd e n)) (buckets (k_buckets (dht_af (getFamily (n_addr (nd e n))) d)))"
    and "\<And>n. length (n_id (nd e n)) = 20"
    and "inj_on (\<lambda>n. n_id (nd e n)) (table_nodes (buckets (k_buckets (dht_af (getFamily (n_addr (nd e n))) d))))"
  shows "\<exists>e' d'. dht_onNewNode V n confirm (e, d) = (Answer (), e', d') \<and> c_store d' = c_store d"
proof -
  let ?af = "getFamily (n_addr (nd e n))"
  let ?rt = "k_buckets (dht_af ?af d)"
  have "sv_id (engine_service (dv_net V)) e = (\<lambda>n. n_id (nd e n))" by (simp add: engine_service_def)
  then have "onNewNode 161 (engine_service (dv_net V)) n confirm (eng_now e) (myid (dv_net V)) ?rt e \<noteq> None"
    using dht.onNewNode_ends [of "dv_net V" e ?rt n 161 confirm "eng_now e" "myid (dv_net V)"] assms by simp
  then obtain fresh rt e1 where run: "onNewNode 161 (engine_service (dv_net V)) n confirm (eng_now e) (myid (dv_net V)) ?rt e = Some (fresh, rt, e1)"
    by auto
  obtain b e2 d2 where ins: "trySearchInsert n (e1, upd_af ?af (\<lambda>k. k\<lparr>k_buckets := rt\<rparr>) d) = (Answer b, e2, d2)" "c_store d2 = c_store d"
    using trySearchInsert_answers [of n e1 "upd_af ?af (\<lambda>k. k\<lparr>k_buckets := rt\<rparr>) d"] by auto
  show ?thesis by (simp add: dht_onNewNode_def run ins case_prod_beta Let_def)
qed

lemma getNodeCached_ids:
  assumes "getNodeCached R nid addr confirm client s = (Answer n, s')"
  shows "n_id (nd (ns_engine s') k) = n_id (nd (ns_engine s) k) \<or> n_id (nd (ns_engine s') k) = nid"
proof -
  obtain c h where get: "nc_getNode (ns_alive s) (rv_tid R (ns_draws s)) (rv_place R (ns_draws s)) nid addr (net_now s) confirm client
      (ns_cache s) (node_heap_of s) = Ret (n, c, h)" and "ns_engine s' = (ns_engine s)\<lparr>nd := nd h\<rparr>"
    using assms by (auto simp: getNodeCached_def split: outcome.splits prod.splits)
  with nc_getNode_heap [OF get] show ?thesis
    by (auto simp: make_node_def node_update_def upd_nd_def node_heap_of_def new_node_obj_def)
qed

text \<open>What a call of the table needs, when the sender has its node object.\<close>

definition tables_ready :: "dht_core net_state \<Rightarrow> bool" where
  "tables_ready s \<longleftrightarrow> (\<forall>k. length (n_id (nd (ns_engine s) k)) = 20)
     \<and> (\<forall>af. table_ok (\<lambda>n. n_id (nd (ns_engine s) n)) (buckets (k_buckets (dht_af af (ns_dht s))))
        \<and> inj_on (\<lambda>n. n_id (nd (ns_engine s) n)) (table_nodes (buckets (k_buckets (dht_af af (ns_dht s))))))"

lemma getNodeCached_ready:
  assumes "tables_ok s" and "length nid = 20" and get: "getNodeCached R nid addr confirm client s = (Answer n, s0)"
  shows "tables_ready s0" and "ns_dht s0 = ns_dht s" and "net_now s0 = net_now s" and "ns_delivered s0 = ns_delivered s"
proof -
  have keep: "net_keeps s s0" using getNodeCached_keeps [of s R nid addr confirm client] get by simp
  then show "net_now s0 = net_now s" by (simp add: net_keeps_def)
  show dht: "ns_dht s0 = ns_dht s" and "ns_delivered s0 = ns_delivered s"
    using get by (auto simp: getNodeCached_def split: outcome.splits prod.splits)
  have len: "length (n_id (nd (ns_engine s0) k)) = 20" for k
    using getNodeCached_ids [OF get, of k] assms(1,2) by (auto simp: tables_ok_def)
  have "n_id (nd (ns_engine s0) k) = n_id (nd (ns_engine s) k)" if "k < ns_next_nd s" for k
    using that keep by (simp add: net_keeps_def)
  then have "table_ok (\<lambda>n. n_id (nd (ns_engine s0) n)) (buckets (k_buckets (dht_af af (ns_dht s0))))
      \<and> inj_on (\<lambda>n. n_id (nd (ns_engine s0) n)) (table_nodes (buckets (k_buckets (dht_af af (ns_dht s0)))))" for af
    using assms(1) kad_ok_ids [where ids' = "\<lambda>n. n_id (nd (ns_engine s0) n)"] by (auto simp: tables_ok_def dht_af_def dht)
  with len show "tables_ready s0" by (simp add: tables_ready_def)
qed

lemma hear_answers:
  assumes "tables_ready s"
  shows "\<exists>s1. hear (dht_owner V) n confirm req s = (Answer (), s1) \<and> engine_keeps (ns_engine s) (ns_engine s1)
    \<and> c_store (ns_dht s1) = c_store (ns_dht s) \<and> ns_delivered s1 = ns_delivered s"
proof -
  define sr where "sr = on_engine (node_received n (net_now s) req) s"
  have kr: "engine_keeps (ns_engine s) (ns_engine sr)" "ns_dht sr = ns_dht s" "ns_delivered sr = ns_delivered s"
    by (simp_all add: sr_def on_engine_def node_received_keeps)
  then have ids: "n_id (nd (ns_engine sr) k) = n_id (nd (ns_engine s) k)" for k by (simp add: engine_keeps_def same_ids_def)
  show ?thesis
  proof (cases "is_client (nd (ns_engine sr) n)")
    case True
    then have "hear (dht_owner V) n confirm req s = (Answer (), sr)" by (simp add: hear_def sr_def [symmetric] Let_def)
    then show ?thesis using kr by simp
  next
    case False
    obtain e' d' where new: "dht_onNewNode V n confirm (ns_engine sr, ns_dht sr) = (Answer (), e', d')" and d': "c_store d' = c_store (ns_dht s)"
      using dht_onNewNode_answers [of "ns_engine sr" n "ns_dht sr" V confirm] assms kr(2) ids by (auto simp: tables_ready_def)
    have "engine_keeps (ns_engine sr) (fst (snd (dht_onNewNode V n confirm (ns_engine sr, ns_dht sr))))"
      using dht_onNewNode_keeps unfolding owner_keeps_def by blast
    then have "engine_keeps (ns_engine s) e'" using engine_keeps_trans [OF kr(1)] by (simp add: new)
    moreover have "hear (dht_owner V) n confirm req s = (Answer (), sr\<lparr>ns_engine := e', ns_dht := d'\<rparr>)"
      using False by (simp add: hear_def sr_def [symmetric] call_owner_def dht_owner_def new Let_def)
    ultimately show ?thesis using d' kr(3) by simp
  qed
qed

lemma admit_answers:
  assumes "cache_inv s" and "tables_ok s" and "length (pm_id m) = 20"
  shows "\<exists>n s1. admit R (dht_owner V) m from s = (Answer n, s1) \<and> n_addr (nd (ns_engine s1) n) = from \<and> n_id (nd (ns_engine s1) n) = pm_id m
    \<and> c_store (ns_dht s1) = c_store (ns_dht s) \<and> net_now s1 = net_now s"
proof -
  obtain n s0 where get: "getNodeCached R (pm_id m) from True (pm_is_client m) s = (Answer n, s0)"
    and n: "n_id (nd (ns_engine s0) n) = pm_id m" "n_addr (nd (ns_engine s0) n) = from"
    using getNodeCached_Answer [OF assms(1), of R "pm_id m" "from" True "pm_is_client m"] by auto
  note ready = getNodeCached_ready [OF assms(2,3) get]
  obtain s1 where "hear (dht_owner V) n 1 None s0 = (Answer (), s1)" "engine_keeps (ns_engine s0) (ns_engine s1)" "c_store (ns_dht s1) = c_store (ns_dht s0)"
    using hear_answers [OF ready(1)] by blast
  then show ?thesis
    using n ready by (auto simp: admit_def get engine_keeps_def same_ids_def net_now_def)
qed

section \<open>What listeners are told\<close>

lemma sendUpdateValues_returns:
  assumes "eng_now e \<le> created"
  shows "\<exists>r e'. sendUpdateValues E n h vs created token sid e = (Ret r, e')"
proof -
  obtain t e1 where tid: "getNewTid n e = (t, e1)" by fastforce
  then have "eng_now e1 = eng_now e" by (auto simp: getNewTid_def Let_def upd_nd_def)
  then show ?thesis using assms by (simp add: sendUpdateValues_def tid update_msg_def created_arg_def case_prod_beta Let_def)
qed

lemma tell_answers:
  assumes "told_to {1..} ev"
  shows "\<exists>e'. tell E ev e = (Answer (), e')"
proof (cases ev)
  case (TellListener n sid h want token n4 n6 vs q version)
  moreover from this have "1 \<le> int version" using assms by (simp add: told_to_def)
  moreover obtain r e' where "sendUpdateValues E n h vs (eng_now e) token (ucast (of_nat sid :: tid)) e = (Ret r, e')"
    using sendUpdateValues_returns by blast
  ultimately show ?thesis by (simp add: tell_def tellListener_def case_prod_beta Let_def)
qed (simp_all add: tell_def)

lemma tell_all_answers: "list_all (told_to {1..}) evs \<Longrightarrow> \<exists>e'. tell_all E evs e = (Answer (), e')"
proof (induction evs arbitrary: e)
  case (Cons ev evs)
  then obtain e1 where "tell E ev e = (Answer (), e1)" using tell_answers by fastforce
  then show ?case using Cons by simp
qed simp

lemma told_to_mono: "told_to vers ev \<Longrightarrow> vers \<subseteq> vers' \<Longrightarrow> told_to vers' ev"
  by (cases ev) (auto simp: told_to_def)

text \<open>With listeners of the current protocol the result of the handler is the result of the store.\<close>

lemma store_result_answers:
  assumes "told_only vers (store_now (e, d)) s" and "vers \<subseteq> {1..}"
  shows "\<exists>e'. store_result V err s (e, d) =
    ((case err of None \<Rightarrow> Answer no_answer | Some (code, k) \<Rightarrow> Protocol (of_nat code) (error_text k)), e', d\<lparr>c_store := s\<rparr>)"
proof -
  from assms(1) obtain evs where out: "ds_out s = ds_out (c_store d) @ evs" and "list_all (told_to vers) evs"
    by (auto simp: told_only_def store_now_def)
  then have "list_all (told_to {1..}) evs" using told_to_mono [OF _ assms(2)] by (simp add: list_all_iff)
  then obtain e' where "tell_all (dv_net V) evs e = (Answer (), e')" using tell_all_answers by blast
  then show ?thesis by (auto simp: store_result_def out split: option.splits)
qed

section \<open>A datagram that is let through\<close>

text \<open>The datagram of a peer with environment \<open>E\<close> passes the filters of the receiver.\<close>

definition reaches :: "recv_env \<Rightarrow> net_env \<Rightarrow> sock_addr \<Rightarrow> 'd net_state \<Rightarrow> bool" where
  "reaches R E from s \<longleftrightarrow> is_addr from \<and> getMappedIPv4 from = from \<and> \<not> isMartian from \<and> \<not> isNodeBlacklisted from s
     \<and> network E = network (rv_net R) \<and> myid E \<noteq> myid (rv_net R) \<and> hash_bool (myid E)"

definition let_in :: "recv_env \<Rightarrow> sock_addr \<Rightarrow> 'd net_state \<Rightarrow> 'd net_state" where
  "let_in R from s = snd (rateLimit (rv_max_peer_req R) from s)"

lemma processMessage_request:
  assumes "understood (rv_parse R) buf m" and "reaches R E from s" and "pm_id m = myid E" and "pm_network m = network E"
    and "is_request (pm_type m)" and "pm_type m \<noteq> ValueData" and "pm_value_parts m = []" and "fst (rateLimit (rv_max_peer_req R) from s)"
  shows "processMessage R H buf from s =
    bind_answer (admit R H m from (let_in R from s)) (\<lambda>n s. catch_request R m from (handle_request R H (pm_type m) n m from s))"
proof -
  obtain obj where "pe_unpack (rv_parse R) buf = Some obj" "message_unpack (rv_parse R) obj = Ret m"
    using assms(1) by (auto simp: understood_def split: option.splits)
  then have "processMessage R H buf from s = process_parsed R H m from s"
    using assms(2) by (simp add: processMessage_def reaches_def)
  moreover obtain s1 where "rateLimit (rv_max_peer_req R) from s = (True, s1)" using assms(8) by (metis prod.collapse)
  ultimately show ?thesis
    using assms by (simp add: process_parsed_def reaches_def is_request_def let_in_def process_admit [unfolded is_request_def])
qed

lemma let_in_same:
  "ns_engine (let_in R from s) = ns_engine s" "ns_dht (let_in R from s) = ns_dht s" "ns_next_nd (let_in R from s) = ns_next_nd s"
  "ns_cache (let_in R from s) = ns_cache s"
  by (auto simp: let_in_def rateLimit_def limit_peer_def Let_def split: prod.splits)

lemma let_in_ok: "cache_inv s \<Longrightarrow> cache_inv (let_in R from s)" "tables_ok s \<Longrightarrow> tables_ok (let_in R from s)"
  by (simp_all add: cache_inv_def tables_ok_def node_heap_of_def let_in_same)

section \<open>A put request\<close>

text \<open>A node that is in order and online.\<close>

definition serves :: "recv_env \<Rightarrow> dht_env \<Rightarrow> dht_core net_state \<Rightarrow> bool" where
  "serves R V s \<longleftrightarrow> msgpack_parser (pe_unpack (rv_parse R)) \<and> env_ok (rv_net R) \<and> has_socket (rv_net R) \<and> dv_net V = rv_net R
     \<and> cache_inv s \<and> tables_ok s"

text \<open>The store at the time of the request, and its environment.\<close>

abbreviation store_at :: "dht_core net_state \<Rightarrow> dht_store" where
  "store_at s \<equiv> store_now (ns_engine s, ns_dht s)"

abbreviation env_at :: "dht_env \<Rightarrow> dht_core net_state \<Rightarrow> store_env" where
  "env_at V s \<equiv> store_env_of V (ns_engine s, ns_dht s)"

text \<open>A put of values that fit one packet, as it is sent and as it is read.\<close>

definition put_datagram :: "net_env \<Rightarrow> tid \<Rightarrow> hash \<Rightarrow> dht_value list \<Rightarrow> bytes \<Rightarrow> engine \<Rightarrow> bytes outcome" where
  "put_datagram E t h st token e = put_msg E t h (fst (packValueHeader st)) (eng_now e) token e"

definition put_read :: "parse_env \<Rightarrow> net_env \<Rightarrow> tid \<Rightarrow> hash \<Rightarrow> dht_value list \<Rightarrow> bytes \<Rightarrow> parsed_message" where
  "put_read P E t h st token = (peer_msg E AnnounceValue t)\<lparr>pm_info_hash := h, pm_token := token, pm_values := recv_values (pe_ref P) st\<rparr>"

definition put_fits :: "parse_env \<Rightarrow> net_env \<Rightarrow> hash \<Rightarrow> dht_value list \<Rightarrow> bytes \<Rightarrow> bool" where
  "put_fits P E h st token \<longleftrightarrow> env_ok E \<and> length h = HASH_LEN \<and> values_ok P st \<and> in_one_packet st \<and> length token < 2 ^ 32"

lemma put_handled:
  assumes "serves R V s" and "reaches R E from s" and "fst (rateLimit (rv_max_peer_req R) from s)"
    and "put_fits (rv_parse R) E h st token" and "put_datagram E t h st token e = Ret buf"
  shows "\<exists>n s1. admit R (dht_owner V) (put_read (rv_parse R) E t h st token) from (let_in R from s) = (Answer n, s1)
    \<and> n_addr (nd (ns_engine s1) n) = from \<and> n_id (nd (ns_engine s1) n) = myid E \<and> store_at s1 = store_at s
    \<and> processMessage R (dht_owner V) buf from s = catch_request R (put_read (rv_parse R) E t h st token) from
        (handle_request R (dht_owner V) AnnounceValue n (put_read (rv_parse R) E t h st token) from s1)"
proof -
  let ?m = "put_read (rv_parse R) E t h st token"
  have und: "understood (rv_parse R) buf ?m"
  proof -
    obtain bs where "put_datagram E t h st token e = Ret bs"
        "understood (rv_parse R) bs (with_values (rv_parse R) st ((peer_msg E AnnounceValue t)\<lparr>pm_info_hash := h, pm_token := token\<rparr>))"
      unfolding put_datagram_def
      using put_understood [where st = st and e = e and created = "eng_now e" and t = t and h = h and token = token and P = "rv_parse R" and E = E]
        assms(1,4) by (auto simp: serves_def put_fits_def)
    then show ?thesis using assms(4,5) by (simp add: with_values_def put_read_def put_fits_def)
  qed
  have m: "pm_id ?m = myid E" "pm_network ?m = network E" "pm_type ?m = AnnounceValue" "pm_value_parts ?m = []"
    by (simp_all add: put_read_def peer_msg_def new_message_def)
  have len: "length (pm_id ?m) = 20" using assms(4) m by (simp add: put_fits_def env_ok_def HASH_LEN_def)
  obtain n s1 where ad: "admit R (dht_owner V) ?m from (let_in R from s) = (Answer n, s1)"
    and n: "n_addr (nd (ns_engine s1) n) = from" "n_id (nd (ns_engine s1) n) = myid E"
    and st: "c_store (ns_dht s1) = c_store (ns_dht s)" "net_now s1 = net_now s"
    using admit_answers [OF _ _ len, of "let_in R from s" R V "from"] assms(1) m(1)
    by (auto simp: serves_def let_in_ok let_in_same net_now_def)
  have "processMessage R (dht_owner V) buf from s = catch_request R ?m from (handle_request R (dht_owner V) AnnounceValue n ?m from s1)"
    using processMessage_request [OF und assms(2) m(1,2) _ _ m(4) assms(3), of "dht_owner V"] ad m(3) by (simp add: is_request_def)
  then show ?thesis using ad n st by (auto simp: store_now_def net_now_def)
qed

lemma token_env: "tokenMatch (env_at V s) = tokenMatch (env_at V s')"
  by (simp add: fun_eq_iff tokenMatch_def makeToken_def store_env_of_def Let_def)

lemma last_sent: "has_socket E \<Longrightarrow> last (sent (snd (send E a b c e))) = (a, b, c)"
  by (simp add: send_def)

lemma env_at_sel [simp]:
  "e_myid (env_at V s) = myid (dv_net V)" "e_types (env_at V s) = dv_types V" "e_addr (env_at V s) = (\<lambda>n. n_addr (nd (ns_engine s) n))"
  "e_nid (env_at V s) = (\<lambda>n. n_id (nd (ns_engine s) n))" "e_near (env_at V s) = near_nodes V (ns_engine s, ns_dht s)"
  by (simp_all add: store_env_of_def)

text \<open>
  C10: A put without a valid token is refused and says so. The node that receives it, from whatever peer that gets past its filters,
  returns, changes nothing in its store but the time, and its last datagram is an error that the sender reads, under the
  transaction identifier of its request, as code 401.
\<close>

theorem put_refused:
  assumes "serves R V s" and "reaches R E from s" and "fst (rateLimit (rv_max_peer_req R) from s)"
    and "put_fits (rv_parse R) E h st token" and "put_datagram E t h st token e = Ret buf"
    and "hash_bool h" and "\<not> tokenMatch (env_at V s) token from (store_at s)" and "msgpack_parser (pe_unpack P)"
  shows "\<exists>s' bs. processMessage R (dht_owner V) buf from s = (Answer (), s') \<and> c_store (ns_dht s') = store_at s
    \<and> last (sent (ns_engine s')) = (from, bs, False) \<and> understood P bs ((peer_msg (rv_net R) Error t)\<lparr>pm_error_code := 401\<rparr>)"
proof -
  let ?m = "put_read (rv_parse R) E t h st token"
  obtain n s1 where n: "n_addr (nd (ns_engine s1) n) = from" and st: "store_at s1 = store_at s"
    and run: "processMessage R (dht_owner V) buf from s = catch_request R ?m from (handle_request R (dht_owner V) AnnounceValue n ?m from s1)"
    using put_handled [OF assms(1-5)] by blast
  have "onAnnounce (env_at V s1) n h token (pm_values ?m) (pm_created ?m) (store_at s1) = Some (Ret (Some (401, ''PUT_WRONG_TOKEN''), store_at s))"
    using assms(6,7) n st by (simp add: onAnnounce_def token_env [of V s1 s])
  moreover obtain e' where "store_result V (Some (401, ''PUT_WRONG_TOKEN'')) (store_at s) (ns_engine s1, ns_dht s1)
      = (Protocol 401 (error_text ''PUT_WRONG_TOKEN''), e', (ns_dht s1)\<lparr>c_store := store_at s\<rparr>)"
    using store_result_answers [of "{}" "ns_engine s1" "ns_dht s1" "store_at s" V "Some (401, ''PUT_WRONG_TOKEN'')"] st by auto
  ultimately have "dht_onAnnounce V n h token (pm_values ?m) (pm_created ?m) (ns_engine s1, ns_dht s1)
      = (Protocol 401 (error_text ''PUT_WRONG_TOKEN''), e', (ns_dht s1)\<lparr>c_store := store_at s\<rparr>)"
    by (simp add: dht_onAnnounce_def)
  moreover have "pm_info_hash ?m = h" "pm_token ?m = token" "pm_tid ?m = t" by (simp_all add: put_read_def peer_msg_def)
  moreover have msg: "takeWhile (\<lambda>b. b \<noteq> 0) (error_text ''PUT_WRONG_TOKEN'') = error_text ''PUT_WRONG_TOKEN''" by code_simp
  ultimately have "processMessage R (dht_owner V) buf from s = (Answer (), on_engine (sendError (rv_net R) from t 401 (error_text ''PUT_WRONG_TOKEN'') True)
      ((count_in (\<lambda>st. st\<lparr>st_put := st_put st + 1\<rparr>) s1)\<lparr>ns_engine := e', ns_dht := (ns_dht s1)\<lparr>c_store := store_at s\<rparr>\<rparr>))"
    unfolding run by (simp add: call_owner_def count_in_def dht_owner_def catch_request_def msg)
  moreover have "understood P (error_msg (rv_net R) t 401 (error_text ''PUT_WRONG_TOKEN'') True) ((peer_msg (rv_net R) Error t)\<lparr>pm_error_code := 401\<rparr>)"
    using assms(1,8) by (intro error_understood) (simp_all add: serves_def error_text_def lit_def)
  ultimately show ?thesis
    using assms(1) by (simp add: on_engine_def sendError_def last_sent serves_def)
qed

definition test_token :: bytes where
  "test_token = replicate 32 9"

definition peer_net :: net_env where
  "peer_net = test_net\<lparr>myid := replicate 20 2\<rparr>"

definition small_value :: dht_value where
  "small_value = (new_value 1)\<lparr>v_id := 8, v_data := [6]\<rparr>"

lemma init_node_serves: "serves test_recv test_dht init_node"
proof -
  have "tables_ok init_node"
    using init_table_ok by (simp add: tables_ok_def kad_ok_def init_node_def init_net_def init_core_def init_kad_def Let_def init_engine_def init_heap_def new_node_obj_def)
  then show ?thesis
    using decoder.msgpack_parser_axioms init_net_cache
    by (simp add: serves_def test_recv_def test_parse_def test_net_def test_dht_def env_ok_def HASH_LEN_def init_node_def)
qed

lemma peer_id_set: "hash_bool (replicate 20 2)"
  by code_simp

lemma peer_reaches: "reaches test_recv peer_net (lan_addr 3) init_node"
  using peer_id_set
  by (simp add: reaches_def is_addr_def lan_addr_eq getMappedIPv4_def isMappedIPv4_def isMartian_def isNodeBlacklisted_def init_node_def init_net_def
     test_recv_def test_net_def peer_net_def getPort_def getFamily_def family_defs ip4_def)

lemma peer_limit: "fst (rateLimit (rv_max_peer_req test_recv) (lan_addr 3) init_node)"
  by (simp add: rateLimit_def limit_peer_def test_recv_def init_node_def init_net_def rl_limit_def new_limiter_def rl_maintain_def Let_def net_now_def init_engine_def)

lemma init_store: "store_at init_node = empty_store 10 100"
  by (simp add: store_now_def init_node_def init_net_def init_core_def empty_store_def init_engine_def)

lemma small_fits: "length token < 2 ^ 32 \<Longrightarrow> put_fits (rv_parse test_recv) peer_net key1 [small_value] token"
  by (simp add: put_fits_def values_ok_def in_one_packet_def serializeValues_def MAX_PACKET_VALUE_SIZE_def MAX_VALUE_SIZE_def value_sized_def key_ok_def
      small_value_def new_value_def owner_export_def hash_zero_def test_recv_def test_parse_def peer_net_def env_ok_def HASH_LEN_def key1_def
      getPacked_def msgpack_pack_def msgpack_pack_to_encrypt_def msgpack_pack_to_sign_def isEncrypted_def
      isSigned_def has_owner_def pack_map_header_def length_pack_str pack_number_def pack_uint64_def pack_bin_def pack_bin_header_def store16_def test_net_def)

theorem put_refused_witness:
  "\<exists>buf s' bs. put_datagram peer_net 7 key1 [small_value] [1] init_engine = Ret buf
    \<and> processMessage test_recv (dht_owner test_dht) buf (lan_addr 3) init_node = (Answer (), s') \<and> c_store (ns_dht s') = empty_store 10 100
    \<and> last (sent (ns_engine s')) = (lan_addr 3, bs, False) \<and> understood test_parse bs ((peer_msg test_net Error 7)\<lparr>pm_error_code := 401\<rparr>)"
proof -
  obtain buf where buf: "put_datagram peer_net 7 key1 [small_value] [1] init_engine = Ret buf"
    by (simp add: put_datagram_def put_msg_def created_arg_def)
  have fits: "put_fits (rv_parse test_recv) peer_net key1 [small_value] [1]" by (rule small_fits) simp
  have "\<not> tokenMatch (env_at test_dht init_node) [1] (lan_addr 3) (store_at init_node)" by (simp add: tokenMatch_def TOKEN_SIZE_def)
  moreover have "hash_bool key1" by code_simp
  moreover have "msgpack_parser (pe_unpack test_parse)" using decoder.msgpack_parser_axioms by (simp add: test_parse_def)
  ultimately show ?thesis
    using put_refused [OF init_node_serves peer_reaches peer_limit fits buf] buf by (fastforce simp: init_store test_recv_def)
qed

text \<open>Whether the node is among the closest ones it knows, as far as the handler looks.\<close>

definition close_enough :: "dht_env \<Rightarrow> dht_core net_state \<Rightarrow> sock_addr \<Rightarrow> hash \<Rightarrow> bool" where
  "close_enough V s from h \<longleftrightarrow> (let near = near_nodes V (ns_engine s, ns_dht s) (getFamily from) h SEARCH_NODES in
     \<not> (length near \<ge> 8 \<and> xorCmp h (n_id (nd (ns_engine s) (last near))) (myid (dv_net V)) < 0))"

lemma wire_id [simp]: "v_id (wire_form r v) = v_id v"
  by (simp add: wire_form_def)

lemma put_confirmed:
  assumes "serves R V s" and "listener_versions h (store_at s1) \<subseteq> {1..}"
    and ann: "onAnnounce (env_at V s1) n h token [w] created (store_at s1) = Some (Ret (None, S'))"
    and told: "told_only (listener_versions h (store_at s1)) (store_at s1) S'"
    and m: "pm_info_hash m = h" "pm_token m = token" "pm_values m = [w]" "pm_created m = created"
  shows "\<exists>s'. catch_request R m from (handle_request R (dht_owner V) AnnounceValue n m from s1) = (Answer (), s') \<and> c_store (ns_dht s') = S'
    \<and> last (sent (ns_engine s')) = (from, reply_msg (rv_net R) (pm_tid m) 3 (pack_str (lit ''vid'') @ pack_number (v_id w) @ insertAddr from), False)"
proof -
  obtain e' where "store_result V None S' (ns_engine s1, ns_dht s1) = (Answer no_answer, e', (ns_dht s1)\<lparr>c_store := S'\<rparr>)"
    using store_result_answers [OF told assms(2), of V None] by auto
  then have "dht_onAnnounce V n h token [w] created (ns_engine s1, ns_dht s1) = (Answer no_answer, e', (ns_dht s1)\<lparr>c_store := S'\<rparr>)"
    using ann by (simp add: dht_onAnnounce_def)
  then have "handle_request R (dht_owner V) AnnounceValue n m from s1 = (Answer (), on_engine (sendValueAnnounced (rv_net R) from (pm_tid m) (v_id w))
      ((count_in (\<lambda>st. st\<lparr>st_put := st_put st + 1\<rparr>) s1)\<lparr>ns_engine := e', ns_dht := (ns_dht s1)\<lparr>c_store := S'\<rparr>\<rparr>))"
    by (simp add: call_owner_def count_in_def dht_owner_def m)
  then show ?thesis
    using assms(1) by (simp add: catch_request_def on_engine_def sendValueAnnounced_def last_sent serves_def)
qed

text \<open>
  C1: A put reaches the store of the other node and is confirmed. Let a peer send a new value that fits one packet, with a valid token,
  to a node in order whose store has room and whose policy for the type accepts the value. Then the node returns, its
  store is consistent and differs at most in this value; if the node is among the closest it knows once the sender is known to it,
  and the store takes the value, a lookup finds it in the form in which it went over the wire; and the last
  datagram is a confirmation that the sender reads as the reply to its request, with the identifier of the value and its own address.
\<close>

theorem put_stored:
  assumes "serves R V s" and "reaches R E from s" and "fst (rateLimit (rv_max_peer_req R) from s)"
    and "put_fits (rv_parse R) E h [v] token" and "put_datagram E t h [v] token e = Ret buf" and "readable v"
    and "store_ok (store_at s)" and "quotas_live (store_at s)" and "listener_versions h (store_at s) \<subseteq> {1..}"
    and "hash_bool h" and "tokenMatch (env_at V s) token from (store_at s)"
    and "v_id v \<noteq> INVALID_ID" and "getLocalById h (v_id v) (store_at s) = None"
    and "storePolicy (getType (dv_types V) (v_type (wire_form (pe_ref (rv_parse R)) v))) h (wire_form (pe_ref (rv_parse R)) v) (myid E) from = (True, vc)"
    and "list_all (\<lambda>w. v_ref w = v_ref vc \<longrightarrow> v_id w = v_id vc) (getLocal h None (store_at s))"
    and "sum_over stored_size (ds_store (store_at s)) + value_size vc \<le> unat (max_store_size (store_at s))"
    and "msgpack_parser (pe_unpack P)"
  shows "\<exists>n s1 s' bs. admit R (dht_owner V) (put_read (rv_parse R) E t h [v] token) from (let_in R from s) = (Answer n, s1)
    \<and> processMessage R (dht_owner V) buf from s = (Answer (), s') \<and> store_ok (c_store (ns_dht s'))
    \<and> (close_enough V s1 from h \<and> takes (env_at V s) h vc time_max False (store_at s)
        \<longrightarrow> getLocalById h (v_id vc) (c_store (ns_dht s')) = Some vc)
    \<and> (\<forall>h' vid. (h', vid) \<noteq> (h, v_id vc) \<longrightarrow> getLocalById h' vid (c_store (ns_dht s')) = getLocalById h' vid (store_at s))
    \<and> last (sent (ns_engine s')) = (from, bs, False)
    \<and> understood P bs ((peer_msg (rv_net R) Reply t)\<lparr>pm_value_id := v_id v, pm_addr := reported from\<rparr>)"
proof -
  let ?m = "put_read (rv_parse R) E t h [v] token"
  let ?w = "wire_form (pe_ref (rv_parse R)) v"
  obtain n s1 where ad: "admit R (dht_owner V) ?m from (let_in R from s) = (Answer n, s1)"
    and n: "n_addr (nd (ns_engine s1) n) = from" "n_id (nd (ns_engine s1) n) = myid E" and st: "store_at s1 = store_at s"
    and run: "processMessage R (dht_owner V) buf from s = catch_request R ?m from (handle_request R (dht_owner V) AnnounceValue n ?m from s1)"
    using put_handled [OF assms(1-5)] by blast
  have m: "pm_info_hash ?m = h" "pm_token ?m = token" "pm_tid ?m = t" "pm_values ?m = [?w]" "pm_created ?m = time_max"
    using assms(6) by (simp_all add: put_read_def peer_msg_def new_message_def readable_def)
  have tok: "tokenMatch (env_at V s1) token (e_addr (env_at V s1) n) (store_at s1)"
    using assms(11) n st by (simp add: token_env [of V s1 s])
  have policy: "storePolicy (getType (e_types (env_at V s1)) (v_type ?w)) h ?w (e_nid (env_at V s1) n) (e_addr (env_at V s1) n) = (True, vc)"
    using assms(14) n by simp
  from announce_effect [where e = "env_at V s1" and n = n and v = ?w and token = token and created = time_max, OF _ _ assms(10) tok _ _ policy]
    assms(7,8,12,13,15,16) obtain S' where
    S': "onAnnounce (env_at V s1) n h token [?w] time_max (store_at s1) = Some (Ret (None, S'))" "store_ok S'"
      "told_only (listener_versions h (store_at s1)) (store_at s1) S'"
      "close_enough V s1 from h \<and> takes (env_at V s1) h vc (min time_max (ds_time (store_at s))) False (store_at s) \<longrightarrow> getLocalById h (v_id vc) S' = Some vc"
      "\<forall>h' vid. (h', vid) \<noteq> (h, v_id vc) \<longrightarrow> getLocalById h' vid S' = getLocalById h' vid (store_at s)"
    by (force simp: st n close_enough_def Let_def)
  obtain s' where s': "processMessage R (dht_owner V) buf from s = (Answer (), s')" "c_store (ns_dht s') = S'"
      "last (sent (ns_engine s')) = (from, reply_msg (rv_net R) t 3 (pack_str (lit ''vid'') @ pack_number (v_id v) @ insertAddr from), False)"
    using put_confirmed [OF assms(1) _ S'(1,3) m(1,2,4,5), of "from"] assms(9) st m(3) by (auto simp: run)
  have "takes (env_at V s1) h vc (min time_max (ds_time (store_at s))) False (store_at s) = takes (env_at V s) h vc time_max False (store_at s)"
    by (simp add: takes_def)
  moreover have "understood P (reply_msg (rv_net R) t 3 (pack_str (lit ''vid'') @ pack_number (v_id v) @ insertAddr from))
      ((peer_msg (rv_net R) Reply t)\<lparr>pm_value_id := v_id v, pm_addr := reported from\<rparr>)"
    using assms(1,2,17) by (intro announced_understood) (simp_all add: serves_def reaches_def)
  ultimately show ?thesis using ad s' S' by blast
qed

text \<open>A node that has just been set up knows one other node at most after its first message.\<close>

lemma bind_answer_Answer: "bind_answer r f = (Answer y, s') \<longleftrightarrow> (\<exists>x s1. r = (Answer x, s1) \<and> f x s1 = (Answer y, s'))"
  by (cases r; cases "fst r") auto

lemma first_node:
  assumes "onNewNode (Suc k) sv n c now me init_table e = Some (fresh, rt, e')"
  shows "(\<exists>b. buckets rt = [b] \<and> length (b_nodes b) \<le> 1) \<and> e' = e"
  using assms by (cases "c = 2") (auto simp: onNewNode_pass_def init_table_def findBucket_def new_bucket_def Let_def upd_bucket_def TARGET_NODES_def)

lemma first_handled:
  assumes "dht_onNewNode V n 1 (e, init_core) = (Answer (), e', d')"
  shows "\<exists>b. buckets (k_buckets (dht_af af d')) = [b] \<and> length (b_nodes b) \<le> 1"
proof -
  let ?af = "getFamily (n_addr (nd e n))"
  have core: "k_searches (dht_af x init_core) = []" "k_buckets (dht_af x init_core) = init_table" for x
    by (simp_all add: init_core_def init_kad_def dht_af_def)
  obtain fresh rt e1 where run: "onNewNode 161 (engine_service (dv_net V)) n 1 (eng_now e) (myid (dv_net V)) init_table e = Some (fresh, rt, e1)"
    using assms by (auto simp: dht_onNewNode_def core Let_def split: option.splits)
  have "(161 :: nat) = Suc 160" by simp
  with run have rt: "\<exists>b. buckets rt = [b] \<and> length (b_nodes b) \<le> 1" by (metis first_node)
  have "k_buckets (dht_af af d') = k_buckets (dht_af af (upd_af ?af (\<lambda>k. k\<lparr>k_buckets := rt\<rparr>) init_core))"
    using assms
    by (auto simp: dht_onNewNode_def core run Let_def case_prod_beta bind_answer_Answer trySearchInsert_def dht_af_def upd_af_def put_world_def
        init_core_def init_kad_def split: if_splits)
  moreover have "\<exists>b. buckets init_table = [b] \<and> length (b_nodes b) \<le> 1" by (simp add: init_table_def new_bucket_def)
  ultimately show ?thesis using rt by (auto simp: dht_af_def upd_af_def init_core_def init_kad_def)
qed

lemma single_bucket: "length (b_nodes b) \<le> 1 \<Longrightarrow> length (findClosestNodes sv e h now k [b]) \<le> 1"
  by (cases "b_nodes b") (auto simp: findClosestNodes_def findBucket_def closest_loop.simps [of _ _ _ _ "[b]"] closest_loop.simps [of _ _ _ _ "[]"]
      bucket_insert_def Let_def insert_before.simps)

lemma first_message_close:
  assumes "admit R (dht_owner V) m from (let_in R from init_node) = (Answer n, s1)"
  shows "close_enough V s1 a h"
proof -
  have init: "ns_dht (let_in R from init_node) = init_core" by (simp add: let_in_same init_node_def init_net_def)
  obtain s0 where get: "getNodeCached R (pm_id m) from True (pm_is_client m) (let_in R from init_node) = (Answer n, s0)"
    and rest: "hear (dht_owner V) n 1 None s0 = (Answer (), s1)"
    using assms by (auto simp: admit_def bind_answer_Answer)
  have dht0: "ns_dht s0 = init_core" using get init by (auto simp: getNodeCached_def split: outcome.splits prod.splits)
  have "\<exists>b. buckets (k_buckets (dht_af af (ns_dht s1))) = [b] \<and> length (b_nodes b) \<le> 1" for af
  proof (cases "ns_dht s1 = init_core")
    case True
    then show ?thesis by (simp add: init_core_def init_kad_def dht_af_def init_table_def new_bucket_def)
  next
    case False
    then obtain e e' where "dht_onNewNode V n 1 (e, init_core) = (Answer (), e', ns_dht s1)"
      using rest dht0 by (auto simp: hear_def Let_def on_engine_def call_owner_def dht_owner_def split: if_splits prod.splits)
    then show ?thesis by (rule first_handled)
  qed
  then have "length (near_nodes V (ns_engine s1, ns_dht s1) (getFamily a) h k) \<le> 1" for k
    unfolding near_nodes_def by (metis fst_conv snd_conv single_bucket)
  from this [of SEARCH_NODES] show ?thesis by (simp add: close_enough_def Let_def)
qed

theorem put_stored_witness:
  "\<exists>buf s' bs. put_datagram peer_net 7 key1 [small_value] test_token init_engine = Ret buf
    \<and> processMessage test_recv (dht_owner test_dht) buf (lan_addr 3) init_node = (Answer (), s')
    \<and> getLocalById key1 8 (c_store (ns_dht s')) = Some (wire_form 5 small_value)
    \<and> last (sent (ns_engine s')) = (lan_addr 3, bs, False)
    \<and> understood test_parse bs ((peer_msg test_net Reply 7)\<lparr>pm_value_id := 8, pm_addr := reported (lan_addr 3)\<rparr>)"
proof -
  let ?w = "wire_form 5 small_value"
  obtain buf where buf: "put_datagram peer_net 7 key1 [small_value] test_token init_engine = Ret buf"
    by (simp add: put_datagram_def put_msg_def created_arg_def)
  have fits: "put_fits (rv_parse test_recv) peer_net key1 [small_value] test_token" by (rule small_fits) (simp add: test_token_def)
  have w: "?w = (new_value 5)\<lparr>v_id := 8, v_data := [6]\<rparr>"
    by (simp add: wire_form_def small_value_def isEncrypted_def has_owner_def new_value_def)
  note defs = empty_store_def quotas_live_def listener_versions_def getLocalById_def getLocal_def sum_over_def
  have 1: "readable small_value" by (simp add: readable_def small_value_def has_owner_def new_value_def)
  have 2: "store_ok (store_at init_node)" by (simp add: init_store empty_store_ok)
  have 3: "quotas_live (store_at init_node)" "listener_versions key1 (store_at init_node) \<subseteq> {1..}"
    "getLocalById key1 (v_id small_value) (store_at init_node) = None"
    "list_all (\<lambda>x. v_ref x = v_ref ?w \<longrightarrow> v_id x = v_id ?w) (getLocal key1 None (store_at init_node))"
    by (simp_all add: init_store defs)
  have 4: "hash_bool key1" by code_simp
  have 5: "tokenMatch (env_at test_dht init_node) test_token (lan_addr 3) (store_at init_node)"
    by (simp add: tokenMatch_def test_token_def TOKEN_SIZE_def makeToken_def lan_addr_eq getFamily_def family_defs test_dht_def store_env_of_def)
  have 6: "v_id small_value \<noteq> INVALID_ID" by (simp add: small_value_def INVALID_ID_def)
  have 7: "storePolicy (getType (dv_types test_dht) (v_type (wire_form (pe_ref (rv_parse test_recv)) small_value))) key1
      (wire_form (pe_ref (rv_parse test_recv)) small_value) (myid peer_net) (lan_addr 3) = (True, ?w)"
    by (simp add: test_recv_def test_parse_def test_dht_def w getType_def USER_DATA_def DEFAULT_STORE_POLICY_def value_size_def MAX_VALUE_SIZE_def new_value_def)
  have 8: "sum_over stored_size (ds_store (store_at init_node)) + value_size ?w \<le> unat (max_store_size (store_at init_node))"
    by (simp add: init_store defs w value_size_def new_value_def)
  have 9: "msgpack_parser (pe_unpack test_parse)" using decoder.msgpack_parser_axioms by (simp add: test_parse_def)
  have "takes (env_at test_dht init_node) key1 ?w time_max False (store_at init_node)"
    by (simp add: init_store takes_def defs w test_dht_def store_env_of_def getType_def USER_DATA_def MAX_VALUES_def time_max_def minutes_def seconds_def new_value_def)
  then show ?thesis
    using put_stored [OF init_node_serves peer_reaches peer_limit fits buf 1 2 3(1,2) 4 5 6 3(3) 7 3(4) 8 9] buf first_message_close
    by (fastforce simp: test_recv_def small_value_def)
qed

section \<open>The reply comes back\<close>

lemma getNodeCached_known:
  assumes "cache_inv s" and "hash_bool nid" and "nc_view (ns_alive s) (ns_cache s) (getFamily addr) nid = Some n"
  shows "\<exists>s0. getNodeCached R nid addr True client s = (Answer n, s0) \<and> ns_engine s0 = node_update n addr (ns_engine s)"
proof -
  let ?rnd = "rv_tid R (ns_draws s)" and ?r = "rv_place R (ns_draws s)"
  have "nc_ok (node_heap_of s) (ns_cache s)" using assms(1) by (simp add: cache_inv_def)
  from nc_getNode_effect [OF this assms(2), of "ns_alive s" ?rnd ?r addr "net_now s" True client] assms(3) obtain c' where
    "nc_getNode (ns_alive s) ?rnd ?r nid addr (net_now s) True client (ns_cache s) (node_heap_of s) = Ret (n, c', node_update n addr (node_heap_of s))"
    by auto
  then show ?thesis by (simp add: getNodeCached_def node_update_def upd_nd_def node_heap_of_def)
qed

lemma processMessage_reply:
  assumes "understood (rv_parse R) buf m" and "reaches R E from s" and "pm_id m = myid E" and "pm_network m = network E"
    and "pm_type m = Reply" and "pm_value_parts m = []"
  shows "processMessage R H buf from s =
    bind_answer (getNodeCached R (myid E) from True (pm_is_client m) s) (\<lambda>n s. process_response R H n m from s)"
proof -
  obtain obj where "pe_unpack (rv_parse R) buf = Some obj" "message_unpack (rv_parse R) obj = Ret m"
    using assms(1) by (auto simp: understood_def split: option.splits)
  then show ?thesis using assms(2-6) by (simp add: processMessage_def process_parsed_def process_def reaches_def)
qed

lemma complete_request_done:
  assumes "pm_nodes4_raw m = []" and "pm_nodes6_raw m = []" and "pending (rq (ns_engine s) r)"
  shows "\<exists>s'. complete_request R H m from r s = (Answer (), s') \<and> rq_state (rq (ns_engine s') r) = COMPLETED
    \<and> ns_delivered s' = ns_delivered s @ [ReplyTo r m]"
proof -
  have "chunks NODE4_INFO_BUF_LEN ([] :: bytes) = []" "chunks NODE6_INFO_BUF_LEN ([] :: bytes) = []"
    by (simp_all add: NODE4_INFO_BUF_LEN_def NODE6_INFO_BUF_LEN_def chunks_short)
  then have "deserializeNodes R H m from s0 = (Answer m, s0)" for s0
    using assms(1,2) by (simp add: deserializeNodes_def)
  then show ?thesis
    using assms(3)
    by (auto simp: complete_request_def on_engine_def deliver_def req_setDone_def heap_defs authSuccess_def
        pending_def req_clear_def Let_def)
qed

text \<open>
  C8: A reply completes its request. When a reply that lists no nodes and comes in one piece, whatever else it holds, reaches the node that waits for it (from a node
  it knows, under the transaction identifier of the request), then, unless the request has ended in the meantime or ends while the sender is
  entered into the tables, it is completed and the message is handed to its callback, once; in the other case nothing is delivered
  and the state of the request stays as it is.
\<close>

theorem reply_completes:
  assumes "serves R V s" and "reaches R E from s" and "env_ok E" and "understood (rv_parse R) bs m"
    and m: "pm_id m = myid E" "pm_network m = network E" "pm_type m = Reply" "pm_value_parts m = []" "pm_nodes4_raw m = []" "pm_nodes6_raw m = []"
    and "nc_view (ns_alive s) (ns_cache s) (getFamily from) (myid E) = Some n" and "node_getRequest n (pm_tid m) (ns_engine s) = Some r"
  shows "\<exists>s0 s1 s'. getNodeCached R (myid E) from True (pm_is_client m) s = (Answer n, s0) \<and> hear (dht_owner V) n 2 (Some r) s0 = (Answer (), s1)
    \<and> processMessage R (dht_owner V) bs from s = (Answer (), s')
    \<and> (if over (rq (ns_engine s1) r) then rq_state (rq (ns_engine s') r) = rq_state (rq (ns_engine s1) r) \<and> ns_delivered s' = ns_delivered s
       else rq_state (rq (ns_engine s') r) = COMPLETED \<and> ns_delivered s' = ns_delivered s @ [ReplyTo r m])"
proof -
  have ok: "cache_inv s" "tables_ok s" using assms(1) by (simp_all add: serves_def)
  obtain s0 where get: "getNodeCached R (myid E) from True (pm_is_client m) s = (Answer n, s0)" and e0: "ns_engine s0 = node_update n from (ns_engine s)"
    using getNodeCached_known [OF ok(1) _ assms(11)] assms(2) by (auto simp: reaches_def)
  have "length (myid E) = 20" using assms(3) by (simp add: env_ok_def HASH_LEN_def)
  note ready = getNodeCached_ready [OF ok(2) this get]
  obtain s1 where s1: "hear (dht_owner V) n 2 (Some r) s0 = (Answer (), s1)" "ns_delivered s1 = ns_delivered s0"
    using hear_answers [OF ready(1)] by blast
  have req: "node_getRequest n (pm_tid m) (ns_engine s0) = Some r"
    using assms(12) by (simp add: e0 node_getRequest_def node_update_def upd_nd_def)
  define s2 where "s2 = snd (call_owner (h_onReportedAddr (dht_owner V) (myid E) (pm_addr m)) s1)"
  have rep: "call_owner (h_onReportedAddr (dht_owner V) (myid E) (pm_addr m)) s1 = (Answer (), s2)" "ns_engine s2 = ns_engine s1" "ns_delivered s2 = ns_delivered s"
    using s1(2) ready(4) by (simp_all add: s2_def call_owner_def dht_owner_def dht_onReportedAddr_def)
  have run: "processMessage R (dht_owner V) bs from s =
      (if over (rq (ns_engine s1) r) then (Answer (), s2) else complete_request R (dht_owner V) m from r s2)"
    using processMessage_reply [OF assms(4,2) m(1-4), of "dht_owner V"] s1(1) rep m
    by (simp add: get process_response_def req process_reply_def hear_def)
  show ?thesis
  proof (cases "over (rq (ns_engine s1) r)")
    case True
    then show ?thesis using get s1(1) run rep by auto
  next
    case False
    then have "pending (rq (ns_engine s2) r)" using rep(2) by (cases "rq_state (rq (ns_engine s1) r)") (auto simp: over_def pending_def)
    from complete_request_done [OF m(5,6) this] obtain s' where "complete_request R (dht_owner V) m from r s2 = (Answer (), s')"
        "rq_state (rq (ns_engine s') r) = COMPLETED" "ns_delivered s' = ns_delivered s2 @ [ReplyTo r m]" by blast
    then show ?thesis using False get s1(1) run rep by auto
  qed
qed

text \<open>
  A reply with a list of nodes of a wrong length does not: the exception comes after the request has been taken off the list of its node, and leaves it waiting.
\<close>

theorem reply_wrong_length:
  assumes "length (pm_nodes4_raw m) mod NODE4_INFO_BUF_LEN \<noteq> 0 \<or> length (pm_nodes6_raw m) mod NODE6_INFO_BUF_LEN \<noteq> 0"
  shows "fst (complete_request R H m from r s) = Protocol WRONG_NODE_INFO_BUF_LEN []"
    and "rq_state (rq (ns_engine (snd (complete_request R H m from r s))) r) = rq_state (rq (ns_engine s) r)"
    and "ns_delivered (snd (complete_request R H m from r s)) = ns_delivered s"
  using assms by (auto simp: complete_request_def deserializeNodes_def on_engine_def authSuccess_def upd_rq_def upd_nd_def Let_def)

text \<open>A node that waits for the confirmation of a put.\<close>

definition waiting_engine :: engine where
  "waiting_engine = init_engine\<lparr>nd := (nd init_engine)(0 := (new_node_obj (replicate 20 2) (lan_addr 3) 8 False)\<lparr>n_requests := [(7, 0)]\<rparr>),
     rq := (rq init_engine)(0 := new_request_obj AnnounceValue 7 0 [] False), next_rq := 1\<rparr>"

definition waiting_node :: "dht_core net_state" where
  "waiting_node = (init_net waiting_engine init_core)\<lparr>ns_next_nd := 1, ns_alive := (\<lambda>_. True),
     ns_cache := new_node_cache\<lparr>cache_4 := new_node_map\<lparr>nm_nodes := [(replicate 20 2, 0)]\<rparr>\<rparr>\<rparr>"

lemma waiting_node_serves: "serves test_recv test_dht waiting_node"
proof -
  have "tables_ok waiting_node"
    using init_table_ok
    by (simp add: tables_ok_def kad_ok_def waiting_node_def waiting_engine_def init_net_def init_core_def init_kad_def Let_def init_engine_def
        init_heap_def new_node_obj_def)
  moreover have "cache_inv waiting_node"
    by (simp add: cache_inv_def nc_ok_def nm_ok_def waiting_node_def waiting_engine_def init_net_def node_heap_of_def new_node_cache_def
        new_node_map_def map_sorted_def new_node_obj_def)
  ultimately show ?thesis
    using decoder.msgpack_parser_axioms by (simp add: serves_def test_recv_def test_parse_def test_net_def test_dht_def env_ok_def HASH_LEN_def)
qed

lemma first_engine:
  assumes "dht_onNewNode V n c (e, init_core) = (Answer (), e', d')"
  shows "rq e' = rq e"
proof -
  have core: "k_searches (dht_af x (upd_af y (\<lambda>k. k\<lparr>k_buckets := rt\<rparr>) init_core)) = []" "k_buckets (dht_af x init_core) = init_table" for x y rt
    by (simp_all add: init_core_def init_kad_def dht_af_def upd_af_def)
  obtain fresh rt e1 where run: "onNewNode 161 (engine_service (dv_net V)) n c (eng_now e) (myid (dv_net V)) init_table e = Some (fresh, rt, e1)"
    using assms by (auto simp: dht_onNewNode_def core Let_def split: option.splits)
  have "(161 :: nat) = Suc 160" by simp
  with run have "e1 = e" by (metis first_node)
  then show ?thesis using assms
    by (auto simp: dht_onNewNode_def core run Let_def case_prod_beta bind_answer_Answer trySearchInsert_def put_world_def world_of_def split: if_splits)
qed

theorem reply_completes_witness:
  "\<exists>bs s'. understood test_parse bs ((peer_msg peer_net Reply 7)\<lparr>pm_value_id := 8, pm_addr := reported (lan_addr 9)\<rparr>)
    \<and> processMessage test_recv (dht_owner test_dht) bs (lan_addr 3) waiting_node = (Answer (), s')
    \<and> rq_state (rq (ns_engine s') 0) = COMPLETED
    \<and> ns_delivered s' = [ReplyTo 0 ((peer_msg peer_net Reply 7)\<lparr>pm_value_id := 8, pm_addr := reported (lan_addr 9)\<rparr>)]"
proof -
  let ?m = "(peer_msg peer_net Reply 7)\<lparr>pm_value_id := 8, pm_addr := reported (lan_addr 9)\<rparr>"
  have m: "pm_id ?m = myid peer_net" "pm_network ?m = network peer_net" "pm_type ?m = Reply" "pm_value_parts ?m = []"
    "pm_nodes4_raw ?m = []" "pm_nodes6_raw ?m = []" "pm_is_client ?m = False" "pm_tid ?m = 7"
    by (simp_all add: peer_msg_def new_message_def)
  have "msgpack_parser (pe_unpack test_parse)" using decoder.msgpack_parser_axioms by (simp add: test_parse_def)
  moreover have env: "env_ok peer_net" by (simp add: peer_net_def env_ok_def HASH_LEN_def)
  moreover have "is_addr (lan_addr 9)" by (simp add: is_addr_def lan_addr_eq getFamily_def family_defs)
  ultimately obtain bs where und: "understood test_parse bs ?m" using announced_understood by blast
  then have 1: "understood (rv_parse test_recv) bs ?m" by (simp add: test_recv_def)
  have 2: "reaches test_recv peer_net (lan_addr 3) waiting_node"
    using peer_reaches by (simp add: reaches_def isNodeBlacklisted_def waiting_node_def init_node_def init_net_def)
  have 3: "nc_view (ns_alive waiting_node) (ns_cache waiting_node) (getFamily (lan_addr 3)) (myid peer_net) = Some 0"
    by (simp add: nc_view_def locked_def nc_cache_def waiting_node_def init_net_def lan_addr_eq getFamily_def family_defs peer_net_def
        new_node_cache_def new_node_map_def)
  have 4: "node_getRequest 0 (pm_tid ?m) (ns_engine waiting_node) = Some 0"
    unfolding m(8) by (simp add: node_getRequest_def waiting_node_def waiting_engine_def init_net_def)
  have nil: "ns_delivered waiting_node = []" by (simp add: waiting_node_def init_net_def)
  from reply_completes [OF waiting_node_serves 2 env 1 m(1-6) 3 4, unfolded nil append_Nil] obtain s0 s1 s' where
    get: "getNodeCached test_recv (myid peer_net) (lan_addr 3) True (pm_is_client ?m) waiting_node = (Answer 0, s0)"
    and heard: "hear (dht_owner test_dht) 0 2 (Some 0) s0 = (Answer (), s1)"
    and result: "processMessage test_recv (dht_owner test_dht) bs (lan_addr 3) waiting_node = (Answer (), s')"
      "if over (rq (ns_engine s1) 0) then rq_state (rq (ns_engine s') 0) = rq_state (rq (ns_engine s1) 0) \<and> ns_delivered s' = []
       else rq_state (rq (ns_engine s') 0) = COMPLETED \<and> ns_delivered s' = [ReplyTo 0 ?m]" by blast
  have "rq (ns_engine s0) = rq waiting_engine" "ns_dht s0 = init_core"
    using get by (auto simp: getNodeCached_def waiting_node_def init_net_def split: outcome.splits prod.splits)
  then have "rq (ns_engine s1) = rq waiting_engine"
    using heard by (auto simp: hear_def Let_def on_engine_def call_owner_def dht_owner_def node_received_def upd_nd_def dest!: first_engine split: if_splits prod.splits)
  then have "\<not> over (rq (ns_engine s1) 0)" by (simp add: waiting_engine_def new_request_obj_def over_def pending_def)
  then show ?thesis using result und by auto
qed

end
