(* ===== verification/Dht_Neighbours.thy ===== *)
theory Dht_Neighbours
  imports Dht_Node
begin

text \<open>
  The nodes a node learns of from the answers of others. The routing tables hold only nodes that the cache of nodes knows, so that no identifier
  is in a table twice and taking a node into them ends; looking up or making a node and taking it keeps this, which is what reading
  the nodes of a message relies on.
\<close>

section \<open>Tables and cache\<close>

abbreviation table_of :: "nat \<Rightarrow> dht_core \<Rightarrow> bucket list" where
  "table_of af d \<equiv> buckets (k_buckets (dht_af af d))"

abbreviation view_of :: "dht_core net_state \<Rightarrow> nat \<Rightarrow> hash \<Rightarrow> nref option" where
  "view_of s \<equiv> nc_view (ns_alive s) (ns_cache s)"

abbreviation id_of :: "dht_core net_state \<Rightarrow> nref \<Rightarrow> hash" where
  "id_of s \<equiv> \<lambda>n. n_id (nd (ns_engine s) n)"

text \<open>A node of a table is the live one the cache has for its identifier, and the cache of a family has nodes with addresses of this family.\<close>

definition tables_known :: "dht_core net_state \<Rightarrow> bool" where
  "tables_known s \<longleftrightarrow> cache_inv s \<and> (\<forall>n. length (id_of s n) = 20)
     \<and> (\<forall>af nid n. view_of s af nid = Some n \<longrightarrow> (getFamily (n_addr (nd (ns_engine s) n)) = AF_INET \<longleftrightarrow> af = AF_INET))
     \<and> (\<forall>af. table_ok (id_of s) (table_of af (ns_dht s)) \<and> (\<forall>n \<in> table_nodes (table_of af (ns_dht s)). view_of s af (id_of s n) = Some n))"

lemma tables_knownD:
  assumes "tables_known s"
  shows "cache_inv s" and "length (id_of s n) = 20" and "table_ok (id_of s) (table_of af (ns_dht s))"
    and "view_of s af nid = Some n \<Longrightarrow> (getFamily (n_addr (nd (ns_engine s) n)) = AF_INET) = (af = AF_INET)"
    and "n \<in> table_nodes (table_of af (ns_dht s)) \<Longrightarrow> view_of s af (id_of s n) = Some n"
    and "inj_on (id_of s) (table_nodes (table_of af (ns_dht s)))"
proof -
  show known: "view_of s af (id_of s n) = Some n" if "n \<in> table_nodes (table_of af (ns_dht s))" for n using assms that by (simp add: tables_known_def)
  show "inj_on (id_of s) (table_nodes (table_of af (ns_dht s)))"
  proof (rule inj_onI)
    fix x y assume x: "x \<in> table_nodes (table_of af (ns_dht s))" and y: "y \<in> table_nodes (table_of af (ns_dht s))" and same: "id_of s x = id_of s y"
    have "Some x = Some y" by (rule trans [OF trans [OF known [OF x, symmetric] arg_cong [OF same, of "view_of s af"]] known [OF y]])
    then show "x = y" by (rule option.inject [THEN iffD1])
  qed
qed (use assms in \<open>simp_all add: tables_known_def\<close>)

lemma view_id: "cache_inv s \<Longrightarrow> view_of s af nid = Some n \<Longrightarrow> id_of s n = nid \<and> n < ns_next_nd s"
  using locked_id [OF nc_ok_cache] by (fastforce simp: cache_inv_def nc_view_def node_heap_of_def)

lemma view_side: "(af = AF_INET) = (af' = AF_INET) \<Longrightarrow> nc_view alive c af = nc_view alive c af'"
  by (auto simp: nc_view_def nc_cache_def)

lemma dht_af_side: "(af = AF_INET) = (af' = AF_INET) \<Longrightarrow> dht_af af d = dht_af af' d"
  by (auto simp: dht_af_def)

lemma table_ok_cong: "table_ok ids bs \<Longrightarrow> (\<And>n. n \<in> table_nodes bs \<Longrightarrow> ids' n = ids n) \<Longrightarrow> table_ok ids' bs"
proof -
  assume ok: "table_ok ids bs" and same: "\<And>n. n \<in> table_nodes bs \<Longrightarrow> ids' n = ids n"
  have "placed ids' bs = placed ids bs" unfolding placed_def using same unfolding table_nodes_nth by (metis UN_iff lessThan_iff)
  then show "table_ok ids' bs" using ok by (simp add: table_ok_def)
qed

section \<open>A node from the cache\<close>

lemma getNodeCached_known_tables:
  assumes known: "tables_known s" and nid: "hash_bool nid" "length nid = 20"
  shows "\<exists>n s1. getNodeCached R nid addr confirm client s = (Answer n, s1) \<and> tables_known s1 \<and> view_of s1 (getFamily addr) nid = Some n \<and> id_of s1 n = nid"
proof -
  let ?h = "node_heap_of s" and ?rnd = "rv_tid R (ns_draws s)" and ?r = "rv_place R (ns_draws s)" and ?af = "getFamily addr"
  have "nc_ok ?h (ns_cache s)" using tables_knownD(1) [OF known] by (simp add: cache_inv_def)
  from nc_getNode_effect [OF this nid(1), of "ns_alive s" ?rnd ?r addr "net_now s" confirm client] obtain n c' h' where
    get: "nc_getNode (ns_alive s) ?rnd ?r nid addr (net_now s) confirm client (ns_cache s) ?h = Ret (n, c', h')" "nc_ok h' c'"
    and res: "(n, h') = (case view_of s ?af nid of
          Some n \<Rightarrow> (n, if confirm \<or> isOld (net_now s) (nd ?h n) then node_update n addr ?h else ?h)
        | None \<Rightarrow> make_node nid addr ?rnd client ?h)"
    and view: "\<forall>af. nc_view ((ns_alive s)(n := True)) c' af = (if (af = AF_INET) = (?af = AF_INET) then (view_of s af)(nid \<mapsto> n) else view_of s af)"
    by blast
  let ?s1 = "s\<lparr>ns_engine := (ns_engine s)\<lparr>nd := nd h'\<rparr>, ns_next_nd := next_nd h', ns_cache := c', ns_alive := (ns_alive s)(n := True), ns_draws := ns_draws s + 1\<rparr>"
  note id = view_id [OF tables_knownD(1) [OF known]]
  have ids: "n_id (nd h' k) = id_of s k" if "k < ns_next_nd s" for k
    using res that by (auto simp: make_node_def new_node_obj_def node_update_def upd_nd_def node_heap_of_def split: option.splits if_splits)
  have new: "n_id (nd h' n) = nid" "length (n_id (nd h' k)) = 20" for k
    using res id [of ?af nid] tables_knownD(2) [OF known, of k] nid(2)
    by (auto simp: make_node_def new_node_obj_def node_update_def upd_nd_def node_heap_of_def split: option.splits if_splits)
  have keeps: "n = m" if "view_of s ?af nid = Some m" for m using res that by simp
  have fam: "(getFamily (n_addr (nd h' m)) = AF_INET) = (af = AF_INET)" if "view_of ?s1 af k = Some m" for af k m
  proof (cases "(af = AF_INET) = (?af = AF_INET) \<and> k = nid")
    case True
    then have "m = n" using that view by simp
    moreover have "(getFamily (n_addr (nd h' n)) = AF_INET) = (?af = AF_INET)"
      using res tables_knownD(4) [OF known, of ?af nid]
      by (auto simp: make_node_def new_node_obj_def node_update_def upd_nd_def node_heap_of_def split: option.splits if_splits)
    ultimately show ?thesis using True by simp
  next
    case False
    then have old: "view_of s af k = Some m" using that view by (auto split: if_splits)
    have "m \<noteq> n \<or> n_addr (nd h' m) = n_addr (nd (ns_engine s) m)"
    proof (cases "view_of s ?af nid")
      case None
      then have "n = ns_next_nd s" using res by (simp add: make_node_def node_heap_of_def)
      then show ?thesis using id [OF old] by simp
    next
      case (Some x)
      have "m \<noteq> x"
      proof
        assume "m = x"
        then have "k = nid" "(af = AF_INET) = (?af = AF_INET)"
          using id [OF old] id [OF Some] tables_knownD(4) [OF known old] tables_knownD(4) [OF known Some] by simp_all
        then show False using False by simp
      qed
      then show ?thesis using keeps [OF Some] by simp
    qed
    then have "n_addr (nd h' m) = n_addr (nd (ns_engine s) m)"
      using res by (auto simp: make_node_def node_update_def upd_nd_def node_heap_of_def split: option.splits if_splits)
    then show ?thesis using tables_knownD(4) [OF known old] by simp
  qed
  have tables: "table_ok (\<lambda>k. n_id (nd h' k)) (table_of af (ns_dht s))"
      "m \<in> table_nodes (table_of af (ns_dht s)) \<Longrightarrow> view_of ?s1 af (n_id (nd h' m)) = Some m" for af m
  proof -
    have old: "view_of s af (id_of s m) = Some m" "m < ns_next_nd s" if "m \<in> table_nodes (table_of af (ns_dht s))" for m
      by (rule tables_knownD(5) [OF known that], rule conjunct2 [OF id [OF tables_knownD(5) [OF known that]]])
    show "table_ok (\<lambda>k. n_id (nd h' k)) (table_of af (ns_dht s))" by (rule table_ok_cong [OF tables_knownD(3) [OF known]]) (rule ids, rule old(2))
    assume m: "m \<in> table_nodes (table_of af (ns_dht s))"
    have id: "n_id (nd h' m) = id_of s m" by (rule ids [OF old(2) [OF m]])
    show "view_of ?s1 af (n_id (nd h' m)) = Some m"
    proof (cases "(af = AF_INET) = (?af = AF_INET) \<and> id_of s m = nid")
      case True
      then have "view_of s ?af nid = Some m" using old(1) [OF m] view_side [of af ?af "ns_alive s" "ns_cache s"] by simp
      then show ?thesis using True view keeps id by simp
    qed (use view id old(1) [OF m] in auto)
  qed
  have "cache_inv ?s1" using get(2) by (simp add: cache_inv_def node_heap_of_def nc_ok_def nm_ok_def)
  then have "tables_known ?s1" using new(2) fam tables by (simp add: tables_known_def)
  moreover have "getNodeCached R nid addr confirm client s = (Answer n, ?s1)" by (simp add: getNodeCached_def get(1))
  moreover have "view_of ?s1 ?af nid = Some n" using view by simp
  ultimately show ?thesis using new(1) by (intro exI [of _ n] exI [of _ ?s1]) simp
qed

section \<open>A node for the tables\<close>

lemma trySearchInsert_tables: "table_of af (snd (snd (trySearchInsert n (e, d)))) = table_of af d"
  by (auto simp: trySearchInsert_def Let_def put_world_def upd_af_def dht_af_def split: outcome.splits prod.splits)

lemma dht_onNewNode_tables:
  assumes "\<And>n. length (n_id (nd e n)) = 20" and "\<And>af. table_ok (\<lambda>n. n_id (nd e n)) (table_of af d)"
    and "\<And>af. inj_on (\<lambda>n. n_id (nd e n)) (table_nodes (table_of af d))"
  shows "\<exists>e' d'. dht_onNewNode V n confirm (e, d) = (Answer (), e', d')
     \<and> (\<forall>af. table_ok (\<lambda>n. n_id (nd e n)) (table_of af d') \<and> table_nodes (table_of af d') \<subseteq>
          (if (af = AF_INET) = (getFamily (n_addr (nd e n)) = AF_INET) then insert n (table_nodes (table_of af d)) else table_nodes (table_of af d)))"
proof -
  let ?af = "getFamily (n_addr (nd e n))" let ?rt = "k_buckets (dht_af ?af d)" let ?sv = "engine_service (dv_net V)"
  have ids: "sv_id ?sv e = (\<lambda>n. n_id (nd e n))" by (simp add: engine_service_def)
  have "onNewNode 161 ?sv n confirm (eng_now e) (myid (dv_net V)) ?rt e \<noteq> None"
    using dht.onNewNode_ends [of "dv_net V" e ?rt n 161 confirm "eng_now e" "myid (dv_net V)"] assms ids by simp
  then obtain fresh rt e1 where run: "onNewNode 161 ?sv n confirm (eng_now e) (myid (dv_net V)) ?rt e = Some (fresh, rt, e1)" by auto
  have rt: "table_ok (\<lambda>n. n_id (nd e n)) (buckets rt)" "table_nodes (buckets rt) \<subseteq> insert n (table_nodes (buckets ?rt))"
    using dht.onNewNode_ok [OF _ _ run] dht.onNewNode_nodes [OF _ _ run] assms ids by auto
  let ?d = "upd_af ?af (\<lambda>k. k\<lparr>k_buckets := rt\<rparr>) d"
  have tab: "table_of af ?d = (if (af = AF_INET) = (?af = AF_INET) then buckets rt else table_of af d)" for af
    by (simp add: upd_af_def dht_af_def)
  obtain b e2 d2 where ins: "trySearchInsert n (e1, ?d) = (Answer b, e2, d2)" using trySearchInsert_answers by blast
  then have same: "table_of af d2 = table_of af ?d" for af using trySearchInsert_tables [of af n e1 ?d] by simp
  have frame: "dht_af af (x\<lparr>nextNodesConfirmation := j, c_sched := sc\<rparr>) = dht_af af x" for af x j sc by (simp add: dht_af_def)
  have "\<exists>e' d'. dht_onNewNode V n confirm (e, d) = (Answer (), e', d') \<and> (\<forall>af. table_of af d' = table_of af ?d)"
    by (simp add: dht_onNewNode_def run ins case_prod_beta Let_def same frame)
  then obtain e' d' where new: "dht_onNewNode V n confirm (e, d) = (Answer (), e', d')" "\<forall>af. table_of af d' = table_of af ?d" by blast
  have "table_ok (\<lambda>n. n_id (nd e n)) (table_of af d') \<and> table_nodes (table_of af d') \<subseteq>
      (if (af = AF_INET) = (?af = AF_INET) then insert n (table_nodes (table_of af d)) else table_nodes (table_of af d))" for af
    using rt assms(2) [of af] dht_af_side [of af ?af d] by (simp add: new(2) tab)
  then show ?thesis using new(1) by blast
qed

lemma taken_known:
  assumes known: "tables_known s" and n: "view_of s af nid = Some n"
  shows "\<exists>s2. call_owner (h_onNewNode (dht_owner V) n confirm) s = (Answer (), s2) \<and> tables_known s2"
proof -
  let ?e = "ns_engine s" and ?af = "getFamily (n_addr (nd (ns_engine s) n))"
  from dht_onNewNode_tables [of ?e "ns_dht s" V n confirm] tables_knownD(2,3,6) [OF known] obtain e' d' where
    new: "dht_onNewNode V n confirm (?e, ns_dht s) = (Answer (), e', d')"
    and tab: "table_ok (id_of s) (table_of af d') \<and> table_nodes (table_of af d') \<subseteq>
      (if (af = AF_INET) = (?af = AF_INET) then insert n (table_nodes (table_of af (ns_dht s))) else table_nodes (table_of af (ns_dht s)))" for af
    by blast
  have keep: "engine_keeps ?e e'" using dht_onNewNode_keeps [of V n confirm] new unfolding owner_keeps_def by (metis fst_conv snd_conv)
  then have ids: "n_id (nd e' k) = id_of s k" "n_addr (nd e' k) = n_addr (nd ?e k)" for k by (simp_all add: engine_keeps_def same_ids_def)
  let ?s2 = "s\<lparr>ns_engine := e', ns_dht := d'\<rparr>"
  have call: "call_owner (h_onNewNode (dht_owner V) n confirm) s = (Answer (), ?s2)" by (simp add: call_owner_def dht_owner_def new)
  have "view_of s ax (id_of s m) = Some m" if "m \<in> table_nodes (table_of ax d')" for ax m
  proof -
    have "m \<in> table_nodes (table_of ax (ns_dht s)) \<or> m = n \<and> (ax = AF_INET) = (?af = AF_INET)" using that tab [of ax] by (auto split: if_splits)
    moreover have "view_of s ?af (id_of s n) = Some n"
      using n view_id [OF tables_knownD(1) [OF known] n] tables_knownD(4) [OF known n] view_side [of ?af af] by simp
    ultimately show ?thesis using tables_knownD(5) [OF known] view_side [of ax ?af] by metis
  qed
  moreover have "cache_inv ?s2"
    using tables_knownD(1) [OF known] nm_ok_heap [of "node_heap_of s" _ "node_heap_of ?s2"] ids by (simp add: cache_inv_def nc_ok_def node_heap_of_def)
  ultimately have "tables_known ?s2"
    using known tab ids by (simp add: tables_known_def)
  then show ?thesis using call by blast
qed

interpretation neighbours: node_taker "dht_owner V" tables_known for V
proof
  show "cache_inv s" if "tables_known s" for s using tables_knownD(1) [OF that] .
  show "\<exists>n s1 s2. getNodeCached R nid addr False False s = (Answer n, s1) \<and> call_owner (h_onNewNode (dht_owner V) n 0) s1 = (Answer (), s2) \<and> tables_known s2"
    if "tables_known s" "hash_bool nid" "length nid = HASH_LEN" for s nid R addr
  proof -
    have "length nid = 20" using that(3) by (simp add: HASH_LEN_def)
    from getNodeCached_known_tables [OF that(1,2) this, of R addr False False] obtain n s1 where
      "getNodeCached R nid addr False False s = (Answer n, s1)" "tables_known s1" "view_of s1 (getFamily addr) nid = Some n" by blast
    then show ?thesis using taken_known [of s1 "getFamily addr" nid n V 0] by blast
  qed
qed

section \<open>The nodes of an answer\<close>

text \<open>
  C6: The nodes of an answer reach the asker. Of each family that was wanted (by a negative number, that of the question), a node sends the eight nodes closest to
  the target, in order of distance. A receiver whose tables hold only nodes its cache knows takes all of them without a hang and ends up with node objects of exactly these
  identifiers in this order, except itself and nodes whose address it refuses; its requests, its other nodes, its cache and its tables stay in order. The nodes sent have
  non-zero identifiers and plain addresses of their family, none of them a loopback address of the family of the sender, which is rewritten.
\<close>

theorem closest_nodes_delivered:
  fixes e :: engine
  assumes "tables_known s" and ids: "\<forall>n. length (n_id (nd e n)) = length h"
    and "list_all (\<lambda>x. node_sendable AF_INET from x \<and> hash_bool (n_id x)) (map (nd e) ns4)"
    and "list_all (\<lambda>x. node_sendable AF_INET6 from x \<and> hash_bool (n_id x)) (map (nd e) ns6)"
    and "(pm_nodes4_raw m, pm_nodes6_raw m) = bufferNodes e af h want ns4 ns6" and "pm_nodes4 m = []" and "pm_nodes6 m = []"
  shows "\<exists>m' s'. deserializeNodes R (dht_owner V) m from s = (Answer m', s') \<and> net_keeps s s' \<and> tables_known s'
     \<and> node_ids s' (pm_nodes4 m') = map (\<lambda>n. n_id (nd e n)) (filter (\<lambda>n. acceptable R (ns_blacklist s) (nd e n)) (sent_nodes e h (bit (families af want) 0) ns4))
     \<and> node_ids s' (pm_nodes6 m') = map (\<lambda>n. n_id (nd e n)) (filter (\<lambda>n. acceptable R (ns_blacklist s) (nd e n)) (sent_nodes e h (bit (families af want) 1) ns6))
     \<and> by_distance (\<lambda>n. n_id (nd e n)) h (sort_nodes e h ns4) \<and> mset (sort_nodes e h ns4) = mset ns4
     \<and> by_distance (\<lambda>n. n_id (nd e n)) h (sort_nodes e h ns6) \<and> mset (sort_nodes e h ns6) = mset ns6"
  using neighbours.nodes_delivered [OF assms, of R V] sort_nodes_sorted [OF ids] by blast

text \<open>A node that has just been set up learns of two neighbours.\<close>

lemma init_node_known: "tables_known init_node"
  using init_table_ok init_net_cache [of init_engine init_core]
  by (simp add: tables_known_def init_node_def init_net_def init_core_def init_kad_def dht_af_def init_engine_def init_heap_def new_node_obj_def
      nc_view_def nc_cache_def locked_def new_node_cache_def new_node_map_def)

lemma lan_ids: "hash_bool (n_id (nd lan_engine 3))" "hash_bool (n_id (nd lan_engine 4))"
  by code_simp+

theorem closest_nodes_delivered_witness:
  "\<exists>m' s'. deserializeNodes test_recv (dht_owner test_dht) lan_msg [] init_node = (Answer m', s') \<and> tables_known s'
     \<and> node_ids s' (pm_nodes4 m') = map (\<lambda>n. n_id (nd lan_engine n)) (sort_nodes lan_engine lan_target [3, 4]) \<and> node_ids s' (pm_nodes6 m') = []
     \<and> mset (sort_nodes lan_engine lan_target [3, 4]) = {#3, 4#}"
proof -
  have 1: "\<forall>n. length (n_id (nd lan_engine n)) = length lan_target" by (simp add: lan_engine_def new_node_obj_def lan_target_def)
  have 2: "list_all (\<lambda>x. node_sendable AF_INET [] x \<and> hash_bool (n_id x)) (map (nd lan_engine) [3, 4])" using lan_addr_sendable lan_ids by simp
  have 3: "(pm_nodes4_raw lan_msg, pm_nodes6_raw lan_msg) = bufferNodes lan_engine 0 lan_target 1 [3, 4] []" by (simp add: lan_msg_def)
  have 4: "pm_nodes4 lan_msg = []" "pm_nodes6 lan_msg = []" by (simp_all add: lan_msg_def new_message_def)
  have "ns_blacklist init_node = {}" by (simp add: init_node_def init_net_def)
  moreover have all: "mset (sort_nodes lan_engine lan_target [3, 4]) = {#3, 4#}" using sort_nodes_sorted(2) [OF 1, of "[3, 4]"] by simp
  then have "set (sort_nodes lan_engine lan_target [3, 4]) = {3, 4}" "length (sort_nodes lan_engine lan_target [3, 4]) = 2"
    by (metis set_mset_mset set_mset_add_mset_insert set_mset_empty, metis size_mset size_add_mset size_empty numeral_2_eq_2)
  then have "filter (\<lambda>n. acceptable test_recv {} (nd lan_engine n)) (sent_nodes lan_engine lan_target True [3, 4]) = sort_nodes lan_engine lan_target [3, 4]"
    using lan_accepts by (simp add: sent_nodes_def SEND_NODES_def filter_id_conv)
  ultimately show ?thesis
    using closest_nodes_delivered [OF init_node_known 1 2 _ 3 4, of test_recv test_dht] all by (auto simp: families_def sent_nodes_def)
qed

end
