(* ===== verification/Pht_Prefix.thy ===== *)
theory Pht_Prefix
  imports Info_Hash Std_Map
begin

text \<open>
  The prefix hash tree's labels and keys (\<open>indexation/pht.h\<close>, \<open>indexation/pht.cpp\<close>): prefixes with their known bits, the
  interleaving of the fields of a key, and where a full leaf is split. Bits are counted from the most significant one of the first byte.
\<close>

section \<open>Prefixes\<close>

record prefix =
  px_size :: nat
  px_flags :: bytes
  px_content :: bytes

definition prefix_of :: "bytes \<Rightarrow> bytes \<Rightarrow> prefix" where
  "prefix_of d f = \<lparr>px_size = 8 * length d, px_flags = f, px_content = d\<rparr>"

text \<open>The first bits of a blob, with the rest of the last byte cleared.\<close>

definition cut_bits :: "nat \<Rightarrow> bytes \<Rightarrow> bytes" where
  "cut_bits n b = take (n div 8) b @ (if n mod 8 \<noteq> 0 then [b ! (n div 8) AND push_bit (8 - n mod 8) 255] else [])"

definition sub_prefix :: "prefix \<Rightarrow> nat \<Rightarrow> prefix outcome" where
  "sub_prefix p first =
     (let n = min first (8 * length (px_content p)) in
      if px_flags p \<noteq> [] \<and> 8 * length (px_flags p) < n then Undef
      else Ret \<lparr>px_size = n, px_flags = (if px_flags p = [] then [] else cut_bits n (px_flags p)), px_content = cut_bits n (px_content p)\<rparr>)"

text \<open>A negative length counts from the size of the prefix; the sum is one of unsigned 64-bit numbers.\<close>

definition getPrefix :: "int \<Rightarrow> prefix \<Rightarrow> prefix outcome" where
  "getPrefix len p =
     (if nat \<bar>len\<bar> \<ge> 8 * length (px_content p) then Throw
      else sub_prefix p (if len < 0 then nat ((len + int (px_size p)) mod 2 ^ 64) else nat len))"

definition isActiveBit :: "bytes \<Rightarrow> nat \<Rightarrow> prefix \<Rightarrow> bool outcome" where
  "isActiveBit b pos p =
     (if pos \<ge> 8 * length (px_content p) then Throw
      else if pos \<ge> 8 * length b then Undef
      else Ret (bit (b ! (pos div 8)) (7 - pos mod 8)))"

definition isFlagActive :: "nat \<Rightarrow> prefix \<Rightarrow> bool outcome" where
  "isFlagActive pos p = (if px_flags p = [] then Ret True else isActiveBit (px_flags p) pos p)"

definition isContentBitActive :: "nat \<Rightarrow> prefix \<Rightarrow> bool outcome" where
  "isContentBitActive pos p = isActiveBit (px_content p) pos p"

definition getFullSize :: "prefix \<Rightarrow> prefix outcome" where
  "getFullSize p = sub_prefix p (8 * length (px_content p))"

text \<open>The offset of the bit is computed in 64 bits and wraps.\<close>

definition swap_offset :: "nat \<Rightarrow> nat" where
  "swap_offset b = unat (8 - of_nat b :: uint64) mod 8"

definition swapBit :: "nat \<Rightarrow> bytes \<Rightarrow> bytes outcome" where
  "swapBit b xs =
     (if b \<ge> 8 * length xs then Throw
      else Ret (xs[b div 8 := xs ! (b div 8) XOR push_bit (swap_offset b) 1]))"

definition getSibling :: "prefix \<Rightarrow> prefix outcome" where
  "getSibling p =
     (if px_size p \<noteq> 0 then bind_outcome (swapBit (px_size p - 1) (px_content p)) (\<lambda>c. Ret (p\<lparr>px_content := c\<rparr>)) else Ret p)"

text \<open>What is hashed to find the place of a prefix: the content and the low byte of the size.\<close>

definition prefix_image :: "prefix \<Rightarrow> bytes" where
  "prefix_image p = px_content p @ [of_nat (px_size p)]"

definition prefix_hash :: "(bytes \<Rightarrow> hash) \<Rightarrow> prefix \<Rightarrow> hash" where
  "prefix_hash H p = H (prefix_image p)"

text \<open>
  \<open>commonBits\<close> goes through the bytes up to a number of bits, and reads past the contents; the second loop runs for ever when the
  two bytes are equal, which is \<open>None\<close>.
\<close>

function scan_common :: "prefix \<Rightarrow> prefix \<Rightarrow> nat \<Rightarrow> nat outcome" where
  "scan_common p q i =
     (if i \<ge> min (px_size p) (px_size q) then Ret i
      else if i \<ge> length (px_content p) \<or> i \<ge> length (px_content q) then Undef
      else if px_content p ! i \<noteq> px_content q ! i then Ret i
      else bind_outcome (isFlagActive i p) (\<lambda>a.
           if \<not> a then Ret i
           else bind_outcome (isFlagActive i q) (\<lambda>b. if \<not> b then Ret i else scan_common p q (i + 1))))"
  by pat_completeness auto
termination
  by (relation "measure (\<lambda>(p, q, i). min (px_size p) (px_size q) - i)") auto

declare scan_common.simps [simp del]

partial_function (option) leading_zero_bits :: "byte \<Rightarrow> nat \<Rightarrow> nat option" where
  "leading_zero_bits x j = (if x AND 0x80 = 0 then leading_zero_bits (push_bit 1 x) (j + 1) else Some j)"

definition prefix_commonBits :: "prefix \<Rightarrow> prefix \<Rightarrow> nat outcome option" where
  "prefix_commonBits p q =
     (let n = min (px_size p) (px_size q) in
      case scan_common p q 0 of
        Ret i \<Rightarrow> if i = n then Some (Ret (8 * n mod 2 ^ 32))
          else map_option (\<lambda>j. Ret ((8 * i + j) mod 2 ^ 32)) (leading_zero_bits (px_content p ! i XOR px_content q ! i) 0)
      | Throw \<Rightarrow> Some Throw
      | Terminate \<Rightarrow> Some Terminate
      | Undef \<Rightarrow> Some Undef)"

section \<open>Keys\<close>

definition addPadding :: "nat \<Rightarrow> prefix \<Rightarrow> prefix outcome" where
  "addPadding sz p =
     (let copy = px_content p @ replicate (sz - length (px_content p)) 0
      in bind_outcome (swapBit (px_size p + 1) copy) (\<lambda>c. Ret (p\<lparr>px_content := c\<rparr>)))"

text \<open>With more flags than bits the count of the missing ones wraps, and the vector grows until memory is exhausted.\<close>

definition updateFlags :: "prefix \<Rightarrow> prefix outcome" where
  "updateFlags p =
     (if px_size p < 8 * length (px_flags p) then Throw
      else
        let csize = px_size p - 8 * length (px_flags p);
            f = px_flags p @ replicate (csize div 8) 255 @ (if csize mod 8 \<noteq> 0 then [push_bit (8 - csize mod 8) 255] else [])
        in Ret (p\<lparr>px_flags := f @ replicate (length (px_content p) - length f) 255\<rparr>))"

type_synonym pht_key = "(string \<times> bytes) list"
type_synonym key_spec = "(string \<times> nat) list"

definition validKey :: "key_spec \<Rightarrow> pht_key \<Rightarrow> bool" where
  "validKey spec k \<longleftrightarrow> length k = length spec
     \<and> list_all (\<lambda>((n, b), (m, len)). n = m \<and> length b \<le> len) (zip k spec)"

text \<open>
  The interleaving. The state of the loops is the prefix the next bit comes from, the position of this bit in its byte and the
  mask of the position; the innermost loop fills one byte of contents and of flags.
\<close>

record z_state =
  z_bit :: nat
  z_i :: nat
  z_mask :: byte

definition z_move :: "nat \<Rightarrow> nat \<Rightarrow> byte \<Rightarrow> byte" where
  "z_move k i c = (if k \<ge> i then drop_bit (k - i) c else push_bit (i - k) c)"

definition z_next :: "nat \<Rightarrow> z_state \<Rightarrow> z_state" where
  "z_next n z = (if z_bit z + 1 = n then \<lparr>z_bit = 0, z_i = z_i z + 1, z_mask = drop_bit 1 (z_mask z)\<rparr>
     else z\<lparr>z_bit := z_bit z + 1\<rparr>)"

definition z_step :: "prefix list \<Rightarrow> nat \<Rightarrow> nat \<Rightarrow> byte \<times> byte \<times> z_state \<Rightarrow> byte \<times> byte \<times> z_state" where
  "z_step ps j k = (\<lambda>(content, flags, z).
     (content OR z_move k (z_i z) (px_content (ps ! z_bit z) ! j AND z_mask z),
      flags OR z_move k (z_i z) (px_flags (ps ! z_bit z) ! j AND z_mask z),
      z_next (length ps) z))"

definition z_byte :: "prefix list \<Rightarrow> nat \<Rightarrow> z_state \<Rightarrow> byte \<times> byte \<times> z_state" where
  "z_byte ps j z = fold (z_step ps j) [0..<8] (0, 0, z)"

partial_function (option) z_bytes :: "prefix list \<Rightarrow> nat \<Rightarrow> z_state \<Rightarrow> prefix \<Rightarrow> (z_state \<times> prefix) option" where
  "z_bytes ps j z p =
     (if z_i z < 8 then
        let r = z_byte ps j z
        in z_bytes ps j (snd (snd r)) (p\<lparr>px_content := px_content p @ [fst r], px_flags := px_flags p @ [fst (snd r)], px_size := px_size p + 8\<rparr>)
      else Some (z, p))"

fun z_all :: "prefix list \<Rightarrow> nat list \<Rightarrow> nat \<Rightarrow> prefix \<Rightarrow> prefix option" where
  "z_all ps [] b p = Some p"
| "z_all ps (j # js) b p =
     (case z_bytes ps j \<lparr>z_bit = b, z_i = 0, z_mask = 0x80\<rparr> p of
        None \<Rightarrow> None
      | Some (z, p) \<Rightarrow> z_all ps js (z_bit z) p)"

text \<open>Reading a content or a flag that is missing has no meaning.\<close>

definition zcurve :: "prefix list \<Rightarrow> prefix outcome option" where
  "zcurve ps =
     (if ps = [] then Some Undef
      else if length ps = 1 then Some (Ret (ps ! 0))
      else
        let n = length (px_content (ps ! 0)) in
        if n > 0 \<and> list_ex (\<lambda>p. length (px_content p) < n \<or> length (px_flags p) < n) ps then Some Undef
        else map_option Ret (z_all ps [0..<n] 0 \<lparr>px_size = 0, px_flags = [], px_content = []\<rparr>))"

fun key_prefixes :: "nat \<Rightarrow> pht_key \<Rightarrow> prefix list outcome" where
  "key_prefixes mx [] = Ret []"
| "key_prefixes mx ((n, b) # k) =
     bind_outcome (addPadding mx (prefix_of b [])) (\<lambda>p.
     bind_outcome (updateFlags p) (\<lambda>p.
     bind_outcome (key_prefixes mx k) (\<lambda>ps. Ret (p # ps))))"

text \<open>The longest field and one byte more, in 64 bits.\<close>

definition key_width :: "key_spec \<Rightarrow> nat" where
  "key_width spec = (foldr max (map snd spec) 0 + 1) mod 2 ^ 64"

definition linearize :: "key_spec \<Rightarrow> pht_key \<Rightarrow> prefix outcome option" where
  "linearize spec k =
     (if \<not> validKey spec k then Some Throw
      else if spec = [] then Some Undef
      else case key_prefixes (key_width spec) k of
        Ret ps \<Rightarrow> zcurve ps
      | Throw \<Rightarrow> Some Throw
      | Terminate \<Rightarrow> Some Terminate
      | Undef \<Rightarrow> Some Undef)"

section \<open>Splitting\<close>

text \<open>The bits up to the last but one of the entry; the entries of the leaf are given by their contents.\<close>

fun differs_at :: "prefix \<Rightarrow> nat \<Rightarrow> bytes list \<Rightarrow> bool outcome" where
  "differs_at c i [] = Ret False"
| "differs_at c i (v # vs) =
     bind_outcome (isContentBitActive i (prefix_of v [])) (\<lambda>a.
     bind_outcome (isContentBitActive i c) (\<lambda>b. if a \<noteq> b then Ret True else differs_at c i vs))"

fun split_from :: "prefix \<Rightarrow> bytes list \<Rightarrow> nat list \<Rightarrow> nat \<Rightarrow> nat outcome" where
  "split_from c vs [] stop = Ret stop"
| "split_from c vs (i # is) stop = bind_outcome (differs_at c i vs) (\<lambda>d. if d then Ret (i + 1) else split_from c vs is stop)"

text \<open>On an empty content the bound wraps; the first entry that is looked at ends the loop by an exception.\<close>

definition findSplitLocation :: "prefix \<Rightarrow> bytes list \<Rightarrow> nat outcome" where
  "findSplitLocation c vs =
     (if px_content c = [] then if vs = [] then Ret (2 ^ 64 - 1) else Throw
      else split_from c vs [0..<8 * length (px_content c) - 1] (8 * length (px_content c) - 1))"


section \<open>Bits of a blob\<close>

definition blob_bit :: "bytes \<Rightarrow> nat \<Rightarrow> bool" where
  "blob_bit xs m \<longleftrightarrow> bit (xs ! (m div 8)) (7 - m mod 8)"

lemma byte_bit_ext: "(\<And>k. k < 8 \<Longrightarrow> bit x (7 - k) = bit y (7 - k)) \<Longrightarrow> x = y" for x y :: byte
proof (rule bit_eqI)
  fix n assume eq: "\<And>k. k < 8 \<Longrightarrow> bit x (7 - k) = bit y (7 - k)" and "possible_bit TYPE(byte) n"
  then have "n < 8" by simp
  then show "bit x n = bit y n" using eq [of "7 - n"] by simp
qed

lemma blob_bit_ext:
  assumes "length xs = length ys" and eq: "\<And>m. m < 8 * length xs \<Longrightarrow> blob_bit xs m = blob_bit ys m"
  shows "xs = ys"
proof (rule nth_equalityI)
  fix i assume i: "i < length xs"
  show "xs ! i = ys ! i"
  proof (rule byte_bit_ext)
    fix k :: nat assume "k < 8"
    then show "bit (xs ! i) (7 - k) = bit (ys ! i) (7 - k)" using eq [of "8 * i + k"] i by (simp add: blob_bit_def)
  qed
qed (rule assms(1))

lemma bit_ones: "bit (255 :: byte) n \<longleftrightarrow> n < 8"
  using bit_mask_iff [where ?'a = byte, of 8 n] by (simp add: mask_eq_exp_minus_1)

lemma blob_bit_ones: "m < 8 * l \<Longrightarrow> blob_bit (replicate l 255) m"
proof -
  assume "m < 8 * l"
  then have "m div 8 < l" by (simp add: less_mult_imp_div_less mult.commute)
  then show ?thesis unfolding blob_bit_def by (simp only: nth_replicate bit_ones)
qed

section \<open>Parts of a prefix\<close>

lemma bit_cut_byte: "k < 8 \<Longrightarrow> 0 < r \<Longrightarrow> r < 8 \<Longrightarrow> bit (x AND push_bit (8 - r) 255 :: byte) (7 - k) \<longleftrightarrow> k < r \<and> bit x (7 - k)"
  by (simp only: bit_and_iff bit_push_bit_iff bit_ones possible_bit_word) auto

lemma bytes_for: "(n + 7) div 8 = n div 8 + (if n mod 8 = 0 then 0 else 1 :: nat)"
  by presburger

lemma cut_bits_length: "n \<le> 8 * length b \<Longrightarrow> length (cut_bits n b) = (n + 7) div 8"
proof -
  assume "n \<le> 8 * length b"
  then have "n div 8 \<le> length b" by linarith
  then show ?thesis unfolding bytes_for by (simp add: cut_bits_def)
qed

lemma cut_bits_bit:
  assumes n: "n \<le> 8 * length b" and m: "m < 8 * length (cut_bits n b)"
  shows "blob_bit (cut_bits n b) m \<longleftrightarrow> m < n \<and> blob_bit b m"
proof (cases "m div 8 < n div 8")
  case True
  then have "m < n" by (metis div_le_mono linorder_not_less)
  moreover have "n div 8 \<le> length b" using n by linarith
  ultimately show ?thesis using True by (simp add: blob_bit_def cut_bits_def nth_append)
next
  case False
  have "m < 8 * (n div 8 + (if n mod 8 = 0 then 0 else 1))" using m unfolding cut_bits_length [OF n] bytes_for .
  then have r: "n mod 8 \<noteq> 0" "m div 8 = n div 8" using False by (simp_all split: if_splits)
  then have "m < n \<longleftrightarrow> m mod 8 < n mod 8" by (metis add_less_cancel_left mult_div_mod_eq)
  moreover have "cut_bits n b ! (m div 8) = b ! (n div 8) AND push_bit (8 - n mod 8) 255"
    using r n by (simp add: cut_bits_def nth_append min_def)
  ultimately show ?thesis using r by (simp add: blob_bit_def bit_cut_byte del: bit_and_iff)
qed

text \<open>The flags of a prefix are missing or as many as its bytes, and its size is within them.\<close>

definition prefix_ok :: "prefix \<Rightarrow> bool" where
  "prefix_ok p \<longleftrightarrow> px_size p \<le> 8 * length (px_content p) \<and> (px_flags p = [] \<or> length (px_flags p) = length (px_content p))"

lemma sub_prefix_cuts:
  assumes "prefix_ok p" and n: "n \<le> 8 * length (px_content p)"
  shows "sub_prefix p n = Ret \<lparr>px_size = n, px_flags = (if px_flags p = [] then [] else cut_bits n (px_flags p)), px_content = cut_bits n (px_content p)\<rparr>"
  using assms by (auto simp: sub_prefix_def prefix_ok_def Let_def)

definition prefix_length :: "int \<Rightarrow> prefix \<Rightarrow> nat" where
  "prefix_length len p = (if len \<ge> 0 then nat len else if nat \<bar>len\<bar> \<le> px_size p then px_size p - nat \<bar>len\<bar> else 8 * length (px_content p))"

lemma getPrefix_length:
  assumes p: "prefix_ok p" "8 * length (px_content p) < 2 ^ 63" and len: "nat \<bar>len\<bar> < 8 * length (px_content p)"
  shows "getPrefix len p = sub_prefix p (prefix_length len p)" and "prefix_length len p \<le> 8 * length (px_content p)"
proof -
  let ?c = "8 * length (px_content p)"
  show "prefix_length len p \<le> ?c" using p len by (auto simp: prefix_length_def prefix_ok_def)
  have min: "sub_prefix p n = sub_prefix p ?c" if "?c \<le> n" for n using that by (simp add: sub_prefix_def min_def)
  have sz: "px_size p \<le> ?c" using p by (simp add: prefix_ok_def)
  have big: "?c \<le> nat ((len + int (px_size p)) mod 2 ^ 64)" if "len + int (px_size p) < 0"
  proof -
    have "(len + int (px_size p)) mod 2 ^ 64 = (2 ^ 64 + (len + int (px_size p))) mod 2 ^ 64" by simp
    also have "\<dots> = 2 ^ 64 + (len + int (px_size p))" by (rule mod_pos_pos_trivial) (use that p len in auto)
    finally show ?thesis using p len that by simp
  qed
  have small: "nat ((len + int (px_size p)) mod 2 ^ 64) = px_size p - nat \<bar>len\<bar>" if "len < 0" "0 \<le> len + int (px_size p)"
  proof -
    have "(len + int (px_size p)) mod 2 ^ 64 = len + int (px_size p)" by (rule mod_pos_pos_trivial) (use that p sz in auto)
    then show ?thesis using that by simp
  qed
  show "getPrefix len p = sub_prefix p (prefix_length len p)"
    using len small min [OF big] by (auto simp: getPrefix_def prefix_length_def)
qed

section \<open>Single bits\<close>

lemma isContentBitActive_bit: "i < 8 * length (px_content p) \<Longrightarrow> isContentBitActive i p = Ret (blob_bit (px_content p) i)"
  by (simp add: isContentBitActive_def isActiveBit_def blob_bit_def)

lemma differs_at_some:
  assumes "list_all (\<lambda>v. length v = length (px_content c)) vs" and "i < 8 * length (px_content c)"
  shows "differs_at c i vs = Ret (list_ex (\<lambda>v. blob_bit v i \<noteq> blob_bit (px_content c) i) vs)"
  using assms by (induction vs) (auto simp: isContentBitActive_bit prefix_of_def)

lemma split_from_first:
  assumes "list_all (\<lambda>v. length v = length (px_content c)) vs" and "lo \<le> hi" and "hi < 8 * length (px_content c)"
  shows "\<exists>loc. split_from c vs [lo..<hi] hi = Ret loc \<and> lo \<le> loc \<and> loc \<le> hi
     \<and> (\<forall>i. lo \<le> i \<and> i < loc - 1 \<longrightarrow> \<not> list_ex (\<lambda>v. blob_bit v i \<noteq> blob_bit (px_content c) i) vs)
     \<and> (loc = hi \<or> lo < loc \<and> list_ex (\<lambda>v. blob_bit v (loc - 1) \<noteq> blob_bit (px_content c) (loc - 1)) vs)"
  using assms(2)
proof (induction "hi - lo" arbitrary: lo)
  case (Suc d)
  then have lo: "lo < hi" by simp
  then have step: "split_from c vs [lo..<hi] hi = (if list_ex (\<lambda>v. blob_bit v lo \<noteq> blob_bit (px_content c) lo) vs then Ret (lo + 1) else split_from c vs [Suc lo..<hi] hi)"
    using assms(1,3) by (simp add: upt_conv_Cons differs_at_some)
  show ?case
  proof (cases "list_ex (\<lambda>v. blob_bit v lo \<noteq> blob_bit (px_content c) lo) vs")
    case True
    then show ?thesis using step lo by auto
  next
    case False
    have "\<exists>loc. split_from c vs [Suc lo..<hi] hi = Ret loc \<and> Suc lo \<le> loc \<and> loc \<le> hi
        \<and> (\<forall>i. Suc lo \<le> i \<and> i < loc - 1 \<longrightarrow> \<not> list_ex (\<lambda>v. blob_bit v i \<noteq> blob_bit (px_content c) i) vs)
        \<and> (loc = hi \<or> Suc lo < loc \<and> list_ex (\<lambda>v. blob_bit v (loc - 1) \<noteq> blob_bit (px_content c) (loc - 1)) vs)"
      by (rule Suc(1)) (use Suc lo in auto)
    then show ?thesis using step False by (auto simp: Suc_le_eq) (metis Suc_lessD le_neq_implies_less less_or_eq_imp_le)+
  qed
qed auto

lemma swap_offset_eq: "swap_offset b = (8 - b mod 8) mod 8"
proof -
  have "int (swap_offset b) = uint (8 - of_nat b :: uint64) mod 8" by (simp add: swap_offset_def zmod_int)
  also have "\<dots> = (8 - int b mod 2 ^ 64) mod 2 ^ 64 mod 8"
    by (simp add: uint_word_ariths unsigned_of_nat take_bit_eq_mod zmod_int)
  also have "\<dots> = (8 - int b mod 2 ^ 64) mod 8" by (rule mod_mod_cancel) simp
  also have "\<dots> = (8 - int b mod 2 ^ 64 mod 8) mod 8" by (rule mod_diff_right_eq [symmetric])
  also have "int b mod 2 ^ 64 mod 8 = int b mod 8" by (rule mod_mod_cancel) simp
  also have "(8 - int b mod 8) mod 8 = int ((8 - b mod 8) mod 8)"
    using mod_less_divisor [of 8 b] by (simp only: of_nat_mod of_nat_diff less_imp_le) simp
  finally show ?thesis by simp
qed

text \<open>The bit that \<open>swapBit\<close> changes is not the one asked for, but the one before it, or the last of the byte when it is the first.\<close>

definition swapped :: "nat \<Rightarrow> nat" where
  "swapped b = (if b mod 8 = 0 then b + 7 else b - 1)"

lemma swapped_place: "swapped b div 8 = b div 8" "swapped b mod 8 = 7 - (8 - b mod 8) mod 8"
proof -
  define q r where "q = b div 8" and "r = b mod 8"
  have b: "b = 8 * q + r" and r: "r < 8" by (simp_all add: q_def r_def)
  have "r \<noteq> 0 \<Longrightarrow> 8 * q + r - 1 = 8 * q + (r - 1)" by simp
  then have s: "swapped b = 8 * q + (if r = 0 then 7 else r - 1)" using r by (simp add: swapped_def b)
  show "swapped b div 8 = b div 8" using r unfolding s by (simp add: b)
  show "swapped b mod 8 = 7 - (8 - b mod 8) mod 8" using r unfolding s by (auto simp: b)
qed

lemma swapBit_changes:
  assumes "b < 8 * length xs"
  shows "\<exists>c. swapBit b xs = Ret c \<and> length c = length xs \<and> (\<forall>m. blob_bit c m \<longleftrightarrow> (if m = swapped b then \<not> blob_bit xs m else blob_bit xs m))"
proof -
  let ?o = "(8 - b mod 8) mod 8"
  let ?c = "xs[b div 8 := xs ! (b div 8) XOR push_bit ?o 1]"
  have b: "b div 8 < length xs" using assms by (simp add: less_mult_imp_div_less mult.commute)
  have "m = swapped b \<longleftrightarrow> m div 8 = b div 8 \<and> m mod 8 = 7 - ?o" for m
    using swapped_place [of b] mult_div_mod_eq [of 8 m] mult_div_mod_eq [of 8 "swapped b"] by metis
  moreover have "?o < 8" by simp
  then have "m mod 8 = 7 - ?o \<longleftrightarrow> ?o = 7 - m mod 8" for m using mod_less_divisor [of 8 m] by linarith
  moreover have "bit (xs ! (b div 8) XOR push_bit ?o 1) n \<longleftrightarrow> bit (xs ! (b div 8)) n \<noteq> (?o = n)" for n
    by (auto simp: bit_xor_iff bit_exp_iff)
  ultimately have "blob_bit ?c m \<longleftrightarrow> (if m = swapped b then \<not> blob_bit xs m else blob_bit xs m)" for m
    using b unfolding blob_bit_def by (cases "m div 8 = b div 8") auto
  then show ?thesis using assms by (simp add: swapBit_def swap_offset_eq)
qed

section \<open>The interleaving\<close>

definition z_at :: "nat \<Rightarrow> nat \<Rightarrow> z_state" where
  "z_at n m = \<lparr>z_bit = m mod n, z_i = m div n, z_mask = drop_bit (m div n) 0x80\<rparr>"

lemma bit_top: "bit (0x80 :: byte) n \<longleftrightarrow> n = 7"
  using bit_exp_iff [where ?'a = byte, of 7 n] by auto

lemma bit_mask: "bit (drop_bit i 0x80 :: byte) x \<longleftrightarrow> i + x = 7"
  by (simp only: bit_drop_bit_eq bit_top comp_def)

lemma z_next_at: "0 < n \<Longrightarrow> z_next n (z_at n m) = z_at n (Suc m)"
  by (auto simp: z_next_def z_at_def mod_Suc div_Suc drop_bit_Suc intro!: bit_eqI)

lemma bit_z_move:
  assumes "i < 8" "k < 8"
  shows "bit (z_move k i (c AND drop_bit i 0x80)) x \<longleftrightarrow> x + k = 7 \<and> bit c (7 - i)"
proof (cases "k \<ge> i")
  case True
  have "k - i + x = 7 - i" if "x + k = 7" using that True by simp
  then show ?thesis using True by (simp only: z_move_def if_True if_False bit_drop_bit_eq comp_def bit_and_iff bit_top) auto
next
  case False
  have "x - (i - k) = 7 - i" if "x + k = 7" using that assms False by simp
  then show ?thesis using False assms by (simp only: z_move_def if_True if_False bit_drop_bit_eq comp_def bit_and_iff bit_top bit_push_bit_iff possible_bit_word) auto
qed

text \<open>After some of the bits of an output byte: each comes from the prefix and the position its number in the column says.\<close>

lemma z_steps:
  assumes "K \<le> 8" and "t < length ps"
  shows "\<exists>c f. fold (z_step ps j) [0..<K] (0, 0, z_at (length ps) (8 * t)) = (c, f, z_at (length ps) (8 * t + K))
     \<and> (\<forall>x. bit c x \<longleftrightarrow> x \<le> 7 \<and> 7 - x < K \<and> bit (px_content (ps ! ((8 * t + (7 - x)) mod length ps)) ! j) (7 - (8 * t + (7 - x)) div length ps))
     \<and> (\<forall>x. bit f x \<longleftrightarrow> x \<le> 7 \<and> 7 - x < K \<and> bit (px_flags (ps ! ((8 * t + (7 - x)) mod length ps)) ! j) (7 - (8 * t + (7 - x)) div length ps))"
  using assms(1)
proof (induction K)
  case (Suc K)
  let ?n = "length ps" let ?m = "8 * t + K"
  from Suc obtain c f where IH: "fold (z_step ps j) [0..<K] (0, 0, z_at ?n (8 * t)) = (c, f, z_at ?n ?m)"
    "\<forall>x. bit c x \<longleftrightarrow> x \<le> 7 \<and> 7 - x < K \<and> bit (px_content (ps ! ((8 * t + (7 - x)) mod ?n)) ! j) (7 - (8 * t + (7 - x)) div ?n)"
    "\<forall>x. bit f x \<longleftrightarrow> x \<le> 7 \<and> 7 - x < K \<and> bit (px_flags (ps ! ((8 * t + (7 - x)) mod ?n)) ! j) (7 - (8 * t + (7 - x)) div ?n)"
    by auto
  have n: "0 < ?n" using assms(2) by linarith
  have "?m < 8 * ?n" using Suc.prems assms(2) by linarith
  then have i: "?m div ?n < 8" by (simp add: less_mult_imp_div_less)
  have last: "x + K = 7 \<longleftrightarrow> x \<le> 7 \<and> 7 - x = K" for x by auto
  have less: "a < Suc K \<longleftrightarrow> a < K \<or> a = K" for a by auto
  have K: "K < 8" using Suc.prems by simp
  let ?c = "c OR z_move K (?m div ?n) (px_content (ps ! (?m mod ?n)) ! j AND drop_bit (?m div ?n) 0x80)"
  let ?f = "f OR z_move K (?m div ?n) (px_flags (ps ! (?m mod ?n)) ! j AND drop_bit (?m div ?n) 0x80)"
  have "fold (z_step ps j) [0..<Suc K] (0, 0, z_at ?n (8 * t)) = (?c, ?f, z_at ?n (8 * t + Suc K))"
    by (simp add: IH(1) z_step_def z_next_at [OF n]) (simp add: z_at_def)
  moreover have "bit ?c x \<longleftrightarrow> x \<le> 7 \<and> 7 - x < Suc K \<and> bit (px_content (ps ! ((8 * t + (7 - x)) mod ?n)) ! j) (7 - (8 * t + (7 - x)) div ?n)" for x
    unfolding bit_or_iff bit_z_move [OF i K] last IH(2) [rule_format] less by auto
  moreover have "bit ?f x \<longleftrightarrow> x \<le> 7 \<and> 7 - x < Suc K \<and> bit (px_flags (ps ! ((8 * t + (7 - x)) mod ?n)) ! j) (7 - (8 * t + (7 - x)) div ?n)" for x
    unfolding bit_or_iff bit_z_move [OF i K] last IH(3) [rule_format] less by auto
  ultimately show ?case by blast
qed simp

definition z_source :: "(prefix \<Rightarrow> bytes) \<Rightarrow> prefix list \<Rightarrow> nat \<Rightarrow> nat \<Rightarrow> bool" where
  "z_source part ps j m = bit (part (ps ! (m mod length ps)) ! j) (7 - m div length ps)"

definition z_content :: "prefix list \<Rightarrow> nat \<Rightarrow> nat \<Rightarrow> byte" where
  "z_content ps j t = fst (z_byte ps j (z_at (length ps) (8 * t)))"

definition z_flags :: "prefix list \<Rightarrow> nat \<Rightarrow> nat \<Rightarrow> byte" where
  "z_flags ps j t = fst (snd (z_byte ps j (z_at (length ps) (8 * t))))"

lemma z_byte_at:
  assumes "t < length ps"
  shows "z_byte ps j (z_at (length ps) (8 * t)) = (z_content ps j t, z_flags ps j t, z_at (length ps) (8 * Suc t))"
  using z_steps [of 8 t ps j] assms by (auto simp: z_content_def z_flags_def z_byte_def algebra_simps)

lemma bit_z_byte:
  assumes "t < length ps" and "k < 8"
  shows "bit (z_content ps j t) (7 - k) = z_source px_content ps j (8 * t + k)"
    and "bit (z_flags ps j t) (7 - k) = z_source px_flags ps j (8 * t + k)"
  using z_steps [of 8 t ps j] assms by (auto simp: z_content_def z_flags_def z_byte_def z_source_def)

definition z_grow :: "prefix list \<Rightarrow> nat \<Rightarrow> nat list \<Rightarrow> prefix \<Rightarrow> prefix" where
  "z_grow ps j ts p = \<lparr>px_size = px_size p + 8 * length ts, px_flags = px_flags p @ map (z_flags ps j) ts,
     px_content = px_content p @ map (z_content ps j) ts\<rparr>"

lemma z_bytes_at:
  assumes "t \<le> length ps" and "ps \<noteq> []"
  shows "z_bytes ps j (z_at (length ps) (8 * t)) p = Some (z_at (length ps) (8 * length ps), z_grow ps j [t..<length ps] p)"
  using assms(1)
proof (induction "length ps - t" arbitrary: t p)
  case 0
  then have "\<not> z_i (z_at (length ps) (8 * t)) < 8" using assms(2) by (auto simp: z_at_def)
  then show ?case using 0 by (simp add: z_bytes.simps [of ps j "z_at _ _"] z_grow_def)
next
  case (Suc d)
  then have t: "t < length ps" by simp
  then have "z_i (z_at (length ps) (8 * t)) < 8" by (simp add: z_at_def less_mult_imp_div_less)
  then have "z_bytes ps j (z_at (length ps) (8 * t)) p = z_bytes ps j (z_at (length ps) (8 * Suc t)) (z_grow ps j [t] p)"
    by (cases p) (simp add: z_bytes.simps [of ps j "z_at _ (8 * t)"] z_byte_at [OF t] z_grow_def Let_def)
  also have "\<dots> = Some (z_at (length ps) (8 * length ps), z_grow ps j [Suc t..<length ps] (z_grow ps j [t] p))"
    by (rule Suc(1)) (use Suc t in auto)
  finally show ?case using t by (simp add: z_grow_def upt_conv_Cons)
qed

lemma z_all_grows:
  assumes "ps \<noteq> []"
  shows "z_all ps js 0 p = Some (fold (\<lambda>j. z_grow ps j [0..<length ps]) js p)"
proof (induction js arbitrary: p)
  case (Cons j js)
  have "\<lparr>z_bit = 0, z_i = 0, z_mask = 0x80\<rparr> = z_at (length ps) (8 * 0)" by (simp add: z_at_def)
  then have "z_bytes ps j \<lparr>z_bit = 0, z_i = 0, z_mask = 0x80\<rparr> p = Some (z_at (length ps) (8 * length ps), z_grow ps j [0..<length ps] p)"
    using z_bytes_at [of 0 ps j p] assms by simp
  then show ?case using Cons by (simp add: z_at_def)
qed simp

lemma fold_z_grow:
  "fold (\<lambda>j. z_grow ps j ts) js p = \<lparr>px_size = px_size p + 8 * length ts * length js,
     px_flags = px_flags p @ concat (map (\<lambda>j. map (z_flags ps j) ts) js),
     px_content = px_content p @ concat (map (\<lambda>j. map (z_content ps j) ts) js)\<rparr>"
  by (induction js arbitrary: p) (simp_all add: z_grow_def)

lemma concat_rows: "concat (map (\<lambda>j. map (g j) [0..<n]) [0..<l]) = map (\<lambda>s. g (s div n) (s mod n)) [0..<n * l]"
proof (induction l)
  case (Suc l)
  have "map (g l) [0..<n] = map (\<lambda>s. g (s div n) (s mod n)) [n * l..<n * l + n]"
    by (rule nth_equalityI) simp_all
  then show ?case using Suc upt_add_eq_append [of 0 "n * l" n] by (simp add: add.commute)
qed simp

lemma row_position:
  assumes "m = 8 * (n * j + t) + k" and "t < n" and "k < (8 :: nat)"
  shows "m mod n = (8 * t + k) mod n" and "m div n div 8 = j" and "m div n mod 8 = (8 * t + k) div n"
proof -
  have m: "m = (8 * t + k) + n * (8 * j)" using assms(1) by (simp add: algebra_simps)
  have "8 * t + k < 8 * n" using assms by linarith
  then have r: "(8 * t + k) div n < 8" by (simp add: less_mult_imp_div_less)
  have d: "m div n = 8 * j + (8 * t + k) div n" using assms(2) unfolding m by (subst div_mult_self2) auto
  show "m mod n = (8 * t + k) mod n" unfolding m by (rule mod_mult_self2)
  show "m div n div 8 = j" "m div n mod 8 = (8 * t + k) div n" unfolding d using r by simp_all
qed

text \<open>The bit of a row: the number of the bit in the output says which bit of which prefix it is.\<close>

lemma blob_bit_rows:
  assumes row: "\<And>j t k. t < n \<Longrightarrow> k < 8 \<Longrightarrow> bit (g j t) (7 - k) = bit (part (ps ! ((8 * t + k) mod n)) ! j) (7 - (8 * t + k) div n)"
    and m: "m < 8 * n * l"
  shows "blob_bit (map (\<lambda>s. g (s div n) (s mod n)) [0..<n * l]) m = blob_bit (part (ps ! (m mod n))) (m div n)"
proof -
  define j t k where "j = m div 8 div n" and "t = m div 8 mod n" and "k = m mod 8"
  have "0 < n" using m by (cases n) auto
  then have t: "t < n" and k: "k < 8" by (simp_all add: t_def k_def)
  have "n * j + t = m div 8" unfolding j_def t_def by (rule mult_div_mod_eq)
  then have split: "m = 8 * (n * j + t) + k" unfolding k_def by simp
  have "m div 8 < n * l" using m by (simp add: less_mult_imp_div_less mult.commute mult.assoc)
  then have "blob_bit (map (\<lambda>s. g (s div n) (s mod n)) [0..<n * l]) m = bit (g j t) (7 - k)"
    by (simp add: blob_bit_def j_def t_def k_def)
  then show ?thesis unfolding blob_bit_def row_position [OF split t k] row [OF t k] .
qed

definition same_width :: "nat \<Rightarrow> prefix list \<Rightarrow> bool" where
  "same_width l ps = list_all (\<lambda>p. length (px_content p) = l \<and> length (px_flags p) = l) ps"

lemma zcurve_bits:
  assumes "same_width l ps" and "2 \<le> length ps"
  obtains q where "zcurve ps = Some (Ret q)" "px_size q = 8 * length ps * l" "length (px_content q) = length ps * l" "length (px_flags q) = length ps * l"
    "\<And>m. m < 8 * length ps * l \<Longrightarrow> blob_bit (px_content q) m = blob_bit (px_content (ps ! (m mod length ps))) (m div length ps)"
    "\<And>m. m < 8 * length ps * l \<Longrightarrow> blob_bit (px_flags q) m = blob_bit (px_flags (ps ! (m mod length ps))) (m div length ps)"
proof -
  have ne: "ps \<noteq> []" using assms(2) by auto
  have l: "length (px_content (ps ! 0)) = l" using assms by (cases ps) (auto simp: same_width_def)
  have ok: "\<not> list_ex (\<lambda>p. length (px_content p) < l \<or> length (px_flags p) < l) ps"
    using assms(1) by (auto simp: same_width_def list_all_iff list_ex_iff)
  let ?q = "fold (\<lambda>j. z_grow ps j [0..<length ps]) [0..<l] \<lparr>px_size = 0, px_flags = [], px_content = []\<rparr>"
  have q: "?q = \<lparr>px_size = 8 * length ps * l, px_flags = map (\<lambda>s. z_flags ps (s div length ps) (s mod length ps)) [0..<length ps * l],
     px_content = map (\<lambda>s. z_content ps (s div length ps) (s mod length ps)) [0..<length ps * l]\<rparr>"
    by (simp add: fold_z_grow concat_rows)
  show ?thesis
  proof
    show "zcurve ps = Some (Ret ?q)" using ne ok assms(2) by (simp add: zcurve_def Let_def l z_all_grows)
  next
    fix m assume m: "m < 8 * length ps * l"
    show "blob_bit (px_content ?q) m = blob_bit (px_content (ps ! (m mod length ps))) (m div length ps)"
      unfolding q prefix.simps by (rule blob_bit_rows [OF _ m]) (simp add: bit_z_byte z_source_def)
    show "blob_bit (px_flags ?q) m = blob_bit (px_flags (ps ! (m mod length ps))) (m div length ps)"
      unfolding q prefix.simps by (rule blob_bit_rows [OF _ m]) (simp add: bit_z_byte z_source_def)
  qed (simp_all add: q)
qed

section \<open>Linearised keys\<close>

definition padded :: "nat \<Rightarrow> bytes \<Rightarrow> bytes" where
  "padded mx b = b @ 0x80 # replicate (mx - length b - 1) 0"

lemma padded_length: "length b < mx \<Longrightarrow> length (padded mx b) = mx"
  by (simp add: padded_def)

lemma padded_inj: "padded mx b = padded mx c \<Longrightarrow> b = c"
proof -
  have zeros: "dropWhile (\<lambda>x. x = 0) (replicate n 0 @ ys) = dropWhile (\<lambda>x. x = 0) ys" for n and ys :: bytes
    by (induction n) auto
  have strip: "dropWhile (\<lambda>x. x = 0) (rev (padded mx b)) = 0x80 # rev b" for b
    by (simp add: padded_def zeros)
  assume "padded mx b = padded mx c"
  then have "(0x80 :: byte) # rev b = 0x80 # rev c" by (simp only: strip [symmetric])
  then show "b = c" by simp
qed

lemma addPadding_key:
  assumes "length b < mx"
  shows "addPadding mx (prefix_of b []) = Ret ((prefix_of b []) \<lparr>px_content := padded mx b\<rparr>)"
proof -
  have "replicate (mx - length b) (0 :: byte) = 0 # replicate (mx - length b - 1) 0"
    using assms by (cases "mx - length b") auto
  then show ?thesis using assms
    by (simp add: addPadding_def prefix_of_def swapBit_def swap_offset_eq padded_def list_update_append nth_append)
qed

lemma updateFlags_key:
  assumes "length b < mx"
  shows "updateFlags ((prefix_of b []) \<lparr>px_content := padded mx b\<rparr>)
     = Ret \<lparr>px_size = 8 * length b, px_flags = replicate mx 255, px_content = padded mx b\<rparr>"
  using assms by (simp add: updateFlags_def prefix_of_def padded_length Let_def replicate_add [symmetric])

definition field_prefix :: "nat \<Rightarrow> bytes \<Rightarrow> prefix" where
  "field_prefix mx b = \<lparr>px_size = 8 * length b, px_flags = replicate mx 255, px_content = padded mx b\<rparr>"

lemma key_prefixes_fields:
  "list_all (\<lambda>(n, b). length b < mx) k \<Longrightarrow> key_prefixes mx k = Ret (map (\<lambda>(n, b). field_prefix mx b) k)"
  by (induction k) (auto simp: addPadding_key updateFlags_key field_prefix_def)

lemma same_width_fields: "list_all (\<lambda>(n, b). length b < mx) k \<Longrightarrow> same_width mx (map (\<lambda>(n, b). field_prefix mx b) k)"
  by (induction k) (auto simp: same_width_def field_prefix_def padded_length)

lemma validKey_widths:
  assumes "validKey spec k" and "foldr max (map snd spec) 0 + 1 < 2 ^ 64"
  shows "list_all (\<lambda>(n, b). length b < key_width spec) k" and "map fst k = map fst spec"
proof -
  have le: "w \<le> foldr max (map snd sp) 0" if "(n, w) \<in> set sp" for n w and sp :: key_spec
    using that by (induction sp) auto
  have len: "length k = length spec" and all: "\<forall>i < length k. fst (k ! i) = fst (spec ! i) \<and> length (snd (k ! i)) \<le> snd (spec ! i)"
    using assms(1) by (auto simp: validKey_def list_all_length split_beta)
  show "map fst k = map fst spec" using len all by (auto intro: nth_equalityI)
  have w: "key_width spec = foldr max (map snd spec) 0 + 1" using assms(2) by (simp add: key_width_def)
  have "length (snd (k ! i)) < key_width spec" if "i < length k" for i
  proof -
    have "length (snd (k ! i)) \<le> snd (spec ! i)" using that all by blast
    also have "\<dots> \<le> foldr max (map snd spec) 0" by (rule le [of "fst (spec ! i)"]) (use that len in simp)
    finally show ?thesis unfolding w by simp
  qed
  then show "list_all (\<lambda>(n, b). length b < key_width spec) k" by (simp add: list_all_length split_beta)
qed

lemma linearize_fields:
  assumes "validKey spec k" and "spec \<noteq> []" and "foldr max (map snd spec) 0 + 1 < 2 ^ 64"
  shows "linearize spec k = zcurve (map (\<lambda>(n, b). field_prefix (key_width spec) b) k)"
  using assms validKey_widths [OF assms(1,3)] by (simp add: linearize_def key_prefixes_fields)

text \<open>The bits of a linearised key, whatever the number of its fields.\<close>

lemma linearize_bits:
  assumes "validKey spec k" and "spec \<noteq> []" and "foldr max (map snd spec) 0 + 1 < 2 ^ 64"
  obtains p where "linearize spec k = Some (Ret p)" "length (px_content p) = length spec * key_width spec"
    "px_flags p = replicate (length spec * key_width spec) 255" "px_size p \<le> 8 * length (px_content p)"
    "\<And>m. m < 8 * (length spec * key_width spec) \<Longrightarrow>
       blob_bit (px_content p) m = blob_bit (padded (key_width spec) (snd (k ! (m mod length spec)))) (m div length spec)"
proof -
  let ?w = "key_width spec" let ?n = "length spec"
  let ?ps = "map (\<lambda>(n, b). field_prefix ?w b) k"
  note widths = validKey_widths(1) [OF assms(1,3)]
  have n: "length ?ps = ?n" using assms(1) by (simp add: validKey_def)
  have sw: "same_width ?w ?ps" by (rule same_width_fields [OF widths])
  show ?thesis
  proof (cases "?n = 1")
    case True
    then obtain a b where k: "k = [(a, b)]" using n by (cases k) auto
    show ?thesis
      by (rule that [of "field_prefix ?w b"])
        (use True k widths linearize_fields [OF assms] in \<open>auto simp: zcurve_def field_prefix_def padded_length\<close>)
  next
    case False
    have "?n \<noteq> 0" using assms(2) by simp
    then have two: "2 \<le> length ?ps" using False n by linarith
    from zcurve_bits [OF sw two] obtain q where q: "zcurve ?ps = Some (Ret q)" "px_size q = 8 * ?n * ?w" "length (px_content q) = ?n * ?w"
        "length (px_flags q) = ?n * ?w"
        "\<And>m. m < 8 * ?n * ?w \<Longrightarrow> blob_bit (px_content q) m = blob_bit (px_content (?ps ! (m mod ?n))) (m div ?n)"
        "\<And>m. m < 8 * ?n * ?w \<Longrightarrow> blob_bit (px_flags q) m = blob_bit (px_flags (?ps ! (m mod ?n))) (m div ?n)"
      unfolding n by metis
    have nth: "?ps ! (m mod ?n) = field_prefix ?w (snd (k ! (m mod ?n)))" for m
      using n assms(2) by (simp add: split_beta)
    have "px_flags q = replicate (?n * ?w) 255"
    proof (rule blob_bit_ext)
      fix m assume "m < 8 * length (px_flags q)"
      then have m: "m < 8 * ?n * ?w" using q(4) by (simp add: mult.assoc)
      then have "m div ?n < 8 * ?w" by (simp add: less_mult_imp_div_less mult.commute mult.left_commute)
      then show "blob_bit (px_flags q) m = blob_bit (replicate (?n * ?w) 255) m"
        using m q(6) [OF m] nth [of m] by (simp add: field_prefix_def blob_bit_ones)
    qed (simp add: q(4))
    then show ?thesis
      by (intro that [of q]) (use q linearize_fields [OF assms] nth in \<open>simp_all add: mult.assoc field_prefix_def\<close>)
  qed
qed

section \<open>Properties\<close>

text \<open>
  C23: the interleaving. On two or more prefixes with as many bytes of contents and flags each, \<open>zcurve\<close> returns; bit \<open>m\<close> of the
  contents and of the flags of the result is the bit \<open>m div n\<close> of the prefix number \<open>m mod n\<close>, and its size is the number of all the bits.
\<close>

theorem zcurve_interleaves:
  assumes "same_width l ps" and "2 \<le> length ps"
  shows "\<exists>q. zcurve ps = Some (Ret q) \<and> px_size q = 8 * (length ps * l)
     \<and> length (px_content q) = length ps * l \<and> length (px_flags q) = length ps * l
     \<and> (\<forall>m < px_size q. blob_bit (px_content q) m = blob_bit (px_content (ps ! (m mod length ps))) (m div length ps)
          \<and> blob_bit (px_flags q) m = blob_bit (px_flags (ps ! (m mod length ps))) (m div length ps))"
  by (rule zcurve_bits [OF assms]) (auto simp: mult.assoc)

theorem zcurve_interleaves_witness:
  "\<exists>q. zcurve [prefix_of [0x80, 0x01] [255, 255], prefix_of [0x40, 0x00] [255, 255]] = Some (Ret q) \<and> px_size q = 32
     \<and> blob_bit (px_content q) 0 \<and> \<not> blob_bit (px_content q) 1 \<and> blob_bit (px_content q) 3 \<and> blob_bit (px_content q) 30"
proof -
  let ?ps = "[prefix_of [0x80, 0x01] [255, 255], prefix_of [0x40, 0x00] [255, 255]]"
  from zcurve_interleaves [of 2 ?ps] obtain q where "zcurve ?ps = Some (Ret q)" and sz: "px_size q = 32"
    and b: "\<forall>m < px_size q. blob_bit (px_content q) m = blob_bit (px_content (?ps ! (m mod length ?ps))) (m div length ?ps)"
    by (auto simp: same_width_def prefix_of_def)
  with b [rule_format, of 0] b [rule_format, of 1] b [rule_format, of 3] b [rule_format, of 30] show ?thesis
    by (simp add: prefix_of_def blob_bit_def numeral_2_eq_2 [symmetric])
qed

text \<open>
  C18: linearised keys. A key that matches the specification is linearised (no bit is read outside the blobs, and no exception is
  thrown), with all its bits known, into a blob whose length depends on the specification only; two keys have the same blob only
  when they are the same key, although the fields are padded.
\<close>

theorem linearize_injective:
  assumes "validKey spec k" and "validKey spec k'" and "spec \<noteq> []" and "foldr max (map snd spec) 0 + 1 < 2 ^ 64"
  shows "\<exists>p p'. linearize spec k = Some (Ret p) \<and> linearize spec k' = Some (Ret p')
     \<and> length (px_content p) = length spec * key_width spec \<and> px_flags p = replicate (length spec * key_width spec) 255
     \<and> (px_content p = px_content p' \<longleftrightarrow> k = k')"
proof -
  let ?w = "key_width spec" let ?n = "length spec"
  from linearize_bits [OF assms(1,3,4)] obtain p where p: "linearize spec k = Some (Ret p)" "length (px_content p) = ?n * ?w"
      "px_flags p = replicate (?n * ?w) 255"
      "\<And>m. m < 8 * (?n * ?w) \<Longrightarrow> blob_bit (px_content p) m = blob_bit (padded ?w (snd (k ! (m mod ?n)))) (m div ?n)"
    by metis
  from linearize_bits [OF assms(2,3,4)] obtain p' where p': "linearize spec k' = Some (Ret p')"
      "\<And>m. m < 8 * (?n * ?w) \<Longrightarrow> blob_bit (px_content p') m = blob_bit (padded ?w (snd (k' ! (m mod ?n)))) (m div ?n)"
    by metis
  have len: "length k = ?n" "length k' = ?n" using assms(1,2) by (simp_all add: validKey_def)
  have "k = k'" if eq: "px_content p = px_content p'"
  proof (rule nth_equalityI)
    fix r assume "r < length k"
    then have r: "r < ?n" using len by simp
    have "padded ?w (snd (k ! r)) = padded ?w (snd (k' ! r))"
    proof (rule blob_bit_ext)
      show "length (padded ?w (snd (k ! r))) = length (padded ?w (snd (k' ! r)))"
        using r len validKey_widths(1) [OF assms(1,4)] validKey_widths(1) [OF assms(2,4)] by (simp add: padded_length list_all_length split_beta)
    next
      fix x assume "x < 8 * length (padded ?w (snd (k ! r)))"
      then have "x < 8 * ?w" using r len validKey_widths(1) [OF assms(1,4)] by (simp add: padded_length list_all_length split_beta)
      then have "?n * Suc x \<le> ?n * (8 * ?w)" by (intro mult_le_mono2) simp
      then have m: "x * ?n + r < 8 * (?n * ?w)" using r by (simp add: algebra_simps)
      show "blob_bit (padded ?w (snd (k ! r))) x = blob_bit (padded ?w (snd (k' ! r))) x"
        using p(4) [OF m] p'(2) [OF m] eq r assms(3) by simp
    qed
    then have "snd (k ! r) = snd (k' ! r)" by (rule padded_inj)
    moreover have "map fst k = map fst k'" using validKey_widths(2) [OF assms(1,4)] validKey_widths(2) [OF assms(2,4)] by simp
    then have "fst (k ! r) = fst (k' ! r)" using r len by (metis nth_map)
    ultimately show "k ! r = k' ! r" by (rule prod_eqI [rotated])
  qed (simp add: len)
  then show ?thesis using p p' by auto
qed

theorem linearize_injective_witness:
  "\<exists>p p'. linearize [(''a'', 2), (''b'', 1)] [(''a'', [1, 2]), (''b'', [])] = Some (Ret p)
     \<and> linearize [(''a'', 2), (''b'', 1)] [(''a'', [1]), (''b'', [0])] = Some (Ret p') \<and> length (px_content p) = 6 \<and> px_content p \<noteq> px_content p'"
  using linearize_injective [of "[(''a'', 2), (''b'', 1)]" "[(''a'', [1, 2]), (''b'', [])]" "[(''a'', [1]), (''b'', [0])]"]
  by (auto simp: validKey_def key_width_def)

text \<open>
  C34: sub-prefixes. \<open>getPrefix\<close> on a prefix whose flags are missing or complete throws for a length of at least all the bits of the
  contents, and else returns such a prefix of the length asked for (a negative length is counted from the end, and one beyond the size gives all
  the contents), with just the bytes it needs, its known bits those of the prefix it comes from and the bits after them cleared.
\<close>

theorem getPrefix_typed:
  assumes "prefix_ok p" and "8 * length (px_content p) < 2 ^ 63"
  shows "case getPrefix len p of
      Ret q \<Rightarrow> prefix_ok q \<and> px_size q = prefix_length len p \<and> length (px_content q) = (px_size q + 7) div 8
        \<and> (\<forall>m < 8 * length (px_content q). blob_bit (px_content q) m \<longleftrightarrow> m < px_size q \<and> blob_bit (px_content p) m)
        \<and> (px_flags q = [] \<or> (\<forall>m < px_size q. blob_bit (px_flags q) m = blob_bit (px_flags p) m))
    | Throw \<Rightarrow> 8 * length (px_content p) \<le> nat \<bar>len\<bar>
    | Terminate \<Rightarrow> False
    | Undef \<Rightarrow> False"
proof (cases "nat \<bar>len\<bar> < 8 * length (px_content p)")
  case True
  let ?n = "prefix_length len p"
  note n = getPrefix_length [OF assms True]
  have up: "k \<le> 8 * ((k + 7) div 8)" for k :: nat by linarith
  have fl: "px_flags p = [] \<or> ?n \<le> 8 * length (px_flags p)" using assms(1) n(2) by (auto simp: prefix_ok_def)
  have "blob_bit (cut_bits ?n (px_flags p)) m = blob_bit (px_flags p) m" if "m < ?n" "px_flags p \<noteq> []" for m
  proof -
    have le: "?n \<le> 8 * length (px_flags p)" using fl that by simp
    have "m < 8 * length (cut_bits ?n (px_flags p))" using that up [of ?n] unfolding cut_bits_length [OF le] by simp
    then show ?thesis using cut_bits_bit [OF le] that by simp
  qed
  then show ?thesis using n assms(1) fl up [of ?n]
    by (auto simp: sub_prefix_cuts [OF assms(1) n(2)] prefix_ok_def cut_bits_length cut_bits_bit)
qed (simp add: getPrefix_def)

theorem getPrefix_typed_witness:
  "\<exists>q. getPrefix (- 3) (prefix_of [0xFF, 0xFF] []) = Ret q \<and> px_size q = 13 \<and> length (px_content q) = 2 \<and> blob_bit (px_content q) 12 \<and> \<not> blob_bit (px_content q) 13"
proof -
  let ?p = "prefix_of [0xFF, 0xFF] []"
  have "prefix_ok ?p" and "8 * length (px_content ?p) < 2 ^ 63" by (simp_all add: prefix_of_def prefix_ok_def)
  note t = getPrefix_typed [OF this, of "- 3"]
  obtain q where q: "getPrefix (- 3) ?p = Ret q" by (simp add: getPrefix_def sub_prefix_def prefix_of_def Let_def)
  have len: "prefix_length (- 3) ?p = 13" by (simp add: prefix_length_def prefix_of_def)
  have "px_size q = 13" "length (px_content q) = 2" using t by (simp_all add: q len)
  moreover have "\<forall>m < 16. blob_bit (px_content q) m \<longleftrightarrow> m < 13 \<and> blob_bit (px_content ?p) m" using t calculation by (simp add: q)
  from this [rule_format, of 12] this [rule_format, of 13] have "blob_bit (px_content q) 12" "\<not> blob_bit (px_content q) 13"
    by (simp_all add: prefix_of_def blob_bit_def)
  ultimately show ?thesis using q by blast
qed

section \<open>What the sources do not mean\<close>

text \<open>
  The sibling of a label should differ from it in its last bit. The bit changed is the one before the last; when the last bit is the first of a
  byte it is one after the end of the label, which the hash of the label depends on all the same.
\<close>

theorem getSibling_changes:
  assumes "0 < px_size p" and "px_size p \<le> 8 * length (px_content p)"
  shows "\<exists>q. getSibling p = Ret q \<and> (\<forall>m. blob_bit (px_content q) m \<longleftrightarrow>
     (if m = swapped (px_size p - 1) then \<not> blob_bit (px_content p) m else blob_bit (px_content p) m)) \<and> swapped (px_size p - 1) \<noteq> px_size p - 1"
proof -
  have "px_size p - 1 < 8 * length (px_content p)" using assms by simp
  from swapBit_changes [OF this] obtain c where c: "swapBit (px_size p - 1) (px_content p) = Ret c"
      "\<forall>m. blob_bit c m \<longleftrightarrow> (if m = swapped (px_size p - 1) then \<not> blob_bit (px_content p) m else blob_bit (px_content p) m)"
    by blast
  have "swapped b \<noteq> b" for b by (cases b) (auto simp: swapped_def)
  then show ?thesis using assms(1) c by (simp add: getSibling_def)
qed

text \<open>Comparing a prefix with itself reads past the end of its contents: the loop counts bytes up to a number of bits.\<close>

lemma scan_common_past:
  assumes "px_flags p = []" and "px_content p \<noteq> []" and "px_size p = 8 * length (px_content p)" and "i \<le> length (px_content p)"
  shows "scan_common p p i = Undef"
  using assms(4)
proof (induction "length (px_content p) - i" arbitrary: i)
  case 0
  then show ?case using assms by (subst scan_common.simps) auto
next
  case (Suc d)
  then have "scan_common p p (Suc i) = Undef" by simp
  then show ?case using assms Suc by (subst scan_common.simps) (auto simp: isFlagActive_def)
qed

theorem commonBits_reads_past:
  assumes "px_flags p = []" and "px_content p \<noteq> []" and "px_size p = 8 * length (px_content p)"
  shows "prefix_commonBits p p = Some Undef"
  using scan_common_past [OF assms, of 0] by (simp add: prefix_commonBits_def Let_def)

end
