(* ===== verification/Pht_Cache.thy ===== *)
theory Pht_Cache
  imports Pht_Prefix
begin

text \<open>
  The cache of known labels of the prefix hash tree (\<open>Pht::Cache\<close> in \<open>indexation/pht.cpp\<close>). The nodes of the tree are kept alive by the
  leaves and, through the pointers to their parents, by the nodes below them, and are reached by weak pointers from above: at most one living node has
  a given path of bits from the root, so the path names it, and it lives as long as a leaf is at it or below it. A destroyed node that is made again
  gets a new time, so one time for each path is enough. The leaves are held in the order of their times; the pointer of a leaf may be null.
\<close>

record pht_cache =
  ca_leaves :: "(time_point \<times> bool list option) list"
  ca_reply :: "bool list \<Rightarrow> time_point"

definition new_pht_cache :: pht_cache where
  "new_pht_cache = \<lparr>ca_leaves = [], ca_reply = (\<lambda>_. 0)\<rparr>"

definition above :: "bool list \<Rightarrow> bool list option \<Rightarrow> bool" where
  "above \<pi> l = (case l of None \<Rightarrow> False | Some \<rho> \<Rightarrow> take (length \<pi>) \<rho> = \<pi>)"

definition node_alive :: "(time_point \<times> bool list option) list \<Rightarrow> bool list \<Rightarrow> bool" where
  "node_alive ls \<pi> = list_ex (\<lambda>(t, l). above \<pi> l) ls"

definition label_bits :: "nat \<Rightarrow> prefix \<Rightarrow> bool list" where
  "label_bits n p = map (blob_bit (px_content p)) [0..<n]"

fun insert_trim :: "time_point \<Rightarrow> (time_point \<times> bool list option) list \<Rightarrow> (time_point \<times> bool list option) list" where
  "insert_trim now [] = []"
| "insert_trim now ((t, l) # ls) = (if t + minutes 5 < now \<or> length ls + 1 > 1024 then insert_trim now ls else (t, l) # ls)"

fun lookup_trim :: "time_point \<Rightarrow> (time_point \<times> bool list option) list \<Rightarrow> (time_point \<times> bool list option) list" where
  "lookup_trim now [] = []"
| "lookup_trim now ((t, l) # ls) = (if t + minutes 5 < now then lookup_trim now ls else (t, l) # ls)"

text \<open>Every node on the way, made or found, gets the time.\<close>

fun touch_path :: "time_point \<Rightarrow> bool list \<Rightarrow> bool list \<Rightarrow> (bool list \<Rightarrow> time_point) \<Rightarrow> (bool list \<Rightarrow> time_point)" where
  "touch_path now cur [] r = r(cur := now)"
| "touch_path now cur (b # bs) r = touch_path now (cur @ [b]) bs (r(cur := now))"

definition cache_insert :: "time_point \<Rightarrow> prefix \<Rightarrow> pht_cache \<Rightarrow> unit outcome \<times> pht_cache" where
  "cache_insert now p c =
     (let n = min (px_size p) (8 * length (px_content p));
          ls = insert_trim now (ca_leaves c);
          c = c\<lparr>ca_leaves := ls, ca_reply := touch_path now [] (label_bits n p) (ca_reply c)\<rparr>
      in if n < px_size p then (Throw, c)
         else (Ret (), c\<lparr>ca_leaves := multimap_emplace now (Some (label_bits n p)) ls\<rparr>))"

fun cache_walk :: "time_point \<Rightarrow> (time_point \<times> bool list option) list \<Rightarrow> bool list \<Rightarrow> bool list
    \<Rightarrow> int \<times> bool list option \<times> time_point \<times> (bool list \<Rightarrow> time_point) \<Rightarrow> int \<times> bool list option \<times> time_point \<times> (bool list \<Rightarrow> time_point)" where
  "cache_walk now ls cur [] (pos, nd, last_time, r) = (if node_alive ls cur then (pos + 1, nd, last_time, r) else (pos, nd, last_time, r))"
| "cache_walk now ls cur (b # bs) (pos, nd, last_time, r) =
     (if node_alive ls cur then cache_walk now ls (cur @ [b]) bs (pos + 1, Some cur, r cur, r(cur := now)) else (pos, nd, last_time, r))"

text \<open>\<open>find\<close> gives the first leaf with the time.\<close>

fun erase_time :: "time_point \<Rightarrow> (time_point \<times> 'a) list \<Rightarrow> (time_point \<times> 'a) list" where
  "erase_time t [] = []"
| "erase_time t ((u, l) # ls) = (if u = t then ls else (u, l) # erase_time t ls)"

definition cache_lookup :: "time_point \<Rightarrow> prefix \<Rightarrow> pht_cache \<Rightarrow> int \<times> pht_cache" where
  "cache_lookup now p c =
     (let ls = lookup_trim now (ca_leaves c);
          (pos, nd, last_time, r) = cache_walk now ls [] (label_bits (8 * length (px_content p)) p) (-1, None, now, ca_reply c);
          c = c\<lparr>ca_leaves := ls, ca_reply := r\<rparr>
      in (pos, if pos \<ge> 0 then c\<lparr>ca_leaves := multimap_emplace now nd (erase_time last_time ls)\<rparr> else c))"

section \<open>Lemmas\<close>

lemma length_label_bits [simp]: "length (label_bits n p) = n"
  by (simp add: label_bits_def)

lemma take_label_bits [simp]: "m \<le> n \<Longrightarrow> take m (label_bits n p) = label_bits m p"
  by (simp add: label_bits_def take_map)

lemma above_append: "above (\<pi> @ \<pi>') l \<Longrightarrow> above \<pi> l"
proof (cases l)
  case (Some \<rho>)
  assume "above (\<pi> @ \<pi>') l"
  then have "take (length (\<pi> @ \<pi>')) \<rho> = \<pi> @ \<pi>'" using Some by (simp add: above_def)
  from arg_cong [OF this, of "take (length \<pi>)"] show ?thesis using Some by (simp add: above_def)
qed (simp add: above_def)

lemma node_alive_above: "node_alive ls (\<pi> @ \<pi>') \<Longrightarrow> node_alive ls \<pi>"
  unfolding node_alive_def list_ex_iff using above_append by fast

text \<open>The walk ends at the longest living label.\<close>

lemma cache_walk_longest:
  assumes "cache_walk now ls cur bs (pos, nd, last_time, r) = (pos', nd', last', r')"
  shows "if node_alive ls cur
    then \<exists>k \<le> length bs. pos' = pos + 1 + int k \<and> node_alive ls (cur @ take k bs) \<and> (k = length bs \<or> \<not> node_alive ls (cur @ take (Suc k) bs))
    else pos' = pos"
  using assms
proof (induction now ls cur bs "(pos, nd, last_time, r)" arbitrary: pos nd last_time r rule: cache_walk.induct)
  case (2 now ls cur b bs pos nd last_time r)
  show ?case
  proof (cases "node_alive ls cur")
    case True
    have IH: "if node_alive ls (cur @ [b])
       then \<exists>k \<le> length bs. pos' = pos + 1 + 1 + int k \<and> node_alive ls ((cur @ [b]) @ take k bs) \<and> (k = length bs \<or> \<not> node_alive ls ((cur @ [b]) @ take (Suc k) bs))
       else pos' = pos + 1"
      by (rule 2(1) [OF True]) (use 2(2) True in simp)
    show ?thesis
    proof (cases "node_alive ls (cur @ [b])")
      case alive: True
      with IH obtain k where "k \<le> length bs" "pos' = pos + 1 + 1 + int k" "node_alive ls ((cur @ [b]) @ take k bs)"
        "k = length bs \<or> \<not> node_alive ls ((cur @ [b]) @ take (Suc k) bs)" by auto
      then have "Suc k \<le> length (b # bs) \<and> pos' = pos + 1 + int (Suc k) \<and> node_alive ls (cur @ take (Suc k) (b # bs))
          \<and> (Suc k = length (b # bs) \<or> \<not> node_alive ls (cur @ take (Suc (Suc k)) (b # bs)))" by simp
      then show ?thesis using True by auto
    next
      case dead: False
      then have "0 \<le> length (b # bs) \<and> pos' = pos + 1 + int 0 \<and> node_alive ls (cur @ take 0 (b # bs)) \<and> \<not> node_alive ls (cur @ take (Suc 0) (b # bs))"
        using IH True by simp
      then show ?thesis using True by auto
    qed
  qed (use 2 in simp)
qed auto

lemma lookup_trim_keeps: "(t, l) \<in> set ls \<Longrightarrow> now \<le> t + minutes 5 \<Longrightarrow> (t, l) \<in> set (lookup_trim now ls)"
  by (induction now ls rule: lookup_trim.induct) auto

lemma lookup_trim_recent: "sorted (map fst ls) \<Longrightarrow> (t, l) \<in> set (lookup_trim now ls) \<Longrightarrow> (t, l) \<in> set ls \<and> now \<le> t + minutes 5"
  by (induction now ls rule: lookup_trim.induct) (fastforce split: if_splits)+

lemma insert_trim_sorted: "sorted (map fst ls) \<Longrightarrow> sorted (map fst (insert_trim now ls))"
  by (induction now ls rule: insert_trim.induct) auto

lemma insert_trim_length: "length (insert_trim now ls) \<le> 1024"
  by (induction now ls rule: insert_trim.induct) auto

lemma lookup_trim_sorted: "sorted (map fst ls) \<Longrightarrow> sorted (map fst (lookup_trim now ls))"
  by (induction now ls rule: lookup_trim.induct) auto

lemma erase_time_subset: "set (erase_time t ls) \<subseteq> set ls"
  by (induction t ls rule: erase_time.induct) auto

lemma erase_time_sorted: "sorted (map fst ls) \<Longrightarrow> sorted (map fst (erase_time t ls))"
proof (induction t ls rule: erase_time.induct)
  case (2 t u l ls)
  then show ?case using erase_time_subset [of t ls] by fastforce
qed simp

text \<open>Labels of a key that are above a leaf of the last five minutes.\<close>

definition known_label :: "time_point \<Rightarrow> pht_cache \<Rightarrow> prefix \<Rightarrow> nat \<Rightarrow> bool" where
  "known_label now c q k = list_ex (\<lambda>(t, l). now \<le> t + minutes 5 \<and> above (label_bits k q) l) (ca_leaves c)"

lemma lookup_ends:
  assumes "sorted (map fst (ca_leaves c))"
  shows "fst (cache_lookup now q c) = -1 \<and> \<not> known_label now c q 0
     \<or> (\<exists>k \<le> 8 * length (px_content q). fst (cache_lookup now q c) = int k \<and> known_label now c q k
          \<and> (\<forall>j. k < j \<and> j \<le> 8 * length (px_content q) \<longrightarrow> \<not> known_label now c q j))"
proof -
  let ?n = "8 * length (px_content q)" let ?ls = "lookup_trim now (ca_leaves c)"
  have known: "known_label now c q k \<longleftrightarrow> node_alive ?ls (label_bits k q)" for k
    unfolding node_alive_def known_label_def list_ex_iff using lookup_trim_keeps lookup_trim_recent [OF assms] by blast
  obtain pos nd last_time r where w: "cache_walk now ?ls [] (label_bits ?n q) (-1, None, now, ca_reply c) = (pos, nd, last_time, r)"
    by (metis prod_cases4)
  then have pos: "fst (cache_lookup now q c) = pos" by (simp add: cache_lookup_def Let_def)
  have mono: "node_alive ?ls (label_bits k q)" if "node_alive ?ls (label_bits m q)" "k \<le> m" for k m
    using that node_alive_above [of ?ls "label_bits k q" "drop k (label_bits m q)"] append_take_drop_id [of k "label_bits m q"] by simp
  have zero: "label_bits 0 q = []" by (simp add: label_bits_def)
  show ?thesis
  proof (cases "node_alive ?ls []")
    case True
    have "\<exists>k \<le> ?n. pos = int k \<and> node_alive ?ls (take k (label_bits ?n q)) \<and> (k = ?n \<or> \<not> node_alive ?ls (take (Suc k) (label_bits ?n q)))"
      using cache_walk_longest [OF w] True by simp
    then obtain k where k: "k \<le> ?n" "pos = int k" "node_alive ?ls (label_bits k q)"
        "k = ?n \<or> \<not> node_alive ?ls (take (Suc k) (label_bits ?n q))"
      by (metis take_label_bits)
    have "\<not> node_alive ?ls (label_bits j q)" if "k < j" "j \<le> ?n" for j
    proof -
      have "Suc k \<le> ?n" using that by simp
      then show ?thesis using k(4) mono [of j "Suc k"] that by (auto simp: Suc_le_eq)
    qed
    then show ?thesis using k unfolding pos known by auto
  next
    case False
    then show ?thesis using cache_walk_longest [OF w] unfolding pos known zero by simp
  qed
qed

lemma cache_sorted:
  assumes "sorted (map fst (ca_leaves c))"
  shows "sorted (map fst (ca_leaves (snd (cache_insert now p c))))" and "sorted (map fst (ca_leaves (snd (cache_lookup now q c))))"
  using assms by (auto simp: cache_insert_def cache_lookup_def Let_def insert_trim_sorted lookup_trim_sorted erase_time_sorted split: prod.splits)

section \<open>Properties\<close>

lemma inserted_label_found:
  assumes "sorted (map fst (ca_leaves c))" and "px_size p \<le> 8 * length (px_content p)"
    and "px_size p \<le> 8 * length (px_content q)" and "label_bits (px_size p) q = label_bits (px_size p) p"
    and "now' \<le> now + minutes 5"
  shows "\<exists>c'. cache_insert now p c = (Ret (), c') \<and> length (ca_leaves c') \<le> 1025 \<and> int (px_size p) \<le> fst (cache_lookup now' q c')"
proof -
  obtain c' where c': "cache_insert now p c = (Ret (), c')" and leaves: "ca_leaves c' = multimap_emplace now (Some (label_bits (px_size p) p)) (insert_trim now (ca_leaves c))"
    using assms(2) by (simp add: cache_insert_def Let_def min_def)
  have "sorted (map fst (ca_leaves c'))" using cache_sorted(1) [OF assms(1), of now p] c' by simp
  note l = lookup_ends [OF this, of now' q]
  have "above (label_bits (px_size p) q) (Some (label_bits (px_size p) p))" "above (label_bits 0 q) (Some (label_bits (px_size p) p))"
    by (simp_all add: above_def assms(4)) (simp add: label_bits_def)
  then have "known_label now' c' q (px_size p)" "known_label now' c' q 0"
    using assms(5) by (auto simp: known_label_def leaves list_ex_iff)
  with l assms(3) have "int (px_size p) \<le> fst (cache_lookup now' q c')" by (metis linorder_not_le of_nat_le_iff)
  moreover have "length (ca_leaves c') \<le> 1025" using insert_trim_length [of now "ca_leaves c"] by (simp add: leaves)
  ultimately show ?thesis using c' by blast
qed

text \<open>
  C35: the cache finds what was put. In every cache whose leaves are in the order of their times, which the new one has and both operations keep, a look-up gives the length of the longest label of
  the key above a leaf of the last five minutes, among all the bits of the content of the key, and -1 when there is none. After an insertion there are at
  most 1025 leaves, and the look-up of a key that begins with the label inserted, within five minutes and with nothing in between, gives at least its length.
\<close>

theorem cache_finds_label:
  assumes "sorted (map fst (ca_leaves c))"
  shows "(fst (cache_lookup now q c) = -1 \<and> \<not> known_label now c q 0
       \<or> (\<exists>k \<le> 8 * length (px_content q). fst (cache_lookup now q c) = int k \<and> known_label now c q k
            \<and> (\<forall>j. k < j \<and> j \<le> 8 * length (px_content q) \<longrightarrow> \<not> known_label now c q j)))
     \<and> sorted (map fst (ca_leaves new_pht_cache)) \<and> sorted (map fst (ca_leaves (snd (cache_insert now p c)))) \<and> sorted (map fst (ca_leaves (snd (cache_lookup now q c))))
     \<and> (px_size p \<le> 8 * length (px_content p) \<and> px_size p \<le> 8 * length (px_content q) \<and> label_bits (px_size p) q = label_bits (px_size p) p
          \<and> now' \<le> now + minutes 5
        \<longrightarrow> (\<exists>c'. cache_insert now p c = (Ret (), c') \<and> length (ca_leaves c') \<le> 1025 \<and> int (px_size p) \<le> fst (cache_lookup now' q c')))"
  using lookup_ends [OF assms, of now q] cache_sorted [OF assms] inserted_label_found [OF assms, of p q now' now] by (simp add: new_pht_cache_def)

theorem cache_finds_label_witness:
  "\<exists>c' k. cache_insert 10 \<lparr>px_size = 3, px_flags = [], px_content = [0xA0]\<rparr> new_pht_cache = (Ret (), c')
     \<and> fst (cache_lookup 20 (prefix_of [0xB0, 0x12] []) c') = int k \<and> 3 \<le> k \<and> k \<le> 16
     \<and> known_label 20 c' (prefix_of [0xB0, 0x12] []) k \<and> fst (cache_lookup 20 (prefix_of [0xB0, 0x12] []) new_pht_cache) = -1"
proof -
  let ?p = "\<lparr>px_size = 3, px_flags = [], px_content = [0xA0]\<rparr>" and ?q = "prefix_of [0xB0, 0x12] []"
  have new: "sorted (map fst (ca_leaves new_pht_cache))" "\<not> known_label 20 new_pht_cache ?q k" for k by (simp_all add: new_pht_cache_def known_label_def)
  have "label_bits (px_size ?p) ?q = label_bits (px_size ?p) ?p"
    by (simp add: label_bits_def prefix_of_def blob_bit_def upt_rec)
  then obtain c' where c': "cache_insert 10 ?p new_pht_cache = (Ret (), c')" "3 \<le> fst (cache_lookup 20 ?q c')" "sorted (map fst (ca_leaves c'))"
    using cache_finds_label [OF new(1), of 10 ?q ?p 20] by (auto simp: prefix_of_def minutes_def seconds_def)
  have "fst (cache_lookup 20 ?q new_pht_cache) = -1" using cache_finds_label [OF new(1), of 20 ?q ?p 20] new(2) by blast
  moreover obtain k where "fst (cache_lookup 20 ?q c') = int k" "k \<le> 16" "known_label 20 c' ?q k"
    using cache_finds_label [OF c'(3), of 20 ?q ?p 20] c'(2) by (auto simp: prefix_of_def)
  ultimately show ?thesis using c' by auto
qed

text \<open>The result may be larger than the number of known bits of the key: all the bits of the content are looked up.\<close>

theorem lookup_exceeds_size:
  "fst (cache_lookup 2 \<lparr>px_size = 3, px_flags = [], px_content = [0x40]\<rparr> (snd (cache_insert 1 (prefix_of [0x40] []) new_pht_cache))) = 8"
  by (simp add: cache_insert_def cache_lookup_def new_pht_cache_def prefix_of_def label_bits_def blob_bit_def upt_rec
      node_alive_def above_def minutes_def seconds_def Let_def)

text \<open>
  A look-up that ends at an inner node erases the leaf that has the time of this node, which is the last one inserted below it: of two labels put one
  after the other, the second is forgotten when a key that has neither is looked up.
\<close>

theorem lookup_forgets_label:
  "let p = prefix_of [0x00] []; q = prefix_of [0x40] []; other = prefix_of [0x80] [];
       c = snd (cache_insert 2 q (snd (cache_insert 1 p new_pht_cache)))
   in fst (cache_lookup 3 q c) = 8 \<and> fst (cache_lookup 4 q (snd (cache_lookup 3 other c))) = 1"
  by (simp add: cache_insert_def cache_lookup_def new_pht_cache_def prefix_of_def label_bits_def blob_bit_def upt_rec
      node_alive_def above_def minutes_def seconds_def Let_def)

end
