(* ===== verification/Pht_Lookup.thy ===== *)
theory Pht_Lookup
  imports Pht_Cache
begin

text \<open>
  The search for the leaf of a key (\<open>Pht::lookupStep\<close> and \<open>Pht::lookup\<close>, for exact matches): a binary search over the lengths of the labels of the
  key. Each step asks the network for the values at two labels; the answers come back one by one, as calls of the closures of the step, in any order. The
  state is what the closures of one operation share, with the results of each step, the requests that have no end yet, the cache, and the callbacks made.
  The index of a step in the list stands for the two results its closures have captured. The lengths of labels are far below the bounds of the integers.
\<close>

record index_entry =
  ie_prefix :: bytes
  ie_value :: "hash \<times> uint64"
  ie_name :: string

text \<open>A value found in the network: its user type, and the entry its data is the packed form of, if it is.\<close>

record pht_value =
  pv_type :: string
  pv_entry :: "(bytes \<times> hash \<times> uint64) option"

definition unpackEntry :: "pht_value \<Rightarrow> index_entry outcome" where
  "unpackEntry v = (case pv_entry v of None \<Rightarrow> Throw | Some (b, x) \<Rightarrow> Ret \<lparr>ie_prefix = b, ie_value = x, ie_name = pv_type v\<rparr>)"

record pht =
  ph_name :: string
  ph_canary :: string
  ph_spec :: key_spec

definition new_pht :: "string \<Rightarrow> key_spec \<Rightarrow> pht" where
  "new_pht name spec = \<lparr>ph_name = ''index.pht.'' @ name, ph_canary = ''index.pht.'' @ name @ ''.canary'', ph_spec = spec\<rparr>"

definition pht_filter :: "pht \<Rightarrow> pht_value \<Rightarrow> bool" where
  "pht_filter P v \<longleftrightarrow> take (length (ph_name P)) (pv_type v) = ph_name P"

record lookup_at =
  at_mid :: nat
  at_done :: "bool \<Rightarrow> bool"
  at_pht :: "bool \<Rightarrow> bool"

datatype lookup_call = Found "index_entry list" prefix | Finished bool

text \<open>A request is known by the number of its step and by whether it is the second one; the prefix is the one whose hash is asked for.\<close>

record lookup_op =
  lk_prefix :: prefix
  lk_all :: bool
  lk_lo :: int
  lk_hi :: int
  lk_vals :: "index_entry list"
  lk_steps :: "lookup_at list"
  lk_gets :: "(nat \<times> bool \<times> prefix) list"
  lk_cache :: pht_cache
  lk_calls :: "lookup_call list"

definition lookup_finish :: "bool \<Rightarrow> lookup_op \<Rightarrow> unit outcome \<times> lookup_op" where
  "lookup_finish ok s = (Ret (), s\<lparr>lk_calls := lk_calls s @ [Finished ok]\<rparr>)"

definition at_leaf :: "time_point \<Rightarrow> nat \<Rightarrow> lookup_op \<Rightarrow> unit outcome \<times> lookup_op" where
  "at_leaf now mid s = (case getPrefix (int mid) (lk_prefix s) of
      Ret q \<Rightarrow>
        let r = cache_insert now q (lk_cache s); s = s\<lparr>lk_cache := snd r\<rparr>
        in and_then (fst r, s) (\<lambda>_ s. lookup_finish True (s\<lparr>lk_calls := lk_calls s @ [Found (lk_vals s) q]\<rparr>))
    | Throw \<Rightarrow> (Throw, s) | Terminate \<Rightarrow> (Terminate, s) | Undef \<Rightarrow> (Undef, s))"

definition ask :: "nat \<Rightarrow> bool \<Rightarrow> nat \<Rightarrow> lookup_op \<Rightarrow> unit outcome \<times> lookup_op" where
  "ask i second n s = (case getPrefix (int n) (lk_prefix s) of
      Ret q \<Rightarrow> (Ret (), s\<lparr>lk_gets := lk_gets s @ [(i, second, q)]\<rparr>)
    | Throw \<Rightarrow> (Throw, s) | Terminate \<Rightarrow> (Terminate, s) | Undef \<Rightarrow> (Undef, s))"

text \<open>The size less one is one of unsigned 64-bit numbers.\<close>

definition last_bit :: "prefix \<Rightarrow> nat" where
  "last_bit p = unat (of_nat (px_size p) - 1 :: uint64)"

definition halved :: "int \<Rightarrow> int" where
  "halved x = (if x < 0 then - (- x div 2) else x div 2)"

text \<open>When the bounds have crossed, the end of the step is called at once, with no node found, and takes its second branch.\<close>

definition lookupStep :: "time_point \<Rightarrow> int \<Rightarrow> lookup_op \<Rightarrow> unit outcome \<times> lookup_op" where
  "lookupStep now start s =
     (let mid = nat (if start \<ge> 0 then start else halved (lk_lo s + lk_hi s)); i = length (lk_steps s);
          s = s\<lparr>lk_steps := lk_steps s @ [\<lparr>at_mid = mid, at_done = (\<lambda>_. False), at_pht = (\<lambda>_. False)\<rparr>]\<rparr>
      in if lk_lo s \<le> lk_hi s
         then and_then (ask i False mid s) (\<lambda>_ s. if mid < last_bit (lk_prefix s) then ask i True (mid + 1) s else (Ret (), s))
         else at_leaf now mid s)"

definition step_done :: "time_point \<Rightarrow> nat \<Rightarrow> bool \<Rightarrow> lookup_op \<Rightarrow> unit outcome \<times> lookup_op" where
  "step_done now i ok s =
     (let a = lk_steps s ! i; is_leaf = at_pht a False \<and> \<not> at_pht a True
      in if \<not> ok then lookup_finish False s
         else if is_leaf \<or> lk_lo s > lk_hi s then at_leaf now (at_mid a) s
         else if at_pht a False then lookupStep now (-1) (s\<lparr>lk_lo := int (at_mid a) + 1\<rparr>)
         else lookup_finish False s)"

definition set_at :: "nat \<Rightarrow> (lookup_at \<Rightarrow> lookup_at) \<Rightarrow> lookup_op \<Rightarrow> lookup_op" where
  "set_at i f s = s\<lparr>lk_steps := (lk_steps s)[i := f (lk_steps s ! i)]\<rparr>"

definition on_get :: "pht \<Rightarrow> nat \<Rightarrow> bool \<Rightarrow> pht_value \<Rightarrow> lookup_op \<Rightarrow> bool outcome \<times> lookup_op" where
  "on_get P i second v s =
     (if pv_type v = ph_canary P then (Ret True, set_at i (\<lambda>a. a\<lparr>at_pht := (at_pht a)(second := True)\<rparr>) s)
      else case unpackEntry v of
          Ret e \<Rightarrow>
            if list_ex (\<lambda>e'. ie_value e' = ie_value e) (lk_vals s) then (Ret True, s)
            else if lk_all s \<or> ie_prefix e = px_content (lk_prefix s) then (Ret True, s\<lparr>lk_vals := lk_vals s @ [e]\<rparr>)
            else (Ret True, s)
        | Throw \<Rightarrow> (Throw, s) | Terminate \<Rightarrow> (Terminate, s) | Undef \<Rightarrow> (Undef, s))"

definition mark_done :: "nat \<Rightarrow> bool \<Rightarrow> lookup_op \<Rightarrow> lookup_op" where
  "mark_done i second s = set_at i (\<lambda>a. a\<lparr>at_done := (at_done a)(second := True)\<rparr>) s"

text \<open>The end of the first request of a step, and of the second one, when there is a callback for the end of the search.\<close>

definition first_end :: "time_point \<Rightarrow> nat \<Rightarrow> bool \<Rightarrow> lookup_op \<Rightarrow> unit outcome \<times> lookup_op" where
  "first_end now i ok s =
     (let a = lk_steps s ! i in
      if \<not> ok then (let s = mark_done i False s in if at_done a True then step_done now i False s else (Ret (), s))
      else if \<not> at_pht a False then lookupStep now (-1) (s\<lparr>lk_hi := int (at_mid a) - 1\<rparr>)
      else (let s = mark_done i False s in
            if at_done a True \<or> at_mid a \<ge> last_bit (lk_prefix s) then step_done now i True s else (Ret (), s)))"

definition second_end :: "time_point \<Rightarrow> nat \<Rightarrow> bool \<Rightarrow> lookup_op \<Rightarrow> unit outcome \<times> lookup_op" where
  "second_end now i ok s =
     (let a = lk_steps s ! i; s = mark_done i True s
      in if at_done a False then step_done now i ok s else (Ret (), s))"

definition new_lookup :: "prefix \<Rightarrow> bool \<Rightarrow> pht_cache \<Rightarrow> lookup_op" where
  "new_lookup p all_values c =
     \<lparr>lk_prefix = p, lk_all = all_values, lk_lo = 0, lk_hi = int (px_size p), lk_vals = [], lk_steps = [], lk_gets = [], lk_cache = c, lk_calls = []\<rparr>"

definition pht_lookup :: "pht \<Rightarrow> time_point \<Rightarrow> pht_key \<Rightarrow> pht_cache \<Rightarrow> (unit outcome \<times> lookup_op) outcome option" where
  "pht_lookup P now k c = map_option (\<lambda>r. bind_outcome r (\<lambda>p.
     let (start, c) = cache_lookup now p c
     in Ret (lookupStep now start (new_lookup p False c))))
   (linearize (ph_spec P) k)"

definition request_end :: "time_point \<Rightarrow> nat \<times> bool \<times> prefix \<Rightarrow> bool \<Rightarrow> lookup_op \<Rightarrow> unit outcome \<times> lookup_op" where
  "request_end now g ok s =
     (let s = s\<lparr>lk_gets := removeAll g (lk_gets s)\<rparr>
      in if fst (snd g) then second_end now (fst g) ok s else first_end now (fst g) ok s)"

section \<open>The network answers\<close>

text \<open>
  A run of the search in a network: \<open>net\<close> gives the values at each label. The network calls back with each of them that passes the filter, in any order,
  and then ends the request, or ends it as failed at any time; the answers to several requests may alternate. The set beside the state has the values called
  back with so far. A callback may throw: the outcome before the state is that of the callbacks so far, and nothing follows one that has not returned.
\<close>

datatype lookup_event = Got nat bool pht_value | Ended nat bool bool

type_synonym lookup_state = "lookup_op \<times> (nat \<times> bool \<times> pht_value) set"

definition returned :: "'a outcome \<Rightarrow> unit outcome" where
  "returned r = bind_outcome r (\<lambda>_. Ret ())"

inductive lookup_step :: "pht \<Rightarrow> (prefix \<Rightarrow> pht_value list) \<Rightarrow> time_point \<Rightarrow> unit outcome \<times> lookup_state \<Rightarrow> lookup_event \<Rightarrow> unit outcome \<times> lookup_state \<Rightarrow> bool"
  for P net now where
  step_got: "(i, b, q) \<in> set (lk_gets s) \<Longrightarrow> v \<in> set (net q) \<Longrightarrow> pht_filter P v \<Longrightarrow> on_get P i b v s = (r, s')
     \<Longrightarrow> lookup_step P net now (Ret (), s, seen) (Got i b v) (returned r, s', insert (i, b, v) seen)"
| step_ended: "(i, b, q) \<in> set (lk_gets s) \<Longrightarrow> ok \<longrightarrow> (\<forall>v \<in> set (net q). pht_filter P v \<longrightarrow> (i, b, v) \<in> seen)
     \<Longrightarrow> request_end now (i, b, q) ok s = (r, s')
     \<Longrightarrow> lookup_step P net now (Ret (), s, seen) (Ended i b ok) (r, s', seen)"

inductive_cases lookup_stepE: "lookup_step P net now s e s'"

text \<open>No request fails.\<close>

fun succeeds :: "lookup_event \<Rightarrow> bool" where
  "succeeds (Got i b v) = True"
| "succeeds (Ended i b ok) = ok"

section \<open>The tree of a key\<close>

definition label :: "prefix \<Rightarrow> nat \<Rightarrow> prefix" where
  "label p k = (case getPrefix (int k) p of Ret q \<Rightarrow> q | _ \<Rightarrow> p)"

definition is_node :: "pht \<Rightarrow> (prefix \<Rightarrow> pht_value list) \<Rightarrow> prefix \<Rightarrow> bool" where
  "is_node P net q = list_ex (\<lambda>v. pv_type v = ph_canary P) (net q)"

text \<open>The nodes on the way of a key are those up to a depth.\<close>

definition leaf_at :: "pht \<Rightarrow> (prefix \<Rightarrow> pht_value list) \<Rightarrow> prefix \<Rightarrow> nat \<Rightarrow> bool" where
  "leaf_at P net p d \<longleftrightarrow> d < px_size p \<and> list_all (\<lambda>k. is_node P net (label p k) \<longleftrightarrow> k \<le> d) [0..<px_size p]"

text \<open>The values of the index at the labels of a key are canaries or packed entries.\<close>

definition labels_readable :: "pht \<Rightarrow> (prefix \<Rightarrow> pht_value list) \<Rightarrow> prefix \<Rightarrow> bool" where
  "labels_readable P net p \<longleftrightarrow> list_all (\<lambda>k. list_all (\<lambda>v. pht_filter P v \<longrightarrow> pv_type v = ph_canary P \<or> pv_entry v \<noteq> None) (net (label p k))) [0..<px_size p]"

definition index_key :: "prefix \<Rightarrow> bool" where
  "index_key p \<longleftrightarrow> prefix_ok p \<and> 8 * length (px_content p) < 2 ^ 63"

lemma getPrefix_label:
  assumes "index_key p" and "k < px_size p"
  shows "getPrefix (int k) p = Ret (label p k)" and "px_size (label p k) = k" and "k \<le> 8 * length (px_content (label p k))"
proof -
  have p: "prefix_ok p" "8 * length (px_content p) < 2 ^ 63" "k \<le> 8 * length (px_content p)" "nat \<bar>int k\<bar> < 8 * length (px_content p)"
    using assms by (auto simp: index_key_def prefix_ok_def)
  have len: "prefix_length (int k) p = k" by (simp add: prefix_length_def)
  have "getPrefix (int k) p = sub_prefix p k" using getPrefix_length(1) [OF p(1,2,4)] len by simp
  also note sub_prefix_cuts [OF p(1,3)]
  finally have g: "getPrefix (int k) p = Ret \<lparr>px_size = k, px_flags = (if px_flags p = [] then [] else cut_bits k (px_flags p)), px_content = cut_bits k (px_content p)\<rparr>" .
  have "k \<le> 8 * ((k + 7) div 8)" by linarith
  then show "getPrefix (int k) p = Ret (label p k)" "px_size (label p k) = k" "k \<le> 8 * length (px_content (label p k))"
    using cut_bits_length [OF p(3)] g by (simp_all add: label_def)
qed

lemma last_bit_key: "index_key p \<Longrightarrow> 0 < px_size p \<Longrightarrow> last_bit p = px_size p - 1"
proof -
  assume "index_key p" and pos: "0 < px_size p"
  then have "px_size p < 2 ^ 64" by (simp add: index_key_def prefix_ok_def)
  then have "(of_nat (px_size p) - 1 :: uint64) = of_nat (px_size p - 1)" using pos by simp
  then show ?thesis using \<open>px_size p < 2 ^ 64\<close> by (simp add: last_bit_def unsigned_of_nat take_bit_nat_eq_self)
qed

lemma leaf_at_node: "leaf_at P net p d \<Longrightarrow> k < px_size p \<Longrightarrow> is_node P net (label p k) \<longleftrightarrow> k \<le> d"
  by (simp add: leaf_at_def list_all_iff)

lemma halved_between: "0 \<le> lo \<Longrightarrow> lo \<le> hi \<Longrightarrow> lo \<le> halved (lo + hi) \<and> halved (lo + hi) \<le> hi"
  by (auto simp: halved_def)

section \<open>The invariant of a search\<close>

definition wanted :: "lookup_op \<Rightarrow> index_entry \<Rightarrow> bool" where
  "wanted s e \<longleftrightarrow> lk_all s \<or> ie_prefix e = px_content (lk_prefix s)"

definition entry_of :: "pht \<Rightarrow> pht_value \<Rightarrow> index_entry \<Rightarrow> bool" where
  "entry_of P v e \<longleftrightarrow> pv_type v \<noteq> ph_canary P \<and> unpackEntry v = Ret e"

definition gets_ok :: "lookup_op \<Rightarrow> bool" where
  "gets_ok s \<longleftrightarrow> (\<forall>i b q. (i, b, q) \<in> set (lk_gets s) \<longrightarrow> i < length (lk_steps s) \<and> at_mid (lk_steps s ! i) + of_bool b < px_size (lk_prefix s)
     \<and> q = label (lk_prefix s) (at_mid (lk_steps s ! i) + of_bool b) \<and> \<not> at_done (lk_steps s ! i) b)"

definition nodes_ok :: "nat \<Rightarrow> lookup_op \<Rightarrow> bool" where
  "nodes_ok d s \<longleftrightarrow> (\<forall>i < length (lk_steps s). \<forall>b. at_pht (lk_steps s ! i) b \<longrightarrow> at_mid (lk_steps s ! i) + of_bool b \<le> d)"

definition seen_ok :: "pht \<Rightarrow> lookup_state \<Rightarrow> bool" where
  "seen_ok P = (\<lambda>(s, seen). \<forall>i b v. (i, b, v) \<in> seen \<longrightarrow> i < length (lk_steps s) \<and> (pv_type v = ph_canary P \<longrightarrow> at_pht (lk_steps s ! i) b)
     \<and> (\<forall>e. entry_of P v e \<and> wanted s e \<longrightarrow> (\<exists>e' \<in> set (lk_vals s). ie_value e' = ie_value e)))"

definition ended_ok :: "pht \<Rightarrow> (prefix \<Rightarrow> pht_value list) \<Rightarrow> lookup_state \<Rightarrow> bool" where
  "ended_ok P net = (\<lambda>(s, seen). \<forall>i < length (lk_steps s). at_done (lk_steps s ! i) False
     \<longrightarrow> (\<forall>v \<in> set (net (label (lk_prefix s) (at_mid (lk_steps s ! i)))). pht_filter P v \<longrightarrow> (i, False, v) \<in> seen))"

definition vals_ok :: "pht \<Rightarrow> (prefix \<Rightarrow> pht_value list) \<Rightarrow> lookup_op \<Rightarrow> bool" where
  "vals_ok P net s \<longleftrightarrow> (\<forall>e \<in> set (lk_vals s). wanted s e \<and> (\<exists>k < px_size (lk_prefix s). \<exists>v \<in> set (net (label (lk_prefix s) k)). entry_of P v e))"

definition step_stale :: "lookup_op \<Rightarrow> nat \<Rightarrow> bool" where
  "step_stale s i \<longleftrightarrow> (\<forall>b q. (i, b, q) \<in> set (lk_gets s) \<longrightarrow> b \<and> \<not> at_done (lk_steps s ! i) False)"

definition open_request :: "lookup_op \<Rightarrow> nat \<Rightarrow> bool \<Rightarrow> bool" where
  "open_request s i b \<longleftrightarrow> (\<exists>q. (i, b, q) \<in> set (lk_gets s))"

definition bounds_ok :: "nat \<Rightarrow> lookup_op \<Rightarrow> bool" where
  "bounds_ok d s \<longleftrightarrow> 0 \<le> lk_lo s \<and> lk_lo s \<le> int d \<and> int d \<le> lk_hi s \<and> lk_hi s \<le> int (px_size (lk_prefix s))"

text \<open>The step at work: its first request is not ended, or it found a node and the second one is not ended.\<close>

definition step_live :: "nat \<Rightarrow> lookup_op \<Rightarrow> nat \<Rightarrow> bool" where
  "step_live d s i \<longleftrightarrow> (let a = lk_steps s ! i; m = at_mid a in
     m < px_size (lk_prefix s) \<and> lk_lo s \<le> int m \<and> int m \<le> lk_hi s
     \<and> (open_request s i False \<and> (open_request s i True \<or> at_done a True \<and> (m + 1 \<le> d \<longrightarrow> at_pht a True) \<or> m + 1 = px_size (lk_prefix s))
        \<or> \<not> open_request s i False \<and> at_done a False \<and> at_pht a False \<and> open_request s i True))"

definition leaf_found :: "pht \<Rightarrow> (prefix \<Rightarrow> pht_value list) \<Rightarrow> nat \<Rightarrow> lookup_op \<Rightarrow> index_entry list \<Rightarrow> bool" where
  "leaf_found P net d s vals \<longleftrightarrow>
     (\<forall>e \<in> set vals. wanted s e \<and> (\<exists>k < px_size (lk_prefix s). \<exists>v \<in> set (net (label (lk_prefix s) k)). entry_of P v e))
     \<and> (\<forall>v \<in> set (net (label (lk_prefix s) d)). \<forall>e. pht_filter P v \<and> entry_of P v e \<and> wanted s e \<longrightarrow> (\<exists>e' \<in> set vals. ie_value e' = ie_value e))"

definition search_base :: "pht \<Rightarrow> (prefix \<Rightarrow> pht_value list) \<Rightarrow> nat \<Rightarrow> lookup_state \<Rightarrow> bool" where
  "search_base P net d x \<longleftrightarrow> gets_ok (fst x) \<and> nodes_ok d (fst x) \<and> seen_ok P x \<and> ended_ok P net x \<and> vals_ok P net (fst x)"

definition search_live :: "nat \<Rightarrow> lookup_op \<Rightarrow> bool" where
  "search_live d s \<longleftrightarrow> lk_calls s = [] \<and> bounds_ok d s \<and> lk_steps s \<noteq> [] \<and> step_live d s (length (lk_steps s) - 1)
     \<and> (\<forall>i < length (lk_steps s) - 1. step_stale s i) \<and> int (length (lk_steps s)) + (lk_hi s - lk_lo s) \<le> int (px_size (lk_prefix s)) + 1"

definition search_over :: "pht \<Rightarrow> (prefix \<Rightarrow> pht_value list) \<Rightarrow> nat \<Rightarrow> lookup_op \<Rightarrow> bool" where
  "search_over P net d s \<longleftrightarrow> (\<exists>vals. lk_calls s = [Found vals (label (lk_prefix s) d), Finished True] \<and> leaf_found P net d s vals)
     \<and> (\<forall>i < length (lk_steps s). step_stale s i) \<and> length (lk_steps s) \<le> px_size (lk_prefix s) + 1"

definition search_inv :: "pht \<Rightarrow> (prefix \<Rightarrow> pht_value list) \<Rightarrow> nat \<Rightarrow> lookup_state \<Rightarrow> bool" where
  "search_inv P net d x \<longleftrightarrow> search_base P net d x \<and> (search_live d (fst x) \<or> search_over P net d (fst x))"

definition same_key :: "lookup_op \<Rightarrow> lookup_op \<Rightarrow> bool" where
  "same_key s s' \<longleftrightarrow> lk_prefix s' = lk_prefix s \<and> lk_all s' = lk_all s"

lemmas search_defs = ended_ok_def gets_ok_def nodes_ok_def seen_ok_def vals_ok_def step_stale_def open_request_def bounds_ok_def wanted_def

text \<open>A new step, when all before it are over.\<close>

lemma start_step:
  assumes key: "index_key (lk_prefix s)" "d < px_size (lk_prefix s)"
    and base: "search_base P net d (s, seen)" and stale: "\<forall>i < length (lk_steps s). step_stale s i"
    and calls: "lk_calls s = []" and bounds: "bounds_ok d s"
    and count: "int (length (lk_steps s)) + (lk_hi s - lk_lo s) \<le> int (px_size (lk_prefix s))"
    and start: "start = -1 \<or> lk_lo s \<le> start \<and> start < int (px_size (lk_prefix s)) \<and> start \<le> lk_hi s"
  shows "\<exists>s'. lookupStep now start s = (Ret (), s') \<and> search_base P net d (s', seen) \<and> search_live d s' \<and> same_key s s'"
proof -
  let ?p = "lk_prefix s" let ?i = "length (lk_steps s)"
  define m where "m = nat (if start \<ge> 0 then start else halved (lk_lo s + lk_hi s))"
  have b: "0 \<le> lk_lo s" "lk_lo s \<le> int d" "int d \<le> lk_hi s" "lk_hi s \<le> int (px_size ?p)" using bounds by (auto simp: bounds_ok_def)
  have m: "lk_lo s \<le> int m" "int m \<le> lk_hi s" "m < px_size ?p"
    using start b key(2) by (auto simp: m_def halved_def)
  have last: "last_bit ?p = px_size ?p - 1" by (rule last_bit_key [OF key(1)]) (use key(2) in simp)
  let ?new = "\<lparr>at_mid = m, at_done = (\<lambda>_. False), at_pht = (\<lambda>_. False)\<rparr>"
  let ?gets = "(?i, False, label ?p m) # (if m + 1 < px_size ?p then [(?i, True, label ?p (m + 1))] else [])"
  let ?s = "s\<lparr>lk_steps := lk_steps s @ [?new], lk_gets := lk_gets s @ ?gets\<rparr>"
  have "lookupStep now start s = (Ret (), ?s)"
    using b m last getPrefix_label(1) [OF key(1), of m] getPrefix_label(1) [OF key(1), of "m + 1"]
    by (auto simp: lookupStep_def Let_def m_def [symmetric] ask_def)
  moreover have gets: "gets_ok s" "nodes_ok d s" "seen_ok P (s, seen)" "vals_ok P net s" "ended_ok P net (s, seen)" using base by (simp_all add: search_base_def)
  have "search_base P net d (?s, seen)"
    unfolding search_base_def
  proof (intro conjI)
    show "gets_ok (fst (?s, seen))" using gets(1) m by (auto simp: gets_ok_def nth_append less_Suc_eq split: if_splits)
    show "nodes_ok d (fst (?s, seen))" using gets(2) by (auto simp: nodes_ok_def nth_append)
    show "seen_ok P (?s, seen)" using gets(3) by (auto simp: seen_ok_def nth_append wanted_def less_Suc_eq)
    show "ended_ok P net (?s, seen)" using gets(5) by (auto simp: ended_ok_def nth_append)
    show "vals_ok P net (fst (?s, seen))" using gets(4) by (simp add: vals_ok_def wanted_def)
  qed
  moreover have "step_stale ?s j" if "j < ?i" for j using stale that by (auto simp: step_stale_def nth_append split: if_splits)
  then have "search_live d ?s"
    using calls bounds count m by (auto simp: search_live_def bounds_ok_def step_live_def Let_def open_request_def)
  ultimately show ?thesis by (auto simp: same_key_def)
qed

lemma at_leaf_ends:
  assumes key: "index_key (lk_prefix s)" "d < px_size (lk_prefix s)"
    and base: "search_base P net d (s, seen)" and stale: "\<forall>i < length (lk_steps s). step_stale s i"
    and calls: "lk_calls s = []" and len: "length (lk_steps s) \<le> px_size (lk_prefix s) + 1"
    and seen: "\<forall>v \<in> set (net (label (lk_prefix s) d)). pht_filter P v \<longrightarrow> (i, False, v) \<in> seen"
  shows "\<exists>s'. at_leaf now d s = (Ret (), s') \<and> search_base P net d (s', seen) \<and> search_over P net d s' \<and> same_key s s'"
proof -
  let ?q = "label (lk_prefix s) d"
  have "fst (cache_insert now ?q (lk_cache s)) = Ret ()"
    using getPrefix_label(2,3) [OF key] by (simp add: cache_insert_def Let_def)
  define s' where "s' = s\<lparr>lk_cache := snd (cache_insert now ?q (lk_cache s)), lk_calls := [Found (lk_vals s) ?q, Finished True]\<rparr>"
  have "at_leaf now d s = (Ret (), s')"
    using calls \<open>fst _ = Ret ()\<close> by (simp add: at_leaf_def getPrefix_label(1) [OF key] Let_def lookup_finish_def s'_def)
  moreover have "leaf_found P net d s (lk_vals s)"
    using base seen by (simp add: leaf_found_def search_base_def vals_ok_def seen_ok_def) blast
  then have "leaf_found P net d s' (lk_vals s)" by (simp add: leaf_found_def wanted_def s'_def)
  then have "search_over P net d s'" using stale len by (auto simp: search_over_def step_stale_def s'_def)
  moreover have "search_base P net d (s', seen)" using base by (simp add: search_base_def search_defs s'_def)
  ultimately show ?thesis by (simp add: same_key_def s'_def)
qed

lemma set_at_sel [simp]:
  "lk_prefix (set_at i f s) = lk_prefix s" "lk_all (set_at i f s) = lk_all s" "lk_lo (set_at i f s) = lk_lo s" "lk_hi (set_at i f s) = lk_hi s"
  "lk_vals (set_at i f s) = lk_vals s" "lk_gets (set_at i f s) = lk_gets s" "lk_cache (set_at i f s) = lk_cache s" "lk_calls (set_at i f s) = lk_calls s"
  "length (lk_steps (set_at i f s)) = length (lk_steps s)"
  by (simp_all add: set_at_def)

lemma set_at_nth: "j < length (lk_steps s) \<Longrightarrow> lk_steps (set_at i f s) ! j = (if i = j then f (lk_steps s ! j) else lk_steps s ! j)"
  by (simp add: set_at_def nth_list_update)

text \<open>The end of the step at work, both its requests being over.\<close>

lemma step_done_goes_on:
  assumes key: "index_key (lk_prefix s)" "d < px_size (lk_prefix s)"
    and base: "search_base P net d (s, seen)" and i: "i = length (lk_steps s) - 1" "lk_steps s \<noteq> []"
    and stale: "\<forall>j < i. step_stale s j" "\<forall>b q. (i, b, q) \<notin> set (lk_gets s)"
    and calls: "lk_calls s = []" and bounds: "bounds_ok d s" "lk_lo s \<le> int (at_mid (lk_steps s ! i))" "int (at_mid (lk_steps s ! i)) \<le> lk_hi s"
    and count: "int (length (lk_steps s)) + (lk_hi s - lk_lo s) \<le> int (px_size (lk_prefix s)) + 1"
    and ended: "at_done (lk_steps s ! i) False"
    and pht: "at_pht (lk_steps s ! i) False" "at_mid (lk_steps s ! i) + 1 \<le> d \<longrightarrow> at_pht (lk_steps s ! i) True"
  shows "\<exists>s'. step_done now i True s = (Ret (), s') \<and> search_inv P net d (s', seen) \<and> same_key s s'"
proof -
  let ?m = "at_mid (lk_steps s ! i)"
  have lt: "i < length (lk_steps s)" using i by simp
  have seen: "\<forall>v \<in> set (net (label (lk_prefix s) ?m)). pht_filter P v \<longrightarrow> (i, False, v) \<in> seen"
    using base lt ended by (simp add: search_base_def ended_ok_def)
  have all_stale: "\<forall>j < length (lk_steps s). step_stale s j"
  proof (intro allI impI)
    fix j assume "j < length (lk_steps s)"
    then have "j < i \<or> j = i" using i by linarith
    then show "step_stale s j" using stale by (auto simp: step_stale_def)
  qed
  have nodes: "?m \<le> d" "at_pht (lk_steps s ! i) True \<Longrightarrow> ?m + 1 \<le> d"
    using base lt pht by (force simp: search_base_def nodes_ok_def)+
  have b: "0 \<le> lk_lo s" "lk_lo s \<le> int d" "int d \<le> lk_hi s" "lk_hi s \<le> int (px_size (lk_prefix s))" using bounds(1) by (auto simp: bounds_ok_def)
  show ?thesis
  proof (cases "at_pht (lk_steps s ! i) True")
    case False
    then have m: "?m = d" using nodes(1) pht(2) by linarith
    have "length (lk_steps s) \<le> px_size (lk_prefix s) + 1" using count b by linarith
    from at_leaf_ends [OF key base all_stale calls this, of i now] seen m
    show ?thesis using False pht by (auto simp: step_done_def Let_def search_inv_def)
  next
    case True
    let ?s = "s\<lparr>lk_lo := int ?m + 1\<rparr>"
    have "search_base P net d (?s, seen)" using base by (simp add: search_base_def search_defs)
    moreover have "bounds_ok d ?s" using b nodes(2) [OF True] by (simp add: bounds_ok_def)
    moreover have "\<forall>j < length (lk_steps ?s). step_stale ?s j" using all_stale by (auto simp: step_stale_def)
    ultimately have "\<exists>s'. lookupStep now (-1) ?s = (Ret (), s') \<and> search_base P net d (s', seen) \<and> search_live d s' \<and> same_key ?s s'"
      by (intro start_step) (use key calls count bounds in auto)
    then show ?thesis using True pht b by (auto simp: step_done_def Let_def search_inv_def same_key_def)
  qed
qed

lemma gets_okD:
  assumes "gets_ok s" and "(i, b, q) \<in> set (lk_gets s)"
  shows "i < length (lk_steps s)" and "at_mid (lk_steps s ! i) + of_bool b < px_size (lk_prefix s)"
    and "q = label (lk_prefix s) (at_mid (lk_steps s ! i) + of_bool b)" and "\<not> at_done (lk_steps s ! i) b"
  using assms unfolding gets_ok_def by blast+

definition canary_ok :: "pht \<Rightarrow> bool" where
  "canary_ok P \<longleftrightarrow> take (length (ph_name P)) (ph_canary P) = ph_name P"

text \<open>When a request is over, its flag says whether there is a node at its label.\<close>

lemma seen_node:
  assumes "canary_ok P" and "leaf_at P net (lk_prefix s) d" and "search_base P net d (s, seen)" and "(i, b, q) \<in> set (lk_gets s)"
    and "\<forall>v \<in> set (net q). pht_filter P v \<longrightarrow> (i, b, v) \<in> seen"
  shows "at_pht (lk_steps s ! i) b \<longleftrightarrow> at_mid (lk_steps s ! i) + of_bool b \<le> d"
proof
  have g: "i < length (lk_steps s)" "at_mid (lk_steps s ! i) + of_bool b < px_size (lk_prefix s)" "q = label (lk_prefix s) (at_mid (lk_steps s ! i) + of_bool b)"
    using assms(3,4) by (auto simp: search_base_def gets_ok_def)
  show "at_mid (lk_steps s ! i) + of_bool b \<le> d" if "at_pht (lk_steps s ! i) b"
    using that assms(3) g(1) by (auto simp: search_base_def nodes_ok_def)
  assume "at_mid (lk_steps s ! i) + of_bool b \<le> d"
  then have "is_node P net q" using leaf_at_node [OF assms(2) g(2)] g(3) by simp
  then obtain v where "v \<in> set (net q)" "pv_type v = ph_canary P" by (auto simp: is_node_def list_ex_iff)
  moreover then have "pht_filter P v" using assms(1) by (simp add: pht_filter_def canary_ok_def)
  ultimately have "(i, b, v) \<in> seen" using assms(5) by blast
  then show "at_pht (lk_steps s ! i) b" using assms(3) \<open>pv_type v = _\<close> by (auto simp: search_base_def seen_ok_def)
qed

lemma mark_done_base:
  assumes base: "search_base P net d (s, seen)" and g: "(i, b, q) \<in> set (lk_gets s)"
    and seen: "\<forall>v \<in> set (net q). pht_filter P v \<longrightarrow> (i, b, v) \<in> seen"
  shows "search_base P net d (mark_done i b (s\<lparr>lk_gets := removeAll (i, b, q) (lk_gets s)\<rparr>), seen)" (is "search_base P net d (?s, seen)")
    and "\<And>q'. (i, b, q') \<notin> set (removeAll (i, b, q) (lk_gets s))"
proof -
  have ok: "gets_ok s" "nodes_ok d s" "seen_ok P (s, seen)" "ended_ok P net (s, seen)" "vals_ok P net s" using base by (simp_all add: search_base_def)
  have q: "i < length (lk_steps s)" "q' = label (lk_prefix s) (at_mid (lk_steps s ! i) + of_bool b)" if "(i, b, q') \<in> set (lk_gets s)" for q'
    using ok(1) that by (auto simp: gets_ok_def)
  then show rm: "(i, b, q') \<notin> set (removeAll (i, b, q) (lk_gets s))" for q' using g by auto
  have steps: "lk_steps ?s ! j = (lk_steps s ! j)\<lparr>at_done := (if j = i then (at_done (lk_steps s ! j))(b := True) else at_done (lk_steps s ! j))\<rparr>"
    if "j < length (lk_steps s)" for j
    using that by (simp add: mark_done_def set_at_nth)
  have frame: "lk_prefix ?s = lk_prefix s" "lk_all ?s = lk_all s" "lk_vals ?s = lk_vals s" "length (lk_steps ?s) = length (lk_steps s)"
      "lk_gets ?s = removeAll (i, b, q) (lk_gets s)"
    by (simp_all add: mark_done_def)
  show "search_base P net d (?s, seen)" unfolding search_base_def fst_conv
  proof (intro conjI)
    show "gets_ok ?s" unfolding gets_ok_def frame
    proof (intro allI impI)
      fix j c r assume "(j, c, r) \<in> set (removeAll (i, b, q) (lk_gets s))"
      moreover from this have "(j, c) \<noteq> (i, b)" using rm by blast
      ultimately show "j < length (lk_steps s) \<and> at_mid (lk_steps ?s ! j) + of_bool c < px_size (lk_prefix s)
          \<and> r = label (lk_prefix s) (at_mid (lk_steps ?s ! j) + of_bool c) \<and> \<not> at_done (lk_steps ?s ! j) c"
        using ok(1) by (auto simp: gets_ok_def steps)
    qed
    show "nodes_ok d ?s" using ok(2) by (simp add: nodes_ok_def frame steps)
    show "seen_ok P (?s, seen)" using ok(3) by (auto simp: seen_ok_def frame steps wanted_def)
    have "(j, False, v) \<in> seen" if "j < length (lk_steps s)" "at_done (lk_steps ?s ! j) False" "pht_filter P v"
        "v \<in> set (net (label (lk_prefix s) (at_mid (lk_steps s ! j))))" for j v
    proof (cases "at_done (lk_steps s ! j) False")
      case True
      then show ?thesis using ok(4) that by (simp add: ended_ok_def)
    next
      case False
      then have "j = i \<and> \<not> b" using that(2) unfolding steps [OF that(1)] by (auto split: if_splits)
      then show ?thesis using that(3,4) seen q(2) [OF g] by simp
    qed
    then show "ended_ok P net (?s, seen)" by (simp add: ended_ok_def frame steps)
    show "vals_ok P net ?s" using ok(5) by (simp add: vals_ok_def frame wanted_def)
  qed
qed

lemma mark_done_sel [simp]:
  "lk_prefix (mark_done i b s) = lk_prefix s" "lk_all (mark_done i b s) = lk_all s" "lk_lo (mark_done i b s) = lk_lo s" "lk_hi (mark_done i b s) = lk_hi s"
  "lk_gets (mark_done i b s) = lk_gets s" "lk_calls (mark_done i b s) = lk_calls s" "length (lk_steps (mark_done i b s)) = length (lk_steps s)"
  "lk_vals (mark_done i b s) = lk_vals s" "lk_steps (mark_done i b s) = [] \<longleftrightarrow> lk_steps s = []"
  by (simp_all add: mark_done_def set_at_def)

lemma mark_done_nth:
  assumes "j < length (lk_steps s)"
  shows "at_mid (lk_steps (mark_done i b s) ! j) = at_mid (lk_steps s ! j)" and "at_pht (lk_steps (mark_done i b s) ! j) = at_pht (lk_steps s ! j)"
    and "at_done (lk_steps (mark_done i b s) ! j) c \<longleftrightarrow> at_done (lk_steps s ! j) c \<or> j = i \<and> c = b"
  using assms by (auto simp: mark_done_def set_at_nth)

lemma search_base_fewer:
  assumes "search_base P net d (s, seen)"
  shows "search_base P net d (s\<lparr>lk_gets := removeAll g (lk_gets s), lk_hi := h\<rparr>, seen)"
proof -
  have "gets_ok s" using assms by (simp add: search_base_def)
  have "gets_ok (s\<lparr>lk_gets := removeAll g (lk_gets s), lk_hi := h\<rparr>)" (is "gets_ok ?s") unfolding gets_ok_def
  proof (intro allI impI)
    fix j c r assume "(j, c, r) \<in> set (lk_gets ?s)"
    then have "(j, c, r) \<in> set (lk_gets s)" by simp
    from gets_okD [OF \<open>gets_ok s\<close> this] show "j < length (lk_steps ?s) \<and> at_mid (lk_steps ?s ! j) + of_bool c < px_size (lk_prefix ?s)
        \<and> r = label (lk_prefix ?s) (at_mid (lk_steps ?s ! j) + of_bool c) \<and> \<not> at_done (lk_steps ?s ! j) c" by simp
  qed
  then show ?thesis using assms by (simp add: search_base_def nodes_ok_def seen_ok_def ended_ok_def vals_ok_def wanted_def)
qed

lemma at_work:
  assumes "search_inv P net d (s, seen)" and "i < length (lk_steps s)" and "\<not> step_stale s i"
  shows "search_live d s" and "i = length (lk_steps s) - 1"
proof -
  have "\<not> search_over P net d s" using assms(2,3) unfolding search_over_def by blast
  then show live: "search_live d s" using assms(1) by (simp add: search_inv_def)
  have "\<not> i < length (lk_steps s) - 1" using live assms(3) unfolding search_live_def by blast
  then show "i = length (lk_steps s) - 1" using assms(2) by linarith
qed

text \<open>Both requests of the step at work are over.\<close>

lemma marked_step_goes_on:
  assumes key: "index_key (lk_prefix s)" "d < px_size (lk_prefix s)"
    and base: "search_base P net d (mark_done i b (s\<lparr>lk_gets := gs\<rparr>), seen)"
    and i: "i = length (lk_steps s) - 1" "i < length (lk_steps s)"
    and stale: "\<forall>j < i. step_stale (mark_done i b (s\<lparr>lk_gets := gs\<rparr>)) j" "\<And>c q. (i, c, q) \<notin> set gs"
    and live: "lk_calls s = []" "bounds_ok d s" "lk_lo s \<le> int (at_mid (lk_steps s ! i))" "int (at_mid (lk_steps s ! i)) \<le> lk_hi s"
      "int (length (lk_steps s)) + (lk_hi s - lk_lo s) \<le> int (px_size (lk_prefix s)) + 1"
    and ended: "b \<longrightarrow> at_done (lk_steps s ! i) False"
    and pht: "at_pht (lk_steps s ! i) False" "at_mid (lk_steps s ! i) + 1 \<le> d \<longrightarrow> at_pht (lk_steps s ! i) True"
  shows "\<exists>s'. step_done now i True (mark_done i b (s\<lparr>lk_gets := gs\<rparr>)) = (Ret (), s') \<and> search_inv P net d (s', seen) \<and> same_key s s'"
proof -
  let ?s = "mark_done i b (s\<lparr>lk_gets := gs\<rparr>)"
  have lt: "i < length (lk_steps (s\<lparr>lk_gets := gs\<rparr>))" using i(2) by simp
  note nth = mark_done_nth [OF lt]
  have "\<exists>s'. step_done now i True ?s = (Ret (), s') \<and> search_inv P net d (s', seen) \<and> same_key ?s s'"
  proof (rule step_done_goes_on [OF _ _ base])
    show "i = length (lk_steps ?s) - 1" using i(1) by simp
    show "lk_steps ?s \<noteq> []" using lt mark_done_sel(7) by (metis list.size(3) less_nat_zero_code)
    show "\<forall>c q. (i, c, q) \<notin> set (lk_gets ?s)" using stale(2) by simp
    show "at_done (lk_steps ?s ! i) False" using ended by (auto simp: nth)
    show "bounds_ok d ?s" using live(2) by (simp add: bounds_ok_def)
  qed (use key stale(1) live pht in \<open>simp_all add: nth\<close>)
  then show ?thesis by (simp add: same_key_def)
qed

text \<open>The first request of a step is over.\<close>

lemma first_end_goes_on:
  assumes P: "canary_ok P" and key: "index_key (lk_prefix s)" and leaf: "leaf_at P net (lk_prefix s) d"
    and inv: "search_inv P net d (s, seen)" and g: "(i, False, q) \<in> set (lk_gets s)" and seen: "\<forall>v \<in> set (net q). pht_filter P v \<longrightarrow> (i, False, v) \<in> seen"
  shows "\<exists>s'. request_end now (i, False, q) True s = (Ret (), s') \<and> search_inv P net d (s', seen) \<and> same_key s s'"
proof -
  let ?a = "lk_steps s ! i" let ?N = "px_size (lk_prefix s)" let ?m = "at_mid (lk_steps s ! i)"
  let ?gets = "removeAll (i, False, q) (lk_gets s)"
  have d: "d < ?N" using leaf by (simp add: leaf_at_def)
  have base: "search_base P net d (s, seen)" using inv by (simp add: search_inv_def)
  have gets: "gets_ok s" using base by (simp add: search_base_def)
  have ok: "i < length (lk_steps s)" "?m < ?N" "\<not> at_done ?a False" using gets_okD [OF gets g] by simp_all
  have second: "\<not> at_done ?a True" "?m + 1 < ?N" if "(i, True, r) \<in> set (lk_gets s)" for r
    using gets_okD [OF gets that] by simp_all
  have "\<not> step_stale s i" using g by (auto simp: step_stale_def)
  then have live: "search_live d s" and i: "i = length (lk_steps s) - 1" using at_work [OF inv] ok(1) by blast+
  have calls: "lk_calls s = []" and bounds: "bounds_ok d s" and at: "lk_lo s \<le> int ?m" "int ?m \<le> lk_hi s" and stale: "\<forall>j < i. step_stale s j"
      and count: "int (length (lk_steps s)) + (lk_hi s - lk_lo s) \<le> int ?N + 1" and ne: "lk_steps s \<noteq> []"
      and rest: "open_request s i True \<or> at_done ?a True \<and> (?m + 1 \<le> d \<longrightarrow> at_pht ?a True) \<or> ?m + 1 = ?N"
    using live g unfolding search_live_def i [symmetric] step_live_def Let_def by (auto simp: open_request_def)
  have pht: "at_pht ?a False \<longleftrightarrow> ?m \<le> d" using seen_node [OF P leaf base g seen] by simp
  note none = mark_done_base(2) [OF base g seen]
  show ?thesis
  proof (cases "at_pht ?a False")
    case False
    let ?s = "s\<lparr>lk_gets := ?gets, lk_hi := int ?m - 1\<rparr>"
    have "bounds_ok d ?s" using bounds at False pht by (auto simp: bounds_ok_def)
    moreover have "step_stale ?s j" if "j < length (lk_steps s)" for j
    proof (cases "j < i")
      case True
      then show ?thesis using stale by (auto simp: step_stale_def)
    next
      case False
      then have "j = i" using that i by linarith
      moreover have "b" if "(i, b, r) \<in> set ?gets" for b r using that none by (cases b) (simp_all del: set_removeAll)
      ultimately show ?thesis using ok(3) by (auto simp: step_stale_def simp del: set_removeAll)
    qed
    ultimately have "\<exists>s'. lookupStep now (-1) ?s = (Ret (), s') \<and> search_base P net d (s', seen) \<and> search_live d s' \<and> same_key ?s s'"
      by (intro start_step search_base_fewer [OF base]) (use key d calls count at in auto)
    then show ?thesis using False by (auto simp: request_end_def first_end_def Let_def search_inv_def same_key_def)
  next
    case True
    let ?s = "mark_done i False (s\<lparr>lk_gets := ?gets\<rparr>)"
    have base': "search_base P net d (?s, seen)" by (rule mark_done_base(1) [OF base g seen])
    have last: "last_bit (lk_prefix s) = ?N - 1" by (rule last_bit_key [OF key]) (use d in simp)
    have stale': "\<forall>j < i. step_stale ?s j" using stale ok(1) by (auto simp: step_stale_def mark_done_nth)
    show ?thesis
    proof (cases "at_done ?a True \<or> ?m \<ge> last_bit (lk_prefix s)")
      case ends: True
      have "(i, True, r) \<notin> set (lk_gets s)" for r
      proof
        assume r: "(i, True, r) \<in> set (lk_gets s)"
        show False using second [OF r] ends last by linarith
      qed
      then have over: "(i, b, r) \<notin> set ?gets" for b r using none by (cases b) auto
      have "?m + 1 \<le> d \<longrightarrow> at_pht ?a True" using rest second d ends last by (auto simp: open_request_def)
      then have "\<exists>s'. step_done now i True ?s = (Ret (), s') \<and> search_inv P net d (s', seen) \<and> same_key s s'"
        by (intro marked_step_goes_on [OF key d base' i ok(1) stale' over calls bounds at count _ True]) simp_all
      then show ?thesis using True ends by (simp add: request_end_def first_end_def Let_def)
    next
      case waits: False
      have "open_request s i True" using rest waits last by auto
      then have "step_live d ?s i" using True none at ok by (auto simp: step_live_def open_request_def mark_done_nth)
      then have "search_live d ?s" using calls bounds ne stale' count i by (simp add: search_live_def bounds_ok_def)
      then show ?thesis using True waits base' by (auto simp: request_end_def first_end_def Let_def same_key_def search_inv_def)
    qed
  qed
qed

text \<open>The second request of a step is over; the step may be over since long.\<close>

lemma second_end_goes_on:
  assumes P: "canary_ok P" and key: "index_key (lk_prefix s)" and leaf: "leaf_at P net (lk_prefix s) d"
    and inv: "search_inv P net d (s, seen)" and g: "(i, True, q) \<in> set (lk_gets s)" and seen: "\<forall>v \<in> set (net q). pht_filter P v \<longrightarrow> (i, True, v) \<in> seen"
  shows "\<exists>s'. request_end now (i, True, q) True s = (Ret (), s') \<and> search_inv P net d (s', seen) \<and> same_key s s'"
proof -
  let ?a = "lk_steps s ! i" let ?N = "px_size (lk_prefix s)" let ?m = "at_mid (lk_steps s ! i)"
  let ?gets = "removeAll (i, True, q) (lk_gets s)"
  let ?s = "mark_done i True (s\<lparr>lk_gets := ?gets\<rparr>)"
  have d: "d < ?N" using leaf by (simp add: leaf_at_def)
  have base: "search_base P net d (s, seen)" using inv by (simp add: search_inv_def)
  have gets: "gets_ok s" using base by (simp add: search_base_def)
  have i: "i < length (lk_steps s)" using gets_okD [OF gets g] by simp
  have base': "search_base P net d (?s, seen)" by (rule mark_done_base(1) [OF base g seen])
  note none = mark_done_base(2) [OF base g seen]
  have stale: "step_stale ?s j" if "step_stale s j" "j < length (lk_steps s)" for j
    using that by (auto simp: step_stale_def mark_done_nth)
  have pht: "at_pht ?a True \<longleftrightarrow> ?m + 1 \<le> d" using seen_node [OF P leaf base g seen] by simp
  show ?thesis
  proof (cases "at_done ?a False")
    case True
    then have "\<not> step_stale s i" using g by (auto simp: step_stale_def)
    note work = at_work [OF inv i this]
    have first: "(i, False, r) \<notin> set (lk_gets s)" for r using gets_okD(4) [OF gets] True by blast
    have live: "lk_calls s = []" "bounds_ok d s" "lk_lo s \<le> int ?m" "int ?m \<le> lk_hi s" "\<forall>j < i. step_stale s j" "at_pht ?a False"
        "int (length (lk_steps s)) + (lk_hi s - lk_lo s) \<le> int ?N + 1" "lk_steps s \<noteq> []"
      using work(1) first unfolding search_live_def work(2) [symmetric] step_live_def Let_def by (auto simp: open_request_def)
    have stale': "\<forall>j < i. step_stale ?s j" using live(5) stale i by auto
    have over: "(i, b, r) \<notin> set ?gets" for b r using none first by (cases b) auto
    have "\<exists>s'. step_done now i True ?s = (Ret (), s') \<and> search_inv P net d (s', seen) \<and> same_key s s'"
      by (rule marked_step_goes_on [OF key d base' work(2) i stale' over live(1-4,7) _ live(6)]) (simp_all add: True pht)
    then show ?thesis using True by (simp add: request_end_def second_end_def Let_def)
  next
    case False
    have r: "request_end now (i, True, q) True s = (Ret (), ?s)" using False by (simp add: request_end_def second_end_def Let_def)
    have "search_live d ?s" if l: "search_live d s"
    proof -
      let ?k = "length (lk_steps s) - 1"
      have k: "?k < length (lk_steps s)" using l by (simp add: search_live_def)
      have pend: "open_request ?s j b \<longleftrightarrow> open_request s j b \<and> \<not> (j = i \<and> b)" for j b
      proof (cases "j = i \<and> b")
        case True
        then show ?thesis using none by (simp add: open_request_def)
      qed (auto simp: open_request_def)
      have "step_live d s ?k" using l by (simp add: search_live_def)
      then have "step_live d ?s ?k" using False pht k by (auto simp: step_live_def Let_def pend mark_done_nth)
      then show ?thesis using l stale by (auto simp: search_live_def bounds_ok_def)
    qed
    moreover have "search_over P net d ?s" if "search_over P net d s"
      using that stale by (auto simp: search_over_def leaf_found_def wanted_def)
    ultimately show ?thesis using r base' inv by (auto simp: search_inv_def same_key_def)
  qed
qed

text \<open>A value comes.\<close>

lemma got_canary:
  assumes leaf: "leaf_at P net (lk_prefix s) d" and inv: "search_inv P net d (s, seen)" and g: "(i, b, q) \<in> set (lk_gets s)"
    and v: "v \<in> set (net q)" "pv_type v = ph_canary P"
  shows "search_inv P net d (set_at i (\<lambda>a. a\<lparr>at_pht := (at_pht a)(b := True)\<rparr>) s, insert (i, b, v) seen)" (is "search_inv P net d (?s, _)")
proof -
  have base: "gets_ok s" "nodes_ok d s" "seen_ok P (s, seen)" "ended_ok P net (s, seen)" "vals_ok P net s"
    using inv by (simp_all add: search_inv_def search_base_def)
  note g = gets_okD [OF base(1) g]
  have "is_node P net q" using v by (auto simp: is_node_def list_ex_iff)
  then have node: "at_mid (lk_steps s ! i) + of_bool b \<le> d" using leaf_at_node [OF leaf g(2)] g(3) by simp
  have nth: "at_mid (lk_steps ?s ! j) = at_mid (lk_steps s ! j)" "at_done (lk_steps ?s ! j) = at_done (lk_steps s ! j)"
      "at_pht (lk_steps ?s ! j) c \<longleftrightarrow> at_pht (lk_steps s ! j) c \<or> j = i \<and> c = b" if "j < length (lk_steps s)" for j c
    using that by (auto simp: set_at_nth)
  have stale: "step_stale ?s j" if "step_stale s j" "j < length (lk_steps s)" for j using that by (auto simp: step_stale_def nth)
  have "gets_ok ?s" unfolding gets_ok_def
  proof (intro allI impI)
    fix j c r assume "(j, c, r) \<in> set (lk_gets ?s)"
    then have "(j, c, r) \<in> set (lk_gets s)" by simp
    from gets_okD [OF base(1) this] show "j < length (lk_steps ?s) \<and> at_mid (lk_steps ?s ! j) + of_bool c < px_size (lk_prefix ?s)
        \<and> r = label (lk_prefix ?s) (at_mid (lk_steps ?s ! j) + of_bool c) \<and> \<not> at_done (lk_steps ?s ! j) c" by (simp add: nth)
  qed
  moreover have "nodes_ok d ?s" using base(2) node unfolding nodes_ok_def by (simp add: nth)
  moreover have "seen_ok P (?s, insert (i, b, v) seen)"
    using base(3) g(1) v(2) by (auto simp: seen_ok_def nth wanted_def entry_of_def)
  moreover have "ended_ok P net (?s, insert (i, b, v) seen)" using base(4) by (auto simp: ended_ok_def nth)
  moreover have "vals_ok P net ?s" using base(5) by (simp add: vals_ok_def wanted_def)
  moreover have "search_live d ?s" if l: "search_live d s"
  proof -
    have "length (lk_steps s) - 1 < length (lk_steps s)" and st: "step_live d s (length (lk_steps s) - 1)" using l by (simp_all add: search_live_def)
    then have "step_live d ?s (length (lk_steps s) - 1)" by (auto simp: step_live_def Let_def open_request_def nth)
    then show ?thesis using l stale by (auto simp: search_live_def bounds_ok_def set_at_def)
  qed
  moreover have "search_over P net d ?s" if "search_over P net d s"
    using that stale by (auto simp: search_over_def leaf_found_def wanted_def)
  ultimately show ?thesis using inv by (auto simp: search_inv_def search_base_def)
qed

lemma got_keeps:
  assumes leaf: "leaf_at P net (lk_prefix s) d" and inv: "search_inv P net d (s, seen)" and g: "(i, b, q) \<in> set (lk_gets s)"
    and v: "v \<in> set (net q)" and get: "on_get P i b v s = (Ret True, s')"
  shows "search_inv P net d (s', insert (i, b, v) seen) \<and> same_key s s'"
proof (cases "pv_type v = ph_canary P")
  case True
  then show ?thesis using got_canary [OF leaf inv g v True] get by (auto simp: on_get_def same_key_def)
next
  case False
  have base: "gets_ok s" "nodes_ok d s" "seen_ok P (s, seen)" "ended_ok P net (s, seen)" "vals_ok P net s"
    using inv by (simp_all add: search_inv_def search_base_def)
  note gs = gets_okD [OF base(1) g]
  from False get obtain e where e: "unpackEntry v = Ret e" by (auto simp: on_get_def split: outcome.splits)
  then have entry: "entry_of P v e' \<longleftrightarrow> e' = e" for e' using False by (auto simp: entry_of_def)
  have ended: "ended_ok P net (s, insert (i, b, v) seen)" using base(4) by (auto simp: ended_ok_def)
  show ?thesis
  proof (cases "list_ex (\<lambda>e'. ie_value e' = ie_value e) (lk_vals s) \<or> \<not> wanted s e")
    case True
    then have "s' = s" using get False e by (auto simp: on_get_def wanted_def split: if_splits)
    moreover have "seen_ok P (s, insert (i, b, v) seen)"
      using base(3) gs(1) False True by (auto simp: seen_ok_def entry list_ex_iff)
    ultimately show ?thesis using inv base ended by (simp add: search_inv_def search_base_def same_key_def)
  next
    case new: False
    then have s': "s' = s\<lparr>lk_vals := lk_vals s @ [e]\<rparr>" using get False e by (auto simp: on_get_def wanted_def split: if_splits)
    have w: "wanted s' = wanted s" by (simp add: s' wanted_def fun_eq_iff)
    have "seen_ok P (s', insert (i, b, v) seen)"
      using base(3) gs(1) False by (auto simp: seen_ok_def entry w) (auto simp: s')
    moreover have "\<exists>k < px_size (lk_prefix s). \<exists>v \<in> set (net (label (lk_prefix s) k)). entry_of P v e"
      using gs(2,3) v entry by blast
    then have "vals_ok P net s'" using base(5) new by (auto simp: vals_ok_def w) (auto simp: s')
    moreover have "gets_ok s'" "nodes_ok d s'" "ended_ok P net (s', insert (i, b, v) seen)"
      using base(1,2) ended by (simp_all add: gets_ok_def nodes_ok_def ended_ok_def s')
    moreover have "search_live d s' \<longleftrightarrow> search_live d s"
      by (simp add: search_live_def bounds_ok_def step_live_def Let_def open_request_def step_stale_def s')
    moreover have "search_over P net d s' \<longleftrightarrow> search_over P net d s"
      by (simp add: search_over_def leaf_found_def step_stale_def w) (simp add: s')
    ultimately show ?thesis using inv by (simp add: search_inv_def search_base_def same_key_def s')
  qed
qed

section \<open>Every run of a search\<close>

definition searching :: "pht \<Rightarrow> (prefix \<Rightarrow> pht_value list) \<Rightarrow> nat \<Rightarrow> lookup_state \<Rightarrow> bool" where
  "searching P net d x \<longleftrightarrow> canary_ok P \<and> index_key (lk_prefix (fst x)) \<and> leaf_at P net (lk_prefix (fst x)) d \<and> labels_readable P net (lk_prefix (fst x))
     \<and> search_inv P net d x"

lemma searching_keeps: "searching P net d (s, seen) \<Longrightarrow> search_inv P net d (s', seen') \<Longrightarrow> same_key s s' \<Longrightarrow> searching P net d (s', seen')"
  by (simp add: searching_def same_key_def)

lemma request_end_goes_on:
  assumes "searching P net d (s, seen)" and "(i, b, q) \<in> set (lk_gets s)" and "\<forall>v \<in> set (net q). pht_filter P v \<longrightarrow> (i, b, v) \<in> seen"
  shows "\<exists>s'. request_end now (i, b, q) True s = (Ret (), s') \<and> search_inv P net d (s', seen) \<and> same_key s s'"
  using assms first_end_goes_on [of P s net d seen i q now] second_end_goes_on [of P s net d seen i q now]
  by (cases b) (simp_all add: searching_def)

text \<open>A callback with a readable value returns and leaves the requests and the number of steps.\<close>

lemma got_goes_on:
  assumes st: "searching P net d (s, seen)" and g: "(i, b, q) \<in> set (lk_gets s)" and v: "v \<in> set (net q)" "pht_filter P v"
  shows "\<exists>s'. on_get P i b v s = (Ret True, s') \<and> searching P net d (s', insert (i, b, v) seen) \<and> same_key s s'
     \<and> lk_gets s' = lk_gets s \<and> length (lk_steps s') = length (lk_steps s)"
proof -
  have leaf: "leaf_at P net (lk_prefix s) d" and inv: "search_inv P net d (s, seen)" using st by (simp_all add: searching_def)
  have "gets_ok s" using inv by (simp add: search_inv_def search_base_def)
  note gs = gets_okD [OF this g]
  have "labels_readable P net (lk_prefix s)" using st by (simp add: searching_def)
  then have "pv_type v = ph_canary P \<or> pv_entry v \<noteq> None" using gs(2,3) v by (auto simp: labels_readable_def list_all_iff)
  then have "\<exists>s'. on_get P i b v s = (Ret True, s') \<and> lk_gets s' = lk_gets s \<and> length (lk_steps s') = length (lk_steps s)"
    by (cases "pv_type v = ph_canary P") (auto simp: on_get_def unpackEntry_def)
  then obtain s' where s': "on_get P i b v s = (Ret True, s')" "lk_gets s' = lk_gets s" "length (lk_steps s') = length (lk_steps s)" by blast
  with got_keeps [OF leaf inv g v(1) s'(1)] show ?thesis using searching_keeps [OF st] by blast
qed

definition good_step :: "pht \<Rightarrow> (prefix \<Rightarrow> pht_value list) \<Rightarrow> time_point \<Rightarrow> unit outcome \<times> lookup_state \<Rightarrow> lookup_event \<Rightarrow> unit outcome \<times> lookup_state \<Rightarrow> bool" where
  "good_step P net now x ev y \<longleftrightarrow> lookup_step P net now x ev y \<and> succeeds ev"

lemma good_run: "run (good_step P net now) x es y \<longleftrightarrow> run (lookup_step P net now) x es y \<and> list_all succeeds es"
  by (induction es arbitrary: x) (auto simp: run_Nil_iff run_Cons_iff good_step_def)

lemma good_step_goes_on:
  assumes "good_step P net now (r, s, seen) ev (r', s', seen')" and "searching P net d (s, seen)"
  shows "r' = Ret () \<and> searching P net d (s', seen') \<and> same_key s s'"
  using assms(1) unfolding good_step_def
proof (elim conjE lookup_stepE, goal_cases)
  case (1 i b q x v r x' seen)
  then show ?case using got_goes_on [OF assms(2), of i b q v] by (auto simp: returned_def)
next
  case (2 i b q x ok seen r x')
  then show ?case using request_end_goes_on [OF assms(2), of i b q now] searching_keeps [OF assms(2)] by auto
qed

interpretation search: event_machine "good_step P net now" "\<lambda>x. fst x = Ret () \<and> searching P net d (snd x)" "\<lambda>x y. same_key (fst (snd x)) (fst (snd y))" for P net now d
  by unfold_locales (use good_step_goes_on [of P net now] in \<open>fastforce, fastforce, auto simp: same_key_def\<close>)

text \<open>A step that ends a request closes it, and opens at most two for one more step.\<close>

lemma lookupStep_counts:
  "lookupStep now start s = (Ret (), s') \<Longrightarrow> length (lk_steps s') = Suc (length (lk_steps s)) \<and> length (lk_gets s') \<le> length (lk_gets s) + 2"
  by (auto simp: lookupStep_def ask_def at_leaf_def lookup_finish_def and_then_Ret Let_def split: outcome.splits if_splits prod.splits)

lemma step_done_counts:
  "step_done now i ok s = (Ret (), s') \<Longrightarrow> length (lk_steps s) \<le> length (lk_steps s')
     \<and> length (lk_gets s') \<le> length (lk_gets s) + 2 * (length (lk_steps s') - length (lk_steps s))"
  using lookupStep_counts [of now "-1" "s\<lparr>lk_lo := int (at_mid (lk_steps s ! i)) + 1\<rparr>" s']
  by (auto simp: step_done_def at_leaf_def lookup_finish_def and_then_Ret Let_def split: outcome.splits if_splits prod.splits)

lemma request_end_counts:
  assumes "(i, b, q) \<in> set (lk_gets s)" and e: "request_end now (i, b, q) ok s = (Ret (), s')"
  shows "length (lk_steps s) \<le> length (lk_steps s') \<and> length (lk_gets s') < length (lk_gets s) + 2 * (length (lk_steps s') - length (lk_steps s))"
proof -
  let ?s = "s\<lparr>lk_gets := removeAll (i, b, q) (lk_gets s)\<rparr>"
  have less: "length (removeAll (i, b, q) (lk_gets s)) < length (lk_gets s)" by (rule length_removeAll_less [OF assms(1)])
  have "lookupStep now (-1) (?s\<lparr>lk_hi := int (at_mid (lk_steps s ! i)) - 1\<rparr>) = (Ret (), s') \<or> step_done now i ok (mark_done i b ?s) = (Ret (), s') \<or> s' = mark_done i b ?s"
    using e unfolding request_end_def first_end_def second_end_def Let_def fst_conv snd_conv by (cases b; cases ok) (simp_all split: if_splits)
  then show ?thesis
  proof (elim disjE, goal_cases)
    case 1
    from lookupStep_counts [OF this] show ?thesis using less by simp
  next
    case 2
    from step_done_counts [OF this] show ?thesis using less by simp
  qed (use less in simp)
qed

lemma gots_run:
  assumes "searching P net d (s, seen)" and "(i, b, q) \<in> set (lk_gets s)" and "set vs \<subseteq> {v \<in> set (net q). pht_filter P v}"
  shows "\<exists>es s' seen'. run (good_step P net now) (Ret (), s, seen) es (Ret (), s', seen') \<and> searching P net d (s', seen') \<and> same_key s s'
     \<and> lk_gets s' = lk_gets s \<and> length (lk_steps s') = length (lk_steps s) \<and> seen \<subseteq> seen' \<and> (\<forall>v \<in> set vs. (i, b, v) \<in> seen')"
  using assms
proof (induction vs arbitrary: s seen)
  case Nil
  then show ?case using run_Nil [of "good_step P net now" "(Ret (), s, seen)"] by (auto simp: same_key_def)
next
  case (Cons v vs)
  have v: "v \<in> set (net q)" "pht_filter P v" using Cons.prems(3) by auto
  from got_goes_on [OF Cons.prems(1,2) v] obtain s\<^sub>1 where s\<^sub>1: "on_get P i b v s = (Ret True, s\<^sub>1)" "searching P net d (s\<^sub>1, insert (i, b, v) seen)"
      "same_key s s\<^sub>1" "lk_gets s\<^sub>1 = lk_gets s" "length (lk_steps s\<^sub>1) = length (lk_steps s)" by blast
  have g: "(i, b, q) \<in> set (lk_gets s\<^sub>1)" using Cons.prems(2) s\<^sub>1(4) by simp
  from Cons.IH [OF s\<^sub>1(2) g] Cons.prems(3) obtain es s' seen' where
    rest: "run (good_step P net now) (Ret (), s\<^sub>1, insert (i, b, v) seen) es (Ret (), s', seen')" "searching P net d (s', seen')" "same_key s\<^sub>1 s'"
      "lk_gets s' = lk_gets s\<^sub>1" "length (lk_steps s') = length (lk_steps s\<^sub>1)" "insert (i, b, v) seen \<subseteq> seen'" "\<forall>v \<in> set vs. (i, b, v) \<in> seen'" by auto
  have "good_step P net now (Ret (), s, seen) (Got i b v) (Ret (), s\<^sub>1, insert (i, b, v) seen)"
    using step_got [of i b q s v net P "Ret True" s\<^sub>1 now seen] Cons.prems(2) v s\<^sub>1(1) by (simp add: good_step_def returned_def)
  then have "run (good_step P net now) (Ret (), s, seen) (Got i b v # es) (Ret (), s', seen')" using rest(1) by (rule run_Cons)
  moreover have "same_key s s'" using s\<^sub>1(3) rest(3) by (simp add: same_key_def)
  moreover have "seen \<subseteq> seen'" "\<forall>w \<in> set (v # vs). (i, b, w) \<in> seen'" using rest(6,7) by auto
  ultimately show ?case using rest(2,4,5) s\<^sub>1(4,5) by metis
qed

text \<open>Every run can be continued until no request is open: a request whose values have all been called back with can end, and there are finitely many steps.\<close>

lemma search_length: "searching P net d (s, seen) \<Longrightarrow> length (lk_steps s) \<le> px_size (lk_prefix s) + 1"
  by (auto simp: searching_def search_inv_def search_live_def bounds_ok_def search_over_def)

lemma search_completes:
  assumes "searching P net d (s, seen)"
  shows "\<exists>es s' seen'. run (good_step P net now) (Ret (), s, seen) es (Ret (), s', seen') \<and> lk_gets s' = []"
  using assms
proof (induction "3 * (px_size (lk_prefix s) + 1 - length (lk_steps s)) + length (lk_gets s)" arbitrary: s seen rule: less_induct)
  case less
  show ?case
  proof (cases "lk_gets s")
    case Nil
    then show ?thesis using run_Nil [of "good_step P net now" "(Ret (), s, seen)"] by blast
  next
    case (Cons g gs)
    obtain i b q where "g = (i, b, q)" by (cases g)
    then have g: "(i, b, q) \<in> set (lk_gets s)" using Cons by simp
    from gots_run [OF less.prems g, of "filter (pht_filter P) (net q)" now] obtain es s\<^sub>1 seen\<^sub>1 where
      gots: "run (good_step P net now) (Ret (), s, seen) es (Ret (), s\<^sub>1, seen\<^sub>1)" "searching P net d (s\<^sub>1, seen\<^sub>1)" "same_key s s\<^sub>1"
        "lk_gets s\<^sub>1 = lk_gets s" "length (lk_steps s\<^sub>1) = length (lk_steps s)" "\<forall>v \<in> set (net q). pht_filter P v \<longrightarrow> (i, b, v) \<in> seen\<^sub>1" by auto
    have g\<^sub>1: "(i, b, q) \<in> set (lk_gets s\<^sub>1)" using g gots(4) by simp
    from request_end_goes_on [OF gots(2) g\<^sub>1 gots(6)] obtain s\<^sub>2 where
      s\<^sub>2: "request_end now (i, b, q) True s\<^sub>1 = (Ret (), s\<^sub>2)" "search_inv P net d (s\<^sub>2, seen\<^sub>1)" "same_key s\<^sub>1 s\<^sub>2" by blast
    have st: "searching P net d (s\<^sub>2, seen\<^sub>1)" by (rule searching_keeps [OF gots(2) s\<^sub>2(2,3)])
    have "lk_prefix s\<^sub>2 = lk_prefix s" using gots(3) s\<^sub>2(3) by (simp add: same_key_def)
    then have "3 * (px_size (lk_prefix s\<^sub>2) + 1 - length (lk_steps s\<^sub>2)) + length (lk_gets s\<^sub>2) < 3 * (px_size (lk_prefix s) + 1 - length (lk_steps s)) + length (lk_gets s)"
      using request_end_counts [OF g\<^sub>1 s\<^sub>2(1)] search_length [OF st] gots(4,5) by auto
    from less.hyps [OF this st] obtain es' s' seen' where "run (good_step P net now) (Ret (), s\<^sub>2, seen\<^sub>1) es' (Ret (), s', seen')" "lk_gets s' = []" by blast
    moreover have "good_step P net now (Ret (), s\<^sub>1, seen\<^sub>1) (Ended i b True) (Ret (), s\<^sub>2, seen\<^sub>1)"
      using step_ended [of i b q s\<^sub>1 True net P seen\<^sub>1 now "Ret ()" s\<^sub>2] g\<^sub>1 gots(6) s\<^sub>2(1) by (simp add: good_step_def)
    ultimately have "run (good_step P net now) (Ret (), s, seen) (es @ Ended i b True # es') (Ret (), s', seen')"
      using gots(1) run_append run_Cons by metis
    then show ?thesis using \<open>lk_gets s' = []\<close> by blast
  qed
qed

lemma new_pht_canary: "canary_ok (new_pht name spec)"
  by (simp add: canary_ok_def new_pht_def)

lemma new_lookup_starts:
  assumes "index_key p" and "leaf_at P net p d" and "start = -1 \<or> 0 \<le> start \<and> start < int (px_size p)"
  shows "\<exists>s. lookupStep now start (new_lookup p al c) = (Ret (), s) \<and> search_inv P net d (s, {}) \<and> same_key (new_lookup p al c) s"
proof -
  have "d < px_size p" using assms(2) by (simp add: leaf_at_def)
  then have "\<exists>s. lookupStep now start (new_lookup p al c) = (Ret (), s) \<and> search_base P net d (s, {}) \<and> search_live d s \<and> same_key (new_lookup p al c) s"
    by (intro start_step) (use assms in \<open>auto simp: new_lookup_def search_base_def search_defs\<close>)
  then show ?thesis by (auto simp: search_inv_def)
qed

text \<open>What the invariant says of the callbacks.\<close>

lemma searching_result:
  assumes st: "searching P net d (s, seen)"
  shows "lk_calls s = [] \<and> lk_gets s \<noteq> [] \<or> (\<exists>vals. lk_calls s = [Found vals (label (lk_prefix s) d), Finished True] \<and> leaf_found P net d s vals)"
proof -
  have "search_live d s \<or> search_over P net d s" using st by (simp add: searching_def search_inv_def)
  moreover have "lk_gets s \<noteq> []" if "search_live d s" using that by (auto simp: search_live_def step_live_def Let_def open_request_def)
  ultimately show ?thesis by (auto simp: search_live_def search_over_def)
qed

definition spec_ok :: "key_spec \<Rightarrow> bool" where
  "spec_ok spec \<longleftrightarrow> spec \<noteq> [] \<and> foldr max (map snd spec) 0 + 1 < 2 ^ 64 \<and> 8 * (length spec * key_width spec) < 2 ^ 63"

lemma linearize_index_key: "validKey spec k \<Longrightarrow> spec_ok spec \<Longrightarrow> linearize spec k = Some (Ret p) \<Longrightarrow> index_key p"
  by (rule linearize_bits [of spec k]) (auto simp: spec_ok_def index_key_def prefix_ok_def)

lemma cache_lookup_range: "fst (cache_lookup now p c) = -1 \<or> 0 \<le> fst (cache_lookup now p c)"
proof -
  let ?ls = "lookup_trim now (ca_leaves c)"
  obtain pos nd t r where w: "cache_walk now ?ls [] (label_bits (8 * length (px_content p)) p) (-1, None, now, ca_reply c) = (pos, nd, t, r)"
    by (metis prod_cases4)
  then have "fst (cache_lookup now p c) = pos" by (simp add: cache_lookup_def Let_def)
  then show ?thesis using cache_walk_longest [OF w] by (auto split: if_splits)
qed

lemma lookup_runs:
  assumes "P = new_pht name spec" and "spec_ok spec" and "validKey spec k" and "linearize spec k = Some (Ret p)"
    and "leaf_at P net p d" and "labels_readable P net p" and "fst (cache_lookup now p c) < int (px_size p)"
  obtains s\<^sub>0 where "pht_lookup P now k c = Some (Ret (Ret (), s\<^sub>0))"
    "\<And>es r s seen. run (lookup_step P net now) (Ret (), s\<^sub>0, {}) es (r, s, seen) \<Longrightarrow> list_all succeeds es
       \<Longrightarrow> r = Ret () \<and> searching P net d (s, seen) \<and> lk_prefix s = p \<and> \<not> lk_all s"
proof -
  obtain start c' where cl: "cache_lookup now p c = (start, c')" by (cases "cache_lookup now p c")
  have key: "index_key p" by (rule linearize_index_key [OF assms(3,2,4)])
  have "start = -1 \<or> 0 \<le> start \<and> start < int (px_size p)" using cache_lookup_range [of now p c] assms(7) cl by auto
  from new_lookup_starts [OF key assms(5) this, of now False c'] obtain s\<^sub>0 where s\<^sub>0: "lookupStep now start (new_lookup p False c') = (Ret (), s\<^sub>0)"
      "search_inv P net d (s\<^sub>0, {})" "same_key (new_lookup p False c') s\<^sub>0" by blast
  have start: "pht_lookup P now k c = Some (Ret (Ret (), s\<^sub>0))"
    using assms(1,4) cl s\<^sub>0(1) by (simp add: pht_lookup_def new_pht_def)
  have init: "searching P net d (s\<^sub>0, {})"
    using assms(1,5,6) key s\<^sub>0(2,3) by (simp add: searching_def new_pht_canary same_key_def new_lookup_def)
  show thesis
  proof (rule that [OF start])
    fix es r s seen assume "run (lookup_step P net now) (Ret (), s\<^sub>0, {}) es (r, s, seen)" "list_all succeeds es"
    then have "run (good_step P net now) (Ret (), s\<^sub>0, {}) es (r, s, seen)" by (simp add: good_run)
    from search.run_keeps [OF this, of d] init show "r = Ret () \<and> searching P net d (s, seen) \<and> lk_prefix s = p \<and> \<not> lk_all s"
      using s\<^sub>0(3) by (simp add: same_key_def new_lookup_def)
  qed
qed

lemma searching_goes_on:
  "searching P net d (s, seen)
     \<Longrightarrow> \<exists>es s' seen'. run (lookup_step P net now) (Ret (), s, seen) es (Ret (), s', seen') \<and> list_all succeeds es \<and> lk_gets s' = []"
  using search_completes [of P net d s seen now] by (auto simp: good_run)



text \<open>A value of the index that is neither a canary nor a packed entry makes the callback of a get throw; the search goes no further.\<close>

theorem unreadable_value_throws:
  assumes "pv_type v \<noteq> ph_canary P" and "pv_entry v = None"
  shows "on_get P i b v s = (Throw, s)" and "\<not> lookup_step P net now (returned (fst (on_get P i b v s)), s', seen) ev y"
  using assms by (auto simp: on_get_def unpackEntry_def returned_def elim: lookup_stepE)

text \<open>
  When the first request of a step fails and there is no second one, or the second one is open, nothing is called; without a second one no request is
  left, so the callback for the end is never called.
\<close>

theorem failed_request_silent:
  assumes "i < length (lk_steps s)" and "\<not> at_done (lk_steps s ! i) True"
  shows "\<exists>s'. request_end now (i, False, q) False s = (Ret (), s') \<and> lk_calls s' = lk_calls s \<and> lk_gets s' = removeAll (i, False, q) (lk_gets s)"
  using assms by (simp add: request_end_def first_end_def Let_def)

end
