(* ===== verification/Pht_Insert.thy ===== *)
theory Pht_Insert
  imports Pht_Lookup
begin

text \<open>
  Insertion into the prefix hash tree (\<open>Pht::insert\<close> and what it calls, after the search has found a leaf): the values put into the network for the nodes on the way of
  the key, the split of a full leaf, and the choice of the label of the entry. The coins are those drawn in the callbacks of the puts that have
  been made; the numbers of entries counted at three labels are an argument.
\<close>

datatype pht_put = Canary_at prefix | Entry_at prefix index_entry

fun updateCanary :: "bool list \<Rightarrow> prefix \<Rightarrow> pht_put list outcome" where
  "updateCanary [] p = (if px_size p \<noteq> 0 then bind_outcome (getSibling p) (\<lambda>q. Ret [Canary_at p, Canary_at q]) else Ret [Canary_at p])"
| "updateCanary (coin # coins) p = bind_outcome (updateCanary [] p) (\<lambda>ps.
     if px_size p \<noteq> 0 \<and> coin then bind_outcome (getPrefix (-1) p) (\<lambda>q. bind_outcome (updateCanary coins q) (\<lambda>qs. Ret (ps @ qs))) else Ret ps)"

text \<open>The label after the one of the entry, which is listened to.\<close>

definition checkPhtUpdate :: "prefix \<Rightarrow> index_entry \<Rightarrow> prefix option outcome" where
  "checkPhtUpdate p e =
     (let full = prefix_of (ie_prefix e) []
      in if 8 * length (px_content p) \<ge> 8 * length (px_content full) then Ret None
         else bind_outcome (getPrefix (int (px_size p) + 1) full) (\<lambda>q. Ret (Some q)))"

definition real_insert :: "time_point \<Rightarrow> bool list \<Rightarrow> prefix \<Rightarrow> index_entry \<Rightarrow> pht_cache \<Rightarrow> (pht_put list \<times> prefix option) outcome \<times> pht_cache" where
  "real_insert now coins p e c =
     and_then (bind_outcome (updateCanary coins p) (\<lambda>ps. bind_outcome (checkPhtUpdate p e) (\<lambda>l. Ret (ps, l))), c) (\<lambda>(ps, l) c.
     and_then (cache_insert now p c) (\<lambda>_ c. (Ret (ps @ [Entry_at p e], l), c)))"

definition getRealPrefix :: "prefix \<Rightarrow> nat \<Rightarrow> prefix outcome" where
  "getRealPrefix p count =
     (if px_size p = 0 then Ret p
      else bind_outcome (getPrefix (-1) p) (\<lambda>parent. bind_outcome (getSibling p) (\<lambda>_. if count < 16 then Ret parent else Ret p)))"

text \<open>The loop counts down in unsigned numbers to the number before the size of the leaf.\<close>

function split_canaries :: "(nat \<Rightarrow> bool list) \<Rightarrow> prefix \<Rightarrow> uint64 \<Rightarrow> uint64 \<Rightarrow> pht_put list outcome" where
  "split_canaries coins full loc stop =
     (if loc = stop then Ret []
      else bind_outcome (getPrefix (sint loc) full) (\<lambda>q. bind_outcome (updateCanary (coins (unat loc)) q) (\<lambda>ps.
           bind_outcome (split_canaries coins full (loc - 1) stop) (\<lambda>qs. Ret (ps @ qs)))))"
  by pat_completeness auto
termination
proof (relation "measure (\<lambda>(coins, full, loc, stop). unat (loc - stop))", goal_cases)
  case (2 coins full loc stop q ps)
  then have "loc - stop \<noteq> 0" by simp
  then have "unat (loc - stop - 1) < unat (loc - stop)" by (simp add: measure_unat)
  then show ?case by (simp add: algebra_simps)
qed simp

declare split_canaries.simps [simp del]

definition pht_split :: "(nat \<Rightarrow> bool list) \<Rightarrow> prefix \<Rightarrow> index_entry list \<Rightarrow> index_entry \<Rightarrow> (pht_put list \<times> prefix) outcome" where
  "pht_split coins leaf vals e =
     (let full = prefix_of (ie_prefix e) [] in
      bind_outcome (findSplitLocation full (map ie_prefix vals)) (\<lambda>loc.
      bind_outcome (getPrefix (int loc) full) (\<lambda>q.
      bind_outcome (split_canaries coins full (of_nat loc) (of_nat (px_size leaf) - 1)) (\<lambda>ps. Ret (ps, q)))))"

definition insert_found :: "time_point \<Rightarrow> (nat \<Rightarrow> bool list) \<Rightarrow> bool list \<Rightarrow> nat \<Rightarrow> prefix \<Rightarrow> bool \<Rightarrow> prefix \<Rightarrow> index_entry list \<Rightarrow> index_entry
    \<Rightarrow> pht_cache \<Rightarrow> (pht_put list \<times> prefix option) outcome \<times> pht_cache" where
  "insert_found now coins coins' count kp check_split leaf vals e c =
     (if \<not> check_split \<or> px_size leaf = px_size kp then real_insert now coins' leaf e c
      else if length vals < 16 then and_then (getRealPrefix leaf count, c) (\<lambda>q c. real_insert now coins' q e c)
      else and_then (pht_split coins leaf vals e, c) (\<lambda>(ps, q) c.
           and_then (real_insert now coins' q e c) (\<lambda>(qs, l) c. (Ret (ps @ qs, l), c))))"

text \<open>The beginning of an insertion: the entry, and the search for its leaf with all the values on the way; an entry that is too old is not inserted.\<close>

definition new_entry :: "pht \<Rightarrow> prefix \<Rightarrow> hash \<times> uint64 \<Rightarrow> index_entry" where
  "new_entry P p v = \<lparr>ie_prefix = px_content p, ie_value = v, ie_name = ph_name P\<rparr>"

definition insert_search :: "time_point \<Rightarrow> time_point \<Rightarrow> prefix \<Rightarrow> pht_cache \<Rightarrow> (unit outcome \<times> lookup_op) option" where
  "insert_search now t kp c =
     (if t + minutes 10 < now then None
      else let (start, c) = cache_lookup now kp c in Some (lookupStep now start (new_lookup kp True c)))"

section \<open>Places\<close>

text \<open>What is at a place, named by what is hashed, after values have been put.\<close>

fun put_value :: "pht \<Rightarrow> pht_put \<Rightarrow> bytes \<times> pht_value" where
  "put_value P (Canary_at q) = (prefix_image q, \<lparr>pv_type = ph_canary P, pv_entry = None\<rparr>)"
| "put_value P (Entry_at q e) = (prefix_image q, \<lparr>pv_type = ie_name e, pv_entry = Some (ie_prefix e, ie_value e)\<rparr>)"

definition after_puts :: "pht \<Rightarrow> pht_put list \<Rightarrow> (bytes \<Rightarrow> pht_value list) \<Rightarrow> prefix \<Rightarrow> pht_value list" where
  "after_puts P ps store q = store (prefix_image q) @ map (snd \<circ> put_value P) (filter (\<lambda>x. fst (put_value P x) = prefix_image q) ps)"

lemma cut_bits_again:
  assumes "j \<le> k" and "k \<le> 8 * length c"
  shows "cut_bits j (cut_bits k c) = cut_bits j c"
proof (rule blob_bit_ext)
  have len: "length (cut_bits k c) = (k + 7) div 8" by (rule cut_bits_length [OF assms(2)])
  have "k \<le> 8 * ((k + 7) div 8)" by linarith
  then have j: "j \<le> 8 * length (cut_bits k c)" "j \<le> 8 * length c" using assms len by linarith+
  show l: "length (cut_bits j (cut_bits k c)) = length (cut_bits j c)" by (simp add: cut_bits_length [OF j(1)] cut_bits_length [OF j(2)])
  fix m assume m: "m < 8 * length (cut_bits j (cut_bits k c))"
  then have m': "m < 8 * length (cut_bits j c)" using l by simp
  have "m < 8 * length (cut_bits k c)" if "m < j" using that j(1) by simp
  then show "blob_bit (cut_bits j (cut_bits k c)) m = blob_bit (cut_bits j c) m"
    unfolding cut_bits_bit [OF j(1) m] cut_bits_bit [OF j(2) m'] using cut_bits_bit [OF assms(2)] assms(1) by auto
qed

text \<open>The prefixes of some contents that are labels of it, with whatever flags.\<close>

definition label_of :: "bytes \<Rightarrow> nat \<Rightarrow> prefix \<Rightarrow> bool" where
  "label_of c k q \<longleftrightarrow> prefix_ok q \<and> px_size q = k \<and> px_content q = cut_bits k c"

lemma getPrefix_label_of:
  assumes "prefix_ok q" and "8 * length (px_content q) < 2 ^ 63" and "nat \<bar>len\<bar> < 8 * length (px_content q)" and "prefix_length len q = k"
  shows "\<exists>r. getPrefix len q = Ret r \<and> label_of (px_content q) k r"
proof -
  note g = getPrefix_length [OF assms(1-3)]
  have k: "k \<le> 8 * length (px_content q)" using g(2) assms(4) by simp
  have up: "k \<le> 8 * ((k + 7) div 8)" by linarith
  have "px_flags q = [] \<or> length (px_flags q) = length (px_content q)" using assms(1) by (simp add: prefix_ok_def)
  then show ?thesis using sub_prefix_cuts [OF assms(1) k] g(1) assms(4) k up
    by (auto simp: label_of_def prefix_ok_def cut_bits_length)
qed

lemma label_label_of:
  assumes "index_key p" and "k < px_size p"
  shows "label_of (px_content p) k (label p k)"
proof -
  have "prefix_length (int k) p = k" by (simp add: prefix_length_def)
  then show ?thesis using getPrefix_label_of [of p "int k" k] getPrefix_label(1) [OF assms] assms by (auto simp: index_key_def prefix_ok_def)
qed

lemma label_of_parent:
  assumes "label_of c k q" and "0 < k" and "k \<le> 8 * length c" and "8 * length c < 2 ^ 62"
  shows "\<exists>r. getPrefix (-1) q = Ret r \<and> label_of c (k - 1) r"
proof -
  have q: "prefix_ok q" "px_size q = k" "px_content q = cut_bits k c" using assms(1) by (simp_all add: label_of_def)
  have len: "length (px_content q) = (k + 7) div 8" using cut_bits_length [OF assms(3)] q(3) by simp
  have "8 * ((k + 7) div 8) \<le> k + 7" by linarith
  moreover have "(2 :: nat) ^ 62 + 7 < 2 ^ 63" by simp
  ultimately have "8 * length (px_content q) < 2 ^ 63" using assms(3,4) len by linarith
  moreover have "nat \<bar>- 1 :: int\<bar> < 8 * length (px_content q)" using div_le_mono [of 8 "k + 7" 8] assms(2) unfolding len by simp
  moreover have "prefix_length (-1) q = k - 1" using q(2) assms(2) by (simp add: prefix_length_def)
  ultimately obtain r where "getPrefix (-1) q = Ret r" "label_of (px_content q) (k - 1) r" using getPrefix_label_of [OF q(1)] by blast
  then show ?thesis using cut_bits_again [of "k - 1" k c] assms(3) q(3) by (auto simp: label_of_def)
qed

text \<open>The places of the labels of some contents, and those beside them.\<close>

definition place :: "bytes \<Rightarrow> nat \<Rightarrow> bytes" where
  "place c k = cut_bits k c @ [of_nat k]"

definition beside :: "bytes \<Rightarrow> nat \<Rightarrow> bytes \<Rightarrow> bool" where
  "beside c m x \<longleftrightarrow> (\<exists>k \<le> m. \<exists>y. x = y @ [of_nat k] \<and> length y = length (cut_bits k c) \<and> y \<noteq> cut_bits k c)"

lemma label_of_place: "label_of c k q \<Longrightarrow> prefix_image q = place c k"
  by (simp add: label_of_def place_def prefix_image_def)

lemma same_place:
  assumes "j \<le> 8 * length c" and "k \<le> 8 * length c" and "length (cut_bits j c) = length (cut_bits k c)" and "(of_nat j :: byte) = of_nat k"
  shows "j = k"
proof -
  have len: "(j + 7) div 8 = (k + 7) div 8" using assms(3) cut_bits_length [OF assms(1)] cut_bits_length [OF assms(2)] by simp
  have near: "j < k + 8" "k < j + 8" using len by linarith+
  have same: "j mod 256 = k mod 256" using assms(4) by (simp add: word_of_nat_eq_iff take_bit_eq_mod)
  have "\<not> a < b" if "a mod 256 = b mod 256" "b < a + 8" for a b :: nat
  proof
    assume "a < b"
    then have "256 dvd b - a" using that(1) mod_eq_dvd_iff_nat [of a b 256] by simp
    then show False using dvd_imp_le [of 256 "b - a"] \<open>a < b\<close> that(2) by simp
  qed
  then show ?thesis using near same by (metis linorder_neqE_nat)
qed

lemma place_inj: "j \<le> 8 * length c \<Longrightarrow> k \<le> 8 * length c \<Longrightarrow> place c j = place c k \<Longrightarrow> j = k"
  using same_place [of j c k] by (auto simp: place_def)

lemma beside_not_place: "m \<le> 8 * length c \<Longrightarrow> k \<le> 8 * length c \<Longrightarrow> beside c m x \<Longrightarrow> x \<noteq> place c k"
  unfolding beside_def place_def
proof (elim exE conjE)
  fix j y assume "m \<le> 8 * length c" "k \<le> 8 * length c" "j \<le> m" "x = y @ [of_nat j]" "length y = length (cut_bits j c)" "y \<noteq> cut_bits j c"
  then show "x \<noteq> cut_bits k c @ [of_nat k]" using same_place [of j c k] by auto
qed

lemma label_of_sibling:
  assumes "label_of c k q" and "0 < k" and "k \<le> 8 * length c"
  shows "\<exists>r. getSibling q = Ret r \<and> beside c k (prefix_image r)"
proof -
  have q: "prefix_ok q" "px_size q = k" "px_content q = cut_bits k c" using assms(1) by (simp_all add: label_of_def)
  have "k - 1 < 8 * length (px_content q)" using q(1,2) assms(2) unfolding prefix_ok_def by linarith
  from swapBit_changes [OF this] obtain x where x: "swapBit (k - 1) (px_content q) = Ret x" "length x = length (px_content q)"
      "\<forall>m. blob_bit x m \<longleftrightarrow> (if m = swapped (k - 1) then \<not> blob_bit (px_content q) m else blob_bit (px_content q) m)" by blast
  have "x \<noteq> px_content q" using x(3) [rule_format, of "swapped (k - 1)"] by auto
  then show ?thesis using x q assms(2) by (auto simp: getSibling_def beside_def prefix_image_def)
qed

section \<open>The values put\<close>

definition canaries :: "bytes \<Rightarrow> nat \<Rightarrow> pht_put list \<Rightarrow> bool" where
  "canaries c m ps \<longleftrightarrow> (\<forall>x \<in> set ps. \<exists>q. x = Canary_at q \<and> ((\<exists>k \<le> m. prefix_image q = place c k) \<or> beside c m (prefix_image q)))"

lemma beside_mono: "beside c m x \<Longrightarrow> m \<le> m' \<Longrightarrow> beside c m' x"
  unfolding beside_def using le_trans by blast

lemma canaries_mono: "canaries c m ps \<Longrightarrow> m \<le> m' \<Longrightarrow> canaries c m' ps"
  unfolding canaries_def using beside_mono le_trans by meson

lemma canaries_append: "canaries c m (ps @ qs) \<longleftrightarrow> canaries c m ps \<and> canaries c m qs"
  by (auto simp: canaries_def)

lemma updateCanary_both:
  assumes "label_of c k q" and "k \<le> 8 * length c"
  shows "\<exists>ps. updateCanary [] q = Ret ps \<and> Canary_at q \<in> set ps \<and> canaries c k ps"
proof -
  have q: "px_size q = k" "prefix_image q = place c k" using assms by (simp_all add: label_of_def label_of_place)
  show ?thesis
  proof (cases "k = 0")
    case False
    with label_of_sibling [OF assms(1) _ assms(2)] obtain r where "getSibling q = Ret r" "beside c k (prefix_image r)" by auto
    then show ?thesis using False q by (auto simp: canaries_def)
  qed (use q in \<open>auto simp: canaries_def\<close>)
qed

lemma updateCanary_puts:
  assumes c: "8 * length c < 2 ^ 62"
  shows "label_of c k q \<Longrightarrow> k \<le> 8 * length c \<Longrightarrow> \<exists>ps. updateCanary coins q = Ret ps \<and> Canary_at q \<in> set ps \<and> canaries c k ps"
proof (induction coins arbitrary: k q)
  case (Cons coin coins)
  from updateCanary_both [OF Cons.prems] obtain ps where ps: "updateCanary [] q = Ret ps" "Canary_at q \<in> set ps" "canaries c k ps" by blast
  show ?case
  proof (cases "px_size q \<noteq> 0 \<and> coin")
    case True
    then have k: "0 < k" using Cons.prems by (auto simp: label_of_def)
    from label_of_parent [OF Cons.prems(1) k Cons.prems(2) c] obtain r where r: "getPrefix (-1) q = Ret r" "label_of c (k - 1) r" by blast
    have "k - 1 \<le> 8 * length c" using Cons.prems(2) by linarith
    from Cons.IH [OF r(2) this] obtain qs where "updateCanary coins r = Ret qs" "canaries c (k - 1) qs" by blast
    then show ?thesis using True ps r(1) canaries_mono [of c "k - 1" qs k] by (auto simp: canaries_append)
  qed (use ps in auto)
qed (rule updateCanary_both)

lemma sint_nat: "n < 2 ^ 63 \<Longrightarrow> sint (of_nat n :: uint64) = int n"
  by (simp add: signed_of_nat signed_take_bit_int_eq_self)

lemma split_puts:
  assumes c: "8 * length c < 2 ^ 62" and m: "d \<le> m" "m \<le> 8 * length c"
  shows "\<exists>ps. split_canaries coins (prefix_of c []) (of_nat m - 1) (of_nat d - 1) = Ret ps \<and> canaries c (m - 1) ps
     \<and> (\<forall>k. d \<le> k \<and> k < m \<longrightarrow> (\<exists>q. Canary_at q \<in> set ps \<and> prefix_image q = place c k))"
  using m
proof (induction "m - d" arbitrary: m)
  case 0
  then have "m = d" by simp
  then show ?case by (simp add: split_canaries.simps canaries_def)
next
  case (Suc t)
  let ?full = "prefix_of c []"
  have big: "m < 2 ^ 62" "d < m" using Suc c by linarith+
  have ne: "(of_nat m - 1 :: uint64) \<noteq> of_nat d - 1"
  proof
    assume "(of_nat m - 1 :: uint64) = of_nat d - 1"
    then have "(of_nat m :: uint64) = of_nat d" by simp
    then show False using big by (simp add: word_of_nat_eq_iff take_bit_nat_eq_self)
  qed
  have pred: "(of_nat m - 1 :: uint64) = of_nat (m - 1)" using big by simp
  have full: "prefix_ok ?full" "px_content ?full = c" "8 * length (px_content ?full) < 2 ^ 63" using c by (simp_all add: prefix_ok_def prefix_of_def)
  have "nat \<bar>int (m - 1)\<bar> < 8 * length (px_content ?full)" using Suc big by (simp add: full(2))
  moreover have "prefix_length (int (m - 1)) ?full = m - 1" by (simp add: prefix_length_def)
  ultimately obtain q where q: "getPrefix (int (m - 1)) ?full = Ret q" "label_of c (m - 1) q"
    using getPrefix_label_of [OF full(1,3)] full(2) by metis
  from updateCanary_puts [OF c q(2)] Suc obtain ps where ps: "updateCanary (coins (unat (of_nat (m - 1) :: uint64))) q = Ret ps" "Canary_at q \<in> set ps" "canaries c (m - 1) ps"
    by (metis diff_le_self le_trans)
  have "t = m - 1 - d" "d \<le> m - 1" "m - 1 \<le> 8 * length c" using Suc big by linarith+
  from Suc(1) [OF this] obtain qs where qs: "split_canaries coins ?full (of_nat (m - 1) - 1) (of_nat d - 1) = Ret qs" "canaries c (m - 1 - 1) qs"
      "\<forall>k. d \<le> k \<and> k < m - 1 \<longrightarrow> (\<exists>q. Canary_at q \<in> set qs \<and> prefix_image q = place c k)" by blast
  have "sint (of_nat (m - 1) :: uint64) = int (m - 1)" by (rule sint_nat) (use big in simp)
  then have "split_canaries coins ?full (of_nat m - 1) (of_nat d - 1) = Ret (ps @ qs)"
    using ne ps(1) qs(1) q(1) unfolding pred by (subst split_canaries.simps) simp
  moreover have "canaries c (m - 1) (ps @ qs)" using ps(3) canaries_mono [OF qs(2)] by (simp add: canaries_append)
  moreover have "\<exists>q. Canary_at q \<in> set (ps @ qs) \<and> prefix_image q = place c k" if "d \<le> k" "k < m" for k
  proof (cases "k = m - 1")
    case True
    then show ?thesis using ps(2) label_of_place [OF q(2)] by auto
  next
    case False
    then have "k < m - 1" using that by linarith
    then show ?thesis using qs(3) that by auto
  qed
  ultimately show ?case by blast
qed

lemma real_insert_puts:
  assumes c: "8 * length c < 2 ^ 62" and q: "label_of c k q" and k: "k < 8 * length c" and e: "ie_prefix e = c"
  shows "\<exists>ps l ca'. real_insert now coins q e ca = (Ret (ps @ [Entry_at q e], l), ca') \<and> Canary_at q \<in> set ps \<and> canaries c k ps"
proof -
  let ?full = "prefix_of c []"
  from updateCanary_puts [OF c q] k obtain ps where ps: "updateCanary coins q = Ret ps" "Canary_at q \<in> set ps" "canaries c k ps" by (meson less_imp_le)
  have len: "length (px_content q) = (k + 7) div 8" using q cut_bits_length [of k c] k by (simp add: label_of_def)
  have "\<exists>l. checkPhtUpdate q e = Ret l"
  proof (cases "length (px_content q) \<ge> length c")
    case False
    have "k \<le> 8 * ((k + 7) div 8)" by linarith
    then have k1: "k + 1 < 8 * length c" using False len by linarith
    have full: "prefix_ok ?full" "px_content ?full = c" "8 * length (px_content ?full) < 2 ^ 63" using c by (simp_all add: prefix_ok_def prefix_of_def)
    have "nat \<bar>int (k + 1)\<bar> < 8 * length (px_content ?full)" using k1 unfolding full(2) by simp
    moreover have "prefix_length (int (k + 1)) ?full = k + 1" by (simp add: prefix_length_def)
    ultimately obtain r where "getPrefix (int (k + 1)) ?full = Ret r" using getPrefix_label_of [OF full(1,3)] by blast
    then show ?thesis using q e by (simp add: checkPhtUpdate_def Let_def label_of_def add.commute)
  qed (simp add: checkPhtUpdate_def e prefix_of_def)
  then obtain l where l: "checkPhtUpdate q e = Ret l" by blast
  have "px_size q \<le> 8 * length (px_content q)" using q unfolding label_of_def prefix_ok_def by blast
  then obtain ca' where "cache_insert now q ca = (Ret (), ca')" by (simp add: cache_insert_def Let_def)
  then show ?thesis using ps l by (simp add: real_insert_def)
qed

text \<open>Canaries on the way of a key from its leaf to a deeper label make this label the leaf.\<close>

lemma leaf_at_puts:
  assumes P: "ie_name e \<noteq> ph_canary P" and key: "index_key p" "px_size p \<le> 8 * length (px_content p)"
    and leaf: "leaf_at P (\<lambda>q. store (prefix_image q)) p d" and m: "d \<le> m" "m < px_size p"
    and ps: "canaries (px_content p) m ps" and all: "\<And>k. d < k \<Longrightarrow> k \<le> m \<Longrightarrow> \<exists>q. Canary_at q \<in> set ps \<and> prefix_image q = place (px_content p) k"
  shows "leaf_at P (after_puts P (ps @ [Entry_at r e]) store) p m"
proof -
  let ?c = "px_content p"
  have "is_node P (after_puts P (ps @ [Entry_at r e]) store) (label p k) \<longleftrightarrow> k \<le> m" if k: "k < px_size p" for k
  proof -
    have im: "prefix_image (label p k) = place ?c k" by (rule label_of_place [OF label_label_of [OF key(1) k]])
    have bits: "k \<le> 8 * length ?c" "m \<le> 8 * length ?c" using k m key(2) by linarith+
    have old: "is_node P (\<lambda>q. store (prefix_image q)) (label p k) \<longleftrightarrow> k \<le> d" by (rule leaf_at_node [OF leaf k])
    have "(\<exists>q. Canary_at q \<in> set ps \<and> prefix_image q = place ?c k) \<longrightarrow> k \<le> m"
    proof (intro impI, elim exE conjE)
      fix q assume q: "Canary_at q \<in> set ps" "prefix_image q = place ?c k"
      then have "(\<exists>j \<le> m. prefix_image q = place ?c j) \<or> beside ?c m (prefix_image q)" using bspec [OF ps [unfolded canaries_def] q(1)] by simp
      then show "k \<le> m" using q(2) place_inj [OF bits(1)] bits beside_not_place [OF bits(2,1)] by (metis le_trans)
    qed
    moreover have "\<exists>q. Canary_at q \<in> set ps \<and> prefix_image q = place ?c k" if "d < k" "k \<le> m" using all that by blast
    moreover have "list_ex (\<lambda>v. pv_type v = ph_canary P) (map (snd \<circ> put_value P) (filter (\<lambda>x. fst (put_value P x) = place ?c k) (ps @ [Entry_at r e])))
        \<longleftrightarrow> (\<exists>q. Canary_at q \<in> set ps \<and> prefix_image q = place ?c k)"
    proof -
      have "list_ex (\<lambda>v. pv_type v = ph_canary P) (map (snd \<circ> put_value P) (filter (\<lambda>x. fst (put_value P x) = place ?c k) (ps @ [Entry_at r e])))
          \<longleftrightarrow> (\<exists>x \<in> set ps. fst (put_value P x) = place ?c k \<and> pv_type (snd (put_value P x)) = ph_canary P)"
        using P by (auto simp: list_ex_iff)
      also have "\<dots> \<longleftrightarrow> (\<exists>q. Canary_at q \<in> set ps \<and> prefix_image q = place ?c k)"
      proof
        assume "\<exists>x \<in> set ps. fst (put_value P x) = place ?c k \<and> pv_type (snd (put_value P x)) = ph_canary P"
        then obtain x where x: "x \<in> set ps" "fst (put_value P x) = place ?c k" by blast
        then obtain q where "x = Canary_at q" using ps by (auto simp: canaries_def)
        then show "\<exists>q. Canary_at q \<in> set ps \<and> prefix_image q = place ?c k" using x by auto
      qed force
      finally show ?thesis .
    qed
    ultimately show ?thesis using old m by (auto simp: is_node_def after_puts_def im)
  qed
  then show ?thesis using m by (simp add: leaf_at_def list_all_iff)
qed

lemma split_location:
  assumes c: "c \<noteq> []" and d: "d < 8 * length c" and vals: "list_all (\<lambda>v. length v = length c \<and> cut_bits d v = cut_bits d c) vs"
  shows "\<exists>loc. findSplitLocation (prefix_of c []) vs = Ret loc \<and> d \<le> loc \<and> loc < 8 * length c"
proof -
  let ?c = "prefix_of c []" let ?hi = "8 * length c - 1"
  have hi: "?hi < 8 * length (px_content ?c)" using c by (simp add: prefix_of_def)
  have len: "list_all (\<lambda>v. length v = length (px_content ?c)) vs" using vals by (auto simp: list_all_iff prefix_of_def)
  from split_from_first [OF len _ hi, of 0] c obtain loc where loc: "findSplitLocation ?c vs = Ret loc" "loc \<le> ?hi"
      "loc = ?hi \<or> 0 < loc \<and> list_ex (\<lambda>v. blob_bit v (loc - 1) \<noteq> blob_bit c (loc - 1)) vs"
    by (auto simp: findSplitLocation_def prefix_of_def)
  have "d \<le> loc" if ex: "0 < loc" "list_ex (\<lambda>v. blob_bit v (loc - 1) \<noteq> blob_bit c (loc - 1)) vs"
  proof (rule ccontr)
    assume "\<not> d \<le> loc"
    then have lt: "loc - 1 < d" by linarith
    from ex(2) obtain v where v: "v \<in> set vs" "blob_bit v (loc - 1) \<noteq> blob_bit c (loc - 1)" by (auto simp: list_ex_iff)
    then have eq: "length v = length c" "cut_bits d v = cut_bits d c" using vals by (auto simp: list_all_iff)
    have dv: "d \<le> 8 * length v" "d \<le> 8 * length c" using d eq(1) by simp_all
    have "d \<le> 8 * ((d + 7) div 8)" by linarith
    then have "loc - 1 < 8 * length (cut_bits d v)" "loc - 1 < 8 * length (cut_bits d c)"
      using lt cut_bits_length [OF dv(1)] cut_bits_length [OF dv(2)] by linarith+
    then show False using cut_bits_bit [OF dv(1)] cut_bits_bit [OF dv(2)] eq(2) v(2) lt by metis
  qed
  then have "d \<le> loc" using loc(3) d by linarith
  moreover have "loc < 8 * length c" using loc(2) hi by (simp add: prefix_of_def)
  ultimately show ?thesis using loc(1) by blast
qed

text \<open>With enough entries around a leaf, or at the root, the leaf is kept.\<close>

lemma stays_in_leaf:
  assumes "label_of c d q" and "d < 8 * length c" and "8 * length c < 2 ^ 62" and "d = 0 \<or> 16 \<le> count"
  shows "getRealPrefix q count = Ret q"
proof (cases "d = 0")
  case False
  have d: "0 < d" "d \<le> 8 * length c" using False assms(2) by simp_all
  obtain r t where "getPrefix (-1) q = Ret r" "getSibling q = Ret t"
    using label_of_parent [OF assms(1) d assms(3)] label_of_sibling [OF assms(1) d] by blast
  then show ?thesis using False assms(4) by (simp add: getRealPrefix_def)
qed (use assms(1) in \<open>simp add: getRealPrefix_def label_of_def\<close>)

lemma after_puts_readable: "labels_readable P (\<lambda>q. store (prefix_image q)) p \<Longrightarrow> labels_readable P (after_puts P ps store) p"
proof -
  have "pv_type (snd (put_value P x)) = ph_canary P \<or> pv_entry (snd (put_value P x)) \<noteq> None" for x by (cases x) auto
  then show "labels_readable P (\<lambda>q. store (prefix_image q)) p \<Longrightarrow> labels_readable P (after_puts P ps store) p"
    unfolding labels_readable_def list_all_iff after_puts_def by auto
qed

text \<open>The entry goes into the leaf, or the leaf is split and it goes into a deeper one.\<close>

lemma inserted_at_leaf:
  assumes "P = new_pht name spec" and "index_key p" and "8 * length (px_content p) < 2 ^ 62" and "px_size p = 8 * length (px_content p)"
    and "leaf_at P (\<lambda>q. store (prefix_image q)) p d" and "ie_prefix e = px_content p" and "ie_name e = ph_name P"
    and "\<not> check_split \<or> 16 \<le> length vals \<or> d = 0 \<or> 16 \<le> count"
    and "list_all (\<lambda>v. length (ie_prefix v) = length (px_content p) \<and> cut_bits d (ie_prefix v) = cut_bits d (px_content p)) vals"
  shows "\<exists>m ps l c'. insert_found now coins coins' count p check_split (label p d) vals e c = (Ret (ps, l), c') \<and> d \<le> m
     \<and> leaf_at P (after_puts P ps store) p m
     \<and> \<lparr>pv_type = ie_name e, pv_entry = Some (ie_prefix e, ie_value e)\<rparr> \<in> set (after_puts P ps store (label p m))"
proof -
  let ?c = "px_content p" let ?v = "\<lparr>pv_type = ie_name e, pv_entry = Some (ie_prefix e, ie_value e)\<rparr>"
  have d: "d < px_size p" using assms(5) by (simp add: leaf_at_def)
  have P: "ie_name e \<noteq> ph_canary P" using assms(1,7) by (simp add: new_pht_def)
  have ends: "\<exists>l c' qs. real_insert now coins' q e c = (Ret (qs, l), c') \<and> leaf_at P (after_puts P (ps @ qs) store) p m \<and> ?v \<in> set (after_puts P (ps @ qs) store (label p m))"
    if q: "label_of ?c m q" and m: "d \<le> m" "m < px_size p" and ps: "canaries ?c m ps"
      and all: "\<And>k. d < k \<Longrightarrow> k < m \<Longrightarrow> \<exists>q. Canary_at q \<in> set ps \<and> prefix_image q = place ?c k" for m q ps
  proof -
    have "m < 8 * length ?c" using m assms(4) by simp
    from real_insert_puts [OF assms(3) q this assms(6), of now coins' c] obtain qs l c' where
      r: "real_insert now coins' q e c = (Ret (qs @ [Entry_at q e], l), c')" "Canary_at q \<in> set qs" "canaries ?c m qs" by blast
    have im: "prefix_image q = place ?c m" by (rule label_of_place [OF q])
    have "\<exists>q. Canary_at q \<in> set (ps @ qs) \<and> prefix_image q = place ?c k" if "d < k" "k \<le> m" for k
      using that all [of k] r(2) im by (cases "k = m") auto
    then have "leaf_at P (after_puts P ((ps @ qs) @ [Entry_at q e]) store) p m"
      by (intro leaf_at_puts [OF P assms(2) _ assms(5) m]) (use assms(4) ps r(3) in \<open>auto simp: canaries_append\<close>)
    moreover have "prefix_image (label p m) = place ?c m" by (rule label_of_place [OF label_label_of [OF assms(2) m(2)]])
    then have "?v \<in> set (after_puts P ((ps @ qs) @ [Entry_at q e]) store (label p m))" using im by (simp add: after_puts_def)
    ultimately show ?thesis using r(1) by (metis append_assoc)
  qed
  have lab: "label_of ?c d (label p d)" by (rule label_label_of [OF assms(2) d])
  show ?thesis
  proof (cases "check_split \<and> 16 \<le> length vals")
    case False
    have "px_size (label p d) = d" using lab by (simp add: label_of_def)
    then have at: "insert_found now coins coins' count p check_split (label p d) vals e c = real_insert now coins' (label p d) e c"
      using False assms(8) d stays_in_leaf [OF lab, of count] assms(3,4) by (auto simp: insert_found_def)
    from ends [OF lab _ d, of "[]"] obtain l c' qs where "real_insert now coins' (label p d) e c = (Ret (qs, l), c')"
      "leaf_at P (after_puts P qs store) p d" "?v \<in> set (after_puts P qs store (label p d))" by (auto simp: canaries_def)
    then show ?thesis using at by auto
  next
    case True
    then have full: "\<not> length vals < 16" "px_size (label p d) = d" "d \<noteq> px_size p" using lab d by (auto simp: label_of_def)
    let ?full = "prefix_of ?c []"
    have ne: "?c \<noteq> []" using d assms(4) by auto
    have "list_all (\<lambda>v. length v = length ?c \<and> cut_bits d v = cut_bits d ?c) (map ie_prefix vals)" using assms(9) by (simp add: list_all_iff)
    from split_location [OF ne _ this] d assms(4) obtain loc where loc: "findSplitLocation ?full (map ie_prefix vals) = Ret loc" "d \<le> loc" "loc < 8 * length ?c"
      by auto
    have fok: "prefix_ok ?full" "px_content ?full = ?c" "8 * length (px_content ?full) < 2 ^ 63" using assms(3) by (simp_all add: prefix_ok_def prefix_of_def)
    have "nat \<bar>int loc\<bar> < 8 * length (px_content ?full)" using loc(3) by (simp add: fok(2))
    moreover have "prefix_length (int loc) ?full = loc" by (simp add: prefix_length_def)
    ultimately obtain q where q: "getPrefix (int loc) ?full = Ret q" "label_of ?c loc q" using getPrefix_label_of [OF fok(1,3)] fok(2) by metis
    have "d \<le> loc + 1" "loc + 1 \<le> 8 * length ?c" using loc by linarith+
    from split_puts [OF assms(3) this, of coins] obtain ps where ps: "split_canaries coins ?full (of_nat loc) (of_nat d - 1) = Ret ps" "canaries ?c loc ps"
        "\<forall>k. d \<le> k \<and> k < loc + 1 \<longrightarrow> (\<exists>q. Canary_at q \<in> set ps \<and> prefix_image q = place ?c k)" by auto
    have sp: "pht_split coins (label p d) vals e = Ret (ps, q)" using loc(1) q(1) ps(1) full(2) assms(6) by (simp add: pht_split_def Let_def)
    have "loc < px_size p" using loc(3) assms(4) by simp
    from ends [OF q(2) loc(2) this ps(2)] ps(3) obtain l c' qs where "real_insert now coins' q e c = (Ret (qs, l), c')"
      "leaf_at P (after_puts P (ps @ qs) store) p loc" "?v \<in> set (after_puts P (ps @ qs) store (label p loc))" by auto
    then show ?thesis using True full sp loc(2) unfolding insert_found_def by auto
  qed
qed

lemma linearize_size:
  assumes "validKey spec k" and "spec_ok spec" and "2 \<le> length spec" and "linearize spec k = Some (Ret p)"
  shows "px_size p = 8 * length (px_content p)" and "length (px_content p) = length spec * key_width spec"
proof -
  let ?w = "key_width spec" let ?ps = "map (\<lambda>(n, b). field_prefix ?w b) k"
  have s: "spec \<noteq> []" "foldr max (map snd spec) 0 + 1 < 2 ^ 64" using assms(2) by (simp_all add: spec_ok_def)
  have two: "2 \<le> length ?ps" and n: "length ?ps = length spec" using assms(1,3) by (simp_all add: validKey_def)
  have sw: "same_width ?w ?ps" by (rule same_width_fields [OF validKey_widths(1) [OF assms(1) s(2)]])
  have "\<exists>q. zcurve ?ps = Some (Ret q) \<and> px_size q = 8 * length ?ps * ?w \<and> length (px_content q) = length ?ps * ?w"
    by (rule zcurve_bits [OF sw two]) (intro exI conjI)
  then obtain q where "zcurve ?ps = Some (Ret q)" "px_size q = 8 * length ?ps * ?w" "length (px_content q) = length ?ps * ?w" by blast
  then show "px_size p = 8 * length (px_content p)" "length (px_content p) = length spec * key_width spec"
    using linearize_fields [OF assms(1) s] assms(4) n by simp_all
qed

section \<open>Properties\<close>



text \<open>
  A key of one field has fewer known bits than its content has: when sixteen entries with its content were found, the split puts the entry at a label longer than
  every one a look-up of the key asks for.
\<close>

theorem one_field_split_lost:
  assumes "validKey [f] k" and "spec_ok [f]" and "8 * key_width [f] < 2 ^ 62" and "linearize [f] k = Some (Ret p)" and "leaf_at P net p d"
    and "16 \<le> length vals" and "list_all (\<lambda>v. ie_prefix v = px_content p) vals" and "e = new_entry P p x"
  shows "\<exists>ps q l c'. insert_found now coins coins' count p True (label p d) vals e c = (Ret (ps @ [Entry_at q e], l), c') \<and> px_size p \<le> px_size q"
proof -
  let ?c = "px_content p" let ?full = "prefix_of ?c []" let ?loc = "8 * length ?c - 1"
  obtain n b where k: "k = [(n, b)]" using assms(1) by (cases k) (auto simp: validKey_def)
  have w: "length b < key_width [f]" using validKey_widths(1) [OF assms(1)] assms(2) by (simp add: spec_ok_def k)
  have p: "p = field_prefix (key_width [f]) b"
    using linearize_fields [OF assms(1)] assms(2,4) by (simp add: spec_ok_def k zcurve_def)
  have key: "index_key p" by (rule linearize_index_key [OF assms(1,2,4)])
  have len: "length ?c = key_width [f]" using linearize_bits [OF assms(1)] assms(2,4) by (auto simp: spec_ok_def)
  have c: "8 * length ?c < 2 ^ 62" "?c \<noteq> []" "px_size p \<le> ?loc" using assms(3) w len by (auto simp: p field_prefix_def)
  have d: "d < px_size p" "d \<le> ?loc + 1" "?loc + 1 \<le> 8 * length ?c" using assms(5) c(2,3) by (auto simp: leaf_at_def)
  have lab: "label_of ?c d (label p d)" by (rule label_label_of [OF key d(1)])
  have "list_all (\<lambda>v. length v = length ?c) (map ie_prefix vals)" "\<not> list_ex (\<lambda>v. blob_bit v (loc - 1) \<noteq> blob_bit ?c (loc - 1)) (map ie_prefix vals)" for loc
    using assms(7) by (auto simp: list_all_iff list_ex_iff)
  then have loc: "findSplitLocation ?full (map ie_prefix vals) = Ret ?loc"
    using split_from_first [of ?full "map ie_prefix vals" 0 ?loc] c(2) by (auto simp: findSplitLocation_def prefix_of_def)
  have fok: "prefix_ok ?full" "px_content ?full = ?c" "8 * length (px_content ?full) < 2 ^ 63" using c(1) by (simp_all add: prefix_ok_def prefix_of_def)
  have "nat \<bar>int ?loc\<bar> < 8 * length (px_content ?full)" using c(2) by (simp add: fok(2))
  moreover have "prefix_length (int ?loc) ?full = ?loc" by (simp add: prefix_length_def)
  ultimately obtain q where q: "getPrefix (int ?loc) ?full = Ret q" "label_of ?c ?loc q" using getPrefix_label_of [OF fok(1,3)] fok(2) by metis
  from split_puts [OF c(1) d(2,3), of coins] obtain ps where ps: "split_canaries coins ?full (of_nat ?loc) (of_nat d - 1) = Ret ps" by auto
  have e: "ie_prefix e = ?c" by (simp add: assms(8) new_entry_def)
  have "?loc < 8 * length ?c" using c(2) by simp
  from real_insert_puts [OF c(1) q(2) this e, of now coins' c] obtain qs l c' where "real_insert now coins' q e c = (Ret (qs @ [Entry_at q e], l), c')" by blast
  moreover have "px_size (label p d) = d" using lab by (simp add: label_of_def)
  ultimately have "insert_found now coins coins' count p True (label p d) vals e c = (Ret ((ps @ qs) @ [Entry_at q e], l), c')"
    using assms(6) d(1) loc q(1) ps e by (simp add: insert_found_def pht_split_def Let_def)
  then show ?thesis using q(2) c(3) by (auto simp: label_of_def)
qed

end
