(* ===== verification/Spec2Isabelle.thy ===== *)
theory Spec2Isabelle
  imports Peer Routing_Inv Dht_Store_Props Op_Cache Rate_Limiter Scheduler Node_Cache Search_Ops Dht_Neighbours Pht_Insert
begin

text \<open>
  A verification development for the peer-to-peer ledger \<open>verified-blockchain\<close> and the distributed hash table
  \<open>opendht-2.1.4\<close> it runs on.

  \<^bold>\<open>The program.\<close> A peer (\<open>verified-blockchain/src\<close>) signs in to the network, listens for requests, responses
  and certifications, and turns a transaction that two parties and a certifying peer agree on into a block. Its
  state is in Merkle tries; every key and every stored hash goes through the SHA-256 of \<open>include/sha\<close>. Messages
  between peers are values put under a key of the hash table, which is \<open>opendht-2.1.4\<close>: identifiers with an XOR
  metric, a routing table of buckets, a network engine that sends requests and repeats them, a store of values
  with quotas and listeners, searches that keep the nodes closest to a key, and caches that tell listeners about
  values. All parts of a node share one scheduler and one thread.

  \<^bold>\<open>Conventions.\<close> A class is a \<open>record\<close>, its methods are functions that return the changed record. Shared objects
  (nodes, requests, quota buckets, jobs, queries) are numbers that refer to a heap or to a function in the state.
  \<open>std::map\<close> and \<open>std::multimap\<close> are association lists in key order (\<open>Std_Map\<close>). Calls to callbacks, messages
  sent and jobs scheduled are entries of logs in the state. Machine integers are words where they may wrap;
  time points are integers with the two ends of the 64-bit range as sentinels. A function that may throw, end
  the process or run into undefined behaviour returns an \<open>outcome\<close> (\<open>Ret\<close>, \<open>Throw\<close>, \<open>Terminate\<close>, \<open>Undef\<close>). A loop
  that may not end is a \<open>partial_function (option)\<close>; not returning is \<open>None\<close>. The recursion of \<open>onNewNode\<close> has
  fuel: 161 passes are enough, as every pass but the last splits a bucket and a table has at most 160 splits of
  the bucket of one identifier (\<open>Routing_Inv.onNewNode_total\<close>).

  \<^bold>\<open>Theories.\<close>
  \<^item> \<open>VN_Prelude\<close>: byte strings, time, outcomes, collections of rewrite rules, the contract \<open>three_way\<close> of a comparison
    and \<open>event_machine\<close> of a component that reacts to events. \<open>Std_Map\<close>: ordered maps with the contract \<open>ordered_map\<close>.
  \<^item> \<open>Sha256\<close> (\<open>include/sha\<close>): the streaming context refines the standard's hash of the concatenated input
    (contract \<open>stream_hash\<close>), and the constants are what the standard says.
  \<^item> \<open>Info_Hash\<close> (\<open>infohash.h\<close>): comparison, XOR metric, bits, hexadecimal form, related to numbers by \<open>hval\<close>.
  \<^item> \<open>Msgpack\<close> (\<open>msgpack/v1/pack.hpp\<close>): the encodings the application and the network engine use.
  \<^item> \<open>App_State\<close>, \<open>Ledger\<close>, \<open>Chain\<close>, \<open>Transactions\<close>, \<open>Client\<close>, \<open>Peer\<close> (\<open>verified-blockchain/src\<close>): the data of the
    application; token balances, assets and requests; blocks; the transaction protocol; the listeners as an event
    machine that admits a request once and loses no record; what a verification message does; sign-up and sign-in.
  \<^item> \<open>Node_Requests\<close> (\<open>request.h\<close>, \<open>node.h\<close>, \<open>node.cpp\<close>), \<open>Network_Engine\<close> (\<open>network_engine.cpp\<close>): requests end once,
    retries and their schedule, messages and value parts.
  \<^item> \<open>Msgpack_Object\<close> (\<open>msgpack/v1\<close>, \<open>utils.cpp\<close>): objects on the wire and their conversions; the contract \<open>msgpack_parser\<close> of the
    parser. \<open>Value_Codec\<close> (\<open>value.h\<close>, \<open>value.cpp\<close>): values and queries are read back as they were packed. \<open>Parsed_Message\<close>
    (\<open>parsed_message.h\<close>): how a message is read. \<open>Engine_Messages\<close> (\<open>network_engine.cpp\<close>): every message of the engine, and
    that its reader understands it. \<open>Wire_Values\<close>: values in parts, over a network that loses and reorders packets.
  \<^item> \<open>Routing\<close>, \<open>Routing_Inv\<close> (\<open>routing_table.h\<close>, \<open>routing_table.cpp\<close>): buckets tile the identifier space, insertion ends
    and keeps that, the closest nodes are found in order; contract \<open>ping_service\<close> between table and engine.
  \<^item> \<open>Dht_Value\<close> (\<open>value.h\<close>, \<open>value.cpp\<close>): values, filters, queries. \<open>Storage\<close> (\<open>storage.h\<close>): the values of one key.
    \<open>Dht_Store\<close>, \<open>Dht_Store_Inv\<close>, \<open>Dht_Store_Props\<close> (\<open>dht.cpp\<close>): the store of a node as an event machine with exact totals
    and tokens that guard it.
  \<^item> \<open>Sock_Addr\<close> (\<open>sockaddr.h\<close>, \<open>utils.cpp\<close>): socket addresses in memory. \<open>Node_Cache\<close> (\<open>node_cache.cpp\<close>): a partial
    function from identifiers to live nodes (contract \<open>object_cache\<close>). \<open>Rate_Limiter\<close>, \<open>Scheduler\<close>: the two headers.
  \<^item> \<open>Value_Cache\<close> (\<open>value_cache.h\<close>), \<open>Op_Cache\<close> (\<open>op_cache.h\<close>, \<open>op_cache.cpp\<close>): what listeners have been told is what is
    cached; counted values refine a bag.
  \<^item> \<open>Search_Node\<close>, \<open>Search\<close>, \<open>Search_Ops\<close> (\<open>search.h\<close>, \<open>dht.cpp\<close>): a search keeps the good nodes closest to its key in
    order of distance; its state tests look at the first good ones; a completion callback is called once; the table of
    searches of a node.
  \<^item> \<open>Engine_Receive\<close> (\<open>network_engine.cpp\<close>): what the engine does with a datagram, for any owner that answers its callbacks.
    \<open>Engine_Receive_Inv\<close>: the contract \<open>engine_owner\<close> of the owner, and that under it receiving keeps requests, identifiers, addresses
    and the node cache in order. \<open>Wire_Nodes\<close>: nodes in messages are read back as they were written, by an owner
    with the contract \<open>node_taker\<close>.
  \<^item> \<open>Dht_Core\<close> (\<open>dht.h\<close>, \<open>dht.cpp\<close>): the node as the owner of the engine, with its tables, searches and store. \<open>Dht_Contract\<close>: it
    fulfils \<open>engine_owner\<close>. \<open>Dht_Node\<close>: a put reaches the store of another node and is confirmed or refused, a reply completes its
    request, and no sequence of datagrams ends a request twice. \<open>Dht_Neighbours\<close>: its tables hold only nodes of its cache, which gives \<open>node_taker\<close>: it
    takes the nodes of an answer without a hang.
  \<^item> \<open>Pht_Prefix\<close>, \<open>Pht_Cache\<close>, \<open>Pht_Lookup\<close>, \<open>Pht_Insert\<close> (\<open>indexation/pht.h\<close>, \<open>indexation/pht.cpp\<close>): the index in the hash table. Prefixes and
    linearised keys, which are told apart by their bits; the cache of labels; a look-up as an event machine over the answers of
    the network, which finds the leaf in every order of answers when no request fails and the values are readable, and can always go on; insertion with
    splits, after which the entry is found.

  \<^bold>\<open>What is assumed.\<close> The Merkle trie, the cryptographic library and the msgpack adaptors of the application are not
  in the repository as code: they are parameters (\<open>vtrie_ops\<close>, \<open>crypto_ops\<close>, the codecs of \<open>env\<close>) with the laws
  their headers document (\<open>trie_lawful\<close>; the header is silent on \<open>Update\<close>, whose law \<open>update_lawful\<close> serves only to show that transfers are invisible). Random numbers, clock readings, results of system calls, answers of user callbacks and
  the ownership of weak pointers are arguments. Callbacks do not call back into the object that calls them.

  \<^bold>\<open>Where the code falls short.\<close> Some theorems and lemmas state what the code does where that is not what it means
  to do: a certification never matches, a response to a recorded request throws, hashes of different blocks
  collide, eviction loops on stale quota entries, filters by identifier reject every value. They are stated of the
  code as it is.

  \<^bold>\<open>Not modelled.\<close> Vendored libraries and language bindings; threads, sockets and name resolution (\<open>dhtrunner\<close>,
  \<open>network_utils\<close>, \<open>thread_pool\<close>, \<open>peer_discovery\<close>); HTTP proxy client and server; certificates and encryption
  (\<open>crypto\<close>, \<open>securedht\<close>) on top of GnuTLS; printing and logging; the puts and listens a search step sends
  (\<open>searchSendAnnounceValue\<close>, \<open>searchSynchedNodeListen\<close>), what a search does with the replies, start and shutdown of a node, and
  inexact look-ups in the prefix hash tree. The engine, the store and the searches of a node have one clock, that of the engine; what the store tells
  remote listeners is sent when the store operation is over.
\<close>

end
